(* ===== verification/Prelude.thy ===== *)
theory Prelude
  imports Main "HOL-Library.Word" "HOL-Library.Sublist" "HOL-Library.AList" "HOL-Library.Char_ord"
    "HOL-Library.List_Lexorder" "HOL-Library.Signed_Division"
begin

text \<open>
  Shared vocabulary of the development: Go strings as byte lists, the fragment of the Go standard
  library the components call on them (\<^verbatim>\<open>strings.TrimSpace\<close>, \<^verbatim>\<open>strings.Split\<close>,
  \<^verbatim>\<open>strconv.ParseInt\<close>, ...), \<^verbatim>\<open>int64\<close> wrap-around, instants of time, IEEE-754
  comparison of \<^verbatim>\<open>float64\<close> bit patterns, and the generic list lemmas the component
  theories share.  Nothing here models a file of the repository by itself.

  A Go \<^verbatim>\<open>string\<close> is a \<open>string\<close>, that is a list of bytes (\<open>char\<close> has 256 values); a
  \<^verbatim>\<open>[]byte\<close> that carries binary data is an \<open>8 word list\<close>.
\<close>

named_theorems go_defs \<open>definitions of the string and integer vocabulary, for evaluation\<close>
named_theorems inv_intros \<open>invariant preservation rules of the component operations\<close>

section \<open>Types\<close>

type_synonym byte = "8 word"
type_synonym u64 = "64 word"
type_synonym u32 = "32 word"

text \<open>
  An instant is the number of nanoseconds since the Unix epoch, as an unbounded integer
  (\<^verbatim>\<open>time.Time\<close> keeps seconds and nanoseconds apart and covers far more than an
  \<^verbatim>\<open>int64\<close> of nanoseconds).  \<open>zero_time\<close> is Go's zero \<^verbatim>\<open>time.Time\<close>,
  1 January of year 1.  A \<^verbatim>\<open>time.Duration\<close> is an \<^verbatim>\<open>int64\<close> of nanoseconds.
\<close>

type_synonym time = int
type_synonym duration = int

definition zero_time :: time where
  "zero_time = - 62135596800 * 10 ^ 9"

definition is_zero :: "time \<Rightarrow> bool" where
  "is_zero t \<longleftrightarrow> t = zero_time"

definition nanosecond :: duration where "nanosecond = 1"
definition millisecond :: duration where "millisecond = 1000000"
definition second :: duration where "second = 1000000000"
definition minute :: duration where "minute = 60 * second"
definition hour :: duration where "hour = 60 * minute"

lemmas duration_defs [go_defs] = nanosecond_def millisecond_def second_def minute_def hour_def

section \<open>64-bit integers\<close>

text \<open>\<open>i64 x\<close> is what Go keeps of the mathematical integer \<open>x\<close> in an \<^verbatim>\<open>int64\<close>.\<close>

definition i64 :: "int \<Rightarrow> int" where
  "i64 x = signed_take_bit 63 x"

definition i64_range :: "int \<Rightarrow> bool" where
  "i64_range x \<longleftrightarrow> - (2 ^ 63) \<le> x \<and> x < 2 ^ 63"

lemma i64_id [simp]: "i64_range x \<Longrightarrow> i64 x = x"
  by (simp add: i64_def i64_range_def signed_take_bit_int_eq_self)

lemma i64_in_range [simp]: "i64_range (i64 x)"
  unfolding i64_def i64_range_def
  using signed_take_bit_int_greater_eq_minus_exp[of 63 x] signed_take_bit_int_less_exp[of 63 x]
  by simp

lemma i64_altdef: "i64 x = (x + 2 ^ 63) mod 2 ^ 64 - 2 ^ 63"
  unfolding i64_def
  by (simp add: signed_take_bit_eq_take_bit_shift take_bit_eq_mod)

lemma i64_wrap_up: "2 ^ 63 \<le> x \<Longrightarrow> x < 3 * 2 ^ 63 \<Longrightarrow> i64 x = x - 2 ^ 64"
  using minus_mod_self2[of "x + 2 ^ 63" "2 ^ 64"] by (simp add: i64_altdef)

text \<open>
  \<^verbatim>\<open>time.Unix(n, 0)\<close>: the seconds are kept as an \<^verbatim>\<open>int64\<close> counted from year 1, so they
  wrap for \<open>n\<close> near the end of the range.
\<close>

definition unix_seconds :: "int \<Rightarrow> time" where
  "unix_seconds n = (i64 (n + 62135596800) - 62135596800) * 10 ^ 9"

lemma unix_seconds_id: "- (2 ^ 63) \<le> n \<Longrightarrow> n < 2 ^ 62 \<Longrightarrow> unix_seconds n = n * 10 ^ 9"
  by (simp add: unix_seconds_def i64_range_def)

text \<open>
  \<^verbatim>\<open>t.Sub(u)\<close> saturates at the ends of \<^verbatim>\<open>int64\<close>; \<^verbatim>\<open>a / b\<close> on integers truncates towards zero.
\<close>

definition time_sub :: "time \<Rightarrow> time \<Rightarrow> duration" where
  "time_sub t u = (if t - u < - (2 ^ 63) then - (2 ^ 63) else if t - u \<ge> 2 ^ 63 then 2 ^ 63 - 1 else t - u)"

lemma time_sub_exact [simp]: "i64_range (t - u) \<Longrightarrow> time_sub t u = t - u"
  by (simp add: time_sub_def i64_range_def)

lemma time_sub_less_iff: "- (2 ^ 63) < d \<Longrightarrow> d < 2 ^ 63 \<Longrightarrow> time_sub t u < d \<longleftrightarrow> t - u < d"
  by (auto simp: time_sub_def)

definition go_quot :: "int \<Rightarrow> int \<Rightarrow> int" where
  "go_quot a b = a sdiv b"

lemma go_quot_nonneg: "0 \<le> a \<Longrightarrow> 0 < b \<Longrightarrow> go_quot a b = a div b"
  by (simp add: go_quot_def signed_divide_int_def sgn_if)

lemmas time_defs [go_defs] = time_sub_def go_quot_def signed_divide_int_def

section \<open>Results\<close>

text \<open>
  A Go function that returns \<^verbatim>\<open>(T, error)\<close> returns \<open>error + 'a\<close>; \<open>try_bind\<close> is the early return on
  a non-nil error.
\<close>

definition try_bind :: "'e + 'a \<Rightarrow> ('a \<Rightarrow> 'e + 'b) \<Rightarrow> 'e + 'b" where
  "try_bind r f = (case r of Inl e \<Rightarrow> Inl e | Inr x \<Rightarrow> f x)"

lemma try_bind_simps [simp]:
  "try_bind (Inl e) f = Inl e" "try_bind (Inr x) f = f x"
  by (simp_all add: try_bind_def)

lemma try_bind_Inr: "try_bind r f = Inr y \<longleftrightarrow> (\<exists>x. r = Inr x \<and> f x = Inr y)"
  by (cases r) auto

lemma try_bind_Inl: "try_bind r f = Inl e \<longleftrightarrow> r = Inl e \<or> (\<exists>x. r = Inr x \<and> f x = Inl e)"
  by (cases r) auto

definition is_ok :: "'e + 'a \<Rightarrow> bool" where
  "is_ok r = (case r of Inl _ \<Rightarrow> False | Inr _ \<Rightarrow> True)"

lemma is_ok_simps [simp]: "\<not> is_ok (Inl e)" "is_ok (Inr x)"
  by (simp_all add: is_ok_def)

lemma is_ok_iff: "is_ok r \<longleftrightarrow> (\<exists>x. r = Inr x)"
  by (cases r) auto

section \<open>IEEE-754 doubles\<close>

text \<open>
  A \<^verbatim>\<open>float64\<close> is its bit pattern.  Comparison is exact: a NaN compares false with
  everything, and the two zeros are equal.
\<close>

type_synonym f64 = "64 word"

definition f64_mag :: "f64 \<Rightarrow> nat" where
  "f64_mag w = unat w mod 2 ^ 63"

definition f64_neg :: "f64 \<Rightarrow> bool" where
  "f64_neg w \<longleftrightarrow> 2 ^ 63 \<le> unat w"

definition f64_is_nan :: "f64 \<Rightarrow> bool" where
  "f64_is_nan w \<longleftrightarrow> 2047 * 2 ^ 52 < f64_mag w"

text \<open>The bit patterns of non-NaN doubles are ordered like sign-and-magnitude integers.\<close>

definition f64_key :: "f64 \<Rightarrow> int" where
  "f64_key w = (if f64_neg w then - int (f64_mag w) else int (f64_mag w))"

definition f64_lt :: "f64 \<Rightarrow> f64 \<Rightarrow> bool" where
  "f64_lt a b \<longleftrightarrow> \<not> f64_is_nan a \<and> \<not> f64_is_nan b \<and> f64_key a < f64_key b"

definition f64_le :: "f64 \<Rightarrow> f64 \<Rightarrow> bool" where
  "f64_le a b \<longleftrightarrow> \<not> f64_is_nan a \<and> \<not> f64_is_nan b \<and> f64_key a \<le> f64_key b"

definition f64_eq :: "f64 \<Rightarrow> f64 \<Rightarrow> bool" where
  "f64_eq a b \<longleftrightarrow> \<not> f64_is_nan a \<and> \<not> f64_is_nan b \<and> f64_key a = f64_key b"

lemmas f64_defs [go_defs] = f64_mag_def f64_neg_def f64_is_nan_def f64_key_def f64_lt_def
  f64_le_def f64_eq_def

lemma f64_lt_trans: "f64_lt a b \<Longrightarrow> f64_lt b c \<Longrightarrow> f64_lt a c"
  by (auto simp: f64_lt_def)

lemma f64_le_trans: "f64_le a b \<Longrightarrow> f64_le b c \<Longrightarrow> f64_le a c"
  by (auto simp: f64_le_def)

lemma f64_lt_le_trans: "f64_lt a b \<Longrightarrow> f64_le b c \<Longrightarrow> f64_lt a c"
  by (auto simp: f64_lt_def f64_le_def)

lemma f64_le_lt_trans: "f64_le a b \<Longrightarrow> f64_lt b c \<Longrightarrow> f64_lt a c"
  by (auto simp: f64_lt_def f64_le_def)

lemma f64_not_lt: "\<not> f64_is_nan a \<Longrightarrow> \<not> f64_is_nan b \<Longrightarrow> \<not> f64_lt a b \<longleftrightarrow> f64_le b a"
  by (auto simp: f64_lt_def f64_le_def)

section \<open>Strings\<close>

text \<open>Byte-wise lower-casing: exact on ASCII; bytes of multi-byte letters are left alone.\<close>

definition lower_char :: "char \<Rightarrow> char" where
  "lower_char c = (let n = of_char c :: nat in if 65 \<le> n \<and> n \<le> 90 then char_of (n + 32) else c)"

definition to_lower :: "string \<Rightarrow> string" where
  "to_lower s = map lower_char s"

definition equal_fold :: "string \<Rightarrow> string \<Rightarrow> bool" where
  "equal_fold a b \<longleftrightarrow> to_lower a = to_lower b"

text \<open>
  White space as \<^verbatim>\<open>unicode.IsSpace\<close> sees it, each code point by its UTF-8 encoding.
  UTF-8 is self-synchronising, so trimming encodings from either end of the byte string is what
  \<^verbatim>\<open>strings.TrimSpace\<close> does.
\<close>

definition ascii_spaces :: "string list" where
  "ascii_spaces = [[CHR 0x20], [CHR 0x09], [CHR 0x0A], [CHR 0x0B], [CHR 0x0C], [CHR 0x0D]]"

definition wide_spaces :: "string list" where
  "wide_spaces = [[CHR 0xC2, CHR 0x85], [CHR 0xC2, CHR 0xA0], [CHR 0xE1, CHR 0x9A, CHR 0x80],
     [CHR 0xE2, CHR 0x80, CHR 0x80], [CHR 0xE2, CHR 0x80, CHR 0x81], [CHR 0xE2, CHR 0x80, CHR 0x82],
     [CHR 0xE2, CHR 0x80, CHR 0x83], [CHR 0xE2, CHR 0x80, CHR 0x84], [CHR 0xE2, CHR 0x80, CHR 0x85],
     [CHR 0xE2, CHR 0x80, CHR 0x86], [CHR 0xE2, CHR 0x80, CHR 0x87], [CHR 0xE2, CHR 0x80, CHR 0x88],
     [CHR 0xE2, CHR 0x80, CHR 0x89], [CHR 0xE2, CHR 0x80, CHR 0x8A], [CHR 0xE2, CHR 0x80, CHR 0xA8],
     [CHR 0xE2, CHR 0x80, CHR 0xA9], [CHR 0xE2, CHR 0x80, CHR 0xAF], [CHR 0xE2, CHR 0x81, CHR 0x9F],
     [CHR 0xE3, CHR 0x80, CHR 0x80]]"

definition space_encodings :: "string list" where
  "space_encodings = ascii_spaces @ wide_spaces"

text \<open>\<open>strip ps s\<close> removes elements of \<open>ps\<close> from the front of \<open>s\<close> as long as one fits.\<close>

function strip :: "string list \<Rightarrow> string \<Rightarrow> string" where
  "strip ps s = (case find (\<lambda>p. p \<noteq> [] \<and> prefix p s) ps of
     None \<Rightarrow> s
   | Some p \<Rightarrow> strip ps (drop (length p) s))"
  by pat_completeness auto
termination
  by (relation "measure (\<lambda>(ps, s). length s)")
     (auto simp: find_Some_iff prefix_def)

declare strip.simps [simp del]

definition trim_space :: "string \<Rightarrow> string" where
  "trim_space s = rev (strip (map rev space_encodings) (rev (strip space_encodings s)))"

text \<open>\<^verbatim>\<open>strings.TrimLeft\<close>, \<^verbatim>\<open>TrimRight\<close> and \<^verbatim>\<open>Trim\<close> with an ASCII cutset.\<close>

definition trim_left :: "string \<Rightarrow> string \<Rightarrow> string" where
  "trim_left cutset s = dropWhile (\<lambda>c. c \<in> set cutset) s"

definition trim_right :: "string \<Rightarrow> string \<Rightarrow> string" where
  "trim_right cutset s = rev (dropWhile (\<lambda>c. c \<in> set cutset) (rev s))"

definition trim_both :: "string \<Rightarrow> string \<Rightarrow> string" where
  "trim_both cutset s = trim_right cutset (trim_left cutset s)"

definition trim_prefix :: "string \<Rightarrow> string \<Rightarrow> string" where
  "trim_prefix p s = (if prefix p s then drop (length p) s else s)"

definition trim_suffix :: "string \<Rightarrow> string \<Rightarrow> string" where
  "trim_suffix p s = (if suffix p s then take (length s - length p) s else s)"

text \<open>\<^verbatim>\<open>strings.IndexByte\<close>, with \<open>None\<close> for -1.\<close>

fun index_byte :: "char \<Rightarrow> string \<Rightarrow> nat option" where
  "index_byte c [] = None"
| "index_byte c (x # xs) = (if x = c then Some 0 else map_option Suc (index_byte c xs))"

text \<open>\<^verbatim>\<open>strings.Split\<close> on a one-byte separator and \<^verbatim>\<open>strings.Join\<close>.\<close>

fun split_char :: "char \<Rightarrow> string \<Rightarrow> string list" where
  "split_char c [] = [[]]"
| "split_char c (x # xs) =
     (if x = c then [] # split_char c xs
      else (case split_char c xs of [] \<Rightarrow> [[x]] | p # ps \<Rightarrow> (x # p) # ps))"

fun join :: "string \<Rightarrow> string list \<Rightarrow> string" where
  "join sep [] = []"
| "join sep [x] = x"
| "join sep (x # y # ys) = x @ sep @ join sep (y # ys)"

text \<open>\<^verbatim>\<open>strings.ReplaceAll\<close> of a single byte.\<close>

definition replace_char :: "char \<Rightarrow> string \<Rightarrow> string \<Rightarrow> string" where
  "replace_char c r s = concat (map (\<lambda>x. if x = c then r else [x]) s)"

lemmas string_defs [go_defs] = lower_char_def to_lower_def equal_fold_def ascii_spaces_def
  wide_spaces_def space_encodings_def trim_space_def trim_left_def trim_right_def trim_both_def
  trim_prefix_def trim_suffix_def replace_char_def strip.simps

lemma length_to_lower [simp]: "length (to_lower s) = length s"
  by (simp add: to_lower_def)

lemma to_lower_Nil [simp]: "to_lower [] = []" "to_lower s = [] \<longleftrightarrow> s = []"
  by (simp_all add: to_lower_def)

lemma lower_char_idem [simp]: "lower_char (lower_char c) = lower_char c"
  by (simp add: lower_char_def Let_def)

lemma to_lower_idem [simp]: "to_lower (to_lower s) = to_lower s"
  by (simp add: to_lower_def)

lemma index_byte_None: "index_byte c s = None \<longleftrightarrow> c \<notin> set s"
  by (induction s) auto

lemma index_byte_Some:
  "index_byte c s = Some i \<Longrightarrow> i < length s \<and> s ! i = c \<and> c \<notin> set (take i s)"
  by (induction s arbitrary: i) (auto split: if_splits)

lemma index_byte_append: "c \<notin> set a \<Longrightarrow> index_byte c (a @ c # b) = Some (length a)"
  by (induction a) auto

lemma split_char_ne [simp]: "split_char c s \<noteq> []"
  by (induction s) (auto split: list.splits)

lemma split_char_parts: "p \<in> set (split_char c s) \<Longrightarrow> c \<notin> set p"
  by (induction s arbitrary: p) (auto split: list.splits if_splits)

lemma split_char_no_sep: "c \<notin> set s \<Longrightarrow> split_char c s = [s]"
  by (induction s) auto

lemma split_char_append: "c \<notin> set a \<Longrightarrow> split_char c (a @ c # b) = a # split_char c b"
  by (induction a) auto

lemma join_split_char: "join [c] (split_char c s) = s"
proof (induction s)
  case (Cons x xs)
  then show ?case
    by (cases "split_char c xs" rule: list.exhaust; cases "tl (split_char c xs)") auto
qed simp

lemma strip_Nil [simp]: "strip ps [] = []"
  by (subst strip.simps) (auto split: option.splits simp: find_Some_iff)

lemma strip_suffix: "suffix (strip ps s) s"
proof (induction ps s rule: strip.induct)
  case (1 ps s)
  show ?case
  proof (cases "find (\<lambda>p. p \<noteq> [] \<and> prefix p s) ps")
    case None
    then show ?thesis by (subst strip.simps) simp
  next
    case (Some p)
    with 1 have "suffix (strip ps (drop (length p) s)) (drop (length p) s)" by simp
    with Some show ?thesis
      by (subst strip.simps) (auto intro: suffix_order.trans suffix_drop)
  qed
qed

text \<open>Printable ASCII: such a byte is neither white space nor part of the encoding of any.\<close>

definition graphic :: "char \<Rightarrow> bool" where
  "graphic c \<longleftrightarrow> 33 \<le> (of_char c :: nat) \<and> (of_char c :: nat) \<le> 126"

lemma spaces_not_graphic: "list_all (\<lambda>p. p \<noteq> [] \<and> \<not> graphic (hd p) \<and> \<not> graphic (last p)) space_encodings"
  by code_simp

lemma strip_no_match:
  assumes "\<And>p. p \<in> set ps \<Longrightarrow> p \<noteq> [] \<Longrightarrow> \<not> prefix p s"
  shows "strip ps s = s"
  using assms by (subst strip.simps) (auto split: option.splits simp: find_Some_iff in_set_conv_nth)

lemma strip_spaces_graphic: "s \<noteq> [] \<Longrightarrow> graphic (hd s) \<Longrightarrow> strip space_encodings s = s"
  using spaces_not_graphic
  by (intro strip_no_match) (auto simp: list_all_iff prefix_def hd_append)

lemma trim_space_id [simp]:
  assumes "s \<noteq> []" "graphic (hd s)" "graphic (last s)"
  shows "trim_space s = s"
proof -
  have "strip (map rev space_encodings) (rev s) = rev s"
  proof (rule strip_no_match)
    fix p assume "p \<in> set (map rev space_encodings)" "p \<noteq> []"
    then obtain q where q: "q \<in> set space_encodings" "p = rev q" by auto
    then have "q \<noteq> []" "\<not> graphic (last q)" using spaces_not_graphic by (auto simp: list_all_iff)
    then show "\<not> prefix p (rev s)" using q assms
      by (auto simp: suffix_to_prefix [symmetric] suffix_def)
  qed
  with assms show ?thesis by (simp add: trim_space_def strip_spaces_graphic)
qed

lemma trim_space_Nil [simp]: "trim_space [] = []"
  by (simp add: trim_space_def)

lemma trim_space_graphic: "list_all graphic s \<Longrightarrow> trim_space s = s"
  by (cases "s = []") (auto simp: list_all_iff)

lemma trim_both_id:
  assumes "\<And>c. c \<in> set cs \<Longrightarrow> c \<notin> set s"
  shows "trim_both cs s = s"
proof -
  have d: "dropWhile (\<lambda>c. c \<in> set cs) xs = xs" if "set xs = set s" for xs
    using that assms by (cases xs) auto
  show ?thesis by (simp add: trim_both_def trim_left_def trim_right_def d)
qed

text \<open>\<^verbatim>\<open>strings.Fields\<close>: the maximal runs without white space.\<close>

function fields_from :: "string \<Rightarrow> string \<Rightarrow> string list" where
  "fields_from cur s =
     (if s = [] then (if cur = [] then [] else [cur])
      else case find (\<lambda>p. p \<noteq> [] \<and> prefix p s) space_encodings of
          Some p \<Rightarrow> (if cur = [] then [] else [cur]) @ fields_from [] (drop (length p) s)
        | None \<Rightarrow> fields_from (cur @ [hd s]) (tl s))"
  by pat_completeness auto
termination
  by (relation "measure (\<lambda>(cur, s). length s)") (auto simp: find_Some_iff prefix_def)

declare fields_from.simps [simp del]

definition go_fields :: "string \<Rightarrow> string list" where
  "go_fields s = fields_from [] s"

lemma split_char_join:
  "vs \<noteq> [] \<Longrightarrow> (\<And>v. v \<in> set vs \<Longrightarrow> c \<notin> set v) \<Longrightarrow> split_char c (join [c] vs) = vs"
proof (induction "[c]" vs rule: join.induct)
  case (3 x y ys)
  then show ?case using split_char_append[of c x "join [c] (y # ys)"] by simp
qed (auto simp: split_char_no_sep)

section \<open>Runes\<close>

text \<open>
  \<^verbatim>\<open>for _, r := range s\<close> decodes UTF-8; \<^verbatim>\<open>WriteRune(r)\<close> encodes it again.  A rune is
  represented by the bytes \<^verbatim>\<open>WriteRune\<close> writes for it: its own encoding when the bytes are
  valid UTF-8, and the encoding of U+FFFD for each byte that is not.
\<close>

definition cont :: "nat \<Rightarrow> bool" where
  "cont b \<longleftrightarrow> 128 \<le> b \<and> b < 192"

fun utf8_len :: "nat list \<Rightarrow> nat" where
  "utf8_len [] = 0"
| "utf8_len (b0 # bs) =
     (if b0 < 128 then 1
      else if 194 \<le> b0 \<and> b0 < 224 then (case bs of b1 # _ \<Rightarrow> (if cont b1 then 2 else 0) | _ \<Rightarrow> 0)
      else if 224 \<le> b0 \<and> b0 < 240 then
        (case bs of b1 # b2 # _ \<Rightarrow>
           (if (if b0 = 224 then 160 else 128) \<le> b1 \<and> b1 < (if b0 = 237 then 160 else 192) \<and> cont b2
            then 3 else 0) | _ \<Rightarrow> 0)
      else if 240 \<le> b0 \<and> b0 < 245 then
        (case bs of b1 # b2 # b3 # _ \<Rightarrow>
           (if (if b0 = 240 then 144 else 128) \<le> b1 \<and> b1 < (if b0 = 244 then 144 else 192)
               \<and> cont b2 \<and> cont b3 then 4 else 0) | _ \<Rightarrow> 0)
      else 0)"

definition rune_error :: string where
  "rune_error = [CHR 0xEF, CHR 0xBF, CHR 0xBD]"

definition rune_width :: "string \<Rightarrow> nat" where
  "rune_width s = utf8_len (map of_char (take 4 s))"

function runes :: "string \<Rightarrow> string list" where
  "runes s = (if s = [] then []
     else if rune_width s = 0 then rune_error # runes (tl s)
     else take (rune_width s) s # runes (drop (rune_width s) s))"
  by pat_completeness auto
termination
  by (relation "measure length") (auto simp: Suc_le_eq)

declare runes.simps [simp del]

definition is_ascii :: "string \<Rightarrow> bool" where
  "is_ascii s \<longleftrightarrow> (\<forall>c\<in>set s. of_char c < (128 :: nat))"

lemma runes_Nil [simp]: "runes [] = []"
  by (subst runes.simps) simp

lemma runes_ascii_Cons: "of_char c < (128 :: nat) \<Longrightarrow> runes (c # s) = [c] # runes s"
  by (subst runes.simps) (simp add: rune_width_def)

lemma runes_ascii: "is_ascii s \<Longrightarrow> runes s = map (\<lambda>c. [c]) s"
  by (induction s) (auto simp: is_ascii_def runes_ascii_Cons)

lemma graphic_ascii: "list_all graphic s \<Longrightarrow> is_ascii s"
  by (auto simp: list_all_iff graphic_def is_ascii_def)

lemma is_ascii_append [simp]: "is_ascii (a @ b) \<longleftrightarrow> is_ascii a \<and> is_ascii b"
  by (auto simp: is_ascii_def)

lemma runes_non_empty: "r \<in> set (runes s) \<Longrightarrow> r \<noteq> []"
  by (induction s rule: runes.induct)
     (subst (asm) (2) runes.simps, auto simp: rune_error_def split: if_splits)

section \<open>Numbers as text\<close>

definition is_digit :: "char \<Rightarrow> bool" where
  "is_digit c \<longleftrightarrow> 48 \<le> (of_char c :: nat) \<and> (of_char c :: nat) \<le> 57"

definition digit_val :: "char \<Rightarrow> nat" where
  "digit_val c = of_char c - 48"

definition digit_char :: "nat \<Rightarrow> char" where
  "digit_char d = char_of (48 + d)"

definition digits_val :: "string \<Rightarrow> nat" where
  "digits_val s = foldl (\<lambda>n c. 10 * n + digit_val c) 0 s"

fun show_nat :: "nat \<Rightarrow> string" where
  "show_nat n = (if n < 10 then [digit_char n] else show_nat (n div 10) @ [digit_char (n mod 10)])"

declare show_nat.simps [simp del]

definition show_int :: "int \<Rightarrow> string" where
  "show_int i = (if i < 0 then CHR ''-'' # show_nat (nat (- i)) else show_nat (nat i))"

text \<open>\<^verbatim>\<open>strconv.ParseInt(s, 10, 64)\<close>, which \<^verbatim>\<open>strconv.Atoi\<close> is on a 64-bit platform.\<close>

definition parse_int :: "string \<Rightarrow> int option" where
  "parse_int s =
     (let (neg, ds) = (case s of [] \<Rightarrow> (False, []) | c # cs \<Rightarrow>
            if c = CHR ''-'' then (True, cs) else if c = CHR ''+'' then (False, cs) else (False, s));
          v = (if neg then - int (digits_val ds) else int (digits_val ds))
      in if ds \<noteq> [] \<and> list_all is_digit ds \<and> i64_range v then Some v else None)"

text \<open>\<^verbatim>\<open>strconv.ParseUint(s, 10, 64)\<close>.\<close>

definition parse_uint :: "string \<Rightarrow> nat option" where
  "parse_uint s = (if s \<noteq> [] \<and> list_all is_digit s \<and> digits_val s < 2 ^ 64
     then Some (digits_val s) else None)"

lemmas number_defs [go_defs] = is_digit_def digit_val_def digit_char_def digits_val_def
  show_int_def parse_int_def parse_uint_def i64_range_def

lemma digit_graphic: "is_digit c \<Longrightarrow> graphic c"
  by (simp add: is_digit_def graphic_def)

lemma digit_char_props:
  assumes "d < 10"
  shows "is_digit (digit_char d)" "digit_val (digit_char d) = d"
  using assms by (simp_all add: is_digit_def digit_char_def digit_val_def)

lemma digits_val_snoc [simp]: "digits_val (s @ [c]) = 10 * digits_val s + digit_val c"
  by (simp add: digits_val_def)

lemma show_nat_digits: "list_all is_digit (show_nat n)"
  by (induction n rule: show_nat.induct) (subst show_nat.simps, auto simp: digit_char_props)

lemma show_nat_ne [simp]: "show_nat n \<noteq> []"
  by (subst show_nat.simps) simp

lemma digits_val_show_nat [simp]: "digits_val (show_nat n) = n"
proof (induction n rule: show_nat.induct)
  case (1 n)
  show ?case
  proof (cases "n < 10")
    case True
    then show ?thesis by (subst show_nat.simps) (simp add: digits_val_def digit_char_props)
  next
    case False
    with 1 show ?thesis by (subst show_nat.simps) (simp add: digit_char_props)
  qed
qed

lemma show_nat_hd: "\<exists>c cs. show_nat n = c # cs \<and> is_digit c"
  using show_nat_digits[of n] show_nat_ne[of n] by (cases "show_nat n") auto

lemma parse_uint_show [simp]: "n < 2 ^ 64 \<Longrightarrow> parse_uint (show_nat n) = Some n"
  by (simp add: parse_uint_def show_nat_digits)

lemma parse_int_show [simp]:
  assumes "i64_range i"
  shows "parse_int (show_int i) = Some i"
proof (cases "i < 0")
  case True
  with assms show ?thesis
    by (simp add: parse_int_def show_int_def show_nat_digits)
next
  case False
  obtain c cs where c: "show_nat (nat i) = c # cs" "is_digit c"
    using show_nat_hd by blast
  then have "c \<noteq> CHR ''-''" "c \<noteq> CHR ''+''"
    by (auto simp: is_digit_def)
  moreover have "list_all is_digit (c # cs)" "digits_val (c # cs) = nat i"
    using show_nat_digits[of "nat i"] digits_val_show_nat[of "nat i"] c(1) by simp_all
  ultimately show ?thesis
    using False assms c by (simp add: parse_int_def show_int_def)
qed

lemma parse_int_range: "parse_int s = Some v \<Longrightarrow> i64_range v"
  by (auto simp: parse_int_def Let_def split: if_splits prod.splits)

lemma show_int_no_char:
  assumes "\<not> is_digit c" "c \<noteq> CHR ''-''"
  shows "c \<notin> set (show_int i)"
  using assms show_nat_digits by (auto simp: show_int_def list_all_iff)

section \<open>Generic lemmas\<close>

lemma foldl_invariant:
  assumes "P s" "\<And>s x. x \<in> set xs \<Longrightarrow> P s \<Longrightarrow> P (f s x)"
  shows "P (foldl f s xs)"
  using assms by (induction xs arbitrary: s) auto

lemma map_of_filter_neq: "map_of (filter (\<lambda>(k, v). k \<noteq> a) xs) b = (if a = b then None else map_of xs b)"
  by (induction xs) auto

lemma take_drop_append: "take n xs @ drop n xs = xs"
  by simp

lemma update_new: "k \<notin> fst ` set m \<Longrightarrow> AList.update k v m = m @ [(k, v)]"
  by (induction m) auto

end
