(* ===== verification/GoLib.thy ===== *)
theory GoLib
  imports Prelude
begin

text \<open>
  The parts of Go's standard library the components call but whose bodies are not text the model
  could follow: RE2 matching, decimal/binary float conversion, \<^verbatim>\<open>%v\<close> formatting, RFC 3339
  parsing, the Unicode tables and the JSON decoder.  They are the fields of one record \<open>golib\<close>,
  an argument of every definition that uses them; theorems hold for every \<open>golib\<close>, and where
  a property relies on documented behaviour of such a function that behaviour is a hypothesis.
  \<open>ascii_lib\<close> is a small concrete instance for the witnesses.
\<close>

text \<open>
  \<open>lib_parse_float s\<close> is \<^verbatim>\<open>strconv.ParseFloat(s, 64)\<close>: the value (an infinity when out of range)
  and whether the error is nil.
\<close>

text \<open>
  A Go \<^verbatim>\<open>any\<close> as it occurs in attributes: JSON values, plus the \<^verbatim>\<open>int64\<close> the OTLP
  decoder produces.  Maps are association lists with distinct keys; the list order is the order in
  which a \<^verbatim>\<open>range\<close> over the map happens to visit the keys.  \<open>ANilList\<close> is the slice
  of length 0 that was never made, which \<^verbatim>\<open>encoding/json\<close> writes as null; \<open>AList []\<close> is a made one,
  written as \<^verbatim>\<open>[]\<close>.
\<close>

datatype any = ANil | AStr string | ABool bool | AInt int | AFloat f64
  | ANilList | AList "any list" | AMap "(string \<times> any) list"

record golib =
  lib_regexp :: "string \<Rightarrow> (string \<Rightarrow> bool) option"
  lib_parse_float :: "string \<Rightarrow> f64 \<times> bool"
  lib_fmt_v :: "any \<Rightarrow> string"
  lib_rfc3339 :: "string \<Rightarrow> time option"
  lib_is_word :: "string \<Rightarrow> bool"
  lib_rune_lower :: "string \<Rightarrow> string"
  lib_json_object :: "string \<Rightarrow> (string \<times> string) list option"
  lib_json_string :: "string \<Rightarrow> string option"
  lib_json_float :: "string \<Rightarrow> f64 option"
  lib_json_any :: "string \<Rightarrow> any option"

section \<open>Conversions between doubles and integers\<close>

text \<open>
  The exact value of a finite double is \<open>m * 2 ^ e\<close> with \<open>m\<close> and \<open>e\<close> as below; converting to
  \<^verbatim>\<open>int64\<close> truncates towards zero.  Out of range (or for a NaN) the Go specification leaves the
  result to the implementation: the model returns what amd64 does, the smallest \<^verbatim>\<open>int64\<close>.
\<close>

definition f64_exp :: "f64 \<Rightarrow> nat" where
  "f64_exp w = f64_mag w div 2 ^ 52"

definition f64_mant :: "f64 \<Rightarrow> nat" where
  "f64_mant w = f64_mag w mod 2 ^ 52 + (if f64_exp w = 0 then 0 else 2 ^ 52)"

definition f64_trunc_abs :: "f64 \<Rightarrow> nat" where
  "f64_trunc_abs w =
     (let e = (if f64_exp w = 0 then 1 else f64_exp w)
      in if e \<ge> 1075 then f64_mant w * 2 ^ (e - 1075) else f64_mant w div 2 ^ (1075 - e))"

definition f64_to_i64 :: "f64 \<Rightarrow> int" where
  "f64_to_i64 w =
     (let v = (if f64_neg w then - int (f64_trunc_abs w) else int (f64_trunc_abs w))
      in if f64_exp w < 2047 \<and> i64_range v then v else - (2 ^ 63))"

text \<open>
  \<^verbatim>\<open>float64(n)\<close> of a non-negative integer below 2^64: round to nearest, ties to even.
\<close>

definition round_even :: "nat \<Rightarrow> nat \<Rightarrow> nat" where
  "round_even n k =
     (let q = n div 2 ^ k; r = n mod 2 ^ k; h = 2 ^ k
      in if 2 * r < h then q else if 2 * r > h then q + 1 else if even q then q else q + 1)"

fun bit_length :: "nat \<Rightarrow> nat" where
  "bit_length n = (if n = 0 then 0 else Suc (bit_length (n div 2)))"

declare bit_length.simps [simp del]

definition f64_of_nat :: "nat \<Rightarrow> f64" where
  "f64_of_nat n =
     (if n = 0 then 0
      else let b = bit_length n;
               m = (if b \<le> 53 then n * 2 ^ (53 - b) else round_even n (b - 53))
           in of_nat ((b + 1021) * 2 ^ 52 + m))"

definition f64_of_int :: "int \<Rightarrow> f64" where
  "f64_of_int i = (if i < 0 then of_nat (2 ^ 63) + f64_of_nat (nat (- i)) else f64_of_nat (nat i))"

lemmas float_defs [go_defs] = f64_defs f64_exp_def f64_mant_def f64_trunc_abs_def f64_to_i64_def
  round_even_def bit_length.simps f64_of_nat_def f64_of_int_def Let_def

lemma f64_of_int_examples:
  "f64_of_int 0 = 0" "f64_of_int 1 = 0x3FF0000000000000" "f64_of_int (-2) = 0xC000000000000000"
  "f64_of_int 10 = 0x4024000000000000" "f64_to_i64 0x4024000000000000 = 10"
  "f64_to_i64 0xBFF8000000000000 = -1"
  by (simp_all add: float_defs i64_range_def)

section \<open>A concrete instance\<close>

definition ascii_is_word :: "string \<Rightarrow> bool" where
  "ascii_is_word r = (case r of [c] \<Rightarrow> is_digit c \<or> 97 \<le> (of_char (lower_char c) :: nat) \<and>
     (of_char (lower_char c) :: nat) \<le> 122 | _ \<Rightarrow> False)"

definition int_parse_float :: "string \<Rightarrow> f64 \<times> bool" where
  "int_parse_float s = (case parse_int s of Some n \<Rightarrow> (f64_of_int n, True) | None \<Rightarrow> (0, False))"

definition ascii_lib :: golib where
  "ascii_lib = \<lparr>
     lib_regexp = (\<lambda>p. Some (\<lambda>s. sublist p s)),
     lib_parse_float = int_parse_float,
     lib_fmt_v = (\<lambda>v. case v of ANil \<Rightarrow> ''<nil>'' | AStr s \<Rightarrow> s | AInt i \<Rightarrow> show_int i
        | ABool b \<Rightarrow> (if b then ''true'' else ''false'') | _ \<Rightarrow> ''?''),
     lib_rfc3339 = (\<lambda>s. None),
     lib_is_word = ascii_is_word,
     lib_rune_lower = to_lower,
     lib_json_object = (\<lambda>s. None),
     lib_json_string = (\<lambda>s. None),
     lib_json_float = (\<lambda>s. None),
     lib_json_any = (\<lambda>s. None)\<rparr>"

end
