(* ===== verification/Ulid.thy ===== *)
theory Ulid
  imports GoLib
begin

unbundle bit_operations_syntax

text \<open>
  Event identifiers, \<^verbatim>\<open>internal/model/id.go\<close>: a ULID is 48 bits of millisecond time and
  80 random bits in Crockford's base 32.  The lemmas show that the 26 characters are the base-32
  digits of the 128-bit value, so that IDs sort like their value and, across milliseconds, by
  creation time.
\<close>

section \<open>Encoding\<close>

definition crockford :: string where
  "crockford = ''0123456789ABCDEFGHJKMNPQRSTVWXYZ''"

text \<open>The indices into the alphabet that \<^verbatim>\<open>encodeCrockford\<close> computes, one per output byte.\<close>

definition crockford_indices :: "byte list \<Rightarrow> byte list" where
  "crockford_indices b =
     [drop_bit 5 (b ! 0 AND 224), b ! 0 AND 31,
      drop_bit 3 (b ! 1 AND 248), push_bit 2 (b ! 1 AND 7) OR drop_bit 6 (b ! 2 AND 192),
      drop_bit 1 (b ! 2 AND 62), push_bit 4 (b ! 2 AND 1) OR drop_bit 4 (b ! 3 AND 240),
      push_bit 1 (b ! 3 AND 15) OR drop_bit 7 (b ! 4 AND 128), drop_bit 2 (b ! 4 AND 124),
      push_bit 3 (b ! 4 AND 3) OR drop_bit 5 (b ! 5 AND 224), b ! 5 AND 31,
      drop_bit 3 (b ! 6 AND 248), push_bit 2 (b ! 6 AND 7) OR drop_bit 6 (b ! 7 AND 192),
      drop_bit 1 (b ! 7 AND 62), push_bit 4 (b ! 7 AND 1) OR drop_bit 4 (b ! 8 AND 240),
      push_bit 1 (b ! 8 AND 15) OR drop_bit 7 (b ! 9 AND 128), drop_bit 2 (b ! 9 AND 124),
      push_bit 3 (b ! 9 AND 3) OR drop_bit 5 (b ! 10 AND 224), b ! 10 AND 31,
      drop_bit 3 (b ! 11 AND 248), push_bit 2 (b ! 11 AND 7) OR drop_bit 6 (b ! 12 AND 192),
      drop_bit 1 (b ! 12 AND 62), push_bit 4 (b ! 12 AND 1) OR drop_bit 4 (b ! 13 AND 240),
      push_bit 1 (b ! 13 AND 15) OR drop_bit 7 (b ! 14 AND 128), drop_bit 2 (b ! 14 AND 124),
      push_bit 3 (b ! 14 AND 3) OR drop_bit 5 (b ! 15 AND 224), b ! 15 AND 31]"

definition encodeCrockford :: "byte list \<Rightarrow> string" where
  "encodeCrockford b = map (\<lambda>i. crockford ! unat i) (crockford_indices b)"

text \<open>
  \<^verbatim>\<open>newIDAt\<close>: 48 bits of millisecond time, big-endian, and ten random bytes.  The bytes
  \<^verbatim>\<open>crypto/rand\<close> produced are the argument \<open>rnd\<close>.
\<close>

definition time_bytes :: "time \<Rightarrow> byte list" where
  "time_bytes t =
     (let ms = (word_of_int (t div 1000000) :: u64)
      in [ucast (drop_bit 40 ms), ucast (drop_bit 32 ms), ucast (drop_bit 24 ms),
          ucast (drop_bit 16 ms), ucast (drop_bit 8 ms), ucast ms])"

definition newIDAt :: "time \<Rightarrow> byte list \<Rightarrow> string" where
  "newIDAt t rnd = encodeCrockford (time_bytes t @ rnd)"

section \<open>Every index is a five-bit digit of the 128-bit value\<close>

lemma split_digit:
  fixes x y :: byte
  assumes jk: "j + k = 5" and jm: "j + m = 8"
  shows "unat (push_bit j (take_bit k x) OR drop_bit m y)
    = (unat x mod 2 ^ k) * 2 ^ j + unat y div 2 ^ m"
proof -
  have y: "unat y < 256" using unsigned_less[of y, where ?'a = nat] by simp
  have a: "unat (drop_bit m y) = unat y div 2 ^ m"
    by (subst unat_drop_bit_eq) (simp add: drop_bit_eq_div)
  have lt: "unat y div 2 ^ m < 2 ^ j"
  proof -
    have "unat y < 2 ^ m * 2 ^ j" using y jm by (simp flip: power_add add: add.commute)
    then show ?thesis by (simp add: less_mult_imp_div_less mult.commute)
  qed
  have xk: "(unat x mod 2 ^ k) * 2 ^ j < 256"
  proof -
    have "unat x mod 2 ^ k < 2 ^ k" by simp
    then have "(unat x mod 2 ^ k) * 2 ^ j < 2 ^ k * 2 ^ j" by simp
    also have "\<dots> = 2 ^ 5" using jk by (simp flip: power_add add: add.commute)
    finally show ?thesis by simp
  qed
  have b: "unat (push_bit j (take_bit k x)) = (unat x mod 2 ^ k) * 2 ^ j"
    using xk by (simp only: unsigned_push_bit_eq unsigned_take_bit_eq) (simp add: push_bit_eq_mult take_bit_eq_mod)
  have "push_bit j (take_bit k (unat x)) AND (unat y div 2 ^ m) = 0"
  proof (rule bit_eqI)
    fix n
    show "bit (push_bit j (take_bit k (unat x)) AND (unat y div 2 ^ m)) n = bit (0::nat) n"
    proof (cases "n < j")
      case True then show ?thesis by (simp add: bit_simps)
    next
      case False
      with lt have "unat y div 2 ^ m < 2 ^ n"
        by (meson leI less_le_trans one_less_numeral_iff power_increasing semiring_norm(76) one_le_numeral)
      then have "\<not> bit (unat y div 2 ^ m) n" by (simp add: bit_iff_odd)
      then show ?thesis by (simp add: bit_and_iff)
    qed
  qed
  then have "push_bit j (take_bit k (unat x)) OR (unat y div 2 ^ m)
     = push_bit j (take_bit k (unat x)) + (unat y div 2 ^ m)"
    by (simp add: disjunctive_add_eq_or)
  then show ?thesis
    by (simp add: unsigned_or_eq a b) (simp add: push_bit_eq_mult take_bit_eq_mod)
qed
lemma masks: fixes x :: byte
  shows "x AND 7 = take_bit 3 x" "x AND 1 = take_bit 1 x" "x AND 15 = take_bit 4 x" "x AND 3 = take_bit 2 x" "x AND 31 = take_bit 5 x"
  by (simp_all add: take_bit_eq_mask mask_numeral)

lemma byte_eqI: fixes a b :: byte
  assumes "bit a 0 = bit b 0" "bit a 1 = bit b 1" "bit a 2 = bit b 2" "bit a 3 = bit b 3"
   "bit a 4 = bit b 4" "bit a 5 = bit b 5" "bit a 6 = bit b 6" "bit a 7 = bit b 7"
  shows "a = b"
proof (rule bit_word_eqI)
  fix n assume "n < LENGTH(8)"
  then have "n = 0 \<or> n = 1 \<or> n = 2 \<or> n = 3 \<or> n = 4 \<or> n = 5 \<or> n = 6 \<or> n = 7" by auto
  then show "bit a n = bit b n" using assms by auto
qed



lemma byte_bit_high [simp]: "8 \<le> n \<Longrightarrow> \<not> bit (x :: byte) n"
  using bit_imp_le_length[of x n] by auto

lemma drops: fixes x :: byte
  shows "drop_bit 5 (x AND 224) = drop_bit 5 x" "drop_bit 3 (x AND 248) = drop_bit 3 x"
    "drop_bit 6 (x AND 192) = drop_bit 6 x" "drop_bit 1 (x AND 62) = take_bit 5 (drop_bit 1 x)"
    "drop_bit 4 (x AND 240) = drop_bit 4 x" "drop_bit 7 (x AND 128) = drop_bit 7 x"
    "drop_bit 2 (x AND 124) = take_bit 5 (drop_bit 2 x)"
  by - (rule byte_eqI; simp add: bit_simps)+

definition sextet :: "byte \<Rightarrow> byte \<Rightarrow> byte \<Rightarrow> byte \<Rightarrow> byte \<Rightarrow> nat list" where
  "sextet a b c d e = [unat a div 8, unat a mod 8 * 4 + unat b div 64, unat b div 2 mod 32,
     unat b mod 2 * 16 + unat c div 16, unat c mod 16 * 2 + unat d div 128, unat d div 4 mod 32,
     unat d mod 4 * 8 + unat e div 32, unat e mod 32]"

lemma unat_drop: "unat (drop_bit n (x :: byte)) = unat x div 2 ^ n"
  by (subst unat_drop_bit_eq) (simp add: drop_bit_eq_div)

lemma unat_take: "unat (take_bit n (x :: byte)) = unat x mod 2 ^ n"
  by (subst unsigned_take_bit_eq) (simp add: take_bit_eq_mod)

lemma index_values:
  fixes x y :: byte
  shows "unat (drop_bit 5 (x AND 224)) = unat x div 32" "unat (x AND 31) = unat x mod 32"
    "unat (drop_bit 3 (x AND 248)) = unat x div 8"
    "unat (drop_bit 1 (x AND 62)) = unat x div 2 mod 32"
    "unat (drop_bit 2 (x AND 124)) = unat x div 4 mod 32"
  unfolding drops masks unat_take unat_drop by simp_all

lemma index_pairs:
  fixes x y :: byte
  shows "unat (push_bit 2 (x AND 7) OR drop_bit 6 (y AND 192)) = unat x mod 8 * 4 + unat y div 64"
    "unat (push_bit 4 (x AND 1) OR drop_bit 4 (y AND 240)) = unat x mod 2 * 16 + unat y div 16"
    "unat (push_bit 1 (x AND 15) OR drop_bit 7 (y AND 128)) = unat x mod 16 * 2 + unat y div 128"
    "unat (push_bit 3 (x AND 3) OR drop_bit 5 (y AND 224)) = unat x mod 4 * 8 + unat y div 32"
  unfolding drops masks
  by (rule split_digit [THEN trans]; simp)+

lemma crockford_values:
  "map unat (crockford_indices b) =
     [unat (b ! 0) div 32, unat (b ! 0) mod 32]
     @ sextet (b ! 1) (b ! 2) (b ! 3) (b ! 4) (b ! 5)
     @ sextet (b ! 6) (b ! 7) (b ! 8) (b ! 9) (b ! 10)
     @ sextet (b ! 11) (b ! 12) (b ! 13) (b ! 14) (b ! 15)"
  unfolding crockford_indices_def sextet_def list.map index_values index_pairs append.simps ..

definition base_val :: "nat \<Rightarrow> nat list \<Rightarrow> nat" where
  "base_val r = foldl (\<lambda>n d. r * n + d) 0"

lemma sextet_arith:
  fixes acc :: nat
  assumes "a = 8 * a1 + a2" "b = 64 * b1 + 2 * b2 + b3" "c = 16 * c1 + c2"
    "d = 128 * d1 + 4 * d2 + d3" "e = 32 * e1 + e2"
  shows "foldl (\<lambda>n d. 32 * n + d) acc [a1, a2 * 4 + b1, b2, b3 * 16 + c1, c2 * 2 + d1, d2,
      d3 * 8 + e1, e2] = foldl (\<lambda>n d. 256 * n + d) acc [a, b, c, d, e]"
  unfolding assms foldl.simps by (simp add: algebra_simps)

lemma div_mod_split: "n = k * (n div k) + n mod k" for n k :: nat
  by simp

lemma three_split: "n = (k * m) * (n div (k * m)) + k * (n div k mod m) + n mod k" for n k m :: nat
proof -
  have "n div k = m * (n div k div m) + n div k mod m" by simp
  then have "k * (n div k) = k * m * (n div (k * m)) + k * (n div k mod m)"
    by (metis div_mult2_eq distrib_left mult.assoc)
  then show ?thesis by (metis div_mod_split)
qed

lemma three_splits:
  "n = 64 * (n div 64) + 2 * (n div 2 mod 32) + n mod 2"
  "n = 128 * (n div 128) + 4 * (n div 4 mod 32) + n mod 4" for n :: nat
  using three_split[of n 2 32] three_split[of n 4 32] by simp_all

lemma foldl_sextet:
  "foldl (\<lambda>n d. 32 * n + d) acc (sextet a b c d e)
     = foldl (\<lambda>n d. 256 * n + d) acc (map unat [a, b, c, d, e])"
  unfolding sextet_def list.map
  by (rule sextet_arith [OF div_mod_split three_splits(1) div_mod_split three_splits(2) div_mod_split])

lemma list16: "length b = 16 \<Longrightarrow> b = [b!0,b!1,b!2,b!3,b!4,b!5,b!6,b!7,b!8,b!9,b!10,b!11,b!12,b!13,b!14,b!15]"
  by (rule nth_equalityI) (auto simp: less_Suc_eq eval_nat_numeral)

lemma crockford_base_val:
  assumes "length b = 16"
  shows "base_val 32 (map unat (crockford_indices b)) = base_val 256 (map unat b)"
proof -
  have "unat (b ! 0) = 32 * (unat (b ! 0) div 32) + unat (b ! 0) mod 32" by presburger
  then have *: "foldl (\<lambda>n d. 32 * n + d) 0 [unat (b ! 0) div 32, unat (b ! 0) mod 32]
      = foldl (\<lambda>n d. 256 * n + d) 0 (map unat [b ! 0])" by simp
  show ?thesis
    unfolding base_val_def crockford_values foldl_append * foldl_sextet
    unfolding foldl_append [symmetric] map_append [symmetric]
    by (subst (2) list16[OF assms]) simp
qed

section \<open>Lexicographic order of the text is numeric order of the value\<close>

lemma foldl_base: "foldl (\<lambda>n d. r * n + d) acc ds = acc * r ^ length ds + base_val r ds" for acc r :: nat
proof (induction ds arbitrary: acc)
  case (Cons d ds)
  have "foldl (\<lambda>n d. r * n + d) acc (d # ds) = (r * acc + d) * r ^ length ds + base_val r ds"
    using Cons by simp
  moreover have "base_val r (d # ds) = d * r ^ length ds + base_val r ds"
    using Cons[of d] by (simp add: base_val_def)
  ultimately show ?case by (simp add: algebra_simps)
qed (simp add: base_val_def)

lemma base_val_Cons: "base_val r (d # ds) = d * r ^ length ds + base_val r ds"
  using foldl_base[of r d ds] by (simp add: base_val_def)

lemma base_val_less: "list_all (\<lambda>d. d < r) ds \<Longrightarrow> base_val r ds < r ^ length ds"
proof (induction ds)
  case (Cons d ds)
  then have "d * r ^ length ds + base_val r ds < d * r ^ length ds + r ^ length ds" by simp
  also have "\<dots> = Suc d * r ^ length ds" by simp
  also have "\<dots> \<le> r * r ^ length ds" using Cons.prems by (intro mult_right_mono) auto
  finally show ?case by (simp add: base_val_Cons)
qed (simp add: base_val_def)

lemma crockford_sorted: "sorted_wrt (<) crockford" "length crockford = 32"
  by code_simp+

lemma crockford_mono: "i < 32 \<Longrightarrow> j < 32 \<Longrightarrow> crockford ! i < crockford ! j \<longleftrightarrow> i < j"
  using crockford_sorted sorted_wrt_nth_less[OF crockford_sorted(1)]
  by (metis linorder_neqE_nat order_less_asym' order_less_irrefl)

lemma crockford_lex:
  assumes "length xs = length ys" "list_all (\<lambda>d. d < 32) xs" "list_all (\<lambda>d. d < 32) ys"
  shows "map ((!) crockford) xs < map ((!) crockford) ys \<longleftrightarrow> base_val 32 xs < base_val 32 ys"
  using assms
proof (induction xs ys rule: list_induct2)
  case (Cons x xs y ys)
  have lt: "base_val 32 xs < 32 ^ length xs" "base_val 32 ys < 32 ^ length xs"
    using Cons base_val_less[of 32 xs] base_val_less[of 32 ys] by simp_all
  consider "x < y" | "x = y" | "y < x" by linarith
  then show ?case
  proof cases
    case 1
    then have "Suc x * 32 ^ length xs \<le> y * 32 ^ length xs" by (intro mult_right_mono) auto
    then have "x * 32 ^ length xs + base_val 32 xs < y * 32 ^ length xs + base_val 32 ys"
      using lt by simp
    with 1 Cons show ?thesis by (simp add: base_val_Cons crockford_mono)
  next
    case 2
    with Cons show ?thesis by (simp add: base_val_Cons)
  next
    case 3
    then have "Suc y * 32 ^ length xs \<le> x * 32 ^ length xs" by (intro mult_right_mono) auto
    then have "y * 32 ^ length xs + base_val 32 ys < x * 32 ^ length xs + base_val 32 xs"
      using lt by simp
    moreover have "\<not> crockford ! x < crockford ! y" "crockford ! x \<noteq> crockford ! y"
      using 3 Cons crockford_mono[of y x] crockford_mono[of x y] by auto
    ultimately show ?thesis using Cons 3 by (simp add: base_val_Cons)
  qed
qed (simp add: base_val_def)

lemma crockford_digits: "list_all (\<lambda>d. d < 32) (map unat (crockford_indices b))"
proof -
  have b: "unat x < 256" for x :: byte using unsigned_less[of x, where ?'a = nat] by simp
  have d: "unat x div 8 < 32" "unat x div 64 < 4" "unat x div 16 < 16" "unat x div 128 < 2" "unat x div 32 < 8" for x :: byte
    using b[of x] by (simp_all add: less_mult_imp_div_less)
  have p: "unat x mod 8 * 4 + unat y div 64 < 32" "unat x mod 2 * 16 + unat y div 16 < 32"
    "unat x mod 16 * 2 + unat y div 128 < 32" "unat x mod 4 * 8 + unat y div 32 < 32" for x y :: byte
    using d[of y] pos_mod_bound[of 8 "int (unat x)"] mod_less_divisor[of 8 "unat x"] mod_less_divisor[of 2 "unat x"] mod_less_divisor[of 16 "unat x"] mod_less_divisor[of 4 "unat x"] by linarith+
  have q: "unat (b!0) div 32 < 32" using d(5)[of "b!0"] by simp
  show ?thesis unfolding crockford_values sextet_def by (simp add: d p q)
qed

lemma encodeCrockford_alt: "encodeCrockford b = map ((!) crockford) (map unat (crockford_indices b))"
  by (simp add: encodeCrockford_def)

lemma length_encodeCrockford: "length (encodeCrockford b) = 26"
  by (simp add: encodeCrockford_def crockford_indices_def)

lemma encodeCrockford_order:
  assumes "length a = 16" "length b = 16"
  shows "encodeCrockford a < encodeCrockford b \<longleftrightarrow>
    base_val 256 (map unat a) < base_val 256 (map unat b)"
  unfolding encodeCrockford_alt
  using crockford_lex[of "map unat (crockford_indices a)" "map unat (crockford_indices b)"]
  by (simp add: crockford_digits crockford_base_val assms) (simp add: crockford_indices_def)
  
lemma base_val_append: "base_val r (xs @ ys) = base_val r xs * r ^ length ys + base_val r ys"
  using foldl_base[of r "base_val r xs" ys] by (simp add: base_val_def)

lemma bytes_digits: "list_all (\<lambda>d. d < 256) (map unat (b :: byte list))"
  using unsigned_less[where ?'a = nat and ?'b = 8] by (simp add: list_all_iff)

lemma base_val_inj:
  assumes "length xs = length ys" "list_all (\<lambda>d. d < r) xs" "list_all (\<lambda>d. d < r) ys"
    "base_val r xs = base_val r ys"
  shows "xs = ys"
  using assms
proof (induction xs ys rule: list_induct2)
  case (Cons x xs y ys)
  let ?n = "r ^ length xs"
  have lt: "base_val r xs < ?n" "base_val r ys < ?n"
    using Cons base_val_less[of r xs] base_val_less[of r ys] by simp_all
  have eq: "x * ?n + base_val r xs = y * ?n + base_val r ys"
    using Cons by (simp add: base_val_Cons)
  have split: "(z * ?n + v) div ?n = z" if "v < ?n" for z v :: nat
    by (rule div_nat_eqI) (use that in simp_all)
  have "x = y" using split[OF lt(1), of x] split[OF lt(2), of y] eq by simp
  with Cons show ?case by (simp add: base_val_Cons)
qed simp

lemma base_val_digits:
  "base_val r (map (\<lambda>k. m div r ^ k mod r) (rev [0..<n])) = m mod r ^ n" for m r :: nat
proof (induction n)
  case (Suc n)
  have "m mod r ^ Suc n = r ^ n * (m div r ^ n mod r) + m mod r ^ n"
    by (metis mod_mult2_eq power_Suc2)
  with Suc show ?case by (simp add: base_val_Cons)
qed (simp add: base_val_def)

lemma byte_of_u64: "unat (ucast (x :: u64) :: byte) = unat x mod 256"
  by (simp add: unsigned_ucast_eq take_bit_eq_mod)

lemma unat_drop_u64: "unat (drop_bit n (x :: u64)) = unat x div 2 ^ n"
  by (subst unat_drop_bit_eq) (simp add: drop_bit_eq_div)

lemma time_bytes_val:
  assumes "0 \<le> t" "t div 1000000 < 2 ^ 48"
  shows "base_val 256 (map unat (time_bytes t)) = nat (t div 1000000)"
proof -
  define m where "m = nat (t div 1000000)"
  have m: "m < 2 ^ 48" "t div 1000000 = int m" using assms by (auto simp: m_def)
  have w: "unat (word_of_int (int m) :: u64) = m"
    using m by (simp add: unat_of_nat)
  have u: "unat (ucast (drop_bit k (word_of_int (int m) :: u64)) :: byte) = m div 2 ^ k mod 256" for k
    by (simp only: byte_of_u64 unat_drop_u64 w)
  have u0: "unat (ucast (word_of_int (int m) :: u64) :: byte) = m mod 256"
    by (simp only: byte_of_u64 w)
  have pw: "(256 :: nat) ^ 5 = 2 ^ 40" "(256 :: nat) ^ 4 = 2 ^ 32" "(256 :: nat) ^ 3 = 2 ^ 24"
    "(256 :: nat) ^ 2 = 2 ^ 16" "(256 :: nat) ^ 1 = 2 ^ 8" "m div 256 ^ 0 = m"
    by simp_all
  have six: "rev [0..<6] = [5, 4, 3, 2, 1, 0 :: nat]" by code_simp
  have "map unat (time_bytes t) = map (\<lambda>k. m div 256 ^ k mod 256) (rev [0..<6])"
    unfolding time_bytes_def m(2) Let_def list.map u u0 six pw ..
  moreover have "m mod 256 ^ 6 = m"
    by (rule mod_less) (use m(1) in simp)
  ultimately show ?thesis by (simp only: base_val_digits flip: m_def)
qed

lemma length_time_bytes [simp]: "length (time_bytes t) = 6"
  by (simp add: time_bytes_def Let_def)

text \<open>IDs sort by creation time: an ID minted in an earlier millisecond is lexicographically
  smaller than one minted later, whatever the random bytes (for times from the epoch until the
  48-bit millisecond counter runs out, in the year 10889).\<close>

theorem newIDAt_order:
  assumes "length r1 = 10" "length r2 = 10" "0 \<le> t1" "t2 div 1000000 < 2 ^ 48"
    "t1 div 1000000 < t2 div 1000000"
  shows "newIDAt t1 r1 < newIDAt t2 r2"
proof -
  let ?a = "nat (t1 div 1000000)" and ?b = "nat (t2 div 1000000)"
  have t2: "0 \<le> t2" using assms by linarith
  have v: "base_val 256 (map unat (time_bytes t1)) = ?a" "base_val 256 (map unat (time_bytes t2)) = ?b"
    using assms t2 by (auto intro!: time_bytes_val)
  have "base_val 256 (map unat r1) < 256 ^ 10"
    using base_val_less[OF bytes_digits, of r1] assms(1) by simp
  then have "?a * 256 ^ 10 + base_val 256 (map unat r1) < ?a * 256 ^ 10 + 256 ^ 10" by simp
  also have "\<dots> = Suc ?a * 256 ^ 10" by simp
  also have "\<dots> \<le> ?b * 256 ^ 10" using assms by (intro mult_right_mono) auto
  also have "\<dots> \<le> ?b * 256 ^ 10 + base_val 256 (map unat r2)" by simp
  finally have "base_val 256 (map unat (time_bytes t1 @ r1)) < base_val 256 (map unat (time_bytes t2 @ r2))"
    by (simp only: map_append base_val_append length_map assms(1,2) v)
  then show ?thesis
    unfolding newIDAt_def using assms(1,2)
    by (subst encodeCrockford_order) simp_all
qed

theorem newIDAt_order_witness:
  "newIDAt 1000000000000000 (replicate 10 255) < newIDAt 2000000000000000 (replicate 10 0)"
  by (rule newIDAt_order) simp_all

text \<open>Encoding preserves order and loses nothing: comparing two encoded IDs as strings is
  comparing their sixteen bytes as one big-endian number.\<close>

theorem encodeCrockford_faithful:
  assumes "length a = 16" "length b = 16"
  shows "(encodeCrockford a < encodeCrockford b \<longleftrightarrow>
        base_val 256 (map unat a) < base_val 256 (map unat b)) \<and>
    (encodeCrockford a = encodeCrockford b \<longleftrightarrow> a = b)"
proof -
  have "a = b" if "encodeCrockford a = encodeCrockford b"
  proof -
    from that have "base_val 256 (map unat a) = base_val 256 (map unat b)"
      using encodeCrockford_order[OF assms] encodeCrockford_order[OF assms(2,1)] by simp
    then have "map unat a = map unat b"
      using base_val_inj[of "map unat a" "map unat b" 256] assms by (simp add: bytes_digits)
    then show ?thesis by (rule map_injective) (rule injI, simp add: word_unat_eq_iff)
  qed
  then show ?thesis using encodeCrockford_order[OF assms] by blast
qed

theorem encodeCrockford_faithful_witness:
  "length (replicate 16 (1 :: byte)) = 16 \<and>
    encodeCrockford (replicate 16 1) \<noteq> encodeCrockford (replicate 16 2)"
  using encodeCrockford_faithful[of "replicate 16 1" "replicate 16 2"] by simp

end
