(* ===== verification/Model.thy ===== *)
theory Model
  imports Ulid
begin

text \<open>
  The canonical log event: \<^verbatim>\<open>internal/model/level.go\<close> (severities) and \<^verbatim>\<open>event.go\<close> (the event record, its construction from one JSON object and
  its normalisation).  Lemmas: a parsed level is always one of the five, and
  an accepted JSON event is well formed.
\<close>

section \<open>Levels\<close>

type_synonym level = string

definition LevelDebug :: level where "LevelDebug = ''debug''"
definition LevelInfo :: level where "LevelInfo = ''info''"
definition LevelWarn :: level where "LevelWarn = ''warn''"
definition LevelError :: level where "LevelError = ''error''"
definition LevelFatal :: level where "LevelFatal = ''fatal''"

lemmas level_defs [go_defs] = LevelDebug_def LevelInfo_def LevelWarn_def LevelError_def
  LevelFatal_def

definition level_rank :: "level \<Rightarrow> int option" where
  "level_rank = map_of [(LevelDebug, 0), (LevelInfo, 1), (LevelWarn, 2), (LevelError, 3),
     (LevelFatal, 4)]"

definition Levels :: "level list" where
  "Levels = [LevelDebug, LevelInfo, LevelWarn, LevelError, LevelFatal]"

text \<open>Indexing a Go map at a missing key gives the zero value.\<close>

definition Rank :: "level \<Rightarrow> int" where
  "Rank l = (case level_rank l of Some r \<Rightarrow> r | None \<Rightarrow> 0)"

definition Valid :: "level \<Rightarrow> bool" where
  "Valid l \<longleftrightarrow> level_rank l \<noteq> None"

definition ParseLevel :: "string \<Rightarrow> level" where
  "ParseLevel s =
     (let t = to_lower (trim_space s)
      in if t \<in> set [''trace'', ''debug'', ''dbg'', ''verbose'', ''7''] then LevelDebug
         else if t \<in> set [''info'', ''information'', ''informational'', ''notice'', ''5'', ''6'']
           then LevelInfo
         else if t \<in> set [''warn'', ''warning'', ''4''] then LevelWarn
         else if t \<in> set [''err'', ''error'', ''3''] then LevelError
         else if t \<in> set [''fatal'', ''crit'', ''critical'', ''alert'', ''emerg'', ''emergency'',
             ''panic'', ''0'', ''1'', ''2''] then LevelFatal
         else LevelInfo)"

lemma Valid_iff: "Valid l \<longleftrightarrow> l \<in> set Levels"
  by (auto simp: Valid_def level_rank_def Levels_def)

lemma Valid_ParseLevel [simp]: "Valid (ParseLevel s)"
  by (simp add: ParseLevel_def Valid_iff Levels_def Let_def)

lemma ParseLevel_all: "list_all (\<lambda>l. ParseLevel l = l) Levels"
  by code_simp

lemma ParseLevel_Levels: "l \<in> set Levels \<Longrightarrow> ParseLevel l = l"
  using ParseLevel_all by (simp add: list_all_iff)

lemma ParseLevel_idem [simp]: "ParseLevel (ParseLevel s) = ParseLevel s"
  using Valid_ParseLevel Valid_iff ParseLevel_Levels by blast

section \<open>Events\<close>

record logevent =
  ev_id :: string
  ev_timestamp :: time
  ev_received :: time
  ev_source :: string
  ev_service :: string
  ev_level :: level
  ev_message :: string
  ev_attrs :: "(string \<times> any) list"
  ev_raw :: string

definition empty_event :: logevent where
  "empty_event = \<lparr>ev_id = [], ev_timestamp = zero_time, ev_received = zero_time, ev_source = [],
     ev_service = [], ev_level = [], ev_message = [], ev_attrs = [], ev_raw = []\<rparr>"

definition maxFutureTimestampSkew :: duration where
  "maxFutureTimestampSkew = 24 * hour"

definition reserved :: "string list" where
  "reserved = [''id'', ''timestamp'', ''time'', ''ts'', ''@timestamp'', ''received_at'', ''source'',
     ''host'', ''hostname'', ''service'', ''logger'', ''level'', ''severity'', ''lvl'', ''message'',
     ''msg'', ''raw'', ''attributes'']"

definition Normalize :: "time \<Rightarrow> byte list \<Rightarrow> logevent \<Rightarrow> logevent" where
  "Normalize now rnd e0 =
     (let e1 = (if ev_id e0 = [] then e0\<lparr>ev_id := newIDAt now rnd\<rparr> else e0);
          e2 = (if is_zero (ev_received e1) then e1\<lparr>ev_received := now\<rparr> else e1);
          e3 = (if is_zero (ev_timestamp e2) then e2\<lparr>ev_timestamp := ev_received e2\<rparr> else e2)
      in if \<not> Valid (ev_level e3) then e3\<lparr>ev_level := ParseLevel (ev_level e3)\<rparr> else e3)"

definition jsonToString :: "golib \<Rightarrow> string \<Rightarrow> string" where
  "jsonToString lib v = (case lib_json_string lib v of Some s \<Rightarrow> s | None \<Rightarrow> trim_space v)"

text \<open>\<^verbatim>\<open>n*1e6\<close> and \<^verbatim>\<open>n*1e3\<close> are \<^verbatim>\<open>int64\<close> products and wrap.\<close>

definition unixAuto :: "int \<Rightarrow> time" where
  "unixAuto n =
     (if n \<ge> 10 ^ 18 then n
      else if n \<ge> 10 ^ 15 then i64 (n * 10 ^ 3)
      else if n \<ge> 10 ^ 12 then i64 (n * 10 ^ 6)
      else unix_seconds n)"

datatype event_error = InvalidJSON | InvalidTimestamp | FutureTimestamp

definition parseTimestamp :: "golib \<Rightarrow> string \<Rightarrow> event_error + time" where
  "parseTimestamp lib v =
     (case lib_json_string lib v of
        Some s0 \<Rightarrow>
          (let s = trim_space s0
           in if s = [] then Inr zero_time
              else (case lib_rfc3339 lib s of
                  Some t \<Rightarrow> Inr t
                | None \<Rightarrow> (case parse_int s of Some n \<Rightarrow> Inr (unixAuto n)
                           | None \<Rightarrow> Inl InvalidTimestamp)))
      | None \<Rightarrow> (case lib_json_float lib v of
            Some f \<Rightarrow> Inr (unixAuto (f64_to_i64 f))
          | None \<Rightarrow> Inl InvalidTimestamp))"

text \<open>The first of the alias keys that the object has (the closure \<^verbatim>\<open>get\<close>).\<close>

fun get_raw :: "(string \<times> string) list \<Rightarrow> string list \<Rightarrow> string option" where
  "get_raw raw [] = None"
| "get_raw raw (k # ks) = (case map_of raw k of Some v \<Rightarrow> Some v | None \<Rightarrow> get_raw raw ks)"

text \<open>The explicit \<^verbatim>\<open>attributes\<close> object first, then every non-reserved top-level key.\<close>

definition explicit_attrs :: "golib \<Rightarrow> (string \<times> string) list \<Rightarrow> (string \<times> any) list" where
  "explicit_attrs lib raw =
     (case map_of raw ''attributes'' of
        Some v \<Rightarrow> (case lib_json_any lib v of Some (AMap kvs) \<Rightarrow>
            foldl (\<lambda>m (k, x). AList.update k x m) [] kvs | _ \<Rightarrow> [])
      | None \<Rightarrow> [])"

definition fold_attr :: "golib \<Rightarrow> (string \<times> any) list \<Rightarrow> string \<times> string \<Rightarrow> (string \<times> any) list" where
  "fold_attr lib m kv =
     (case kv of (k, v) \<Rightarrow> if k \<in> set reserved then m
        else (case lib_json_any lib v of Some x \<Rightarrow> AList.update k x m | None \<Rightarrow> m))"

text \<open>The string fields, read before the timestamp.\<close>

definition json_fields :: "golib \<Rightarrow> (string \<times> string) list \<Rightarrow> logevent" where
  "json_fields lib raw =
     (let str = (\<lambda>keys. case get_raw raw keys of Some v \<Rightarrow> jsonToString lib v | None \<Rightarrow> [])
      in empty_event\<lparr>
           ev_source := str [''source'', ''host'', ''hostname''],
           ev_service := str [''service'', ''logger''],
           ev_level := (case get_raw raw [''level'', ''severity'', ''lvl''] of
               Some v \<Rightarrow> ParseLevel (jsonToString lib v) | None \<Rightarrow> []),
           ev_message := str [''message'', ''msg''],
           ev_raw := str [''raw'']\<rparr>)"

definition EventFromJSON :: "golib \<Rightarrow> time \<Rightarrow> byte list \<Rightarrow> string \<Rightarrow> event_error + logevent" where
  "EventFromJSON lib now rnd data =
     (case lib_json_object lib data of
        None \<Rightarrow> Inl InvalidJSON
      | Some raw \<Rightarrow>
          (let e = json_fields lib raw;
               finish = (\<lambda>e. Inr (Normalize now rnd
                 (e\<lparr>ev_attrs := foldl (fold_attr lib) (explicit_attrs lib raw) raw\<rparr>)))
           in case get_raw raw [''timestamp'', ''time'', ''ts'', ''@timestamp''] of
                None \<Rightarrow> finish e
              | Some v \<Rightarrow>
                  (case parseTimestamp lib v of
                     Inl err \<Rightarrow> Inl err
                   | Inr t \<Rightarrow> if t > now + maxFutureTimestampSkew then Inl FutureTimestamp
                              else finish (e\<lparr>ev_timestamp := t\<rparr>))))"

section \<open>Properties\<close>

lemma newIDAt_ne [simp]: "newIDAt now rnd \<noteq> []"
  using length_encodeCrockford by (metis length_0_conv newIDAt_def numeral_neq_zero)

lemma Normalize_fields:
  "ev_id (Normalize now rnd e) = (if ev_id e = [] then newIDAt now rnd else ev_id e)"
  "ev_received (Normalize now rnd e) = (if is_zero (ev_received e) then now else ev_received e)"
  "ev_timestamp (Normalize now rnd e) =
     (if is_zero (ev_timestamp e) then ev_received (Normalize now rnd e) else ev_timestamp e)"
  "Valid (ev_level (Normalize now rnd e))"
  "ev_level (Normalize now rnd e) = (if Valid (ev_level e) then ev_level e else ParseLevel (ev_level e))"
  "ev_attrs (Normalize now rnd e) = ev_attrs e" "ev_message (Normalize now rnd e) = ev_message e"
  "ev_service (Normalize now rnd e) = ev_service e" "ev_source (Normalize now rnd e) = ev_source e"
  "ev_raw (Normalize now rnd e) = ev_raw e"
  by (auto simp: Normalize_def Let_def)

text \<open>Normalising is idempotent and establishes what the store relies on: a non-empty ID, set
  times and a known level; a second call, with another clock and other random bytes, changes
  nothing, so an event keeps its identity when it passes several stages that normalise.\<close>

theorem Normalize_idem:
  assumes "now \<noteq> zero_time"
  shows "(let n = Normalize now rnd e in ev_id n \<noteq> [] \<and> \<not> is_zero (ev_received n) \<and>
      \<not> is_zero (ev_timestamp n) \<and> Valid (ev_level n) \<and> Normalize now' rnd' n = n)"
proof -
  let ?n = "Normalize now rnd e"
  have "ev_id ?n \<noteq> []" "\<not> is_zero (ev_received ?n)" "\<not> is_zero (ev_timestamp ?n)" "Valid (ev_level ?n)"
    using assms by (auto simp: Normalize_fields is_zero_def)
  then show ?thesis by (simp add: Let_def Normalize_def)
qed

theorem Normalize_idem_witness:
  "Normalize 7 [] (Normalize 5 (replicate 10 0) empty_event) = Normalize 5 (replicate 10 0) empty_event"
  using Normalize_idem[of 5 "replicate 10 0" empty_event 7 "[]"] by (simp add: zero_time_def Let_def)

lemma json_fields_time: "(json_fields lib raw)\<lparr>ev_attrs := a\<rparr> = (json_fields lib raw)\<lparr>ev_timestamp := zero_time, ev_attrs := a\<rparr>"
  by (simp add: json_fields_def empty_event_def Let_def)

text \<open>C40. An event accepted from JSON is the server's: its ID is freshly minted from the server's
  clock and random bytes whatever the object says, its receive time is the clock, its level is
  one of the five, and its timestamp is at most 24 hours ahead of the clock.\<close>

theorem EventFromJSON_server_fields:
  assumes "EventFromJSON lib now rnd data = Inr e"
  shows "ev_id e = newIDAt now rnd \<and> ev_received e = now \<and> Valid (ev_level e) \<and>
    ev_timestamp e \<le> now + maxFutureTimestampSkew"
proof -
  obtain e0 where e: "e = Normalize now rnd e0" "ev_id e0 = []" "ev_received e0 = zero_time"
      "ev_timestamp e0 = zero_time \<or> ev_timestamp e0 \<le> now + maxFutureTimestampSkew"
  proof -
    obtain raw where raw: "lib_json_object lib data = Some raw"
      using assms by (auto simp: EventFromJSON_def split: option.split_asm)
    let ?a = "foldl (fold_attr lib) (explicit_attrs lib raw) raw"
    have "\<exists>ts. e = Normalize now rnd ((json_fields lib raw)\<lparr>ev_timestamp := ts, ev_attrs := ?a\<rparr>) \<and>
        (ts = zero_time \<or> ts \<le> now + maxFutureTimestampSkew)"
      using assms raw json_fields_time[where lib = lib and raw = raw]
      by (auto simp: EventFromJSON_def Let_def not_less split: option.split_asm sum.split_asm if_split_asm)
    then show ?thesis using that by (force simp: json_fields_def empty_event_def Let_def)
  qed
  moreover have "0 \<le> maxFutureTimestampSkew" by (simp add: maxFutureTimestampSkew_def duration_defs)
  ultimately show ?thesis by (auto simp: Normalize_fields is_zero_def)
qed

definition json_lib :: golib where
  "json_lib = ascii_lib\<lparr>
     lib_json_object := (\<lambda>s. Some [(''level'', ''WARN''), (''msg'', ''hi''), (''id'', ''mine''), (''user'', ''bob'')]),
     lib_json_string := Some, lib_json_any := (\<lambda>s. Some (AStr s))\<rparr>"

theorem EventFromJSON_server_fields_witness:
  "\<exists>e. EventFromJSON json_lib 5 (replicate 10 0) [] = Inr e \<and> ev_id e = newIDAt 5 (replicate 10 0)
     \<and> ev_message e = ''hi'' \<and> ev_attrs e = [(''user'', AStr ''bob'')]"
proof -
  have "case EventFromJSON json_lib 5 (replicate 10 0) [] of Inl e \<Rightarrow> False
    | Inr e \<Rightarrow> ev_message e = ''hi'' \<and> ev_attrs e = [(''user'', AStr ''bob'')]" by code_simp
  then show ?thesis
    using EventFromJSON_server_fields[of json_lib 5 "replicate 10 0" "[]"] by (auto split: sum.splits)
qed

lemma div_bounds:
  fixes t :: int
  assumes "0 < d" "a * d \<le> t" "t < b * d"
  shows "a \<le> t div d \<and> t div d < b"
proof -
  have "t div d * d \<le> t" using assms(1) by (simp add: minus_mod_eq_div_mult [symmetric])
  then have "t div d * d < b * d" using assms(3) by linarith
  moreover have "a * d div d \<le> t div d" using assms by (intro zdiv_mono1) auto
  ultimately show ?thesis using assms(1) by simp
qed

text \<open>Numeric timestamps: for every instant between September 2001 and the end of the
  \<^verbatim>\<open>int64\<close> nanosecond range in April 2262, the number of whole seconds, milliseconds,
  microseconds or nanoseconds since the epoch is recognised for what it is.\<close>

theorem unixAuto_units:
  assumes "10 ^ 18 \<le> t" "t < 2 ^ 63"
  shows "unixAuto t = t \<and> unixAuto (t div 10 ^ 3) = t - t mod 10 ^ 3 \<and>
    unixAuto (t div 10 ^ 6) = t - t mod 10 ^ 6 \<and> unixAuto (t div 10 ^ 9) = t - t mod 10 ^ 9"
proof -
  have r: "t div d * d = t - t mod d" for d :: int by (simp add: minus_mod_eq_div_mult)
  have i: "i64 (t div d * d) = t - t mod d" if "0 < d" for d :: int
  proof -
    have "0 \<le> t - t mod d" "0 \<le> t mod d"
      using assms(1) that zmod_le_nonneg_dividend[of t d] by simp_all
    then have "- (2 ^ 63) \<le> t - t mod d" "t - t mod d < 2 ^ 63" using assms(2) by linarith+
    then show ?thesis unfolding r by (intro i64_id) (simp only: i64_range_def)
  qed
  have "10 ^ 15 \<le> t div 10 ^ 3" "t div 10 ^ 3 < 10 ^ 18" "10 ^ 12 \<le> t div 10 ^ 6" "t div 10 ^ 6 < 10 ^ 15"
    "0 \<le> t div 10 ^ 9" "t div 10 ^ 9 < 10 ^ 12"
    using assms div_bounds[of "10 ^ 3" "10 ^ 15" t "10 ^ 18"] div_bounds[of "10 ^ 6" "10 ^ 12" t "10 ^ 15"]
      div_bounds[of "10 ^ 9" 0 t "10 ^ 12"] by simp_all
  then show ?thesis
    using assms i[of "10 ^ 3"] i[of "10 ^ 6"] r[of "10 ^ 9"] by (simp add: unixAuto_def unix_seconds_id)
qed

theorem unixAuto_units_witness:
  "unixAuto 1700000000123456789 = 1700000000123456789 \<and> unixAuto 1700000000123 = 1700000000123000000"
  using unixAuto_units[of 1700000000123456789] by simp

text \<open>Beyond that range the conversion wraps: a timestamp of 10 to the 13 milliseconds (the year
  2286) is turned into an instant before the epoch, so the check against far-future timestamps
  accepts it.\<close>

theorem unixAuto_wraps: "unixAuto (10 ^ 13) = 10 ^ 19 - 2 ^ 64 \<and> unixAuto (10 ^ 13) < 0"
  by (simp add: unixAuto_def i64_altdef)

end
