(* ===== verification/QueryLang.thy ===== *)
theory QueryLang
  imports GoLib
begin

text \<open>
  The search expression language: \<^verbatim>\<open>internal/query/parse.go\<close> (the lexer, filters, time
  directives, relative and absolute times) and the data types of \<^verbatim>\<open>query.go\<close>.  An expression
  is lexed rune by rune; a token is a quoted term, a time directive, a filter or a bare term.
  The lemmas describe the lexer on printed tokens, classify every accepted filter, and bound the
  relative durations.
\<close>

section \<open>Data\<close>

datatype field = FieldNone | FieldLevel | FieldService | FieldSource | FieldMessage | FieldRaw | FieldAttr

datatype op = OpEq | OpNeq | OpGt | OpGte | OpLt | OpLte | OpLike | OpExists | OpIn | OpRegex

record filter_t =
  f_field :: field
  f_attr :: string
  f_op :: op
  f_value :: string
  f_values :: "string list"

record timespec =
  ts_last :: string
  ts_from :: string
  ts_to :: string

definition empty_timespec :: timespec where
  "empty_timespec = \<lparr>ts_last = [], ts_from = [], ts_to = []\<rparr>"

definition HasLowerBound :: "timespec \<Rightarrow> bool" where
  "HasLowerBound t \<longleftrightarrow> ts_from t \<noteq> [] \<or> ts_last t \<noteq> []"

definition TimeSpec_IsZero :: "timespec \<Rightarrow> bool" where
  "TimeSpec_IsZero t \<longleftrightarrow> ts_last t = [] \<and> ts_from t = [] \<and> ts_to t = []"

text \<open>One constructor per error message of the package; the arguments are what it quotes.\<close>

datatype query_error =
    UnterminatedQuote | TimeBoundOp string string | EmptyTimeValue string | TimeTwice string
  | EmptyAttrKey string | InvalidRegex string
  | EmptyRelative | InvalidRelative string | InvalidRelativeUnit string | RelativeTooLarge string
  | InvalidTime string | InvalidLimit string | InvalidCursor | ManyAggregations
  | EmptyStage | UnknownCommand string | SpanNotTimechart | InvalidSpan query_error | ZeroSpan
  | NoMeasures | ManyTimechartGroups | TopCountNotPositive | TopNeedsField
  | UnknownAggregation string | AggNeedsField string | UnknownAggFunc string

section \<open>Times\<close>

definition MaxRelative :: duration where
  "MaxRelative = 100 * 365 * 24 * hour"

definition rel_scale :: "char \<Rightarrow> duration option" where
  "rel_scale u = (if u = CHR ''s'' then Some second else if u = CHR ''m'' then Some minute
     else if u = CHR ''h'' then Some hour else if u = CHR ''d'' then Some (24 * hour) else None)"

definition ParseRelative :: "string \<Rightarrow> query_error + duration" where
  "ParseRelative s0 =
     (let s = trim_space s0
      in if s = [] then Inl EmptyRelative
         else let unit = last s; numStr = butlast s
              in case parse_int numStr of
                   None \<Rightarrow> Inl (InvalidRelative s)
                 | Some n \<Rightarrow>
                     if n < 0 then Inl (InvalidRelative s)
                     else (case rel_scale unit of
                         None \<Rightarrow> Inl (InvalidRelativeUnit s)
                       | Some scale \<Rightarrow>
                           if n > MaxRelative div scale then Inl (RelativeTooLarge s)
                           else Inr (i64 (n * scale))))"

definition ParseTime :: "golib \<Rightarrow> string \<Rightarrow> query_error + time" where
  "ParseTime lib s0 =
     (let s = trim_space s0
      in case lib_rfc3339 lib s of
           Some t \<Rightarrow> Inr t
         | None \<Rightarrow> (case parse_int s of
               Some n \<Rightarrow> Inr (unix_seconds n)
             | None \<Rightarrow> Inl (InvalidTime s)))"

section \<open>Lexer\<close>

record token =
  tok_text :: string
  tok_quoted :: bool

record lexer =
  lx_tokens :: "token list"
  lx_b :: string
  lx_in_quote :: bool

definition lex_flush :: "bool \<Rightarrow> lexer \<Rightarrow> lexer" where
  "lex_flush quoted s =
     (if lx_b s \<noteq> [] \<or> quoted
      then s\<lparr>lx_tokens := lx_tokens s @ [\<lparr>tok_text = lx_b s, tok_quoted = quoted\<rparr>], lx_b := []\<rparr>
      else s)"

definition lex_rune :: "lexer \<Rightarrow> string \<Rightarrow> lexer" where
  "lex_rune s r =
     (if r = [CHR 0x22] then
        (if lx_in_quote s then (lex_flush True s)\<lparr>lx_in_quote := False\<rparr>
         else (lex_flush False s)\<lparr>lx_in_quote := True\<rparr>)
      else if r \<in> set [[CHR 0x20], [CHR 0x09], [CHR 0x0A]] \<and> \<not> lx_in_quote s then lex_flush False s
      else s\<lparr>lx_b := lx_b s @ r\<rparr>)"

definition lex_init :: lexer where
  "lex_init = \<lparr>lx_tokens = [], lx_b = [], lx_in_quote = False\<rparr>"

definition tokenize :: "string \<Rightarrow> query_error + token list" where
  "tokenize expr =
     (let s = foldl lex_rune lex_init (runes expr)
      in if lx_in_quote s then Inl UnterminatedQuote else Inr (lx_tokens (lex_flush False s)))"

section \<open>Filters\<close>

definition knownFields :: "string \<Rightarrow> field option" where
  "knownFields = map_of [(''level'', FieldLevel), (''service'', FieldService),
     (''source'', FieldSource), (''host'', FieldSource), (''message'', FieldMessage),
     (''msg'', FieldMessage), (''raw'', FieldRaw)]"

text \<open>
  \<open>splitOp_loop key rest\<close> is the loop of \<^verbatim>\<open>splitOp\<close> at index \<open>length key\<close>.
\<close>

fun splitOp_loop :: "string \<Rightarrow> string \<Rightarrow> (string \<times> string \<times> string) option" where
  "splitOp_loop key [] = None"
| "splitOp_loop key (c # cs) =
     (let eq = (cs \<noteq> [] \<and> hd cs = CHR ''='')
      in if key = [] then splitOp_loop [c] cs
         else if c = CHR ''!'' \<and> eq then Some (''!='', key, tl cs)
         else if c = CHR ''>'' then (if eq then Some (''>='', key, tl cs) else Some (''>'', key, cs))
         else if c = CHR ''<'' then (if eq then Some (''<='', key, tl cs) else Some (''<'', key, cs))
         else if c = CHR ''='' then
           (if cs \<noteq> [] \<and> hd cs = CHR ''~'' then Some (''=~'', key, tl cs) else Some (''='', key, cs))
         else splitOp_loop (key @ [c]) cs)"

definition splitOp :: "string \<Rightarrow> (string \<times> string \<times> string) option" where
  "splitOp tok = splitOp_loop [] tok"

definition quote_set :: string where
  "quote_set = [CHR 0x22]"

definition splitList :: "string \<Rightarrow> string list" where
  "splitList s = filter (\<lambda>p. p \<noteq> [])
     (map (\<lambda>p. trim_both quote_set (trim_space p)) (split_char (CHR '','') s))"

text \<open>The three-way choice of field: alias table, \<^verbatim>\<open>attr.\<close> prefix, any other key.\<close>

definition filter_target :: "string \<Rightarrow> field \<times> string" where
  "filter_target key =
     (let lower = to_lower key
      in case knownFields lower of
           Some f \<Rightarrow> (f, [])
         | None \<Rightarrow> if prefix ''attr.'' lower then (FieldAttr, drop 5 key) else (FieldAttr, key))"

definition filter_ops :: "(string \<times> op) list" where
  "filter_ops = [(''!='', OpNeq), (''>'', OpGt), (''>='', OpGte), (''<'', OpLt), (''<='', OpLte)]"

definition parseFilter :: "golib \<Rightarrow> string \<Rightarrow> query_error + filter_t option" where
  "parseFilter lib tok =
     (case splitOp tok of
        None \<Rightarrow> Inr None
      | Some (opr, key0, val0) \<Rightarrow>
          (let key = trim_space key0; val = trim_both quote_set (trim_space val0)
           in if key = [] then Inr None
              else let (fld, attr) = filter_target key;
                       mk = (\<lambda>opc v vs. Inr (Some \<lparr>f_field = fld, f_attr = attr, f_op = opc,
                                f_value = v, f_values = vs\<rparr>))
                   in if fld = FieldAttr \<and> attr = [] then Inl (EmptyAttrKey tok)
                      else case map_of filter_ops opr of
                          Some opc \<Rightarrow> mk opc val []
                        | None \<Rightarrow>
                            if opr = ''=~'' then
                              (if lib_regexp lib val = None then Inl (InvalidRegex tok)
                               else mk OpRegex val [])
                            else if val = ''*'' then mk OpExists [] []
                            else if prefix ''('' val \<and> suffix '')'' val then
                              mk OpIn [] (splitList (butlast (tl val)))
                            else if CHR ''*'' \<in> set val then mk OpLike val []
                            else mk OpEq val []))"

section \<open>Time directives and whole expressions\<close>

definition timeKeys :: "string list" where
  "timeKeys = [''last'', ''from'', ''to'']"

text \<open>\<open>Inr None\<close>: the token is not a time directive; \<open>Inr (Some spec)\<close>: consumed.\<close>

definition parseTimeDirective :: "golib \<Rightarrow> timespec \<Rightarrow> string \<Rightarrow> query_error + timespec option" where
  "parseTimeDirective lib spec tok =
     (case splitOp tok of
        None \<Rightarrow> Inr None
      | Some (opr, key, val0) \<Rightarrow>
          (let lower = to_lower (trim_space key)
           in if lower \<notin> set timeKeys then Inr None
              else if opr \<noteq> ''='' then Inl (TimeBoundOp lower opr)
              else let val = trim_both quote_set (trim_space val0)
                   in if val = [] then Inl (EmptyTimeValue lower)
                      else if lower = ''last'' then
                        try_bind (ParseRelative val) (\<lambda>_.
                          if ts_last spec \<noteq> [] then Inl (TimeTwice ''last'')
                          else Inr (Some (spec\<lparr>ts_last := val\<rparr>)))
                      else if lower = ''from'' then
                        try_bind (ParseTime lib val) (\<lambda>_.
                          if ts_from spec \<noteq> [] then Inl (TimeTwice ''from'')
                          else Inr (Some (spec\<lparr>ts_from := val\<rparr>)))
                      else
                        try_bind (ParseTime lib val) (\<lambda>_.
                          if ts_to spec \<noteq> [] then Inl (TimeTwice ''to'')
                          else Inr (Some (spec\<lparr>ts_to := val\<rparr>)))))"

text \<open>The part of a query that \<^verbatim>\<open>Parse\<close> fills in.\<close>

record parsed =
  p_terms :: "string list"
  p_filters :: "filter_t list"
  p_time :: timespec

definition empty_parsed :: parsed where
  "empty_parsed = \<lparr>p_terms = [], p_filters = [], p_time = empty_timespec\<rparr>"

definition parse_token :: "golib \<Rightarrow> parsed \<Rightarrow> token \<Rightarrow> query_error + parsed" where
  "parse_token lib q tok =
     (if tok_quoted tok then Inr (q\<lparr>p_terms := p_terms q @ [tok_text tok]\<rparr>)
      else try_bind (parseTimeDirective lib (p_time q) (tok_text tok)) (\<lambda>h.
        case h of
          Some spec \<Rightarrow> Inr (q\<lparr>p_time := spec\<rparr>)
        | None \<Rightarrow> try_bind (parseFilter lib (tok_text tok)) (\<lambda>fo.
            case fo of
              Some f \<Rightarrow> Inr (q\<lparr>p_filters := p_filters q @ [f]\<rparr>)
            | None \<Rightarrow> if tok_text tok \<noteq> [] then Inr (q\<lparr>p_terms := p_terms q @ [tok_text tok]\<rparr>)
                      else Inr q)))"

fun parse_tokens :: "golib \<Rightarrow> parsed \<Rightarrow> token list \<Rightarrow> query_error + parsed" where
  "parse_tokens lib q [] = Inr q"
| "parse_tokens lib q (t # ts) = try_bind (parse_token lib q t) (\<lambda>q'. parse_tokens lib q' ts)"

definition Parse :: "golib \<Rightarrow> string \<Rightarrow> query_error + parsed" where
  "Parse lib expr = try_bind (tokenize expr) (parse_tokens lib empty_parsed)"

section \<open>Printing\<close>

text \<open>
  A printer for parsed queries, the abstract syntax the language stands for: every term quoted,
  every filter and time directive as one token, a blank after each.
\<close>

definition plain :: "string \<Rightarrow> bool" where
  "plain s \<longleftrightarrow> list_all (\<lambda>c. graphic c \<and> c \<noteq> CHR 0x22) s"

definition op_char :: "char \<Rightarrow> bool" where
  "op_char c \<longleftrightarrow> c \<in> set ''!<>=''"

definition show_key :: "filter_t \<Rightarrow> string" where
  "show_key f = (case f_field f of FieldLevel \<Rightarrow> ''level'' | FieldService \<Rightarrow> ''service''
     | FieldSource \<Rightarrow> ''source'' | FieldMessage \<Rightarrow> ''message'' | FieldRaw \<Rightarrow> ''raw''
     | _ \<Rightarrow> ''attr.'' @ f_attr f)"

definition show_op :: "op \<Rightarrow> string" where
  "show_op opc = (case opc of OpNeq \<Rightarrow> ''!='' | OpGt \<Rightarrow> ''>'' | OpGte \<Rightarrow> ''>='' | OpLt \<Rightarrow> ''<''
     | OpLte \<Rightarrow> ''<='' | OpRegex \<Rightarrow> ''=~'' | _ \<Rightarrow> ''='')"

definition show_value :: "filter_t \<Rightarrow> string" where
  "show_value f = (case f_op f of OpExists \<Rightarrow> ''*'' | OpIn \<Rightarrow> ''('' @ join '','' (f_values f) @ '')''
     | _ \<Rightarrow> f_value f)"

definition show_filter :: "filter_t \<Rightarrow> string" where
  "show_filter f = show_key f @ show_op (f_op f) @ show_value f"

definition grouped :: "string \<Rightarrow> bool" where
  "grouped v \<longleftrightarrow> prefix ''('' v \<and> suffix '')'' v"

definition printable_key :: "filter_t \<Rightarrow> bool" where
  "printable_key f \<longleftrightarrow> (if f_field f = FieldAttr
     then f_attr f \<noteq> [] \<and> plain (f_attr f) \<and> \<not> list_ex op_char (f_attr f)
     else f_field f \<noteq> FieldNone \<and> f_attr f = [])"

definition printable_value :: "golib \<Rightarrow> filter_t \<Rightarrow> bool" where
  "printable_value lib f \<longleftrightarrow>
     plain (f_value f) \<and> (f_op f \<noteq> OpIn \<longrightarrow> f_values f = []) \<and>
     (case f_op f of
        OpEq \<Rightarrow> CHR ''*'' \<notin> set (f_value f) \<and> \<not> grouped (f_value f) \<and> \<not> prefix ''~'' (f_value f)
      | OpLike \<Rightarrow> CHR ''*'' \<in> set (f_value f) \<and> f_value f \<noteq> ''*'' \<and> \<not> grouped (f_value f)
                 \<and> \<not> prefix ''~'' (f_value f)
      | OpGt \<Rightarrow> \<not> prefix ''='' (f_value f)
      | OpLt \<Rightarrow> \<not> prefix ''='' (f_value f)
      | OpExists \<Rightarrow> f_value f = []
      | OpIn \<Rightarrow> f_value f = [] \<and> list_all (\<lambda>v. v \<noteq> [] \<and> plain v \<and> CHR '','' \<notin> set v) (f_values f)
      | OpRegex \<Rightarrow> lib_regexp lib (f_value f) \<noteq> None
      | _ \<Rightarrow> True)"

definition printable_filter :: "golib \<Rightarrow> filter_t \<Rightarrow> bool" where
  "printable_filter lib f \<longleftrightarrow> printable_key f \<and> printable_value lib f"

definition show_directives :: "timespec \<Rightarrow> string list" where
  "show_directives t =
     (if ts_last t = [] then [] else [''last='' @ ts_last t])
     @ (if ts_from t = [] then [] else [''from='' @ ts_from t])
     @ (if ts_to t = [] then [] else [''to='' @ ts_to t])"

definition printable_time :: "golib \<Rightarrow> timespec \<Rightarrow> bool" where
  "printable_time lib t \<longleftrightarrow>
     list_all (\<lambda>v. plain v \<and> \<not> prefix ''~'' v) [ts_last t, ts_from t, ts_to t] \<and>
     (ts_last t \<noteq> [] \<longrightarrow> is_ok (ParseRelative (ts_last t))) \<and>
     (ts_from t \<noteq> [] \<longrightarrow> is_ok (ParseTime lib (ts_from t))) \<and>
     (ts_to t \<noteq> [] \<longrightarrow> is_ok (ParseTime lib (ts_to t)))"

definition quoted :: "string \<Rightarrow> string" where
  "quoted t = CHR 0x22 # t @ [CHR 0x22]"

definition show_parsed :: "parsed \<Rightarrow> string" where
  "show_parsed p = concat (map (\<lambda>w. w @ '' '')
     (map quoted (p_terms p) @ map show_filter (p_filters p) @ show_directives (p_time p)))"

definition printable :: "golib \<Rightarrow> parsed \<Rightarrow> bool" where
  "printable lib p \<longleftrightarrow>
     list_all (\<lambda>t. is_ascii t \<and> CHR 0x22 \<notin> set t) (p_terms p) \<and>
     list_all (printable_filter lib) (p_filters p) \<and> printable_time lib (p_time p)"

subsection \<open>The lexer on printed tokens\<close>

lemma plain_simps [simp]: "plain []" "plain (c # s) \<longleftrightarrow> graphic c \<and> c \<noteq> CHR 0x22 \<and> plain s"
  "plain (a @ b) \<longleftrightarrow> plain a \<and> plain b"
  by (auto simp: plain_def)

lemma plain_graphic: "plain s \<Longrightarrow> list_all graphic s"
  by (simp add: plain_def list_all_iff)

lemma plain_trims [simp]: "plain s \<Longrightarrow> trim_space s = s" "plain s \<Longrightarrow> trim_both quote_set s = s"
  by (rule trim_space_graphic, rule plain_graphic, assumption)
     (rule trim_both_id, simp add: plain_def list_all_iff quote_set_def, blast)

definition lex_bytes :: "lexer \<Rightarrow> string \<Rightarrow> lexer" where
  "lex_bytes s w = foldl lex_rune s (map (\<lambda>c. [c]) w)"

lemma lex_bytes_simps: "lex_bytes s [] = s" "lex_bytes s (c # w) = lex_bytes (lex_rune s [c]) w"
  "lex_bytes s (v @ w) = lex_bytes (lex_bytes s v) w"
  by (simp_all add: lex_bytes_def)

lemma graphic_not_blank: "graphic c \<Longrightarrow> c \<noteq> CHR 0x20 \<and> c \<noteq> CHR 0x09 \<and> c \<noteq> CHR 0x0A"
proof -
  have "\<not> graphic (CHR 0x20) \<and> \<not> graphic (CHR 0x09) \<and> \<not> graphic (CHR 0x0A)" by code_simp
  then show "graphic c \<Longrightarrow> ?thesis" by auto
qed

lemma lex_rune_plain: "graphic c \<Longrightarrow> c \<noteq> CHR 0x22 \<Longrightarrow>
   lex_rune \<lparr>lx_tokens = ts, lx_b = b, lx_in_quote = q\<rparr> [c]
   = \<lparr>lx_tokens = ts, lx_b = b @ [c], lx_in_quote = q\<rparr>"
  using graphic_not_blank[of c] by (simp add: lex_rune_def)

lemma lex_plain: "plain w \<Longrightarrow> lex_bytes \<lparr>lx_tokens = ts, lx_b = b, lx_in_quote = q\<rparr> w
   = \<lparr>lx_tokens = ts, lx_b = b @ w, lx_in_quote = q\<rparr>"
  by (induction w arbitrary: b) (simp_all add: lex_bytes_simps lex_rune_plain)

lemma lex_in_quote: "CHR 0x22 \<notin> set w \<Longrightarrow>
   lex_bytes \<lparr>lx_tokens = ts, lx_b = b, lx_in_quote = True\<rparr> w
   = \<lparr>lx_tokens = ts, lx_b = b @ w, lx_in_quote = True\<rparr>"
  by (induction w arbitrary: b) (auto simp: lex_bytes_simps lex_rune_def)

abbreviation lex_done :: "token list \<Rightarrow> lexer" where
  "lex_done ts \<equiv> \<lparr>lx_tokens = ts, lx_b = [], lx_in_quote = False\<rparr>"

abbreviation bare_tok :: "string \<Rightarrow> token" where
  "bare_tok w \<equiv> \<lparr>tok_text = w, tok_quoted = False\<rparr>"

abbreviation quoted_tok :: "string \<Rightarrow> token" where
  "quoted_tok w \<equiv> \<lparr>tok_text = w, tok_quoted = True\<rparr>"

lemma lex_bare: "plain w \<Longrightarrow> w \<noteq> [] \<Longrightarrow> lex_bytes (lex_done ts) (w @ '' '') = lex_done (ts @ [bare_tok w])"
  by (simp add: lex_bytes_simps lex_plain lex_rune_def lex_flush_def)

lemma lex_quoted: "CHR 0x22 \<notin> set w \<Longrightarrow> lex_bytes (lex_done ts) (quoted w @ '' '') = lex_done (ts @ [quoted_tok w])"
  by (simp add: quoted_def lex_bytes_simps lex_rune_def lex_in_quote lex_flush_def)

lemma lex_many:
  assumes "\<And>w ts. w \<in> set ws \<Longrightarrow> lex_bytes (lex_done ts) (g w @ '' '') = lex_done (ts @ [tk w])"
  shows "lex_bytes (lex_done ts) (concat (map (\<lambda>w. g w @ '' '') ws)) = lex_done (ts @ map tk ws)"
  using assms by (induction ws arbitrary: ts) (simp_all add: lex_bytes_simps del: append.simps)

lemma plain_literals:
  "list_all plain [''level'', ''service'', ''source'', ''message'', ''raw'', ''attr.'', ''='', ''!='', ''>'',
     ''>='', ''<'', ''<='', ''=~'', ''*'', ''('', '')'', ''last='', ''from='', ''to='', '','']"
  by code_simp

lemma plain_join: "list_all plain vs \<Longrightarrow> plain (join '','' vs)"
  using plain_literals by (induction "'',''" vs rule: join.induct) simp_all

lemma plain_show_op: "plain (show_op opc) \<and> show_op opc \<noteq> []"
  using plain_literals by (cases opc) (simp_all add: show_op_def)

lemma plain_show_key: "printable_key f \<Longrightarrow> plain (show_key f)"
  using plain_literals by (cases "f_field f") (simp_all add: show_key_def printable_key_def)

lemma plain_show_value: "printable_value lib f \<Longrightarrow> plain (show_value f)"
  using plain_literals plain_join[of "f_values f"]
  by (cases "f_op f") (simp_all add: show_value_def printable_value_def list_all_iff)

lemma lex_directives:
  assumes "printable_time lib t"
  shows "lex_bytes (lex_done ts) (concat (map (\<lambda>w. w @ '' '') (show_directives t)))
    = lex_done (ts @ map bare_tok (show_directives t))"
proof -
  have "plain w \<and> w \<noteq> []" if "w \<in> set (show_directives t)" for w
    using that assms plain_literals by (auto simp: show_directives_def printable_time_def split: if_splits)
  then show ?thesis using lex_many[of "show_directives t" "\<lambda>w. w" bare_tok ts] lex_bare by simp
qed

lemma show_filter_plain: "printable_filter lib f \<Longrightarrow> plain (show_filter f) \<and> show_filter f \<noteq> []"
  using plain_show_op[of "f_op f"] plain_show_key[of f] plain_show_value[of lib f]
  by (simp add: printable_filter_def show_filter_def)

lemma tokenize_show:
  assumes "printable lib p"
  shows "tokenize (show_parsed p) = Inr (map quoted_tok (p_terms p)
     @ map (\<lambda>f. bare_tok (show_filter f)) (p_filters p) @ map bare_tok (show_directives (p_time p)))"
proof -
  have t: "list_all (\<lambda>t. is_ascii t \<and> CHR 0x22 \<notin> set t) (p_terms p)"
    and f: "list_all (printable_filter lib) (p_filters p)" and d: "printable_time lib (p_time p)"
    using assms by (auto simp: printable_def)
  have dir: "plain w" if "w \<in> set (show_directives (p_time p))" for w
    using that d plain_literals by (auto simp: show_directives_def printable_time_def split: if_splits)
  have "is_ascii (show_parsed p)"
    using t f dir show_filter_plain
    by (fastforce simp: show_parsed_def is_ascii_def quoted_def plain_def graphic_def list_all_iff)
  then have "foldl lex_rune lex_init (runes (show_parsed p)) = lex_bytes (lex_done []) (show_parsed p)"
    by (simp add: runes_ascii lex_bytes_def lex_init_def)
  also have "\<dots> = lex_done (map quoted_tok (p_terms p)
     @ map (\<lambda>f. bare_tok (show_filter f)) (p_filters p) @ map bare_tok (show_directives (p_time p)))"
  proof -
    have a: "lex_bytes (lex_done ts) (concat (map (\<lambda>w. quoted w @ '' '') (p_terms p)))
       = lex_done (ts @ map quoted_tok (p_terms p))" for ts
      using t lex_quoted by (intro lex_many) (simp add: list_all_iff)
    have b: "lex_bytes (lex_done ts) (concat (map (\<lambda>w. show_filter w @ '' '') (p_filters p)))
       = lex_done (ts @ map (\<lambda>f. bare_tok (show_filter f)) (p_filters p))" for ts
      using f show_filter_plain lex_bare by (intro lex_many) (metis list_all_iff)
    show ?thesis
      unfolding show_parsed_def using lex_directives[OF d] a b
      by (simp add: lex_bytes_simps comp_def)
  qed
  finally show ?thesis by (simp add: tokenize_def lex_flush_def)
qed

subsection \<open>The filter parser on printed filters\<close>

lemma splitOp_skip: "\<not> list_ex op_char k \<Longrightarrow> splitOp_loop pre (k @ rest) = splitOp_loop (pre @ k) rest"
  by (induction k arbitrary: pre) (auto simp: op_char_def Let_def)

lemma splitOp_show:
  assumes "k \<noteq> []" "\<not> list_ex op_char k"
    "(opr = ''='' \<and> \<not> prefix ''~'' v) \<or> (opr \<in> {''>'', ''<''} \<and> \<not> prefix ''='' v)
      \<or> opr \<in> {''!='', ''>='', ''<='', ''=~''}"
  shows "splitOp (k @ opr @ v) = Some (opr, k, v)"
  using assms unfolding splitOp_def splitOp_skip[OF assms(2)]
  by (cases v) (auto simp: Let_def)

lemma splitList_join:
  assumes "list_all (\<lambda>v. v \<noteq> [] \<and> plain v \<and> CHR '','' \<notin> set v) vs"
  shows "splitList (join '','' vs) = vs"
proof (cases "vs = []")
  case True
  then show ?thesis by (simp add: splitList_def trim_both_def trim_left_def trim_right_def)
next
  case False
  have "map (\<lambda>p. trim_both quote_set (trim_space p)) vs = vs" "filter (\<lambda>p. p \<noteq> []) vs = vs"
    using assms by (auto simp: list_all_iff intro: map_idI)
  then show ?thesis
    using False assms split_char_join[of vs "CHR '',''"] by (simp add: splitList_def list_all_iff)
qed

lemma key_graphic: "plain k \<Longrightarrow> k \<noteq> [] \<Longrightarrow> trim_space k = k"
  by simp

lemma show_key_props:
  assumes "printable_key f"
  shows "show_key f \<noteq> []" "plain (show_key f)" "\<not> list_ex op_char (show_key f)"
    "filter_target (show_key f) = (f_field f, f_attr f)" "to_lower (show_key f) \<notin> set timeKeys"
proof -
  have *: "knownFields (to_lower (''attr.'' @ a)) = None" "prefix ''attr.'' (to_lower (''attr.'' @ a))"
    "to_lower (''attr.'' @ a) \<notin> set timeKeys" for a
    by (auto simp: knownFields_def to_lower_def lower_char_def timeKeys_def)
  have "list_all (\<lambda>k. (case knownFields (to_lower k) of Some _ \<Rightarrow> plain k \<and> \<not> list_ex op_char k | None \<Rightarrow> False)
     \<and> to_lower k \<notin> set timeKeys) [''level'', ''service'', ''source'', ''message'', ''raw'']"
    by code_simp
  then show "show_key f \<noteq> []" "plain (show_key f)" "\<not> list_ex op_char (show_key f)"
     "to_lower (show_key f) \<notin> set timeKeys"
    using assms * by (auto simp: show_key_def printable_key_def graphic_def op_char_def split: field.splits option.splits if_splits)
  have k: "filter_target ''level'' = (FieldLevel, [])" "filter_target ''service'' = (FieldService, [])"
    "filter_target ''source'' = (FieldSource, [])" "filter_target ''message'' = (FieldMessage, [])"
    "filter_target ''raw'' = (FieldRaw, [])" by code_simp+
  have a: "filter_target (''attr.'' @ a) = (FieldAttr, a)" for a
    using * by (simp add: filter_target_def Let_def)
  show "filter_target (show_key f) = (f_field f, f_attr f)"
    using assms by (cases "f_field f") (simp_all add: show_key_def k a printable_key_def del: append.simps)
qed

lemma parseFilter_show:
  assumes "printable_filter lib f"
  shows "parseFilter lib (show_filter f) = Inr (Some f)"
proof -
  have k: "printable_key f" and v: "printable_value lib f" using assms by (auto simp: printable_filter_def)
  note kp = show_key_props[OF k]
  have sp: "splitOp (show_filter f) = Some (show_op (f_op f), show_key f, show_value f)"
    unfolding show_filter_def
    by (rule splitOp_show) (use kp v in \<open>auto simp: show_op_def show_value_def printable_value_def split: op.splits\<close>)
  have va: "trim_both quote_set (trim_space (show_value f)) = show_value f"
    using plain_show_value[OF v] by simp
  have ka: "trim_space (show_key f) = show_key f" using kp(2) by simp
  have ne: "\<not> (f_field f = FieldAttr \<and> f_attr f = [])" using k by (auto simp: printable_key_def)
  have base: "parseFilter lib (show_filter f) = (case map_of filter_ops (show_op (f_op f)) of
       Some opc \<Rightarrow> Inr (Some \<lparr>f_field = f_field f, f_attr = f_attr f, f_op = opc, f_value = show_value f, f_values = []\<rparr>)
     | None \<Rightarrow> if show_op (f_op f) = ''=~'' then
           (if lib_regexp lib (show_value f) = None then Inl (InvalidRegex (show_filter f))
            else Inr (Some \<lparr>f_field = f_field f, f_attr = f_attr f, f_op = OpRegex, f_value = show_value f, f_values = []\<rparr>))
         else if show_value f = ''*'' then Inr (Some \<lparr>f_field = f_field f, f_attr = f_attr f, f_op = OpExists, f_value = [], f_values = []\<rparr>)
         else if prefix ''('' (show_value f) \<and> suffix '')'' (show_value f) then
           Inr (Some \<lparr>f_field = f_field f, f_attr = f_attr f, f_op = OpIn, f_value = [], f_values = splitList (butlast (tl (show_value f)))\<rparr>)
         else if CHR ''*'' \<in> set (show_value f) then Inr (Some \<lparr>f_field = f_field f, f_attr = f_attr f, f_op = OpLike, f_value = show_value f, f_values = []\<rparr>)
         else Inr (Some \<lparr>f_field = f_field f, f_attr = f_attr f, f_op = OpEq, f_value = show_value f, f_values = []\<rparr>))"
    unfolding parseFilter_def sp option.case prod.case Let_def ka va kp(4)
      if_not_P[OF kp(1)] if_not_P[OF ne] ..
  have ops: "map_of filter_ops ''!='' = Some OpNeq" "map_of filter_ops ''>'' = Some OpGt" "map_of filter_ops ''>='' = Some OpGte"
     "map_of filter_ops ''<'' = Some OpLt" "map_of filter_ops ''<='' = Some OpLte" "map_of filter_ops ''='' = None" "map_of filter_ops ''=~'' = None"
    by (simp_all add: filter_ops_def)
  have inv: "splitList (butlast (tl (''('' @ join '','' (f_values f) @ '')''))) = f_values f" if "f_op f = OpIn"
    using v that splitList_join[of "f_values f"] by (simp add: printable_value_def butlast_append)
  have grp: "prefix ''('' (''('' @ w @ '')'') \<and> suffix '')'' (''('' @ w @ '')'')" "''('' @ w @ '')'' \<noteq> ''*''" for w :: string
    by (simp_all add: suffix_def)
  show ?thesis
    unfolding base using v inv grp
    by (cases "f_op f") (auto simp: show_op_def show_value_def ops printable_value_def grouped_def)
qed

lemma directive_show:
  assumes "printable_filter lib f"
  shows "parseTimeDirective lib spec (show_filter f) = Inr None"
proof -
  have k: "printable_key f" and v: "printable_value lib f" using assms by (auto simp: printable_filter_def)
  note kp = show_key_props[OF k]
  have sp: "splitOp (show_filter f) = Some (show_op (f_op f), show_key f, show_value f)"
    unfolding show_filter_def
    by (rule splitOp_show) (use kp v in \<open>auto simp: show_op_def show_value_def printable_value_def split: op.splits\<close>)
  show ?thesis unfolding parseTimeDirective_def sp using kp by (simp add: Let_def)
qed

lemma parse_tokens_append:
  "parse_tokens lib q (a @ b) = try_bind (parse_tokens lib q a) (\<lambda>q'. parse_tokens lib q' b)"
proof (induction a arbitrary: q)
  case (Cons t a)
  then show ?case by (cases "parse_token lib q t") simp_all
qed simp

lemma parse_terms: "parse_tokens lib q (map quoted_tok ts) = Inr (q\<lparr>p_terms := p_terms q @ ts\<rparr>)"
  by (induction ts arbitrary: q) (simp_all add: parse_token_def)

lemma parse_filters:
  "list_all (printable_filter lib) fs \<Longrightarrow>
   parse_tokens lib q (map (\<lambda>f. bare_tok (show_filter f)) fs) = Inr (q\<lparr>p_filters := p_filters q @ fs\<rparr>)"
  by (induction fs arbitrary: q) (simp_all add: parse_token_def directive_show parseFilter_show)

lemma directive_token:
  assumes "k \<in> set timeKeys" "plain v" "v \<noteq> []" "\<not> prefix ''~'' v"
  shows "splitOp (k @ ''='' @ v) = Some (''='', k, v)" "to_lower (trim_space k) = k"
    "trim_both quote_set (trim_space v) = v"
proof -
  have "list_all (\<lambda>k. k \<noteq> [] \<and> \<not> list_ex op_char k \<and> to_lower (trim_space k) = k) timeKeys" by code_simp
  then have *: "k \<noteq> []" "\<not> list_ex op_char k" "to_lower (trim_space k) = k" using assms(1) by (auto simp: list_all_iff)
  show "splitOp (k @ ''='' @ v) = Some (''='', k, v)" by (rule splitOp_show) (use * assms in auto)
  show "to_lower (trim_space k) = k" by (rule *(3))
  show "trim_both quote_set (trim_space v) = v" using assms by simp
qed

lemma parse_directive:
  assumes "k \<in> set timeKeys" "plain v" "v \<noteq> []" "\<not> prefix ''~'' v"
  shows "parseTimeDirective lib spec (k @ ''='' @ v) =
     (if k = ''last'' then try_bind (ParseRelative v) (\<lambda>_.
          if ts_last spec \<noteq> [] then Inl (TimeTwice ''last'') else Inr (Some (spec\<lparr>ts_last := v\<rparr>)))
      else if k = ''from'' then try_bind (ParseTime lib v) (\<lambda>_.
          if ts_from spec \<noteq> [] then Inl (TimeTwice ''from'') else Inr (Some (spec\<lparr>ts_from := v\<rparr>)))
      else try_bind (ParseTime lib v) (\<lambda>_.
          if ts_to spec \<noteq> [] then Inl (TimeTwice ''to'') else Inr (Some (spec\<lparr>ts_to := v\<rparr>))))"
  using assms(1,3) unfolding parseTimeDirective_def directive_token(1)[OF assms]
  by (simp add: directive_token(2,3)[OF assms] Let_def)

lemma parse_bare_directives:
  assumes "plain v" "\<not> prefix ''~'' v"
  shows "\<lbrakk>v \<noteq> [] \<longrightarrow> is_ok (ParseRelative v); ts_last (p_time q) = []\<rbrakk> \<Longrightarrow>
      parse_tokens lib q (map bare_tok (if v = [] then [] else [''last='' @ v]))
        = Inr (q\<lparr>p_time := (p_time q)\<lparr>ts_last := v\<rparr>\<rparr>)"
    "\<lbrakk>v \<noteq> [] \<longrightarrow> is_ok (ParseTime lib v); ts_from (p_time q) = []\<rbrakk> \<Longrightarrow>
      parse_tokens lib q (map bare_tok (if v = [] then [] else [''from='' @ v]))
        = Inr (q\<lparr>p_time := (p_time q)\<lparr>ts_from := v\<rparr>\<rparr>)"
    "\<lbrakk>v \<noteq> [] \<longrightarrow> is_ok (ParseTime lib v); ts_to (p_time q) = []\<rbrakk> \<Longrightarrow>
      parse_tokens lib q (map bare_tok (if v = [] then [] else [''to='' @ v]))
        = Inr (q\<lparr>p_time := (p_time q)\<lparr>ts_to := v\<rparr>\<rparr>)"
  using assms parse_directive[of "''last''" v lib "p_time q"] parse_directive[of "''from''" v lib "p_time q"]
    parse_directive[of "''to''" v lib "p_time q"]
  by (cases q; cases "p_time q"; cases "v = []"; auto simp: is_ok_iff parse_token_def timeKeys_def)+

lemma parse_directives:
  assumes "printable_time lib t" "p_time q = empty_timespec"
  shows "parse_tokens lib q (map bare_tok (show_directives t)) = Inr (q\<lparr>p_time := t\<rparr>)"
  using assms unfolding show_directives_def map_append parse_tokens_append printable_time_def
  by (simp add: parse_bare_directives empty_timespec_def del: map_append)

section \<open>Properties\<close>

text \<open>C39. Round trip of the language: printing any abstract query (quoted terms, filters of every
  operator, time directives) and parsing the text gives back exactly that query.  The side
  conditions of \<open>printable\<close> name what the syntax cannot express, such as a quote in a value.\<close>

theorem Parse_show: "printable lib p \<Longrightarrow> Parse lib (show_parsed p) = Inr p"
proof -
  assume p: "printable lib p"
  then have f: "list_all (printable_filter lib) (p_filters p)" and d: "printable_time lib (p_time p)"
    by (auto simp: printable_def)
  show ?thesis
    unfolding Parse_def tokenize_show[OF p]
    by (simp add: parse_tokens_append parse_terms parse_filters[OF f] parse_directives[OF d] empty_parsed_def)
qed

definition sample_query :: parsed where
  "sample_query = \<lparr>p_terms = [''connection refused''],
     p_filters = [\<lparr>f_field = FieldLevel, f_attr = [], f_op = OpIn, f_value = [], f_values = [''error'', ''warn'']\<rparr>,
       \<lparr>f_field = FieldAttr, f_attr = ''status'', f_op = OpGte, f_value = ''500'', f_values = []\<rparr>],
     p_time = \<lparr>ts_last = [], ts_from = ''100'', ts_to = []\<rparr>\<rparr>"

theorem Parse_show_witness: "Parse ascii_lib (show_parsed sample_query) = Inr sample_query"
proof (rule Parse_show)
  have "ParseTime ascii_lib ''100'' = Inr (unix_seconds 100)" by code_simp
  then show "printable ascii_lib sample_query"
    unfolding printable_def printable_time_def
    by (simp add: sample_query_def) code_simp
qed

text \<open>What a filter that \<^verbatim>\<open>Parse\<close> accepted may be relied on for: its field is set, an
  attribute filter has a key and no other filter has one, a regular expression compiles, a set
  holds no empty value, a glob has a star and an equality none.\<close>

definition filter_ok :: "golib \<Rightarrow> filter_t \<Rightarrow> bool" where
  "filter_ok lib f \<longleftrightarrow> f_field f \<noteq> FieldNone \<and> (f_field f = FieldAttr \<longleftrightarrow> f_attr f \<noteq> []) \<and>
     (f_op f \<noteq> OpIn \<longrightarrow> f_values f = []) \<and> (f_op f = OpIn \<longrightarrow> f_value f = [] \<and> [] \<notin> set (f_values f)) \<and>
     (f_op f = OpRegex \<longrightarrow> lib_regexp lib (f_value f) \<noteq> None) \<and>
     (f_op f = OpEq \<longrightarrow> CHR ''*'' \<notin> set (f_value f)) \<and> (f_op f = OpLike \<longrightarrow> CHR ''*'' \<in> set (f_value f))"

definition time_ok :: "golib \<Rightarrow> timespec \<Rightarrow> bool" where
  "time_ok lib t \<longleftrightarrow> (ts_last t \<noteq> [] \<longrightarrow> is_ok (ParseRelative (ts_last t))) \<and>
     (ts_from t \<noteq> [] \<longrightarrow> is_ok (ParseTime lib (ts_from t))) \<and>
     (ts_to t \<noteq> [] \<longrightarrow> is_ok (ParseTime lib (ts_to t)))"

definition parsed_ok :: "golib \<Rightarrow> parsed \<Rightarrow> bool" where
  "parsed_ok lib q \<longleftrightarrow> list_all (filter_ok lib) (p_filters q) \<and> time_ok lib (p_time q)"

lemma filter_target_ok:
  "filter_target key = (fld, attr) \<Longrightarrow> fld \<noteq> FieldNone \<and> (fld \<noteq> FieldAttr \<longrightarrow> attr = [])"
  by (auto simp: filter_target_def knownFields_def Let_def split: option.splits if_splits)

lemma filter_ops_range: "map_of filter_ops opr = Some opc \<Longrightarrow> opc \<notin> {OpIn, OpRegex, OpEq, OpLike}"
  by (auto simp: filter_ops_def split: if_splits)

lemma splitList_ne: "[] \<notin> set (splitList s)"
  by (simp add: splitList_def)

lemma parseFilter_cases:
  assumes "parseFilter lib tok = Inr (Some f)"
  obtains opr key0 val0 val where "splitOp tok = Some (opr, key0, val0)"
    "filter_target (trim_space key0) = (f_field f, f_attr f)" "f_field f = FieldAttr \<longrightarrow> f_attr f \<noteq> []"
    "map_of filter_ops opr = Some (f_op f) \<and> f_value f = val \<and> f_values f = []
     \<or> f_op f = OpRegex \<and> lib_regexp lib val \<noteq> None \<and> f_value f = val \<and> f_values f = []
     \<or> f_op f = OpExists \<and> f_value f = [] \<and> f_values f = []
     \<or> f_op f = OpIn \<and> f_value f = [] \<and> f_values f = splitList (butlast (tl val))
     \<or> f_op f = OpLike \<and> CHR ''*'' \<in> set val \<and> f_value f = val \<and> f_values f = []
     \<or> f_op f = OpEq \<and> CHR ''*'' \<notin> set val \<and> f_value f = val \<and> f_values f = []"
proof -
  obtain opr key0 val0 where sp: "splitOp tok = Some (opr, key0, val0)"
    using assms by (auto simp: parseFilter_def split: option.splits)
  obtain fld attr where ft: "filter_target (trim_space key0) = (fld, attr)" by fastforce
  show ?thesis
    using assms sp ft
    by (intro that[of opr key0 val0 "trim_both quote_set (trim_space val0)"])
       (cases f; auto simp: parseFilter_def Let_def split: if_split_asm option.split_asm)+
qed

lemma parseFilter_ok: "parseFilter lib tok = Inr (Some f) \<Longrightarrow> filter_ok lib f"
  by (erule parseFilter_cases)
     (use filter_target_ok filter_ops_range splitList_ne in \<open>fastforce simp: filter_ok_def\<close>)

lemma parseTimeDirective_ok:
  "parseTimeDirective lib spec tok = Inr (Some spec') \<Longrightarrow> time_ok lib spec \<Longrightarrow> time_ok lib spec'"
  by (auto simp: parseTimeDirective_def time_ok_def Let_def try_bind_Inr
      split: option.splits prod.splits if_splits)

lemma parse_token_ok: "parse_token lib q t = Inr q' \<Longrightarrow> parsed_ok lib q \<Longrightarrow> parsed_ok lib q'"
  using parseFilter_ok parseTimeDirective_ok
  by (fastforce simp: parse_token_def parsed_ok_def try_bind_Inr split: option.splits if_splits)

lemma parse_tokens_ok: "parse_tokens lib q ts = Inr q' \<Longrightarrow> parsed_ok lib q \<Longrightarrow> parsed_ok lib q'"
  using parse_token_ok by (induction ts arbitrary: q) (auto simp: try_bind_Inr)

lemma Parse_parsed_ok:
  assumes "Parse lib expr = Inr q"
  shows "parsed_ok lib q"
proof -
  obtain ts where "parse_tokens lib empty_parsed ts = Inr q"
    using assms by (auto simp: Parse_def try_bind_Inr)
  moreover have "parsed_ok lib empty_parsed"
    by (simp add: parsed_ok_def empty_parsed_def time_ok_def empty_timespec_def)
  ultimately show ?thesis by (rule parse_tokens_ok)
qed

text \<open>Every query \<^verbatim>\<open>Parse\<close> accepts is well formed: each filter satisfies
  \<open>filter_ok\<close>, and each time directive it recorded resolves, so that \<^verbatim>\<open>Build\<close> can not fail on
  a directive later.\<close>

theorem Parse_ok:
  "Parse lib expr = Inr q \<Longrightarrow> list_all (filter_ok lib) (p_filters q) \<and> time_ok lib (p_time q)"
  using Parse_parsed_ok by (simp add: parsed_ok_def)

theorem Parse_ok_witness:
  "\<exists>q. Parse ascii_lib ''service=api* attr.x=~foo bar'' = Inr q \<and> length (p_filters q) = 2
     \<and> list_all (filter_ok ascii_lib) (p_filters q)"
proof -
  have "case Parse ascii_lib ''service=api* attr.x=~foo bar'' of Inr q \<Rightarrow> length (p_filters q) = 2
     | Inl e \<Rightarrow> False" by code_simp
  then obtain q where "Parse ascii_lib ''service=api* attr.x=~foo bar'' = Inr q" "length (p_filters q) = 2"
    by (auto split: sum.splits)
  with Parse_ok[of ascii_lib "''service=api* attr.x=~foo bar''" q] show ?thesis by blast
qed

lemma rel_scale_props: "rel_scale u = Some scale \<Longrightarrow> 0 < scale \<and> i64_range (MaxRelative div scale * scale)
    \<and> MaxRelative div scale * scale = MaxRelative"
  by (auto simp: rel_scale_def MaxRelative_def duration_defs i64_range_def split: if_splits)

text \<open>Relative durations are exact and bounded.  A digit string and a unit letter denote
  count times unit; the bound check before the multiplication makes the \<^verbatim>\<open>int64\<close> product exact,
  so no accepted duration is negative or exceeds a century, and every count within it is accepted.\<close>

theorem ParseRelative_exact:
  assumes "rel_scale u = Some scale" "0 \<le> n" "i64_range n"
  shows "ParseRelative (show_int n @ [u]) =
    (if n * scale \<le> MaxRelative then Inr (n * scale) else Inl (RelativeTooLarge (show_int n @ [u])))"
proof -
  obtain c cs where c: "show_int n = c # cs" "is_digit c"
    using show_nat_hd[of "nat n"] assms(2) by (auto simp: show_int_def)
  have "graphic u" using assms(1) by (auto simp: rel_scale_def graphic_def split: if_splits)
  then have t: "trim_space (show_int n @ [u]) = show_int n @ [u]"
    using c by (intro trim_space_id) (auto simp: digit_graphic)
  have sc: "0 < scale" "i64_range MaxRelative"
    "MaxRelative div scale * scale = MaxRelative"
    using rel_scale_props[OF assms(1)] by auto
  have iff: "n > MaxRelative div scale \<longleftrightarrow> \<not> n * scale \<le> MaxRelative"
  proof -
    have "n \<le> MaxRelative div scale \<longleftrightarrow> n * scale \<le> MaxRelative div scale * scale"
      using sc(1) by simp
    then show ?thesis using sc(3) by (simp add: not_le [symmetric])
  qed
  have "i64_range (n * scale)" if "n * scale \<le> MaxRelative"
  proof -
    have "0 \<le> n * scale" using assms(2) sc(1) by simp
    then show ?thesis using that sc(2) by (simp add: i64_range_def)
  qed
  then show ?thesis
    using assms iff by (simp add: ParseRelative_def t Let_def)
qed

theorem ParseRelative_exact_witness:
  "ParseRelative ''90m'' = Inr (90 * minute) \<and> rel_scale (CHR ''m'') = Some minute"
proof -
  have s: "show_int 90 = ''90''" "rel_scale (CHR ''m'') = Some minute" by code_simp+
  have "90 * minute \<le> MaxRelative" by (simp add: duration_defs MaxRelative_def)
  then show ?thesis
    using ParseRelative_exact[of "CHR ''m''" minute 90] s by (simp add: i64_range_def)
qed

lemma ParseRelative_range:
  assumes "ParseRelative s = Inr d"
  shows "0 \<le> d \<and> d \<le> MaxRelative"
proof -
  obtain n scale where n: "0 \<le> n" "rel_scale (last (trim_space s)) = Some scale"
      "n \<le> MaxRelative div scale" "d = i64 (n * scale)"
    using assms by (auto simp: ParseRelative_def Let_def not_less split: if_split_asm option.split_asm)
  note sc = rel_scale_props[OF n(2)]
  have "n * scale \<le> MaxRelative" "0 \<le> n * scale"
    using n(1) mult_right_mono[OF n(3), of scale] sc by auto
  moreover from this have "i64_range (n * scale)" using sc by (simp add: i64_range_def del: mult_eq_0_iff)
  ultimately show ?thesis using n(4) sc by simp
qed

text \<open>No accepted relative duration is negative or longer than a century, whatever the input.\<close>

theorem ParseRelative_bounds: "ParseRelative s = Inr d \<Longrightarrow> 0 \<le> d \<and> d \<le> MaxRelative"
  by (rule ParseRelative_range)

theorem ParseRelative_bounds_witness: "(0 :: int) \<le> 2 * hour \<and> 2 * hour \<le> MaxRelative"
proof (rule ParseRelative_bounds[of "''2h''"])
  have s: "show_int 2 = ''2''" "rel_scale (CHR ''h'') = Some hour" by code_simp+
  have r: "i64_range 2" "2 * hour \<le> MaxRelative" by (simp_all add: i64_range_def duration_defs MaxRelative_def)
  have t: "trim_space ''2h'' = ''2h''" by code_simp
  have "parse_int ''2'' = Some 2" using parse_int_show[OF r(1)] s(1) by simp
  moreover have "\<not> 2 > MaxRelative div hour" "i64 (2 * hour) = 2 * hour"
    by (simp_all add: duration_defs MaxRelative_def i64_range_def)
  ultimately show "ParseRelative ''2h'' = Inr (2 * hour)"
    by (simp add: ParseRelative_def t s(2) Let_def)
qed

end
