(* ===== verification/Query.thy ===== *)
theory Query
  imports QueryLang
begin

text \<open>
  The rest of \<^verbatim>\<open>internal/query\<close>'s front half: pipeline stages (\<^verbatim>\<open>agg.go\<close>), the pagination
  cursor (\<^verbatim>\<open>cursor.go\<close>, over unpadded URL-safe base 64), and \<^verbatim>\<open>Params.Build\<close>
  (\<^verbatim>\<open>build.go\<close>), which resolves the strings of a request into a normalised \<open>query\<close>.
  Lemmas: what a built query guarantees, which source decides each time bound, the cursor
  round trip, and how expressions are cut at pipe signs.
\<close>

section \<open>Aggregation stages\<close>

datatype aggfunc = FuncCount | FuncSum | FuncAvg | FuncMin | FuncMax | FuncDistinct
datatype aggkind = KindStats | KindTimechart | KindTop | KindRare

record fieldref =
  r_field :: field
  r_attr :: string
  r_name :: string

record aggexpr =
  x_func :: aggfunc
  x_ref :: fieldref
  x_alias :: string

record aggregation =
  a_kind :: aggkind
  a_exprs :: "aggexpr list"
  a_group_by :: "fieldref list"
  a_span :: duration
  a_limit :: int

definition no_ref :: fieldref where
  "no_ref = \<lparr>r_field = FieldNone, r_attr = [], r_name = []\<rparr>"

definition DefaultTopLimit :: int where "DefaultTopLimit = 10"
definition MaxGroups :: int where "MaxGroups = 1000"
definition defaultTimechartSpan :: duration where "defaultTimechartSpan = minute"

definition agg_funcs :: "(string \<times> aggfunc) list" where
  "agg_funcs = [(''count'', FuncCount), (''sum'', FuncSum), (''avg'', FuncAvg), (''min'', FuncMin),
     (''max'', FuncMax), (''dc'', FuncDistinct)]"

definition agg_kinds :: "(string \<times> aggkind) list" where
  "agg_kinds = [(''stats'', KindStats), (''timechart'', KindTimechart), (''top'', KindTop),
     (''rare'', KindRare)]"

record splitter =
  sp_parts :: "string list"
  sp_b :: string
  sp_in_quote :: bool

definition split_rune :: "splitter \<Rightarrow> string \<Rightarrow> splitter" where
  "split_rune s r =
     (if r = [CHR 0x22] then s\<lparr>sp_in_quote := \<not> sp_in_quote s, sp_b := sp_b s @ r\<rparr>
      else if r = ''|'' \<and> \<not> sp_in_quote s then s\<lparr>sp_parts := sp_parts s @ [sp_b s], sp_b := []\<rparr>
      else s\<lparr>sp_b := sp_b s @ r\<rparr>)"

definition SplitPipeline :: "string \<Rightarrow> string list" where
  "SplitPipeline expr =
     (let s = foldl split_rune \<lparr>sp_parts = [], sp_b = [], sp_in_quote = False\<rparr> (runes expr)
      in sp_parts s @ [sp_b s])"

definition splitCommaList :: "string list \<Rightarrow> string list" where
  "splitCommaList tokens =
     filter (\<lambda>p. p \<noteq> []) (map trim_space (concat (map (split_char (CHR '','')) tokens)))"

definition resolveRef :: "string \<Rightarrow> fieldref" where
  "resolveRef name0 =
     (let name = trim_space name0; lower = to_lower name
      in case knownFields lower of
           Some f \<Rightarrow> \<lparr>r_field = f, r_attr = [], r_name = lower\<rparr>
         | None \<Rightarrow> let attr = (if prefix ''attr.'' lower then drop 5 name else name)
                   in \<lparr>r_field = FieldAttr, r_attr = attr, r_name = attr\<rparr>)"

definition count_expr :: aggexpr where
  "count_expr = \<lparr>x_func = FuncCount, x_ref = no_ref, x_alias = ''count''\<rparr>"

definition parseAggExpr :: "string \<Rightarrow> query_error + aggexpr" where
  "parseAggExpr s0 =
     (let s = trim_space s0; lower = to_lower s
      in if lower = ''count'' \<or> lower = ''count()'' then Inr count_expr
         else case index_byte (CHR ''('') s of
             None \<Rightarrow> Inl (UnknownAggregation s)
           | Some i \<Rightarrow>
               if \<not> suffix '')'' s then Inl (UnknownAggregation s)
               else let name = to_lower (trim_space (take i s));
                        arg = trim_space (drop (i + 1) (butlast s))
                    in if arg = [] then
                         (if name = ''count'' then Inr count_expr else Inl (AggNeedsField name))
                       else case map_of agg_funcs name of
                           None \<Rightarrow> Inl (UnknownAggFunc name)
                         | Some f \<Rightarrow> let ref = resolveRef arg
                             in Inr \<lparr>x_func = f, x_ref = ref, x_alias = name @ ''('' @ r_name ref @ '')''\<rparr>)"

text \<open>\<open>try_map f xs\<close>: apply \<open>f\<close> to every element, stopping at the first error.\<close>

fun try_map :: "('a \<Rightarrow> 'e + 'b) \<Rightarrow> 'a list \<Rightarrow> 'e + 'b list" where
  "try_map f [] = Inr []"
| "try_map f (x # xs) = try_bind (f x) (\<lambda>y. try_bind (try_map f xs) (\<lambda>ys. Inr (y # ys)))"

fun take_span :: "aggkind \<Rightarrow> duration \<Rightarrow> string list \<Rightarrow> query_error + duration \<times> string list" where
  "take_span kind span [] = Inr (span, [])"
| "take_span kind span (a # args) =
     (if \<not> prefix ''span='' (to_lower a) then Inr (span, a # args)
      else if kind \<noteq> KindTimechart then Inl SpanNotTimechart
      else case ParseRelative (drop 5 a) of
          Inl e \<Rightarrow> Inl (InvalidSpan e)
        | Inr d \<Rightarrow> if d \<le> 0 then Inl ZeroSpan else take_span kind d args)"

definition parseStats :: "aggkind \<Rightarrow> string list \<Rightarrow> query_error + aggregation" where
  "parseStats kind args0 =
     try_bind (take_span kind (if kind = KindTimechart then defaultTimechartSpan else 0) args0)
       (\<lambda>(span, args).
         let measures = takeWhile (\<lambda>f. \<not> equal_fold f ''by'') args;
             groups = drop 1 (dropWhile (\<lambda>f. \<not> equal_fold f ''by'') args)
         in if measures = [] then Inl NoMeasures
            else try_bind (try_map parseAggExpr (splitCommaList measures)) (\<lambda>exprs.
              let gs = map resolveRef (splitCommaList groups)
              in if kind = KindTimechart \<and> length gs > 1 then Inl ManyTimechartGroups
                 else Inr \<lparr>a_kind = kind, a_exprs = exprs, a_group_by = gs, a_span = span,
                        a_limit = 0\<rparr>))"

text \<open>The part of \<^verbatim>\<open>parseTopRare\<close> after the optional count.\<close>

definition parse_top_refs :: "aggkind \<Rightarrow> int \<Rightarrow> string list \<Rightarrow> query_error + aggregation" where
  "parse_top_refs kind limit args =
     (let refs = splitCommaList args
      in if refs = [] then Inl TopNeedsField
         else Inr \<lparr>a_kind = kind, a_exprs = [count_expr], a_group_by = map resolveRef refs,
                a_span = 0, a_limit = (if limit > MaxGroups then MaxGroups else limit)\<rparr>)"

definition parseTopRare :: "aggkind \<Rightarrow> string list \<Rightarrow> query_error + aggregation" where
  "parseTopRare kind args =
     (case (case args of [] \<Rightarrow> None | a # _ \<Rightarrow> parse_int a) of
        Some n \<Rightarrow> if n \<le> 0 then Inl TopCountNotPositive else parse_top_refs kind n (tl args)
      | None \<Rightarrow> parse_top_refs kind DefaultTopLimit args)"

definition ParseAggregation :: "string \<Rightarrow> query_error + aggregation" where
  "ParseAggregation stage =
     (case go_fields stage of
        [] \<Rightarrow> Inl EmptyStage
      | c # args \<Rightarrow>
          (case map_of agg_kinds (to_lower c) of
             None \<Rightarrow> Inl (UnknownCommand c)
           | Some kind \<Rightarrow> if kind = KindStats \<or> kind = KindTimechart then parseStats kind args
               else parseTopRare kind args))"

definition Agg_Normalize :: "aggregation \<Rightarrow> aggregation" where
  "Agg_Normalize a0 =
     (let a = (if a_kind a0 = KindTimechart \<and> a_span a0 \<le> 0 then a0\<lparr>a_span := defaultTimechartSpan\<rparr> else a0)
      in if a_limit a \<le> 0 \<or> a_limit a > MaxGroups then a\<lparr>a_limit := MaxGroups\<rparr> else a)"

definition Columns :: "aggregation \<Rightarrow> string list" where
  "Columns a = (if a_kind a = KindTimechart then [''bucket''] else [])
     @ map r_name (a_group_by a) @ map x_alias (a_exprs a)"

section \<open>Cursors\<close>

text \<open>\<^verbatim>\<open>base64.RawURLEncoding\<close> on numbers: sextets on one side, bytes on the other.\<close>

definition b64_alphabet :: string where
  "b64_alphabet = ''ABCDEFGHIJKLMNOPQRSTUVWXYZabcdefghijklmnopqrstuvwxyz0123456789-_''"

fun b64_enc :: "nat list \<Rightarrow> nat list" where
  "b64_enc [] = []"
| "b64_enc [a] = [a div 4, a mod 4 * 16]"
| "b64_enc [a, b] = [a div 4, a mod 4 * 16 + b div 16, b mod 16 * 4]"
| "b64_enc (a # b # c # r) =
     [a div 4, a mod 4 * 16 + b div 16, b mod 16 * 4 + c div 64, c mod 64] @ b64_enc r"

fun b64_dec :: "nat list \<Rightarrow> nat list option" where
  "b64_dec [] = Some []"
| "b64_dec [w] = None"
| "b64_dec [w, x] = Some [w * 4 + x div 16]"
| "b64_dec [w, x, y] = Some [w * 4 + x div 16, x mod 16 * 16 + y div 4]"
| "b64_dec (w # x # y # z # r) =
     map_option (\<lambda>bs. [w * 4 + x div 16, x mod 16 * 16 + y div 4, y mod 4 * 64 + z] @ bs) (b64_dec r)"

definition b64_encode :: "string \<Rightarrow> string" where
  "b64_encode s = map ((!) b64_alphabet) (b64_enc (map of_char s))"

text \<open>The decoder skips carriage returns and newlines and ignores left-over low bits.\<close>

definition b64_decode :: "string \<Rightarrow> string option" where
  "b64_decode s =
     (let t = filter (\<lambda>c. c \<noteq> CHR 0x0A \<and> c \<noteq> CHR 0x0D) s;
          vs = map (\<lambda>c. index_byte c b64_alphabet) t
      in if None \<in> set vs then None else map_option (map char_of) (b64_dec (map the vs)))"

definition EncodeCursor :: "time \<Rightarrow> string \<Rightarrow> string" where
  "EncodeCursor ts eid = b64_encode (show_int (i64 ts) @ ''|'' @ eid)"

definition DecodeCursor :: "string \<Rightarrow> query_error + time \<times> string" where
  "DecodeCursor s =
     (case b64_decode s of
        None \<Rightarrow> Inl InvalidCursor
      | Some b \<Rightarrow>
          (case index_byte (CHR ''|'') b of
             None \<Rightarrow> Inl InvalidCursor
           | Some i \<Rightarrow> (case parse_int (take i b) of
                 None \<Rightarrow> Inl InvalidCursor
               | Some ns \<Rightarrow> Inr (ns, drop (i + 1) b))))"

section \<open>Queries\<close>

datatype order = OrderUnset | OrderNewest | OrderOldest

record query =
  q_terms :: "string list"
  q_filters :: "filter_t list"
  q_time :: timespec
  q_from :: time
  q_to :: time
  q_limit :: int
  q_order :: order
  q_interval :: duration
  q_after_ts :: time
  q_after_id :: string
  q_agg :: "aggregation option"

definition DefaultLimit :: int where "DefaultLimit = 100"
definition MaxLimit :: int where "MaxLimit = 5000"

definition Query_Normalize :: "query \<Rightarrow> query" where
  "Query_Normalize q0 =
     (let q1 = (if q_limit q0 \<le> 0 then q0\<lparr>q_limit := DefaultLimit\<rparr> else q0);
          q2 = (if q_limit q1 > MaxLimit then q1\<lparr>q_limit := MaxLimit\<rparr> else q1);
          q3 = (if q_order q2 \<noteq> OrderOldest then q2\<lparr>q_order := OrderNewest\<rparr> else q2)
      in q3\<lparr>q_agg := map_option Agg_Normalize (q_agg q3)\<rparr>)"

record params =
  pa_q :: string
  pa_from :: string
  pa_to :: string
  pa_last :: string
  pa_limit :: string
  pa_order :: string
  pa_interval :: string
  pa_after :: string

definition query_of_parsed :: "parsed \<Rightarrow> query" where
  "query_of_parsed p = \<lparr>q_terms = p_terms p, q_filters = p_filters p, q_time = p_time p,
     q_from = zero_time, q_to = zero_time, q_limit = 0, q_order = OrderUnset, q_interval = 0,
     q_after_ts = zero_time, q_after_id = [], q_agg = None\<rparr>"

fun build_stages :: "query \<Rightarrow> string list \<Rightarrow> query_error + query" where
  "build_stages q [] = Inr q"
| "build_stages q (stage # stages) =
     (if trim_space stage = [] then build_stages q stages
      else if q_agg q \<noteq> None then Inl ManyAggregations
      else try_bind (ParseAggregation stage) (\<lambda>agg. build_stages (q\<lparr>q_agg := Some agg\<rparr>) stages))"

definition build_to :: "golib \<Rightarrow> params \<Rightarrow> query \<Rightarrow> query_error + query" where
  "build_to lib p q =
     (let toExpr = (if ts_to (q_time q) = [] then pa_to p else ts_to (q_time q))
      in if toExpr = [] then Inr q
         else try_bind (ParseTime lib toExpr) (\<lambda>t. Inr (q\<lparr>q_to := t\<rparr>)))"

definition build_from :: "golib \<Rightarrow> time \<Rightarrow> params \<Rightarrow> query \<Rightarrow> query_error + query" where
  "build_from lib now p q =
     (let (fromExpr, lastExpr) =
            (if HasLowerBound (q_time q) then (ts_from (q_time q), ts_last (q_time q))
             else (pa_from p, pa_last p))
      in if fromExpr \<noteq> [] then try_bind (ParseTime lib fromExpr) (\<lambda>t. Inr (q\<lparr>q_from := t\<rparr>))
         else if lastExpr \<noteq> [] then
           try_bind (ParseRelative lastExpr) (\<lambda>d.
             let upper = (if is_zero (q_to q) then now else q_to q)
             in Inr (q\<lparr>q_from := upper - d\<rparr>))
         else Inr q)"

definition build_limit :: "params \<Rightarrow> query \<Rightarrow> query_error + query" where
  "build_limit p q =
     (if pa_limit p = [] then Inr q
      else case parse_int (pa_limit p) of
          None \<Rightarrow> Inl (InvalidLimit (pa_limit p))
        | Some n \<Rightarrow> Inr (q\<lparr>q_limit := n\<rparr>))"

definition build_rest :: "params \<Rightarrow> query \<Rightarrow> query_error + query" where
  "build_rest p q0 =
     (let q = (if pa_order p = ''oldest'' then q0\<lparr>q_order := OrderOldest\<rparr> else q0)
      in try_bind (if pa_interval p = [] then Inr q
                   else try_bind (ParseRelative (pa_interval p)) (\<lambda>d. Inr (q\<lparr>q_interval := d\<rparr>)))
           (\<lambda>q. if pa_after p = [] then Inr q
                else try_bind (DecodeCursor (pa_after p)) (\<lambda>(ts, id).
                  Inr (q\<lparr>q_after_ts := ts, q_after_id := id\<rparr>))))"

definition Build :: "golib \<Rightarrow> params \<Rightarrow> time \<Rightarrow> query_error + query" where
  "Build lib p now =
     (let segments = SplitPipeline (pa_q p)
      in try_bind (Parse lib (hd segments)) (\<lambda>pq.
         try_bind (build_stages (query_of_parsed pq) (tl segments)) (\<lambda>q.
         try_bind (build_to lib p q) (\<lambda>q.
         try_bind (build_from lib now p q) (\<lambda>q.
         try_bind (build_limit p q) (\<lambda>q.
         try_bind (build_rest p q) (\<lambda>q. Inr (Query_Normalize q))))))))"

lemma utf8_len_high: "utf8_len bs = n \<Longrightarrow> n \<noteq> 1 \<Longrightarrow> b \<in> set (take n bs) \<Longrightarrow> 128 \<le> b"
  by (cases bs) (auto simp: cont_def split: if_splits list.splits)

lemma runes_high:
  "r \<in> set (runes s) \<Longrightarrow> (\<exists>c. r = [c]) \<or> (\<forall>c\<in>set r. 128 \<le> (of_char c :: nat))"
proof (induction s rule: runes.induct)
  case (1 s)
  show ?case
  proof (cases "s = [] \<or> r \<notin> {rune_error, take (rune_width s) s}")
    case True
    with 1 show ?thesis by (subst (asm) (3) runes.simps) (auto split: if_splits)
  next
    case False
    have "\<forall>c\<in>set rune_error. 128 \<le> (of_char c :: nat)" by (simp add: rune_error_def)
    moreover have "\<forall>c\<in>set (take (rune_width s) s). 128 \<le> (of_char c :: nat)" if "rune_width s \<noteq> 1"
    proof
      fix c assume c: "c \<in> set (take (rune_width s) s)"
      have le: "rune_width s \<le> 4"
        unfolding rune_width_def by (cases "map of_char (take 4 s) :: nat list") (auto split: list.splits)
      then have "take (rune_width s) s = take (rune_width s) (take 4 s)" by (simp add: min_absorb1)
      with c have "of_char c \<in> set (take (rune_width s) (map of_char (take 4 s) :: nat list))"
        by (simp add: take_map)
      then show "128 \<le> (of_char c :: nat)"
        using utf8_len_high[OF rune_width_def[symmetric] that] by blast
    qed
    moreover have "\<exists>c. take 1 s = [c]" using False by (cases s) auto
    ultimately show ?thesis
      using False by (cases "r = rune_error"; cases "rune_width s = 1") auto
  qed
qed

lemma runes_ascii_byte: "r \<in> set (runes s) \<Longrightarrow> of_char c < (128 :: nat) \<Longrightarrow> r \<noteq> [c] \<Longrightarrow> c \<notin> set r"
  using runes_high[of r s] by fastforce
section \<open>Cursor round trip\<close>

lemma b64_dec_enc: "list_all (\<lambda>b. b < 256) bs \<Longrightarrow> b64_dec (b64_enc bs) = Some bs"
proof (induction bs rule: b64_enc.induct)
  case (4 a b c r)
  have "a div 4 * 4 + (a mod 4 * 16 + b div 16) div 16 = a" "(a mod 4 * 16 + b div 16) mod 16 * 16 + (b mod 16 * 4 + c div 64) div 4 = b"
    "(b mod 16 * 4 + c div 64) mod 4 * 64 + c mod 64 = c"
    using 4(2) by (auto simp: div_add1_eq mod_add_eq)
  with 4 show ?case by simp
qed (auto simp: div_add1_eq)

lemma b64_enc_less: "list_all (\<lambda>b. b < 256) bs \<Longrightarrow> list_all (\<lambda>d. d < 64) (b64_enc bs)"
proof (induction bs rule: b64_enc.induct)
  case (4 a b c r)
  then have "a div 4 < 64" "b div 16 < 16" "c div 64 < 4" "a mod 4 \<le> 3" "b mod 16 \<le> 15" by auto
  with 4 show ?case by auto
next
  case (2 a)
  then have "a div 4 < 64" "a mod 4 \<le> 3" by auto
  then show ?case by simp
next
  case (3 a b)
  then have "a div 4 < 64" "b div 16 < 16" "a mod 4 \<le> 3" "b mod 16 \<le> 15" by auto
  then show ?case by simp
qed simp

lemma b64_alphabet_index:
  assumes "n < 64"
  shows "index_byte (b64_alphabet ! n) b64_alphabet = Some n" "b64_alphabet ! n \<noteq> CHR 0x0A"
    "b64_alphabet ! n \<noteq> CHR 0x0D"
proof -
  have "list_all (\<lambda>n. index_byte (b64_alphabet ! n) b64_alphabet = Some n \<and> b64_alphabet ! n \<noteq> CHR 0x0A
    \<and> b64_alphabet ! n \<noteq> CHR 0x0D) [0..<64]" by code_simp
  with assms show "index_byte (b64_alphabet ! n) b64_alphabet = Some n" "b64_alphabet ! n \<noteq> CHR 0x0A"
    "b64_alphabet ! n \<noteq> CHR 0x0D" unfolding list_all_iff by auto
qed

lemma b64_decode_encode: "b64_decode (b64_encode s) = Some s"
proof -
  let ?d = "b64_enc (map of_char s)"
  have b: "list_all (\<lambda>b. b < 256) (map (of_char :: char \<Rightarrow> nat) s)" by (simp add: list_all_iff)
  note lt = b64_enc_less[OF b]
  have f: "filter (\<lambda>c. c \<noteq> CHR 0x0A \<and> c \<noteq> CHR 0x0D) (map ((!) b64_alphabet) ?d) = map ((!) b64_alphabet) ?d"
    using lt b64_alphabet_index by (auto simp: list_all_iff filter_id_conv)
  have v: "map (\<lambda>c. index_byte c b64_alphabet) (map ((!) b64_alphabet) ?d) = map Some ?d"
    using lt b64_alphabet_index(1) by (simp add: list_all_iff)
  show ?thesis
    unfolding b64_decode_def b64_encode_def Let_def f v
    by (auto simp: b64_dec_enc[OF b] comp_def)
qed

text \<open>Pagination cursors round-trip: decoding an encoded cursor returns the same instant and
  the same event ID, whatever bytes the ID consists of.\<close>

theorem Cursor_roundtrip:
  assumes "i64_range ts"
  shows "DecodeCursor (EncodeCursor ts eid) = Inr (ts, eid)"
proof -
  have "CHR ''|'' \<notin> set (show_int ts)" by (rule show_int_no_char) (simp_all add: is_digit_def)
  then have "index_byte (CHR ''|'') (show_int ts @ ''|'' @ eid) = Some (length (show_int ts))"
    using index_byte_append[of "CHR ''|''" "show_int ts" eid] by simp
  then show ?thesis
    using assms by (simp add: DecodeCursor_def EncodeCursor_def b64_decode_encode)
qed

theorem Cursor_roundtrip_witness: "DecodeCursor (EncodeCursor 1700000000 ''a|b'') = Inr (1700000000, ''a|b'')"
  by (rule Cursor_roundtrip) (simp add: i64_range_def)

section \<open>Cutting the expression at pipe signs\<close>

lemma join_snoc: "xs \<noteq> [] \<Longrightarrow> join sep (xs @ [y]) = join sep xs @ sep @ y"
  by (induction sep xs rule: join.induct) auto

lemma join_snoc_extend: "join sep (xs @ [y @ z]) = join sep (xs @ [y]) @ z"
  by (cases "xs = []") (auto simp: join_snoc)

definition split_text :: "splitter \<Rightarrow> string" where
  "split_text s = join ''|'' (sp_parts s @ [sp_b s])"

lemma split_rune_text: "split_text (split_rune s r) = split_text s @ r"
  by (auto simp: split_text_def split_rune_def join_snoc join_snoc_extend)
     (use join_snoc[of "sp_parts s @ [sp_b s]" "''|''" "[]"] in simp)

lemma split_runes_text: "split_text (foldl split_rune s rs) = split_text s @ concat rs"
  by (induction rs arbitrary: s) (auto simp: split_rune_text)

definition even_quotes :: "string \<Rightarrow> bool" where
  "even_quotes s \<longleftrightarrow> even (count_list s CHR 0x22)"

text \<open>Pipe signs at an even number of quotes are cut points; every other one stays.\<close>

definition uncut :: "string \<Rightarrow> bool" where
  "uncut p \<longleftrightarrow> (\<forall>i<length p. p ! i = CHR ''|'' \<longrightarrow> odd (count_list (take i p) CHR 0x22))"

definition splitter_ok :: "splitter \<Rightarrow> bool" where
  "splitter_ok s \<longleftrightarrow> list_all (\<lambda>p. uncut p \<and> even_quotes p) (sp_parts s) \<and> uncut (sp_b s) \<and>
     (sp_in_quote s \<longleftrightarrow> \<not> even_quotes (sp_b s))"

lemma uncut_append:
  assumes "uncut b" "CHR ''|'' \<notin> set r"
  shows "uncut (b @ r)"
  using assms by (auto simp: uncut_def nth_append in_set_conv_nth)

lemma uncut_pipe: "uncut b \<Longrightarrow> \<not> even_quotes b \<Longrightarrow> uncut (b @ ''|'')"
  by (auto simp: uncut_def even_quotes_def nth_append less_Suc_eq)

lemma count_list_append [simp]: "count_list (a @ b) c = count_list a c + count_list b c"
  by (induction a) auto

lemma split_rune_ok:
  assumes "splitter_ok s" "\<And>c. of_char c < (128 :: nat) \<Longrightarrow> r \<noteq> [c] \<Longrightarrow> c \<notin> set r"
  shows "splitter_ok (split_rune s r)"
proof -
  consider (quote) "r = [CHR 0x22]" | (pipe) "r = ''|''" | (other) "r \<noteq> [CHR 0x22]" "r \<noteq> ''|''" by blast
  then show ?thesis
  proof cases
    case quote
    then show ?thesis
      using assms(1) uncut_append[of "sp_b s" r]
      by (auto simp: splitter_ok_def split_rune_def even_quotes_def)
  next
    case pipe
    have "uncut []" "even_quotes []" by (simp_all add: uncut_def even_quotes_def)
    with pipe show ?thesis
      using assms(1) uncut_pipe[of "sp_b s"]
      by (auto simp: splitter_ok_def split_rune_def even_quotes_def)
  next
    case other
    then have "CHR ''|'' \<notin> set r" "CHR 0x22 \<notin> set r" using assms(2) by simp_all
    then have "uncut (sp_b s) \<Longrightarrow> uncut (sp_b s @ r)" "count_list r CHR 0x22 = 0"
      by (simp_all add: uncut_append count_list_0_iff)
    with other show ?thesis
      using assms(1) by (simp add: splitter_ok_def split_rune_def even_quotes_def)
  qed
qed

text \<open>Splitting an expression into pipeline segments loses nothing and cuts exactly at the
  top-level pipe signs: joining the segments with a pipe gives the expression back (invalid UTF-8
  replaced, as \<^verbatim>\<open>range\<close> does), every cut was made outside quotes, and a pipe left inside a
  segment is inside quotes.\<close>

theorem SplitPipeline_exact:
  "join ''|'' (SplitPipeline expr) = concat (runes expr) \<and>
   list_all uncut (SplitPipeline expr) \<and> list_all even_quotes (butlast (SplitPipeline expr))"
proof -
  let ?i = "\<lparr>sp_parts = [], sp_b = [], sp_in_quote = False\<rparr>"
  let ?s = "foldl split_rune ?i (runes expr)"
  have "splitter_ok ?i" by (simp add: splitter_ok_def uncut_def even_quotes_def)
  then have "splitter_ok ?s"
    by (rule foldl_invariant) (rule split_rune_ok, assumption, rule runes_ascii_byte, assumption+)
  moreover have "split_text ?s = concat (runes expr)"
    by (simp add: split_runes_text) (simp add: split_text_def)
  ultimately show ?thesis
    by (auto simp: SplitPipeline_def Let_def splitter_ok_def split_text_def list_all_iff)
qed

definition q_params :: "string \<Rightarrow> params" where
  "q_params q = \<lparr>pa_q = q, pa_from = [], pa_to = [], pa_last = [], pa_limit = [], pa_order = [],
     pa_interval = [], pa_after = []\<rparr>"

text \<open>The quoting the splitter respects does not reach the filter it is meant for.  A regular
  expression with an alternation, quoted as the splitter's comment recommends, is cut by the lexer
  at its opening quote: the query that \<^verbatim>\<open>Build\<close> produces has a filter with the empty pattern,
  which every message matches, and a free-text term with the pattern's text.\<close>

theorem quoted_regex_is_split:
  "\<exists>q. Build ascii_lib (q_params (''message=~'' @ quoted ''a|b'')) 0 = Inr q \<and> q_terms q = [''a|b''] \<and>
     q_filters q = [\<lparr>f_field = FieldMessage, f_attr = [], f_op = OpRegex, f_value = [], f_values = []\<rparr>]"
proof -
  have "case Build ascii_lib (q_params (''message=~'' @ quoted ''a|b'')) 0 of Inl e \<Rightarrow> False
    | Inr q \<Rightarrow> q_terms q = [''a|b''] \<and>
     q_filters q = [\<lparr>f_field = FieldMessage, f_attr = [], f_op = OpRegex, f_value = [], f_values = []\<rparr>]"
    by code_simp
  then show ?thesis by (auto split: sum.splits)
qed

section \<open>Built queries\<close>

text \<open>What the rest of the system may rely on in a query.\<close>

definition agg_ok :: "aggregation \<Rightarrow> bool" where
  "agg_ok a \<longleftrightarrow> 1 \<le> a_limit a \<and> a_limit a \<le> MaxGroups \<and>
     (a_kind a = KindTimechart \<longrightarrow> 0 < a_span a \<and> length (a_group_by a) \<le> 1) \<and>
     (a_kind a \<in> {KindTop, KindRare} \<longrightarrow> a_group_by a \<noteq> [] \<and> a_exprs a = [count_expr])"

definition query_ok :: "golib \<Rightarrow> query \<Rightarrow> bool" where
  "query_ok lib q \<longleftrightarrow> 1 \<le> q_limit q \<and> q_limit q \<le> MaxLimit \<and> q_order q \<noteq> OrderUnset \<and>
     list_all (filter_ok lib) (q_filters q) \<and> 0 \<le> q_interval q \<and> q_interval q \<le> MaxRelative \<and>
     (case q_agg q of None \<Rightarrow> True | Some a \<Rightarrow> agg_ok a)"

definition agg_pre :: "aggregation \<Rightarrow> bool" where
  "agg_pre a \<longleftrightarrow> (a_kind a = KindTimechart \<longrightarrow> length (a_group_by a) \<le> 1) \<and>
     (a_kind a \<in> {KindTop, KindRare} \<longrightarrow> a_group_by a \<noteq> [] \<and> a_exprs a = [count_expr])"

lemma agg_Normalize_ok: "agg_pre a \<Longrightarrow> agg_ok (Agg_Normalize a)"
  by (auto simp: agg_pre_def agg_ok_def Agg_Normalize_def MaxGroups_def Let_def defaultTimechartSpan_def duration_defs)

lemma parseStats_pre:
  assumes "parseStats kind args = Inr a" "kind \<noteq> KindTop" "kind \<noteq> KindRare"
  shows "agg_pre a"
  using assms by (auto simp: parseStats_def try_bind_Inr Let_def agg_pre_def split: if_split_asm)

lemma parseTopRare_pre:
  assumes "parseTopRare kind args = Inr a" "kind \<noteq> KindStats" "kind \<noteq> KindTimechart"
  shows "agg_pre a"
proof -
  obtain n as where "parse_top_refs kind n as = Inr a"
    using assms(1) by (auto simp: parseTopRare_def split: option.split_asm if_split_asm)
  with assms show ?thesis
    by (cases kind) (auto simp: parse_top_refs_def Let_def agg_pre_def split: if_split_asm)
qed

lemma ParseAggregation_pre:
  assumes "ParseAggregation stage = Inr a"
  shows "agg_pre a"
proof -
  obtain c args kind where f: "go_fields stage = c # args" "map_of agg_kinds (to_lower c) = Some kind"
    using assms by (auto simp: ParseAggregation_def split: list.split_asm option.split_asm)
  with assms show ?thesis
    using parseStats_pre[of kind args a] parseTopRare_pre[of kind args a]
    by (cases kind) (simp_all add: ParseAggregation_def)
qed

text \<open>The invariant the stages of \<^verbatim>\<open>Build\<close> keep before the final normalisation.\<close>

definition query_pre :: "golib \<Rightarrow> query \<Rightarrow> bool" where
  "query_pre lib q \<longleftrightarrow> list_all (filter_ok lib) (q_filters q) \<and> 0 \<le> q_interval q \<and>
     q_interval q \<le> MaxRelative \<and> pred_option agg_pre (q_agg q)"

lemma build_stages_pre: "build_stages q stages = Inr q' \<Longrightarrow> query_pre lib q \<Longrightarrow> query_pre lib q'"
proof (induction stages arbitrary: q)
  case (Cons st stages)
  show ?case
  proof (cases "trim_space st = []")
    case False
    with Cons.prems obtain a where "ParseAggregation st = Inr a"
        "build_stages (q\<lparr>q_agg := Some a\<rparr>) stages = Inr q'"
      by (auto simp: try_bind_Inr split: if_split_asm)
    with Cons.IH[of "q\<lparr>q_agg := Some a\<rparr>"] Cons.prems(2) ParseAggregation_pre[of st a]
    show ?thesis by (simp add: query_pre_def)
  qed (use Cons in simp)
qed simp

lemma build_stages_same:
  "build_stages q stages = Inr q' \<Longrightarrow> q_time q' = q_time q \<and> q_from q' = q_from q \<and> q_to q' = q_to q"
proof (induction stages arbitrary: q)
  case (Cons st stages)
  show ?case
  proof (cases "trim_space st = []")
    case False
    with Cons.prems obtain a where "build_stages (q\<lparr>q_agg := Some a\<rparr>) stages = Inr q'"
      by (auto simp: try_bind_Inr split: if_split_asm)
    with Cons.IH[of "q\<lparr>q_agg := Some a\<rparr>"] show ?thesis by simp
  qed (use Cons in simp)
qed simp

lemma build_to_pre: "build_to lib p q = Inr q' \<Longrightarrow> query_pre lib q \<Longrightarrow> query_pre lib q'"
  by (auto simp: build_to_def try_bind_Inr Let_def query_pre_def split: if_split_asm)

lemma build_from_pre: "build_from lib now p q = Inr q' \<Longrightarrow> query_pre lib q \<Longrightarrow> query_pre lib q'"
  by (auto simp: build_from_def try_bind_Inr Let_def query_pre_def split: if_split_asm)

lemma build_limit_pre: "build_limit p q = Inr q' \<Longrightarrow> query_pre lib q \<Longrightarrow> query_pre lib q'"
  by (auto simp: build_limit_def try_bind_Inr query_pre_def split: if_split_asm option.split_asm)

lemma build_rest_pre: "build_rest p q = Inr q' \<Longrightarrow> query_pre lib q \<Longrightarrow> query_pre lib q'"
  by (auto simp: build_rest_def try_bind_Inr Let_def query_pre_def ParseRelative_range split: if_split_asm)

lemma Query_Normalize_ok: "query_pre lib q \<Longrightarrow> query_ok lib (Query_Normalize q)"
  by (auto simp: query_pre_def query_ok_def Query_Normalize_def Let_def DefaultLimit_def MaxLimit_def
      agg_Normalize_ok split: option.splits)

lemma query_of_parsed_pre: "parsed_ok lib pq \<Longrightarrow> query_pre lib (query_of_parsed pq)"
  by (simp add: query_pre_def query_of_parsed_def parsed_ok_def MaxRelative_def duration_defs)

text \<open>Every query that \<^verbatim>\<open>Build\<close> returns is normalised: the limit lies between 1 and 5000,
  the order is set, the histogram bucket is non-negative and at most a century, the filters are
  well formed, and an aggregation has a row limit between 1 and 1000, a positive bucket and at
  most one group for a time chart, and a group field for top and rare.\<close>

theorem Build_ok:
  assumes "Build lib p now = Inr q"
  shows "query_ok lib q"
proof -
  obtain pq q1 q2 q3 q4 q5 where s: "Parse lib (hd (SplitPipeline (pa_q p))) = Inr pq"
      "build_stages (query_of_parsed pq) (tl (SplitPipeline (pa_q p))) = Inr q1"
      "build_to lib p q1 = Inr q2" "build_from lib now p q2 = Inr q3" "build_limit p q3 = Inr q4"
      "build_rest p q4 = Inr q5" "q = Query_Normalize q5"
    using assms unfolding Build_def Let_def try_bind_Inr sum.inject by blast
  note pre1 = build_stages_pre[OF s(2) query_of_parsed_pre[OF Parse_parsed_ok[OF s(1)]]]
  note pre4 = build_limit_pre[OF s(5) build_from_pre[OF s(4) build_to_pre[OF s(3) pre1]]]
  show ?thesis unfolding s(7) by (rule Query_Normalize_ok[OF build_rest_pre[OF s(6) pre4]])
qed

definition sample_params :: params where
  "sample_params = (q_params ''service=api error | timechart span=5m count by level'')\<lparr>pa_limit := ''-7''\<rparr>"

theorem Build_ok_witness:
  "\<exists>q. Build ascii_lib sample_params 0 = Inr q \<and> q_limit q = DefaultLimit \<and> query_ok ascii_lib q"
proof -
  have "case Build ascii_lib sample_params 0 of Inr q \<Rightarrow> q_limit q = DefaultLimit | Inl e \<Rightarrow> False"
    by code_simp
  then show ?thesis using Build_ok[of ascii_lib sample_params 0] by (auto split: sum.splits)
qed

text \<open>A time bound written in the expression wins over the request, bound by bound.  If the
  expression names a lower bound, the request's \<^verbatim>\<open>from\<close> and \<^verbatim>\<open>last\<close> have no influence
  on the result at all (not even on whether it is an error), and if it names an upper bound the
  request's \<^verbatim>\<open>to\<close> has none.\<close>

theorem Build_expression_wins:
  assumes "Parse lib (hd (SplitPipeline (pa_q p))) = Inr pq"
  shows "(HasLowerBound (p_time pq) \<longrightarrow> Build lib (p\<lparr>pa_from := a, pa_last := b\<rparr>) now = Build lib p now) \<and>
    (ts_to (p_time pq) \<noteq> [] \<longrightarrow> Build lib (p\<lparr>pa_to := c\<rparr>) now = Build lib p now)"
proof -
  have r: "build_limit (p\<lparr>pa_from := a, pa_last := b\<rparr>) = build_limit p"
    "build_rest (p\<lparr>pa_from := a, pa_last := b\<rparr>) = build_rest p"
    "build_to lib (p\<lparr>pa_from := a, pa_last := b\<rparr>) = build_to lib p"
    "build_limit (p\<lparr>pa_to := c\<rparr>) = build_limit p" "build_rest (p\<lparr>pa_to := c\<rparr>) = build_rest p"
    "build_from lib now (p\<lparr>pa_to := c\<rparr>) = build_from lib now p"
    by (auto simp: fun_eq_iff build_limit_def build_rest_def build_to_def build_from_def Let_def
        split: option.split)
  show ?thesis
  proof (cases "build_stages (query_of_parsed pq) (tl (SplitPipeline (pa_q p)))")
    case (Inr q1)
    then have t: "q_time q1 = p_time pq" using build_stages_same[OF Inr] by (simp add: query_of_parsed_def)
    have "build_to lib (p\<lparr>pa_to := c\<rparr>) q1 = build_to lib p q1" if "ts_to (p_time pq) \<noteq> []"
      using that t by (simp add: build_to_def)
    moreover have "build_from lib now (p\<lparr>pa_from := a, pa_last := b\<rparr>) q2 = build_from lib now p q2"
      if "HasLowerBound (p_time pq)" "build_to lib p q1 = Inr q2" for q2
    proof -
      have "q_time q2 = q_time q1" using that(2) by (auto simp: build_to_def try_bind_Inr Let_def split: if_split_asm)
      then show ?thesis using that t by (simp add: build_from_def)
    qed
    ultimately show ?thesis
      using assms Inr r by (cases "build_to lib p q1") (simp_all add: Build_def Let_def)
  qed (use assms in \<open>simp add: Build_def Let_def\<close>)
qed

theorem Build_expression_wins_witness:
  "Build ascii_lib ((q_params ''level=error last=15m'')\<lparr>pa_from := ''zzz'', pa_last := ''1h''\<rparr>) 10000000000000
     = Build ascii_lib (q_params ''level=error last=15m'') 10000000000000"
proof -
  have "case Parse ascii_lib (hd (SplitPipeline ''level=error last=15m'')) of
      Inr pq \<Rightarrow> HasLowerBound (p_time pq) | Inl e \<Rightarrow> False" by code_simp
  then obtain pq where "Parse ascii_lib (hd (SplitPipeline (pa_q (q_params ''level=error last=15m'')))) = Inr pq"
      "HasLowerBound (p_time pq)" by (auto split: sum.splits simp: q_params_def)
  with Build_expression_wins[OF this(1), where a = "''zzz''" and b = "''1h''" and now = 10000000000000] show ?thesis by simp
qed

end
