(* ===== verification/Matcher.thy ===== *)
theory Matcher
  imports Model Query
begin

text \<open>
  The in-memory matcher of live tail, \<^verbatim>\<open>internal/query/match.go\<close>: whether an event satisfies a
  query, filter by filter and term by term.  Lemmas: the compiled-pattern cache is transparent and
  bounded, the token search is exactly phrase search with a prefix on the last word, comparisons
  are complementary, and a match is a conjunction over the query.
\<close>

section \<open>Values\<close>

definition stringify :: "golib \<Rightarrow> any \<Rightarrow> string" where
  "stringify lib v = (case v of AStr s \<Rightarrow> s | ANil \<Rightarrow> [] | _ \<Rightarrow> lib_fmt_v lib v)"

definition compareString :: "golib \<Rightarrow> any \<Rightarrow> string" where
  "compareString lib v = (case v of ABool b \<Rightarrow> (if b then ''1'' else ''0'') | _ \<Rightarrow> stringify lib v)"

definition boolEqual :: "string \<Rightarrow> string \<Rightarrow> bool" where
  "boolEqual actual want =
     (let w = to_lower want; a = to_lower actual
      in if w \<noteq> ''true'' \<and> w \<noteq> ''false'' then False
         else if w = ''true'' then a = ''true'' \<or> a = ''1''
         else a = ''false'' \<or> a = ''0'')"

definition f_norm :: "filter_t \<Rightarrow> string \<Rightarrow> string" where
  "f_norm f v = (if f_field f = FieldLevel then to_lower v else v)"

text \<open>\<open>None\<close> is Go's \<^verbatim>\<open>("", false)\<close>.\<close>

definition actual :: "golib \<Rightarrow> filter_t \<Rightarrow> logevent \<Rightarrow> string option" where
  "actual lib f e = (case f_field f of
       FieldLevel \<Rightarrow> Some (ev_level e)
     | FieldService \<Rightarrow> Some (ev_service e)
     | FieldSource \<Rightarrow> Some (ev_source e)
     | FieldMessage \<Rightarrow> Some (ev_message e)
     | FieldRaw \<Rightarrow> Some (ev_raw e)
     | FieldAttr \<Rightarrow> map_option (compareString lib) (map_of (ev_attrs e) (f_attr f))
     | FieldNone \<Rightarrow> None)"

definition compareMatch :: "golib \<Rightarrow> op \<Rightarrow> string \<Rightarrow> string \<Rightarrow> bool" where
  "compareMatch lib opc act want =
     (let (wf, ok) = lib_parse_float lib want; af = fst (lib_parse_float lib act)
      in if ok \<and> opc \<in> {OpGt, OpGte, OpLt, OpLte} then
           (case opc of OpGt \<Rightarrow> f64_lt wf af | OpGte \<Rightarrow> f64_le wf af
            | OpLt \<Rightarrow> f64_lt af wf | _ \<Rightarrow> f64_le af wf)
         else (case opc of OpGt \<Rightarrow> act > want | OpGte \<Rightarrow> act \<ge> want
            | OpLt \<Rightarrow> act < want | OpLte \<Rightarrow> act \<le> want | _ \<Rightarrow> False))"

section \<open>Patterns\<close>

definition regex_special :: string where
  "regex_special = CHR 0x5C # ''.+*?()|[]{}^$''"

definition QuoteMeta :: "string \<Rightarrow> string" where
  "QuoteMeta s = concat (map (\<lambda>c. if c \<in> set regex_special then [CHR 0x5C, c] else [c]) s)"

definition globToRegex :: "string \<Rightarrow> string" where
  "globToRegex pattern =
     trim_suffix ''.*'' (concat (map (\<lambda>part. QuoteMeta part @ ''.*'') (split_char (CHR ''*'') pattern)))"

type_synonym regex = "string \<Rightarrow> bool"

definition maxRegexCache :: nat where "maxRegexCache = 1024"

text \<open>
  The cache is a Go map, here an association list with distinct keys; the result is the compiled
  pattern, if it compiles, and the cache after the call.
\<close>

definition compileRegex ::
  "golib \<Rightarrow> string \<Rightarrow> (string \<times> regex) list \<Rightarrow> regex option \<times> (string \<times> regex) list" where
  "compileRegex lib pattern cache =
     (case map_of cache pattern of
        Some re \<Rightarrow> (Some re, cache)
      | None \<Rightarrow> (case lib_regexp lib pattern of
            None \<Rightarrow> (None, cache)
          | Some re \<Rightarrow>
              let cache' = (if length cache \<ge> maxRegexCache then [] else cache)
              in (Some re, AList.update pattern re cache')))"

definition regex_match :: "golib \<Rightarrow> string \<Rightarrow> string \<Rightarrow> bool" where
  "regex_match lib pattern s = (case lib_regexp lib pattern of None \<Rightarrow> False | Some re \<Rightarrow> re s)"

definition globMatch :: "golib \<Rightarrow> string \<Rightarrow> string \<Rightarrow> bool" where
  "globMatch lib pattern s = regex_match lib (''(?i)^'' @ globToRegex pattern @ ''$'') s"

section \<open>Full-text terms\<close>

definition tok_flush :: "string list \<times> string \<Rightarrow> string list \<times> string" where
  "tok_flush s = (case s of (toks, b) \<Rightarrow> if b \<noteq> [] then (toks @ [b], []) else s)"

definition tok_rune :: "golib \<Rightarrow> string list \<times> string \<Rightarrow> string \<Rightarrow> string list \<times> string" where
  "tok_rune lib s r =
     (if lib_is_word lib r then (fst s, snd s @ lib_rune_lower lib r) else tok_flush s)"

definition ftsTokenize :: "golib \<Rightarrow> string \<Rightarrow> string list" where
  "ftsTokenize lib s = fst (tok_flush (foldl (tok_rune lib) ([], []) (runes s)))"

definition ftsTokens :: "golib \<Rightarrow> logevent \<Rightarrow> string list" where
  "ftsTokens lib e = ftsTokenize lib (ev_message e) @ ftsTokenize lib (ev_raw e)
     @ ftsTokenize lib (ev_service e) @ ftsTokenize lib (ev_source e)
     @ concat (map (\<lambda>(k, v). ftsTokenize lib k @ ftsTokenize lib (stringify lib v)) (ev_attrs e))"

text \<open>The inner loop: all but the last token equal, the last one a prefix.\<close>

definition tokens_at :: "string list \<Rightarrow> string list \<Rightarrow> nat \<Rightarrow> bool" where
  "tokens_at have_t want i =
     (let l = length want - 1
      in list_all (\<lambda>j. have_t ! (i + j) = want ! j) [0..<l] \<and> prefix (want ! l) (have_t ! (i + l)))"

definition containsTokens :: "string list \<Rightarrow> string list \<Rightarrow> bool" where
  "containsTokens have_t want =
     (length want \<le> length have_t \<and> list_ex (tokens_at have_t want) [0..<length have_t - length want + 1])"

definition termMatchesTokens :: "golib \<Rightarrow> string list \<Rightarrow> string \<Rightarrow> bool" where
  "termMatchesTokens lib have_t term_s =
     (let want = ftsTokenize lib term_s in if want = [] then False else containsTokens have_t want)"

definition termMatches :: "golib \<Rightarrow> logevent \<Rightarrow> string \<Rightarrow> bool" where
  "termMatches lib e term_s = termMatchesTokens lib (ftsTokens lib e) term_s"

section \<open>Filters and queries\<close>

definition filter_matches :: "golib \<Rightarrow> filter_t \<Rightarrow> logevent \<Rightarrow> bool" where
  "filter_matches lib f e =
     (let want = f_norm f (f_value f)
      in if f_op f = OpExists then
           (if f_field f = FieldAttr then actual lib f e \<noteq> None
            else (case actual lib f e of Some a \<Rightarrow> a \<noteq> [] | None \<Rightarrow> False))
         else if f_op f = OpNeq then
           (case actual lib f e of None \<Rightarrow> True
            | Some a \<Rightarrow> if boolEqual a want then False else a \<noteq> want)
         else (case actual lib f e of None \<Rightarrow> False
            | Some a \<Rightarrow>
                (case f_op f of
                   OpEq \<Rightarrow> if boolEqual a want then True else a = want
                 | OpIn \<Rightarrow> list_ex (\<lambda>v. a = f_norm f v) (f_values f)
                 | OpLike \<Rightarrow> globMatch lib (f_value f) a
                 | OpRegex \<Rightarrow> regex_match lib (f_value f) a
                 | opc \<Rightarrow> compareMatch lib opc a want)))"

definition Matches :: "golib \<Rightarrow> query \<Rightarrow> logevent \<Rightarrow> bool" where
  "Matches lib q e =
     (if \<not> is_zero (q_from q) \<and> ev_timestamp e < q_from q then False
      else if \<not> is_zero (q_to q) \<and> ev_timestamp e > q_to q then False
      else if \<not> list_all (\<lambda>f. filter_matches lib f e) (q_filters q) then False
      else q_terms q = [] \<or> (let toks = ftsTokens lib e in list_all (termMatchesTokens lib toks) (q_terms q)))"

section \<open>Properties\<close>

lemma tokens_at_iff:
  assumes "want \<noteq> []" "i + length want \<le> length h"
  shows "tokens_at h want i \<longleftrightarrow> take (length want - 1) (drop i h) = butlast want \<and>
    prefix (last want) (h ! (i + (length want - 1)))"
proof -
  let ?l = "length want - 1"
  have l: "?l < length want" using assms(1) by (cases want) auto
  have "(\<forall>j<?l. h ! (i + j) = want ! j) \<longleftrightarrow> take ?l (drop i h) = butlast want"
    by (subst list_eq_iff_nth_eq) (use assms l in \<open>auto simp: nth_butlast\<close>)
  moreover have "want ! ?l = last want" using assms(1) by (simp add: last_conv_nth)
  ultimately show ?thesis by (simp add: tokens_at_def Let_def list_all_iff Ball_def)
qed

text \<open>Term search is phrase search: the tokens of the term occur in the event's token stream
  as a contiguous run of whole tokens, except that the last one may be a prefix of its
  counterpart.  This is the reading the comments give of the store's full-text query.\<close>

theorem containsTokens_phrase:
  assumes "want \<noteq> []"
  shows "containsTokens h want \<longleftrightarrow>
    (\<exists>pre t post. h = pre @ butlast want @ t # post \<and> prefix (last want) t)"
proof
  let ?l = "length want - 1"
  have l: "length (butlast want) = ?l" "Suc ?l = length want" using assms by (cases want; simp)+
  assume "containsTokens h want"
  then obtain i where "length want \<le> length h" "i \<in> set [0..<length h - length want + 1]"
      and m: "tokens_at h want i"
    by (auto simp: containsTokens_def list_ex_iff simp del: set_upt upt_Suc)
  then have i: "i + length want \<le> length h" "tokens_at h want i" by auto
  have "h = take i h @ take ?l (drop i h) @ h ! (i + ?l) # drop (Suc (i + ?l)) h"
  proof -
    have "i + ?l < length h" using i(1) l by linarith
    then have "drop (i + ?l) h = h ! (i + ?l) # drop (Suc (i + ?l)) h" by (rule Cons_nth_drop_Suc [symmetric])
    moreover have "drop i h = take ?l (drop i h) @ drop (i + ?l) h"
      using append_take_drop_id[of ?l "drop i h"] by (simp add: add.commute)
    ultimately show ?thesis using append_take_drop_id[of i h] by metis
  qed
  then show "\<exists>pre t post. h = pre @ butlast want @ t # post \<and> prefix (last want) t"
    using tokens_at_iff[OF assms i(1)] i(2) by metis
next
  let ?l = "length want - 1"
  have l: "length (butlast want) = ?l" "Suc ?l = length want" using assms by (cases want; simp)+
  assume "\<exists>pre t post. h = pre @ butlast want @ t # post \<and> prefix (last want) t"
  then obtain pre t post where h: "h = pre @ butlast want @ t # post" "prefix (last want) t" by blast
  have le: "length pre + length want \<le> length h" using h l by simp
  have "h ! (length pre + ?l) = t"
    unfolding h(1) using nth_append_length[of "pre @ butlast want" t post] l(1) by simp
  then have "tokens_at h want (length pre)"
    using tokens_at_iff[OF assms le] h l by simp
  then show "containsTokens h want"
    using le by (auto simp: containsTokens_def list_ex_iff simp del: set_upt upt_Suc
        intro!: bexI[of _ "length pre"]) auto
qed

theorem containsTokens_phrase_witness:
  "containsTokens [''a'', ''connection'', ''refused'', ''now''] [''connection'', ''ref''] \<and> \<not> containsTokens [''connection''] [''nec'']"
  using containsTokens_phrase[of "[''connection'', ''ref'']" "[''a'', ''connection'', ''refused'', ''now'']"]
  by (simp add: containsTokens_def tokens_at_def)

text \<open>The cache of compiled patterns holds only what compiling would give, and at most 1024 entries.\<close>

definition regex_cache_ok :: "golib \<Rightarrow> (string \<times> regex) list \<Rightarrow> bool" where
  "regex_cache_ok lib cache \<longleftrightarrow> distinct (map fst cache) \<and> length cache \<le> maxRegexCache \<and>
     (\<forall>(p, re)\<in>set cache. lib_regexp lib p = Some re)"

text \<open>The pattern cache is transparent and bounded: whatever calls came before, compiling through
  the cache returns what the library returns for the pattern, and the cache never holds a wrong
  entry nor more than 1024.\<close>

theorem compileRegex_transparent:
  assumes "regex_cache_ok lib cache"
  shows "fst (compileRegex lib p cache) = lib_regexp lib p \<and>
    regex_cache_ok lib (snd (compileRegex lib p cache))"
proof (cases "map_of cache p")
  case (Some re)
  then have "(p, re) \<in> set cache" by (rule map_of_SomeD)
  with Some assms show ?thesis by (auto simp: compileRegex_def regex_cache_ok_def)
next
  case None
  then have p: "p \<notin> fst ` set cache" by (simp add: map_of_eq_None_iff)
  have set_update: "p \<notin> fst ` set c \<Longrightarrow> set (AList.update p re c) = insert (p, re) (set c)" for c and re :: regex
    by (induction c) auto
  have len: "length (AList.update p re c) \<le> Suc (length c)" for re :: regex and c
    by (induction c) auto
  have "regex_cache_ok lib (AList.update p re c)"
    if "regex_cache_ok lib c" "length c < maxRegexCache" "lib_regexp lib p = Some re" "p \<notin> fst ` set c" for re c
    using that len[of re c] set_update[of c re]
    by (auto simp: regex_cache_ok_def distinct_update)
  moreover have "regex_cache_ok lib [(p, re)]" if "lib_regexp lib p = Some re" for re
    using that by (simp add: regex_cache_ok_def maxRegexCache_def)
  ultimately show ?thesis
    using assms p None by (auto simp: compileRegex_def Let_def maxRegexCache_def split: option.splits)
qed

theorem compileRegex_transparent_witness:
  "regex_cache_ok ascii_lib (snd (compileRegex ascii_lib ''err'' []))"
  using compileRegex_transparent[of ascii_lib "[]" "''err''"] by (simp add: regex_cache_ok_def)

definition number_of :: "golib \<Rightarrow> string \<Rightarrow> f64" where
  "number_of lib s = fst (lib_parse_float lib s)"

lemma compareMatch_not:
  assumes "snd (lib_parse_float lib w) \<longrightarrow> \<not> f64_is_nan (number_of lib w) \<and> \<not> f64_is_nan (number_of lib a)"
  shows "compareMatch lib OpLte a w \<longleftrightarrow> \<not> compareMatch lib OpGt a w"
    "compareMatch lib OpGte a w \<longleftrightarrow> \<not> compareMatch lib OpLt a w"
proof -
  obtain wf ok where w: "lib_parse_float lib w = (wf, ok)" by fastforce
  show "compareMatch lib OpLte a w \<longleftrightarrow> \<not> compareMatch lib OpGt a w"
    "compareMatch lib OpGte a w \<longleftrightarrow> \<not> compareMatch lib OpLt a w"
    using assms f64_not_lt[of wf "number_of lib a"] f64_not_lt[of "number_of lib a" wf]
    by (cases ok; auto simp: compareMatch_def number_of_def not_less not_le w)+
qed

text \<open>The comparison operators come in complementary pairs.  On every event exactly one of
  \<^verbatim>\<open>=\<close> and \<^verbatim>\<open>!=\<close> matches, the missing attribute included; and where the value is present,
  exactly one of \<^verbatim>\<open>>\<close> and \<^verbatim>\<open><=\<close>, and of \<^verbatim>\<open><\<close> and \<^verbatim>\<open>>=\<close>, provided neither side parses
  to a NaN.\<close>

theorem filter_complement:
  assumes "\<And>a. actual lib f e = Some a \<Longrightarrow> \<not> f64_is_nan (number_of lib a)"
    "\<not> f64_is_nan (number_of lib (f_norm f (f_value f)))"
  shows "(filter_matches lib (f\<lparr>f_op := OpNeq\<rparr>) e \<longleftrightarrow> \<not> filter_matches lib (f\<lparr>f_op := OpEq\<rparr>) e) \<and>
    (actual lib f e \<noteq> None \<longrightarrow>
      (filter_matches lib (f\<lparr>f_op := OpLte\<rparr>) e \<longleftrightarrow> \<not> filter_matches lib (f\<lparr>f_op := OpGt\<rparr>) e) \<and>
      (filter_matches lib (f\<lparr>f_op := OpGte\<rparr>) e \<longleftrightarrow> \<not> filter_matches lib (f\<lparr>f_op := OpLt\<rparr>) e))"
proof -
  have a: "actual lib (f\<lparr>f_op := opc\<rparr>) e = actual lib f e" and n: "f_norm (f\<lparr>f_op := opc\<rparr>) = f_norm f" for opc
    by (cases "f_field f"; simp add: actual_def f_norm_def fun_eq_iff)+
  show ?thesis
    using assms compareMatch_not[of lib "f_norm f (f_value f)"]
    by (cases "actual lib f e") (simp_all add: filter_matches_def a n Let_def)
qed

definition status_filter :: filter_t where
  "status_filter = \<lparr>f_field = FieldAttr, f_attr = ''status'', f_op = OpGt, f_value = ''500'', f_values = []\<rparr>"

definition status_event :: logevent where
  "status_event = empty_event\<lparr>ev_attrs := [(''status'', AStr ''503'')]\<rparr>"

theorem filter_complement_witness:
  "\<not> filter_matches ascii_lib (status_filter\<lparr>f_op := OpLte\<rparr>) status_event"
proof -
  have a: "actual ascii_lib status_filter status_event = Some ''503''" by code_simp
  have n: "number_of ascii_lib ''503'' = f64_of_int 503" "number_of ascii_lib ''500'' = f64_of_int 500"
    by (simp_all add: number_of_def ascii_lib_def int_parse_float_def parse_int_def digits_val_def
        digit_val_def is_digit_def i64_range_def)
  have nan: "\<not> f64_is_nan (f64_of_int 503)" "\<not> f64_is_nan (f64_of_int 500)"
    by (simp_all add: float_defs)
  have "f64_lt (f64_of_int 500) (f64_of_int 503)" by (simp add: float_defs)
  moreover have "snd (lib_parse_float ascii_lib ''500'')"
    by (simp add: ascii_lib_def int_parse_float_def parse_int_def digits_val_def
        digit_val_def is_digit_def i64_range_def)
  ultimately have "compareMatch ascii_lib OpGt ''503'' ''500''"
    using n by (cases "lib_parse_float ascii_lib ''500''") (simp add: compareMatch_def number_of_def)
  moreover have "actual ascii_lib (status_filter\<lparr>f_op := OpGt\<rparr>) status_event = Some ''503''" by code_simp
  ultimately have gt: "filter_matches ascii_lib (status_filter\<lparr>f_op := OpGt\<rparr>) status_event"
    by (simp add: filter_matches_def f_norm_def status_filter_def)
  have v: "f_norm status_filter (f_value status_filter) = ''500''" by code_simp
  have "\<And>b. actual ascii_lib status_filter status_event = Some b \<Longrightarrow> \<not> f64_is_nan (number_of ascii_lib b)"
    "\<not> f64_is_nan (number_of ascii_lib (f_norm status_filter (f_value status_filter)))"
    using nan n a v by simp_all
  from filter_complement[where e = status_event, OF this(1) this(2)] gt a show ?thesis by simp
qed

text \<open>The boolean spelling of the matcher reaches fields that hold text: \<^verbatim>\<open>service=true\<close>
  matches an event whose service is the string \<^verbatim>\<open>1\<close>, which no case-sensitive comparison of the
  two strings does.\<close>

theorem service_true_matches_one:
  "Matches lib (query_of_parsed (empty_parsed\<lparr>p_filters :=
      [\<lparr>f_field = FieldService, f_attr = [], f_op = OpEq, f_value = ''true'', f_values = []\<rparr>]\<rparr>))
    (empty_event\<lparr>ev_service := ''1''\<rparr>)"
  by (simp add: Matches_def query_of_parsed_def empty_parsed_def filter_matches_def actual_def f_norm_def
      boolEqual_def to_lower_def lower_char_def is_zero_def)

end
