(* ===== verification/Wal.thy ===== *)
theory Wal
  imports Ulid "HOL-Library.Multiset"
begin

text \<open>
  The write-ahead log, \<^verbatim>\<open>internal/wal/wal.go\<close>: records with a 16-byte header and a CRC in
  segment files of one directory, a checkpoint file, recovery by scanning.  The directory is an
  explicit store from file names to contents; the outcome of every system call that can fail is an
  argument (the \<open>_io\<close> records), so all error paths are branches of the model.  Lemmas: scanning
  inverts encoding and drops exactly a torn tail; every operation keeps the invariant
  \<open>wal_inv\<close>, which relates the process's state and the directory to an abstract list of
  records; the locale \<open>durable_log\<close> states that contract for the clients of the log.
\<close>

section \<open>Records\<close>

definition headerSize :: nat where "headerSize = 16"
definition defaultSegmentMax :: nat where "defaultSegmentMax = 8 * 2 ^ 20"
definition maxRecordBytes :: nat where "maxRecordBytes = 64 * 2 ^ 20"

text \<open>\<^verbatim>\<open>binary.BigEndian.PutUint\<close> of \<open>n\<close> bytes, and its inverse.\<close>

definition be_put :: "nat \<Rightarrow> nat \<Rightarrow> byte list" where
  "be_put n v = map (\<lambda>k. of_nat (v div 256 ^ k)) (rev [0..<n])"

definition be_get :: "byte list \<Rightarrow> nat" where
  "be_get bs = base_val 256 (map unat bs)"

text \<open>\<^verbatim>\<open>crc32.ChecksumIEEE\<close>, bit by bit.\<close>

definition crc_bit :: "u32 \<Rightarrow> u32" where
  "crc_bit c = (if bit c 0 then xor (drop_bit 1 c) 0xEDB88320 else drop_bit 1 c)"

definition crc32 :: "byte list \<Rightarrow> nat" where
  "crc32 bs = unat (not (foldl (\<lambda>c b. (crc_bit ^^ 8) (xor c (ucast b))) (not 0) bs))"

definition encodeRecord :: "nat \<Rightarrow> byte list \<Rightarrow> byte list" where
  "encodeRecord seq payload =
     be_put 8 seq @ be_put 4 (length payload) @ be_put 4 (crc32 payload) @ payload"

text \<open>
  \<open>scanSegment content off\<close> is the loop of \<^verbatim>\<open>scanSegment\<close> with \<open>off\<close> bytes already read: the
  records it visits, the offset after the last one, and whether it stopped at a torn record.
\<close>

function scanSegment :: "byte list \<Rightarrow> nat \<Rightarrow> (nat \<times> byte list) list \<times> nat \<times> bool" where
  "scanSegment b off =
     (if b = [] then ([], off, False)
      else if length b < headerSize then ([], off, True)
      else let plen = be_get (take 4 (drop 8 b)); crc = be_get (take 4 (drop 12 b))
           in if plen > maxRecordBytes then ([], off, True)
              else if length b < headerSize + plen then ([], off, True)
              else let payload = take plen (drop headerSize b)
                   in if crc32 payload \<noteq> crc then ([], off, True)
                      else let seq = be_get (take 8 b);
                               (rs, e, t) = scanSegment (drop (headerSize + plen) b) (off + headerSize + plen)
                           in ((seq, payload) # rs, e, t))"
  by pat_completeness auto
termination by (relation "measure (\<lambda>(b, off). length b)") (auto simp: headerSize_def)

declare scanSegment.simps [simp del]

definition seg_records :: "byte list \<Rightarrow> (nat \<times> byte list) list" where
  "seg_records b = fst (scanSegment b 0)"

section \<open>The directory\<close>

type_synonym fs = "(string \<times> byte list) list"

definition segmentPrefix :: string where "segmentPrefix = ''wal-''"
definition segmentSuffix :: string where "segmentSuffix = ''.log''"
definition checkpointName :: string where "checkpointName = ''checkpoint''"

text \<open>\<^verbatim>\<open>%020d\<close>\<close>

definition pad20 :: "nat \<Rightarrow> string" where
  "pad20 n = replicate (20 - length (show_nat n)) (CHR ''0'') @ show_nat n"

definition segment_name :: "nat \<Rightarrow> string" where
  "segment_name startSeq = segmentPrefix @ pad20 startSeq @ segmentSuffix"

text \<open>The start sequence that a file name stands for, if it fits the naming scheme.\<close>

definition segment_start :: "string \<Rightarrow> nat option" where
  "segment_start name =
     (if prefix segmentPrefix name \<and> suffix segmentSuffix name
         \<and> length segmentPrefix + length segmentSuffix \<le> length name
      then parse_uint (trim_suffix segmentSuffix (trim_prefix segmentPrefix name)) else None)"

definition listSegments :: "fs \<Rightarrow> (nat \<times> string) list" where
  "listSegments d = sort_key fst
     (List.map_filter (\<lambda>n. map_option (\<lambda>s. (s, n)) (segment_start n)) (map fst d))"

definition readCheckpoint :: "fs \<Rightarrow> nat" where
  "readCheckpoint d =
     (case map_of d checkpointName of
        None \<Rightarrow> 0
      | Some data \<Rightarrow> if length data < 8 then 0 else be_get (take 8 data))"

definition fdata :: "fs \<Rightarrow> string \<Rightarrow> byte list" where
  "fdata d name = (case map_of d name of Some b \<Rightarrow> b | None \<Rightarrow> [])"

datatype wal_error = DirRequired | MkdirFailed | OpenSegmentFailed | TruncateFailed | StatFailed
  | RotateFailed | CreateFailed | WriteFailed | SyncFailed | SyncRollbackFailed | CheckpointFailed

text \<open>Written to a temporary file that then replaces the checkpoint atomically.\<close>

definition writeCheckpoint :: "bool \<Rightarrow> bool \<Rightarrow> fs \<Rightarrow> nat \<Rightarrow> bool \<times> fs" where
  "writeCheckpoint write_ok rename_ok d seq =
     (let tmp = checkpointName @ ''.tmp''; d1 = AList.update tmp (be_put 8 seq) d
      in if \<not> write_ok then (False, d)
         else if \<not> rename_ok then (False, d1)
         else (True, AList.update checkpointName (be_put 8 seq) (AList.delete tmp d1)))"

section \<open>The log\<close>

record wal =
  w_max_segment :: nat
  w_sync_on_append :: bool
  w_next_seq :: nat
  w_checkpoint :: nat
  w_segments :: "(nat \<times> string) list"
  w_active :: bool
  w_active_size :: nat

record open_io =
  oi_mkdir :: bool
  oi_truncate :: bool
  oi_open :: bool
  oi_stat :: bool

definition max_seq :: "nat \<Rightarrow> (nat \<times> byte list) list \<Rightarrow> nat" where
  "max_seq m rs = foldl (\<lambda>m (seq, _). if seq > m then seq else m) m rs"

definition Open :: "open_io \<Rightarrow> bool \<Rightarrow> nat \<Rightarrow> bool \<Rightarrow> fs \<Rightarrow> wal_error + wal \<times> fs" where
  "Open io has_dir max_segment sync_on_append d =
     (if \<not> has_dir then Inl DirRequired
      else if \<not> oi_mkdir io then Inl MkdirFailed
      else let segs = listSegments d;
               maxSeq = foldl (\<lambda>m (_, n). max_seq m (seg_records (fdata d n))) 0 segs;
               cp = readCheckpoint d;
               w = \<lparr>w_max_segment = (if max_segment = 0 then defaultSegmentMax else max_segment),
                    w_sync_on_append = sync_on_append,
                    w_next_seq = (if cp + 1 > maxSeq + 1 then cp + 1 else maxSeq + 1),
                    w_checkpoint = cp, w_segments = segs, w_active = False, w_active_size = 0\<rparr>
           in if segs = [] then Inr (w, d)
              else let name = snd (last segs);
                       (_, e, torn) = scanSegment (fdata d name) 0;
                       d' = (if torn then AList.update name (take e (fdata d name)) d else d)
                   in if torn \<and> \<not> oi_truncate io then Inl TruncateFailed
                      else if \<not> oi_open io then Inl OpenSegmentFailed
                      else if \<not> oi_stat io then Inl StatFailed
                      else Inr (w\<lparr>w_active := True, w_active_size := length (fdata d' name)\<rparr>, d'))"

text \<open>
  The outcomes an append depends on: the rotation's sync and close, the creation of a segment, the
  write (\<open>Some k\<close>: only \<open>k\<close> bytes reached the file), the truncation that undoes it, and the sync.
\<close>

record append_io =
  ai_rotate :: bool
  ai_create :: bool
  ai_write :: "nat option"
  ai_truncate :: bool
  ai_sync :: bool

definition good_io :: append_io where
  "good_io = \<lparr>ai_rotate = True, ai_create = True, ai_write = None, ai_truncate = True, ai_sync = True\<rparr>"

definition rotateLocked :: "append_io \<Rightarrow> wal \<Rightarrow> bool \<times> wal" where
  "rotateLocked io w =
     (if \<not> w_active w then (True, w)
      else (ai_rotate io, w\<lparr>w_active := False, w_active_size := 0\<rparr>))"

definition openNewSegmentLocked :: "append_io \<Rightarrow> nat \<Rightarrow> wal \<Rightarrow> fs \<Rightarrow> bool \<times> wal \<times> fs" where
  "openNewSegmentLocked io startSeq w d =
     (let name = segment_name startSeq
      in if \<not> ai_create io then (False, w, d)
         else (True, w\<lparr>w_active := True, w_active_size := 0,
                 w_segments := w_segments w @ [(startSeq, name)]\<rparr>,
               AList.update name (fdata d name) d))"

definition active_name :: "wal \<Rightarrow> string" where
  "active_name w = snd (last (w_segments w))"

text \<open>The write itself, on an open active segment.\<close>

definition append_write :: "append_io \<Rightarrow> wal \<Rightarrow> fs \<Rightarrow> byte list \<Rightarrow> (wal_error + nat) \<times> wal \<times> fs" where
  "append_write io w d payload =
     (let seq = w_next_seq w; rec = encodeRecord seq payload; name = active_name w;
          old = fdata d name; size = w_active_size w
      in case ai_write io of
           Some k \<Rightarrow>
             (let d1 = AList.update name (old @ take k rec) d
              in (Inl WriteFailed, w,
                  if ai_truncate io then AList.update name (take size (old @ take k rec)) d1 else d1))
         | None \<Rightarrow>
             (let d1 = AList.update name (old @ rec) d;
                  w1 = w\<lparr>w_active_size := size + length rec, w_next_seq := seq + 1\<rparr>
              in if w_sync_on_append w \<and> \<not> ai_sync io then
                   (if ai_truncate io
                    then (Inl SyncFailed, w, AList.update name (take size (old @ rec)) d1)
                    else (Inl SyncRollbackFailed, w, d1))
                 else (Inr seq, w1, d1)))"

definition Append :: "append_io \<Rightarrow> wal \<Rightarrow> fs \<Rightarrow> byte list \<Rightarrow> (wal_error + nat) \<times> wal \<times> fs" where
  "Append io w d payload =
     (let seq = w_next_seq w; rec = encodeRecord seq payload;
          (rot_ok, w1) = (if w_active w \<and> w_active_size w > 0
                            \<and> w_active_size w + length rec > w_max_segment w
                          then rotateLocked io w else (True, w))
      in if \<not> rot_ok then (Inl RotateFailed, w1, d)
         else if \<not> w_active w1 then
           (let (ok, w2, d2) = openNewSegmentLocked io seq w1 d
            in if \<not> ok then (Inl CreateFailed, w2, d2) else append_write io w2 d2 payload)
         else append_write io w1 d payload)"

text \<open>
  Deleting covered segments.  \<open>rm_ok\<close> says which removals the system performs; the code ignores
  failures.
\<close>

definition pred64 :: "nat \<Rightarrow> nat" where
  "pred64 n = (if n = 0 then 2 ^ 64 - 1 else n - 1)"

fun prune_kept :: "nat \<Rightarrow> (nat \<times> string) list \<Rightarrow> (nat \<times> string) list" where
  "prune_kept cp [] = []"
| "prune_kept cp [s] = [s]"
| "prune_kept cp (s # t # ss) =
     (if pred64 (fst t) \<le> cp then prune_kept cp (t # ss) else s # prune_kept cp (t # ss))"

definition pruneSegmentsLocked :: "(string \<Rightarrow> bool) \<Rightarrow> wal \<Rightarrow> fs \<Rightarrow> wal \<times> fs" where
  "pruneSegmentsLocked rm_ok w d =
     (let kept = prune_kept (w_checkpoint w) (w_segments w);
          gone = filter (\<lambda>s. s \<notin> set kept) (w_segments w)
      in (w\<lparr>w_segments := kept\<rparr>,
          foldl (\<lambda>d s. if rm_ok (snd s) then AList.delete (snd s) d else d) d gone))"

definition SetCheckpoint :: "bool \<Rightarrow> bool \<Rightarrow> (string \<Rightarrow> bool) \<Rightarrow> wal \<Rightarrow> fs \<Rightarrow> nat \<Rightarrow> bool \<times> wal \<times> fs" where
  "SetCheckpoint write_ok rename_ok rm_ok w d seq =
     (if seq \<le> w_checkpoint w then (True, w, d)
      else let w1 = w\<lparr>w_checkpoint := seq\<rparr>; (ok, d1) = writeCheckpoint write_ok rename_ok d seq
           in if \<not> ok then (False, w1, d1) else (True, pruneSegmentsLocked rm_ok w1 d1))"

definition Checkpoint :: "wal \<Rightarrow> nat" where
  "Checkpoint w = w_checkpoint w"

definition Close :: "wal \<Rightarrow> wal" where
  "Close w = w\<lparr>w_active := False\<rparr>"

text \<open>The callback of \<^verbatim>\<open>Replay\<close> threads a state and may stop with an error.\<close>

fun replay_visit :: "(nat \<Rightarrow> byte list \<Rightarrow> 's \<Rightarrow> 'e + 's) \<Rightarrow> (nat \<times> byte list) list \<Rightarrow> 's \<Rightarrow> 'e + 's" where
  "replay_visit fn [] s = Inr s"
| "replay_visit fn ((seq, p) # rs) s = try_bind (fn seq p s) (replay_visit fn rs)"

definition pending :: "wal \<Rightarrow> fs \<Rightarrow> (nat \<times> byte list) list" where
  "pending w d = filter (\<lambda>(seq, _). seq > w_checkpoint w)
     (concat (map (\<lambda>s. seg_records (fdata d (snd s))) (w_segments w)))"

definition Replay :: "(nat \<Rightarrow> byte list \<Rightarrow> 's \<Rightarrow> 'e + 's) \<Rightarrow> wal \<Rightarrow> fs \<Rightarrow> 's \<Rightarrow> 'e + 's" where
  "Replay fn w d s = replay_visit fn (pending w d) s"

section \<open>Scanning inverts encoding\<close>

lemma be_put_length [simp]: "length (be_put n v) = n"
  by (simp add: be_put_def)

lemma be_get_put: "v < 256 ^ n \<Longrightarrow> be_get (be_put n v) = v"
proof -
  assume v: "v < 256 ^ n"
  have u: "unat (of_nat x :: byte) = x mod 256" for x
    by (simp add: unat_of_nat take_bit_eq_mod)
  have "map unat (be_put n v) = map (\<lambda>k. v div 256 ^ k mod 256) (rev [0..<n])"
    by (simp add: be_put_def u)
  then show ?thesis using v by (simp add: be_get_def base_val_digits)
qed

lemma crc32_less: "crc32 p < 256 ^ 4"
  using unsigned_less[where ?'a = nat and ?'b = 32] by (simp add: crc32_def)

lemma length_encodeRecord [simp]: "length (encodeRecord seq p) = headerSize + length p"
  by (simp add: encodeRecord_def headerSize_def)

lemma encodeRecord_ne [simp]: "encodeRecord seq p \<noteq> []"
  using length_encodeRecord[of seq p] by (metis headerSize_def list.size(3) add_is_0 zero_neq_numeral)

definition fits :: "nat \<times> byte list \<Rightarrow> bool" where
  "fits r \<longleftrightarrow> fst r < 2 ^ 64 \<and> length (snd r) \<le> maxRecordBytes"

lemma header_fields:
  assumes "fits (seq, p)"
  shows "be_get (take 8 (encodeRecord seq p @ rest)) = seq"
    "be_get (take 4 (drop 8 (encodeRecord seq p @ rest))) = length p"
    "be_get (take 4 (drop 12 (encodeRecord seq p @ rest))) = crc32 p"
    "take (length p) (drop headerSize (encodeRecord seq p @ rest)) = p"
    "drop (headerSize + length p) (encodeRecord seq p @ rest) = rest"
proof -
  have "seq < 256 ^ 8" using assms by (simp add: fits_def)
  moreover have "length p < 256 ^ 4"
    using assms by (simp add: fits_def maxRecordBytes_def)
  ultimately have v: "be_get (be_put 8 seq) = seq" "be_get (be_put 4 (length p)) = length p"
    "be_get (be_put 4 (crc32 p)) = crc32 p"
    using crc32_less by (simp_all only: be_get_put)
  have t: "take 8 (encodeRecord seq p @ rest) = be_put 8 seq"
    "take 4 (drop 8 (encodeRecord seq p @ rest)) = be_put 4 (length p)"
    "take 4 (drop 12 (encodeRecord seq p @ rest)) = be_put 4 (crc32 p)"
    "drop 16 (encodeRecord seq p @ rest) = p @ rest"
    "drop (16 + length p) (encodeRecord seq p @ rest) = rest"
    by (simp_all add: encodeRecord_def)
  show "be_get (take 8 (encodeRecord seq p @ rest)) = seq"
    "be_get (take 4 (drop 8 (encodeRecord seq p @ rest))) = length p"
    "be_get (take 4 (drop 12 (encodeRecord seq p @ rest))) = crc32 p"
    "take (length p) (drop headerSize (encodeRecord seq p @ rest)) = p"
    "drop (headerSize + length p) (encodeRecord seq p @ rest) = rest"
    unfolding headerSize_def t v by simp_all
qed

lemma scan_Nil [simp]: "scanSegment [] off = ([], off, False)"
  by (subst scanSegment.simps) simp

lemma scan_encode:
  assumes "fits (seq, p)"
  shows "scanSegment (encodeRecord seq p @ rest) off =
    (case scanSegment rest (off + headerSize + length p) of (rs, e, t) \<Rightarrow> ((seq, p) # rs, e, t))"
proof -
  let ?b = "encodeRecord seq p @ rest"
  have c: "?b \<noteq> []" "\<not> length ?b < headerSize" "\<not> maxRecordBytes < length p"
    "\<not> length ?b < headerSize + length p" "\<not> crc32 p \<noteq> crc32 p"
    using assms by (simp_all add: fits_def)
  show ?thesis
    by (subst scanSegment.simps)
       (simp only: Let_def header_fields[OF assms] if_not_P[OF c(1)] if_not_P[OF c(2)]
         if_not_P[OF c(3)] if_not_P[OF c(4)] if_not_P[OF c(5)])
qed

lemma be_get_less: "length bs = n \<Longrightarrow> be_get bs < 256 ^ n"
  using base_val_less[OF bytes_digits, of bs] by (simp add: be_get_def)

text \<open>A record cut short is torn, whatever its bytes.\<close>

lemma scan_torn:
  assumes "fits (seq, p)" "k < headerSize + length p"
  shows "scanSegment (take k (encodeRecord seq p)) off = ([], off, k \<noteq> 0)"
proof (cases "k < headerSize")
  case True
  then show ?thesis by (subst scanSegment.simps) auto
next
  case False
  have t: "take k (encodeRecord seq p) = encodeRecord seq (take (k - headerSize) p) \<or> True" by simp
  have "take 4 (drop 8 (take k (encodeRecord seq p))) = take 4 (drop 8 (encodeRecord seq p))"
    using False by (simp add: drop_take headerSize_def)
  moreover have "be_get (take 4 (drop 8 (encodeRecord seq p))) = length p"
    using header_fields(2)[OF assms(1), of "[]"] by simp
  ultimately show ?thesis
    using False assms by (subst scanSegment.simps) (auto simp: Let_def fits_def headerSize_def)
qed

definition enc :: "nat \<times> byte list \<Rightarrow> byte list" where
  "enc r = encodeRecord (fst r) (snd r)"

definition enc_all :: "(nat \<times> byte list) list \<Rightarrow> byte list" where
  "enc_all rs = concat (map enc rs)"

lemma enc_all_simps [simp]: "enc_all [] = []" "enc_all (r # rs) = enc r @ enc_all rs"
  "enc_all (rs @ qs) = enc_all rs @ enc_all qs"
  by (simp_all add: enc_all_def)

lemma scan_all:
  assumes "list_all fits rs"
  shows "scanSegment (enc_all rs @ rest) off =
    (case scanSegment rest (off + length (enc_all rs)) of (qs, e, t) \<Rightarrow> (rs @ qs, e, t))"
  using assms
proof (induction rs arbitrary: off)
  case (Cons r rs)
  then have "fits (fst r, snd r)" by simp
  from scan_encode[OF this, of "enc_all rs @ rest" off] Cons show ?case
    by (auto simp: enc_def add.assoc add.left_commute split: prod.splits)
qed (auto split: prod.splits)

lemma seg_records_all: "list_all fits rs \<Longrightarrow> seg_records (enc_all rs) = rs"
  using scan_all[of rs "[]" 0] by (simp add: seg_records_def)

text \<open>Crash recovery of a segment.  Scanning the bytes of any sequence of appended records
  followed by an unfinished record (any proper prefix of its bytes) yields exactly the finished
  records, the offset at which the unfinished one starts, and reports a torn tail exactly when
  some of its bytes are there.\<close>

theorem scanSegment_recovers:
  assumes "list_all fits rs" "fits (seq, p)" "k < headerSize + length p"
  shows "scanSegment (enc_all rs @ take k (encodeRecord seq p)) 0 = (rs, length (enc_all rs), k \<noteq> 0)"
  using scan_all[OF assms(1), of "take k (encodeRecord seq p)" 0] scan_torn[OF assms(2,3)]
  by simp

theorem scanSegment_recovers_witness:
  "scanSegment (enc_all [(1, [7, 8]), (2, [])] @ take 5 (encodeRecord 3 [9])) 0
     = ([(1, [7, 8]), (2, [])], length (enc_all [(1, [7, 8]), (2, [])]), True)"
  using scanSegment_recovers[of "[(1, [7, 8]), (2, [])]" 3 "[9]" 5]
  by (simp add: fits_def headerSize_def maxRecordBytes_def)

text \<open>The appender has no counterpart of the scanner's length guard: a record whose payload
  exceeds 64 MiB (and is below 4 GiB) is written and acknowledged, and a later scan takes it for
  garbage, so that it and every record after it in the segment are lost.\<close>

theorem oversized_record_is_lost:
  assumes "maxRecordBytes < length p" "length p < 2 ^ 32"
  shows "scanSegment (encodeRecord seq p @ rest) 0 = ([], 0, True)"
proof -
  have "take 4 (drop 8 (encodeRecord seq p @ rest)) = be_put 4 (length p)"
    by (simp add: encodeRecord_def)
  then have "be_get (take 4 (drop 8 (encodeRecord seq p @ rest))) = length p"
    using assms(2) be_get_put[of "length p" 4] by simp
  then show ?thesis using assms by (subst scanSegment.simps) (simp add: Let_def)
qed

theorem oversized_record_is_lost_witness:
  "scanSegment (encodeRecord 1 (replicate (2 ^ 27) 0) @ []) 0 = ([], 0, True)"
  by (rule oversized_record_is_lost) (simp_all add: maxRecordBytes_def)

section \<open>Segment names and listings\<close>

lemma digits_val_zeros: "digits_val (replicate n (CHR ''0'') @ s) = digits_val s"
proof -
  have "foldl (\<lambda>n c. 10 * n + digit_val c) 0 (replicate n (CHR ''0'')) = 0"
    by (induction n) (simp_all add: digit_val_def)
  then show ?thesis by (simp add: digits_val_def)
qed

lemma parse_uint_pad20: "n < 2 ^ 64 \<Longrightarrow> parse_uint (pad20 n) = Some n"
  using show_nat_digits[of n]
  by (auto simp: parse_uint_def pad20_def digits_val_zeros list_all_iff is_digit_def)

lemma segment_start_name: "n < 2 ^ 64 \<Longrightarrow> segment_start (segment_name n) = Some n"
proof -
  have "trim_suffix segmentSuffix (trim_prefix segmentPrefix (segment_name n)) = pad20 n"
    by (simp add: trim_suffix_def trim_prefix_def segment_name_def suffix_def)
  then show "n < 2 ^ 64 \<Longrightarrow> ?thesis"
    by (simp add: segment_start_def parse_uint_pad20) (simp add: segment_name_def suffix_def)
qed

lemma segment_name_inj: "a < 2 ^ 64 \<Longrightarrow> b < 2 ^ 64 \<Longrightarrow> segment_name a = segment_name b \<longleftrightarrow> a = b"
  using segment_start_name by (metis option.inject)

lemma checkpoint_names: "segment_start checkpointName = None" "segment_start (checkpointName @ ''.tmp'') = None"
  by (simp_all add: segment_start_def segmentPrefix_def checkpointName_def)

definition seg_entries :: "string list \<Rightarrow> (nat \<times> string) list" where
  "seg_entries ns = List.map_filter (\<lambda>n. map_option (\<lambda>s. (s, n)) (segment_start n)) ns"

lemma seg_entries_simps [simp]:
  "seg_entries [] = []" "seg_entries (a @ b) = seg_entries a @ seg_entries b"
  "seg_entries (n # ns) = (case segment_start n of Some s \<Rightarrow> [(s, n)] | None \<Rightarrow> []) @ seg_entries ns"
  by (auto simp: seg_entries_def map_filter_simps map_filter_def split: option.splits)

lemma seg_entries_filter: "seg_entries (filter P ns) = filter (\<lambda>s. P (snd s)) (seg_entries ns)"
  by (induction ns) (auto split: option.splits)

lemma set_seg_entries: "(s, n) \<in> set (seg_entries ns) \<longleftrightarrow> n \<in> set ns \<and> segment_start n = Some s"
  by (induction ns) (auto split: option.splits)

lemma listSegments_entries: "listSegments d = sort_key fst (seg_entries (map fst d))"
  by (simp add: listSegments_def seg_entries_def)

lemma map_fst_update: "map fst (AList.update k v d) = (if k \<in> set (map fst d) then map fst d else map fst d @ [k])"
  by (induction d) auto

lemma sort_key_snoc_max:
  "(\<And>y. y \<in> set xs \<Longrightarrow> f y \<le> f x) \<Longrightarrow> sort_key f (xs @ [x]) = sort_key f xs @ [x]"
proof -
  assume "\<And>y. y \<in> set xs \<Longrightarrow> f y \<le> f x"
  then have s: "sorted (map f (sort_key f xs @ [x]))" by (auto simp: sorted_append)
  have "filter (\<lambda>y. k = f y) (sort_key f xs) = filter (\<lambda>y. k = f y) xs" for k
    using sort_key_stable[of f k xs] by (simp add: eq_commute)
  then show ?thesis by (intro properties_for_sort_key s) simp_all
qed

lemma listSegments_update_old:
  "k \<in> set (map fst d) \<or> segment_start k = None \<Longrightarrow> listSegments (AList.update k v d) = listSegments d"
  by (auto simp: listSegments_entries map_fst_update)

lemma listSegments_update_new:
  assumes "k \<notin> set (map fst d)" "segment_start k = Some s" "\<And>t. t \<in> set (listSegments d) \<Longrightarrow> fst t \<le> s"
  shows "listSegments (AList.update k v d) = listSegments d @ [(s, k)]"
  using assms by (simp add: listSegments_entries map_fst_update sort_key_snoc_max)

lemma map_fst_delete: "map fst (AList.delete k d) = filter (\<lambda>n. n \<noteq> k) (map fst d)"
  by (induction d) auto

lemma listSegments_delete: "listSegments (AList.delete k d) = filter (\<lambda>s. snd s \<noteq> k) (listSegments d)"
  by (simp add: listSegments_entries map_fst_delete seg_entries_filter filter_sort)

lemma fdata_update [simp]: "fdata (AList.update k v d) n = (if n = k then v else fdata d n)"
  by (simp add: fdata_def update_conv')

lemma fdata_delete: "n \<noteq> k \<Longrightarrow> fdata (AList.delete k d) n = fdata d n"
  by (simp add: fdata_def delete_conv')

lemma readCheckpoint_update: "k \<noteq> checkpointName \<Longrightarrow> readCheckpoint (AList.update k v d) = readCheckpoint d"
  by (simp add: readCheckpoint_def update_conv')

lemma readCheckpoint_delete: "k \<noteq> checkpointName \<Longrightarrow> readCheckpoint (AList.delete k d) = readCheckpoint d"
  by (simp add: readCheckpoint_def delete_conv')

lemma readCheckpoint_written: "n < 2 ^ 64 \<Longrightarrow> readCheckpoint (AList.update checkpointName (be_put 8 n) d) = n"
  using be_get_put[of n 8] by (simp add: readCheckpoint_def update_conv')

section \<open>The invariant\<close>

text \<open>
  \<open>rss\<close> is the content of the segments as lists of records; \<open>left\<close> are segments whose removal
  failed, still listed on disk, and \<open>lrss\<close> their content, all covered by the checkpoint.
\<close>

definition seg_ok :: "fs \<Rightarrow> nat \<times> string \<Rightarrow> (nat \<times> byte list) list \<Rightarrow> bool" where
  "seg_ok d s rs \<longleftrightarrow> segment_name (fst s) = snd s \<and> 1 \<le> fst s \<and> fst s < 2 ^ 64 \<and>
     snd s \<in> set (map fst d) \<and> fdata d (snd s) = enc_all rs \<and> list_all fits rs"

fun segs_chain :: "(nat \<times> string) list \<Rightarrow> (nat \<times> byte list) list list \<Rightarrow> nat \<Rightarrow> bool" where
  "segs_chain [] [] hi = True"
| "segs_chain (s # ss) (rs # rss) hi =
     (let next = (case ss of [] \<Rightarrow> hi | t # _ \<Rightarrow> fst t)
      in sorted_wrt (<) (map fst rs) \<and> (\<forall>r\<in>set rs. fst s \<le> fst r \<and> fst r < next) \<and> fst s \<le> next
         \<and> (ss \<noteq> [] \<longrightarrow> fst s < next) \<and> segs_chain ss rss hi)"
| "segs_chain _ _ hi = False"

definition wal_inv ::
  "wal \<Rightarrow> fs \<Rightarrow> (nat \<times> string) list \<Rightarrow> (nat \<times> byte list) list list \<Rightarrow> (nat \<times> byte list) list list \<Rightarrow> bool" where
  "wal_inv w d left lrss rss \<longleftrightarrow>
     list_all2 (seg_ok d) left lrss \<and> list_all2 (seg_ok d) (w_segments w) rss \<and>
     segs_chain (left @ w_segments w) (lrss @ rss) (w_next_seq w) \<and>
     listSegments d = left @ w_segments w \<and> distinct (map fst d) \<and>
     (\<forall>rs\<in>set lrss. \<forall>r\<in>set rs. fst r \<le> readCheckpoint d) \<and>
     (left \<noteq> [] \<longrightarrow> w_segments w \<noteq> []) \<and>
     (w_active w \<longrightarrow> w_segments w \<noteq> [] \<and> w_active_size w = length (enc_all (last rss))) \<and>
     (\<not> w_active w \<longrightarrow> w_segments w = [] \<or> fst (last (w_segments w)) < w_next_seq w) \<and>
     readCheckpoint d \<le> w_checkpoint w \<and> w_checkpoint w < w_next_seq w"

lemma seg_ok_update_other:
  "seg_ok d s rs \<Longrightarrow> snd s \<noteq> k \<Longrightarrow> seg_ok (AList.update k v d) s rs"
  by (simp add: seg_ok_def map_fst_update)

lemma seg_ok_update_same:
  "seg_ok d s rs \<Longrightarrow> list_all fits qs \<Longrightarrow>
   seg_ok (AList.update (snd s) (enc_all qs) d) s qs"
  by (simp add: seg_ok_def map_fst_update)

lemma segs_chain_length: "segs_chain ss rss hi \<Longrightarrow> length rss = length ss"
  by (induction ss rss hi rule: segs_chain.induct) (auto simp: Let_def)

lemma segs_chain_less:
  "segs_chain ss rss hi \<Longrightarrow> (\<forall>s\<in>set ss. fst s \<le> hi) \<and> (\<forall>rs\<in>set rss. \<forall>r\<in>set rs. fst r < hi)"
proof (induction ss rss hi rule: segs_chain.induct)
  case (2 s ss rs rss hi)
  then show ?case by (cases ss) (auto simp: Let_def intro: less_le_trans order_trans)
qed auto

lemma segs_chain_suffix: "segs_chain (as @ ss) (ass @ rss) hi \<Longrightarrow> length ass = length as \<Longrightarrow> segs_chain ss rss hi"
proof (induction as arbitrary: ass)
  case (Cons a as)
  then show ?case by (cases ass) (auto simp: Let_def)
qed simp

lemma segs_chain_mono: "segs_chain ss rss hi \<Longrightarrow> hi \<le> hi' \<Longrightarrow> segs_chain ss rss hi'"
proof (induction ss rss hi rule: segs_chain.induct)
  case (2 s ss rs rss hi)
  then show ?case by (cases ss) (auto simp: Let_def intro: less_le_trans)
qed auto

text \<open>Appending to the last segment, and opening a new one.\<close>

lemma segs_chain_append:
  "segs_chain ss rss hi \<Longrightarrow> ss \<noteq> [] \<Longrightarrow> segs_chain ss (butlast rss @ [last rss @ [(hi, p)]]) (Suc hi)"
proof (induction ss rss hi rule: segs_chain.induct)
  case (2 s ss rs rss hi)
  show ?case
  proof (cases ss)
    case Nil
    with 2 have "rss = []" by (cases rss) (auto simp: Let_def)
    with 2 Nil show ?thesis by (auto simp: Let_def sorted_wrt_append)
  next
    case (Cons t ts)
    with 2(2) have "rss \<noteq> []" by (cases rss) (auto simp: Let_def)
    with 2 Cons show ?thesis by (auto simp: Let_def)
  qed
qed auto

lemma segs_chain_new:
  "segs_chain ss rss hi \<Longrightarrow> ss = [] \<or> fst (last ss) < hi \<Longrightarrow> segs_chain (ss @ [(hi, n)]) (rss @ [[]]) hi"
proof (induction ss rss hi rule: segs_chain.induct)
  case (2 s ss rs rss hi)
  then show ?case by (cases ss) (auto simp: Let_def)
qed auto

lemma segs_chain_ge:
  "segs_chain ss rss hi \<Longrightarrow> \<forall>rs\<in>set rss. \<forall>r\<in>set rs. fst (hd ss) \<le> fst r"
proof (induction ss rss hi rule: segs_chain.induct)
  case (2 s ss rs rss hi)
  show ?case
  proof (cases ss)
    case Nil
    with 2 have "rss = []" by (cases rss) (auto simp: Let_def)
    with 2 show ?thesis by (auto simp: Let_def)
  next
    case (Cons t ts)
    with 2 have "fst s < fst t" "\<forall>rs\<in>set rss. \<forall>r\<in>set rs. fst t \<le> fst r" by (auto simp: Let_def)
    with 2(2) show ?thesis by (fastforce simp: Let_def)
  qed
qed auto

lemma segs_chain_sorted: "segs_chain ss rss hi \<Longrightarrow> sorted_wrt (<) (map fst (concat rss))"
proof (induction ss rss hi rule: segs_chain.induct)
  case (2 s ss rs rss hi)
  then have IH: "sorted_wrt (<) (map fst (concat rss))" and rs: "sorted_wrt (<) (map fst rs)"
    and ch: "segs_chain ss rss hi" by (auto simp: Let_def)
  have "fst a < fst b" if "a \<in> set rs" "b \<in> set (concat rss)" for a b
  proof (cases ss)
    case Nil
    with ch that(2) show ?thesis by (cases rss) auto
  next
    case (Cons t ts)
    have "fst (hd ss) \<le> fst b" using segs_chain_ge[OF ch] that(2) by auto
    moreover have "fst a < fst t" using 2(2) Cons that(1) by (simp add: Let_def)
    ultimately show ?thesis using Cons by simp
  qed
  with IH rs show ?case by (simp add: sorted_wrt_append del: set_concat)
qed auto

lemma wal_inv_segs:
  assumes "wal_inv w d left lrss rss"
  shows "concat (map (\<lambda>s. seg_records (fdata d (snd s))) (w_segments w)) = concat rss"
proof -
  have "list_all2 (seg_ok d) ss rss \<Longrightarrow> map (\<lambda>s. seg_records (fdata d (snd s))) ss = rss" for ss
    by (induction ss rss rule: list_all2_induct) (auto simp: seg_ok_def seg_records_all)
  with assms show ?thesis by (simp add: wal_inv_def)
qed

lemma pending_rss: "wal_inv w d left lrss rss \<Longrightarrow> pending w d = filter (\<lambda>(q, _). q > w_checkpoint w) (concat rss)"
  by (simp add: pending_def wal_inv_segs)

lemma segs_chain_starts: "segs_chain ss rss hi \<Longrightarrow> \<forall>s\<in>set ss. fst s \<le> fst (last ss)"
proof (induction ss rss hi rule: segs_chain.induct)
  case (2 s ss rs rss hi)
  show ?case
  proof (cases ss)
    case (Cons t ts)
    have "fst s < fst t" using 2(2) Cons by (simp add: Let_def)
    moreover have IH: "\<forall>x\<in>set ss. fst x \<le> fst (last ss)" using 2 by (auto simp: Let_def)
    moreover from IH have "fst t \<le> fst (last ss)" unfolding Cons by simp
    ultimately show ?thesis using Cons by simp
  qed simp
qed auto

lemma segs_chain_last:
  "segs_chain ss rss hi \<Longrightarrow> ss \<noteq> [] \<Longrightarrow> r \<in> set (last rss) \<Longrightarrow> fst (last ss) \<le> fst r \<and> fst r < hi"
proof (induction ss rss hi rule: segs_chain.induct)
  case (2 s ss rs rss hi)
  show ?case
  proof (cases ss)
    case Nil
    with 2 have "rss = []" by (cases rss) (auto simp: Let_def)
    with 2 Nil show ?thesis by (auto simp: Let_def)
  next
    case (Cons t ts)
    with 2(2) have "rss \<noteq> []" by (cases rss) (auto simp: Let_def)
    with 2 Cons show ?thesis by (auto simp: Let_def)
  qed
qed auto

section \<open>Appending\<close>

lemma wal_inv_names:
  assumes "wal_inv w d left lrss rss" "s \<in> set (w_segments w)"
  shows "snd s = segment_name (fst s)" "fst s < 2 ^ 64" "snd s \<in> set (map fst d)" "snd s \<noteq> checkpointName"
proof -
  obtain rs where "seg_ok d s rs"
    using assms by (fastforce simp: wal_inv_def list_all2_conv_all_nth in_set_conv_nth)
  then show "snd s = segment_name (fst s)" "fst s < 2 ^ 64" "snd s \<in> set (map fst d)"
    by (auto simp: seg_ok_def simp del: set_map)
  then show "snd s \<noteq> checkpointName" using segment_start_name checkpoint_names by fastforce
qed

lemma listed_unique: "distinct (map fst d) \<Longrightarrow> distinct (map snd (listSegments d))"
proof -
  have "distinct ns \<Longrightarrow> distinct (map snd (seg_entries ns))" for ns
    by (induction ns) (auto simp: set_seg_entries split: option.splits)
  then show "distinct (map fst d) \<Longrightarrow> ?thesis"
    by (simp add: listSegments_entries distinct_map)
qed

lemma last_segment:
  assumes "wal_inv w d left lrss rss" "w_segments w \<noteq> []"
  obtains ss s rs0 rs where "w_segments w = ss @ [s]" "rss = rs0 @ [rs]" "list_all2 (seg_ok d) ss rs0"
    "seg_ok d s rs" "active_name w = snd s" "\<And>t. t \<in> set ss \<union> set left \<Longrightarrow> snd t \<noteq> snd s"
proof -
  obtain ss s where ss: "w_segments w = ss @ [s]" using assms(2) by (cases "w_segments w" rule: rev_cases) auto
  then obtain rs0 rs where r: "rss = rs0 @ [rs]" "list_all2 (seg_ok d) ss rs0" "seg_ok d s rs"
    using assms(1) by (auto simp: wal_inv_def list_all2_append1 list_all2_Cons1)
  have "distinct (map snd (left @ ss @ [s]))"
    using assms(1) ss listed_unique[of d] by (simp add: wal_inv_def)
  then have "snd s \<notin> snd ` (set ss \<union> set left)" by auto
  then have "snd t \<noteq> snd s" if "t \<in> set ss \<union> set left" for t using that by (metis imageI)
  with that[OF ss r] ss show ?thesis by (simp add: active_name_def)
qed

lemma list_all2_update_other:
  "list_all2 (seg_ok d) ss rss \<Longrightarrow> (\<And>t. t \<in> set ss \<Longrightarrow> snd t \<noteq> k) \<Longrightarrow>
   list_all2 (seg_ok (AList.update k v d)) ss rss"
  by (induction ss rss rule: list_all2_induct) (auto intro: seg_ok_update_other)

text \<open>Rewriting the content of the last segment.\<close>

lemma wal_inv_rewrite_last:
  assumes inv: "wal_inv w d left lrss rss" and "w_segments w \<noteq> []"
    and qs: "list_all fits qs" and ch: "segs_chain (left @ w_segments w) (lrss @ butlast rss @ [qs]) n" and "w_checkpoint w < n" "w_next_seq w \<le> n"
  shows "wal_inv (w\<lparr>w_active := True, w_active_size := length (enc_all qs), w_next_seq := n\<rparr>)
     (AList.update (active_name w) (enc_all qs) d) left lrss (butlast rss @ [qs])"
proof -
  obtain ss s rs0 rs where s: "w_segments w = ss @ [s]" "rss = rs0 @ [rs]" "list_all2 (seg_ok d) ss rs0"
    "seg_ok d s rs" "active_name w = snd s" "\<And>t. t \<in> set ss \<union> set left \<Longrightarrow> snd t \<noteq> snd s"
    using last_segment[OF assms(1,2)] by blast
  have nm: "snd s \<in> set (map fst d)" "snd s \<noteq> checkpointName"
    using wal_inv_names[OF inv, of s] s(1) by auto
  have "list_all2 (seg_ok (AList.update (snd s) (enc_all qs) d)) (ss @ [s]) (rs0 @ [qs])"
    using list_all2_update_other[OF s(3)] s(6) seg_ok_update_same[OF s(4) qs]
    by (intro list_all2_appendI) (blast, simp)
  moreover have "list_all2 (seg_ok (AList.update (snd s) (enc_all qs) d)) left lrss"
    using inv s(6) unfolding wal_inv_def by (intro list_all2_update_other) blast+
  moreover have "distinct (map fst (AList.update (snd s) (enc_all qs) d))"
    using inv by (auto simp: wal_inv_def distinct_update)
  ultimately show ?thesis
    using inv s(1,2,5) ch assms(5,6) nm
    by (auto simp: wal_inv_def listSegments_update_old readCheckpoint_update)
qed

lemma wal_inv_same: "wal_inv w d left lrss rss \<Longrightarrow> w_segments w \<noteq> [] \<Longrightarrow> rss \<noteq> []"
  by (auto simp: wal_inv_def)

lemma AList_update_twice [simp]: "AList.update k v (AList.update k u d) = AList.update k v d"
  by (induction d) auto

lemma fdata_last:
  assumes "wal_inv w d left lrss rss" "w_segments w \<noteq> []"
  shows "fdata d (active_name w) = enc_all (last rss)"
  using last_segment[OF assms] by (metis last_snoc seg_ok_def)

lemma append_write_inv:
  assumes inv: "wal_inv w d left lrss rss" and act: "w_active w" and fit: "fits (w_next_seq w, p)"
    and tr: "ai_truncate io"
  shows "case append_write io w d p of
      (Inl e, w', d') \<Rightarrow> w' = w \<and> wal_inv w d' left lrss rss
    | (Inr q, w', d') \<Rightarrow> q = w_next_seq w \<and> w_next_seq w' = Suc q \<and> w_checkpoint w' = w_checkpoint w \<and>
         wal_inv w' d' left lrss (butlast rss @ [last rss @ [(q, p)]])"
proof -
  have ne: "w_segments w \<noteq> []" and sz: "w_active_size w = length (enc_all (last rss))"
    and cp: "w_checkpoint w < w_next_seq w" and ch: "segs_chain (left @ w_segments w) (lrss @ rss) (w_next_seq w)"
    using inv act by (auto simp: wal_inv_def)
  note fd = fdata_last[OF inv ne]
  have rne: "rss \<noteq> []" using wal_inv_same[OF inv ne] .
  have fl: "list_all fits (last rss)"
    using last_segment[OF inv ne] by (metis last_snoc seg_ok_def)
  have bck: "wal_inv w (AList.update (active_name w) (enc_all (last rss)) d) left lrss rss"
  proof -
    have "w\<lparr>w_active := True, w_active_size := length (enc_all (last rss)), w_next_seq := w_next_seq w\<rparr> = w"
      using act sz by (cases w) simp
    then show ?thesis
      using wal_inv_rewrite_last[OF inv ne fl _ cp order_refl] ch rne by simp
  qed
  have fwd: "wal_inv (w\<lparr>w_active := True, w_active_size := length (enc_all (last rss @ [(w_next_seq w, p)])), w_next_seq := Suc (w_next_seq w)\<rparr>)
     (AList.update (active_name w) (enc_all (last rss @ [(w_next_seq w, p)])) d) left lrss (butlast rss @ [last rss @ [(w_next_seq w, p)]])"
    using fl fit cp segs_chain_append[OF ch] ne rne
    by (intro wal_inv_rewrite_last[OF inv ne]) (auto simp: butlast_append)
  have tk: "take (w_active_size w) (enc_all (last rss) @ x) = enc_all (last rss)" for x by (simp add: sz)
  have e: "enc (w_next_seq w, p) = encodeRecord (w_next_seq w) p" by (simp add: enc_def)
  have upd: "w\<lparr>w_active := True, w_active_size := a, w_next_seq := n\<rparr> = w\<lparr>w_active_size := a, w_next_seq := n\<rparr>" for a n
    using act by (cases w) simp
  have rec: "enc_all (last rss) @ enc (w_next_seq w, p) = enc_all (last rss @ [(w_next_seq w, p)])"
    "take (w_active_size w) (enc_all (last rss @ [(w_next_seq w, p)])) = enc_all (last rss)"
    "w_active_size w + length (encodeRecord (w_next_seq w) p) = length (enc_all (last rss @ [(w_next_seq w, p)]))"
    by (simp_all add: enc_def sz)
  show ?thesis
  proof (cases "ai_write io")
    case None
    then show ?thesis
      using bck fwd tr
      by (simp add: append_write_def Let_def fd upd tk rec(1,2) e [symmetric] rec(3)[unfolded e [symmetric]]
          del: enc_all_simps length_append)
  next
    case (Some k)
    then show ?thesis using bck tr by (simp add: append_write_def Let_def fd sz)
  qed
qed

lemma seg_name_listed:
  "n \<in> set (map fst d) \<Longrightarrow> segment_start n = Some s \<Longrightarrow> (s, n) \<in> set (listSegments d)"
  by (simp add: listSegments_entries set_seg_entries)

lemma listed_name: "s \<in> set (listSegments d) \<Longrightarrow> snd s \<in> set (map fst d)"
  using set_seg_entries[of "fst s" "snd s" "map fst d"] by (simp add: listSegments_entries)

lemma openNew_inv:
  assumes inv: "wal_inv w d left lrss rss" and na: "\<not> w_active w" and lt: "w_next_seq w < 2 ^ 64"
  shows "case openNewSegmentLocked io (w_next_seq w) w d of
      (False, w', d') \<Rightarrow> w' = w \<and> d' = d
    | (True, w', d') \<Rightarrow> w_active w' \<and> w_next_seq w' = w_next_seq w \<and> w_checkpoint w' = w_checkpoint w \<and>
        wal_inv w' d' left lrss (rss @ [[]])"
proof (cases "ai_create io")
  case True
  let ?n = "segment_name (w_next_seq w)"
  have st: "segment_start ?n = Some (w_next_seq w)" using lt by (rule segment_start_name)
  have lst: "left @ w_segments w = [] \<or> fst (last (left @ w_segments w)) < w_next_seq w"
    using inv na by (auto simp: wal_inv_def)
  have all_low: "fst s < w_next_seq w" if "s \<in> set (listSegments d)" for s
  proof -
    have m: "s \<in> set (left @ w_segments w)" using that inv by (simp add: wal_inv_def)
    moreover have "\<forall>s\<in>set (left @ w_segments w). fst s \<le> fst (last (left @ w_segments w))"
      using inv segs_chain_starts unfolding wal_inv_def by blast
    ultimately have "fst s \<le> fst (last (left @ w_segments w))" by blast
    moreover have "fst (last (left @ w_segments w)) < w_next_seq w" using lst m by auto
    ultimately show ?thesis by linarith
  qed
  have new: "?n \<notin> set (map fst d)"
    using seg_name_listed[OF _ st] all_low by fastforce
  then have emp: "fdata d ?n = []" by (simp add: fdata_def map_of_eq_None_iff split: option.splits)
      (metis map_of_SomeD image_eqI fst_conv)
  have nck: "?n \<noteq> checkpointName" using st checkpoint_names by auto
  have ls: "listSegments (AList.update ?n [] d) = listSegments d @ [(w_next_seq w, ?n)]"
    using new st all_low by (intro listSegments_update_new) (auto intro: less_imp_le)
  have oth: "snd s \<noteq> ?n" if "s \<in> set left \<union> set (w_segments w)" for s
  proof -
    have "s \<in> set (listSegments d)" using that inv by (auto simp: wal_inv_def)
    then have "snd s \<in> set (map fst d)" by (rule listed_name)
    then show ?thesis using new by metis
  qed
  have a: "list_all2 (seg_ok (AList.update ?n [] d)) (w_segments w) rss"
    using inv oth by (intro list_all2_update_other) (auto simp: wal_inv_def)
  have b: "seg_ok (AList.update ?n [] d) (w_next_seq w, ?n) []"
    using inv lt by (auto simp: seg_ok_def map_fst_update wal_inv_def)
  have c: "list_all2 (seg_ok (AList.update ?n [] d)) left lrss"
    using inv oth by (intro list_all2_update_other) (auto simp: wal_inv_def)
  have ch: "segs_chain (left @ w_segments w @ [(w_next_seq w, ?n)]) (lrss @ rss @ [[]]) (w_next_seq w)"
    using segs_chain_new[of "left @ w_segments w" "lrss @ rss"] inv lst by (simp add: wal_inv_def)
  show ?thesis
    using inv na True a b c ls emp nck ch
    by (auto simp: openNewSegmentLocked_def Let_def wal_inv_def distinct_update readCheckpoint_update
        intro!: list_all2_appendI)
qed (simp add: openNewSegmentLocked_def Let_def)

lemma rotate_inv:
  assumes inv: "wal_inv w d left lrss rss" and sz: "w_active w \<longrightarrow> 0 < w_active_size w"
  shows "wal_inv (snd (rotateLocked io w)) d left lrss rss"
proof (cases "w_active w")
  case True
  then have ne: "w_segments w \<noteq> []" and "enc_all (last rss) \<noteq> []" using inv sz by (auto simp: wal_inv_def)
  then obtain r where r: "r \<in> set (last rss)" by (cases "last rss") auto
  have "fst (last (w_segments w)) < w_next_seq w"
    using inv segs_chain_last[of "left @ w_segments w" "lrss @ rss" "w_next_seq w" r] ne r wal_inv_same[OF inv ne]
    by (simp add: wal_inv_def)
  then show ?thesis using inv True by (simp add: rotateLocked_def wal_inv_def)
qed (use inv in \<open>simp add: rotateLocked_def\<close>)

lemma Append_inv:
  assumes inv: "wal_inv w d left lrss rss" and fit: "fits (w_next_seq w, p)" and tr: "ai_truncate io"
  shows "case Append io w d p of
      (Inl e, w', d') \<Rightarrow> w_next_seq w' = w_next_seq w \<and> w_checkpoint w' = w_checkpoint w \<and>
         (\<exists>rss'. wal_inv w' d' left lrss rss' \<and> concat rss' = concat rss)
    | (Inr q, w', d') \<Rightarrow> q = w_next_seq w \<and> w_next_seq w' = Suc q \<and> w_checkpoint w' = w_checkpoint w \<and>
         (\<exists>rss'. wal_inv w' d' left lrss rss' \<and> concat rss' = concat rss @ [(q, p)])"
proof -
  let ?rot = "w_active w \<and> w_active_size w > 0 \<and> w_active_size w + length (encodeRecord (w_next_seq w) p) > w_max_segment w"
  obtain ok w1 where w1: "(if ?rot then rotateLocked io w else (True, w)) = (ok, w1)" by fastforce
  have inv1: "wal_inv w1 d left lrss rss" and same: "w_next_seq w1 = w_next_seq w" "w_checkpoint w1 = w_checkpoint w"
    using w1 inv rotate_inv[OF inv, of io] by (auto simp: rotateLocked_def split: if_splits)
  have app: "Append io w d p = (if \<not> ok then (Inl RotateFailed, w1, d)
      else if \<not> w_active w1 then (let (ok, w2, d2) = openNewSegmentLocked io (w_next_seq w) w1 d
            in if \<not> ok then (Inl CreateFailed, w2, d2) else append_write io w2 d2 p)
      else append_write io w1 d p)"
    unfolding Append_def Let_def w1 by simp
  have cc: "concat (butlast r @ [last r @ [x]]) = concat r @ [x]" if "r \<noteq> []" for r and x :: "nat \<times> byte list"
    using that by (induction r rule: rev_induct) simp_all
  have wr: "case append_write io v d2 p of
      (Inl e, w', d') \<Rightarrow> w_next_seq w' = w_next_seq w \<and> w_checkpoint w' = w_checkpoint w \<and>
         (\<exists>rss'. wal_inv w' d' left lrss rss' \<and> concat rss' = concat r)
    | (Inr q, w', d') \<Rightarrow> q = w_next_seq w \<and> w_next_seq w' = Suc q \<and> w_checkpoint w' = w_checkpoint w \<and>
         (\<exists>rss'. wal_inv w' d' left lrss rss' \<and> concat rss' = concat r @ [(q, p)])"
    if v: "wal_inv v d2 left lrss r" "w_active v" "w_next_seq v = w_next_seq w" "w_checkpoint v = w_checkpoint w" for v d2 r
  proof -
    have "r \<noteq> []" using v(1,2) by (auto simp: wal_inv_def)
    then show ?thesis
      using append_write_inv[OF v(1,2) _ tr, of p] fit v cc
      by (fastforce split: prod.splits sum.splits)
  qed
  show ?thesis
  proof (cases "ok \<and> \<not> w_active w1")
    case True
    obtain ok2 w2 d2 where o: "openNewSegmentLocked io (w_next_seq w) w1 d = (ok2, w2, d2)" by (metis prod_cases3)
    have "w_next_seq w1 < 2 ^ 64" using fit same by (simp add: fits_def)
    moreover have "concat (rss @ [[]]) = concat rss" by simp
    note wr2 = wr[of w2 d2 "rss @ [[]]", unfolded this]
    ultimately show ?thesis
    using openNew_inv[OF inv1, of io] True o same wr2 inv1
    unfolding app by (cases ok2) auto
  next
    case False
    then show ?thesis unfolding app using inv1 same wr[OF inv1] by (cases ok) auto
  qed
qed

lemma segs_chain_first: "segs_chain ss rss hi \<Longrightarrow> \<forall>s\<in>set ss. fst (hd ss) \<le> fst s"
proof (induction ss rss hi rule: segs_chain.induct)
  case (2 s ss rs rss hi)
  show ?case
  proof (cases ss)
    case (Cons t ts)
    have "fst s < fst t" using 2(2) Cons by (simp add: Let_def)
    moreover have "\<forall>x\<in>set ss. fst t \<le> fst x" using 2 Cons by (auto simp: Let_def)
    ultimately show ?thesis by (fastforce intro: less_imp_le order_trans)
  qed simp
qed auto

section \<open>Checkpoints\<close>

lemma prune_none:
  "segs_chain ss rss hi \<Longrightarrow> \<forall>s\<in>set (tl ss). cp + 1 < fst s \<Longrightarrow> prune_kept cp ss = ss"
  by (induction cp ss arbitrary: rss rule: prune_kept.induct)
     (auto simp: pred64_def, (case_tac rss; auto simp: Let_def)+)

lemma prune_drop:
  "segs_chain ss rss hi \<Longrightarrow> \<forall>s\<in>set ss. 1 \<le> fst s \<Longrightarrow>
   \<exists>n. prune_kept cp ss = drop n ss \<and> (ss \<noteq> [] \<longrightarrow> n < length ss) \<and>
     (\<forall>rs\<in>set (take n rss). \<forall>r\<in>set rs. fst r \<le> cp)"
proof (induction cp ss arbitrary: rss rule: prune_kept.induct)
  case (3 cp s t ss)
  then obtain rs qs where r: "rss = rs # qs" by (cases rss) auto
  have ch: "segs_chain (t # ss) qs hi" and lt: "\<forall>r\<in>set rs. fst r < fst t"
    using 3 r by (auto simp: Let_def)
  show ?case
  proof (cases "pred64 (fst t) \<le> cp")
    case True
    then have "fst t \<le> Suc cp" using 3 by (auto simp: pred64_def split: if_splits)
    moreover obtain n where "prune_kept cp (t # ss) = drop n (t # ss)" "n < length (t # ss)"
        "\<forall>rs\<in>set (take n qs). \<forall>r\<in>set rs. fst r \<le> cp"
      using 3(1)[OF True ch] 3(4) by auto
    ultimately show ?thesis using True lt r by (intro exI[of _ "Suc n"]) fastforce
  next
    case False
    moreover have "1 \<le> fst t" using 3(4) by simp
    ultimately have t: "cp + 1 < fst t" by (auto simp: pred64_def split: if_splits)
    have "\<forall>s\<in>set ss. fst t \<le> fst s"
      using segs_chain_first[OF ch] by simp
    then have "prune_kept cp (t # ss) = t # ss"
      using t by (intro prune_none[OF ch]) auto
    with False show ?thesis by (intro exI[of _ 0]) simp
  qed
qed (auto intro: exI[of _ 0])

definition remove_files :: "string list \<Rightarrow> fs \<Rightarrow> fs" where
  "remove_files ns d = foldl (\<lambda>d n. AList.delete n d) d ns"

lemma remove_files_simps [simp]: "remove_files [] d = d" "remove_files (n # ns) d = remove_files ns (AList.delete n d)"
  by (simp_all add: remove_files_def)

lemma remove_files_props:
  "listSegments (remove_files ns d) = filter (\<lambda>s. snd s \<notin> set ns) (listSegments d)"
  "n \<notin> set ns \<Longrightarrow> fdata (remove_files ns d) n = fdata d n"
  "map fst (remove_files ns d) = filter (\<lambda>n. n \<notin> set ns) (map fst d)"
  "checkpointName \<notin> set ns \<Longrightarrow> readCheckpoint (remove_files ns d) = readCheckpoint d"
  by (induction ns arbitrary: d)
     (simp_all add: listSegments_delete fdata_delete map_fst_delete readCheckpoint_delete[OF not_sym] conj_commute)

lemma prune_files:
  "foldl (\<lambda>d s. if rm_ok (snd s) then AList.delete (snd s) d else d) d ss
    = remove_files (map snd (filter (\<lambda>s. rm_ok (snd s)) ss)) d"
  by (induction ss arbitrary: d) simp_all

text \<open>Removing some covered segments from the front of a chain leaves a chain.\<close>

lemma segs_chain_filter:
  assumes "segs_chain (as @ ss) (ass @ rss) hi" "length ass = length as" "ss \<noteq> []"
  shows "segs_chain (map fst (filter (\<lambda>x. P (fst x)) (zip as ass)) @ ss) (map snd (filter (\<lambda>x. P (fst x)) (zip as ass)) @ rss) hi"
  using assms
proof (induction as arbitrary: ass)
  case (Cons a as)
  then obtain b bs where b: "ass = b # bs" by (cases ass) auto
  let ?as = "map fst (filter (\<lambda>x. P (fst x)) (zip as bs))" and ?bs = "map snd (filter (\<lambda>x. P (fst x)) (zip as bs))"
  have ch: "segs_chain (as @ ss) (bs @ rss) hi" using Cons.prems b by (auto simp: Let_def)
  then have IH: "segs_chain (?as @ ss) (?bs @ rss) hi" using Cons b by simp
  have sub: "set (?as @ ss) \<subseteq> set (as @ ss)" by (auto dest: set_zip_leftD)
  obtain t ts where t: "?as @ ss = t # ts" using Cons.prems(3) by (cases "?as @ ss") auto
  obtain u us where u: "as @ ss = u # us" using Cons.prems(3) by (cases "as @ ss") auto
  have le: "fst u \<le> fst t" using segs_chain_first[OF ch] sub t u by (metis list.set_intros(1) list.sel(1) subsetD)
  show ?case
    using Cons.prems IH b t u le by (auto simp: Let_def split: list.splits intro: less_le_trans)
qed simp

lemma writeCheckpoint_inv:
  assumes inv: "wal_inv w d left lrss rss" and seq: "w_checkpoint w < seq" "seq < w_next_seq w" "seq < 2 ^ 64"
  shows "case writeCheckpoint wok rok d seq of (ok, d') \<Rightarrow>
    wal_inv (w\<lparr>w_checkpoint := seq\<rparr>) d' left lrss rss \<and> (ok \<longrightarrow> readCheckpoint d' = seq) \<and> (ok \<longleftrightarrow> wok \<and> rok) \<and>
    (\<not> ok \<longrightarrow> readCheckpoint d' = readCheckpoint d)"
proof -
  let ?tmp = "checkpointName @ ''.tmp''" and ?b = "be_put 8 seq"
  let ?d1 = "AList.update ?tmp ?b d"
  let ?d2 = "AList.update checkpointName ?b (AList.delete ?tmp ?d1)"
  have ne: "?tmp \<noteq> checkpointName" by simp
  have sn: "snd s \<noteq> ?tmp" "snd s \<noteq> checkpointName" if "seg_ok e s rs" for e s rs
    using that segment_start_name[of "fst s"] checkpoint_names by (auto simp: seg_ok_def)
  have sk: "seg_ok (AList.delete ?tmp e) s rs" if "seg_ok e s rs" for e s rs
    using that sn[OF that] by (simp add: seg_ok_def fdata_delete map_fst_delete del: set_map)
  have so: "seg_ok ?d1 s rs" "seg_ok ?d2 s rs" if "seg_ok d s rs" for s rs
    using sn[OF that] that by (auto intro!: seg_ok_update_other sk)
  have la: "list_all2 (seg_ok ?d1) ss qs" "list_all2 (seg_ok ?d2) ss qs" if "list_all2 (seg_ok d) ss qs" for ss qs
    using that so by (auto elim!: list_all2_mono)
  have nl: "filter (\<lambda>s. snd s \<noteq> ?tmp) (listSegments d) = listSegments d"
  proof (rule filter_True, rule)
    fix s assume "s \<in> set (listSegments d)"
    then have "segment_start (snd s) \<noteq> None"
      using set_seg_entries[of "fst s" "snd s" "map fst d"] by (simp add: listSegments_entries)
    then show "snd s \<noteq> ?tmp" using checkpoint_names by metis
  qed
  have ls: "listSegments ?d1 = listSegments d" "listSegments ?d2 = listSegments d"
    using checkpoint_names nl by (simp_all add: listSegments_update_old listSegments_delete)
  have di: "distinct (map fst ?d1)" "distinct (map fst ?d2)"
    using inv by (auto simp: wal_inv_def distinct_update distinct_delete)
  have rc: "readCheckpoint ?d1 = readCheckpoint d" "readCheckpoint ?d2 = seq"
    using ne seq(3) by (simp_all add: readCheckpoint_update readCheckpoint_written)
  have "\<forall>rs\<in>set lrss. \<forall>r\<in>set rs. fst r \<le> seq"
    using inv seq(1) unfolding wal_inv_def by (meson order_trans less_imp_le)
  then have "wal_inv (w\<lparr>w_checkpoint := seq\<rparr>) d left lrss rss" "wal_inv (w\<lparr>w_checkpoint := seq\<rparr>) ?d1 left lrss rss"
    "wal_inv (w\<lparr>w_checkpoint := seq\<rparr>) ?d2 left lrss rss"
    using inv seq la ls di rc by (auto simp: wal_inv_def)
  then show ?thesis using rc by (auto simp: writeCheckpoint_def Let_def)
qed

lemma seg_ok_remove: "seg_ok d s rs \<Longrightarrow> snd s \<notin> set ns \<Longrightarrow> seg_ok (remove_files ns d) s rs"
  by (simp add: seg_ok_def remove_files_props del: set_map)

lemma list_all2_remove:
  "list_all2 (seg_ok d) ss rss \<Longrightarrow> (\<And>s. s \<in> set ss \<Longrightarrow> snd s \<notin> set ns) \<Longrightarrow>
   list_all2 (seg_ok (remove_files ns d)) ss rss"
  by (induction ss rss rule: list_all2_induct) (auto intro: seg_ok_remove)

lemma prune_inv:
  assumes inv: "wal_inv w d left lrss rss" and rc: "readCheckpoint d = w_checkpoint w"
  shows "case pruneSegmentsLocked rm w d of (w', d') \<Rightarrow> w_next_seq w' = w_next_seq w \<and> w_checkpoint w' = w_checkpoint w \<and>
     readCheckpoint d' = w_checkpoint w \<and> w_active w' = w_active w \<and> (\<exists>left' lrss' gone rss'. wal_inv w' d' left' lrss' rss' \<and>
     concat rss = gone @ concat rss' \<and> (\<forall>r\<in>set gone. fst r \<le> w_checkpoint w))"
proof -
  let ?ss = "w_segments w" and ?cp = "w_checkpoint w"
  have len: "length lrss = length left" "length rss = length ?ss"
    using inv by (auto simp: wal_inv_def dest: list_all2_lengthD)
  have ok: "list_all2 (seg_ok d) left lrss" "list_all2 (seg_ok d) ?ss rss"
    and chain: "segs_chain (left @ ?ss) (lrss @ rss) (w_next_seq w)" using inv by (auto simp: wal_inv_def)
  have ch: "segs_chain ?ss rss (w_next_seq w)" using segs_chain_suffix[OF chain len(1)] .
  have pos: "\<forall>s\<in>set ?ss. 1 \<le> fst s"
    using ok(2) by (induction rule: list_all2_induct) (auto simp: seg_ok_def)
  obtain n where n: "prune_kept ?cp ?ss = drop n ?ss" "?ss \<noteq> [] \<longrightarrow> n < length ?ss"
      "\<forall>rs\<in>set (take n rss). \<forall>r\<in>set rs. fst r \<le> ?cp"
    using prune_drop[OF ch pos] by blast
  have dl: "distinct (map snd (left @ ?ss))" using inv listed_unique[of d] by (simp add: wal_inv_def)
  then have dist: "set (take n ?ss) \<inter> set (drop n ?ss) = {}"
    by (intro set_take_disj_set_drop_if_distinct) (auto simp: distinct_map)
  have gone: "filter (\<lambda>s. s \<notin> set (drop n ?ss)) ?ss = take n ?ss"
  proof -
    have "filter (\<lambda>s. s \<notin> set (drop n ?ss)) (take n ?ss @ drop n ?ss) = take n ?ss"
      using dist unfolding filter_append by (auto simp: filter_id_conv filter_empty_conv)
    then show ?thesis by simp
  qed
  let ?ns = "map snd (filter (\<lambda>s. rm (snd s)) (take n ?ss))"
  let ?d = "remove_files ?ns d" and ?w = "w\<lparr>w_segments := drop n ?ss\<rparr>"
  have pr: "pruneSegmentsLocked rm w d = (?w, ?d)"
    by (simp add: pruneSegmentsLocked_def n(1) gone prune_files Let_def del: filter_filter)
  let ?all = "zip (left @ take n ?ss) (lrss @ take n rss)"
  let ?P = "\<lambda>s. snd s \<notin> set ?ns"
  let ?l = "map fst (filter (\<lambda>x. ?P (fst x)) ?all)" and ?lr = "map snd (filter (\<lambda>x. ?P (fst x)) ?all)"
  have lz: "length (left @ take n ?ss) = length (lrss @ take n rss)" using len by simp
  have mf: "map fst (filter (\<lambda>x. ?P (fst x)) (zip xs ys)) = filter ?P xs" if "length xs = length ys"
    for xs and ys :: "(nat \<times> byte list) list list"
    using that by (induction xs ys rule: list_induct2) auto
  have disj: "snd s \<notin> set (map snd (take n ?ss))" if "s \<in> set (drop n ?ss) \<union> set left" for s
  proof -
    have "distinct (map snd left @ map snd (take n ?ss) @ map snd (drop n ?ss))" using dl by (simp flip: map_append)
    then show ?thesis using that by (auto simp: disjoint_iff)
  qed
  then have kp: "?P s" if "s \<in> set (drop n ?ss) \<union> set left" for s using that by fastforce
  have ls: "listSegments ?d = ?l @ drop n ?ss"
  proof -
    have "listSegments ?d = filter ?P (left @ take n ?ss @ drop n ?ss)"
      using inv by (simp add: remove_files_props(1) wal_inv_def)
    also have "\<dots> = filter ?P (left @ take n ?ss) @ filter ?P (drop n ?ss)" by (simp only: filter_append append_assoc)
    also have "filter ?P (drop n ?ss) = drop n ?ss" using kp by (auto simp: filter_id_conv)
    finally show ?thesis using mf[OF lz] by simp
  qed
  have a2: "list_all2 (seg_ok d) (left @ take n ?ss) (lrss @ take n rss)"
    using ok by (intro list_all2_appendI list_all2_takeI)
  have ok_l: "list_all2 (seg_ok ?d) ?l ?lr"
    using a2 unfolding list_all2_iff[of "seg_ok d"]
    by (auto simp: list_all2_map1 list_all2_map2 list_all2_same simp del: zip_append intro!: seg_ok_remove)
  have ok_r: "list_all2 (seg_ok ?d) (drop n ?ss) (drop n rss)"
    by (rule list_all2_remove[OF list_all2_dropI[OF ok(2)]]) (use kp in blast)
  have r: "rss = take n rss @ drop n rss" by simp
  have gl: "\<forall>q\<in>set (concat (take n rss)). fst q \<le> ?cp" using n(3) by fastforce
  have "wal_inv ?w ?d ?l ?lr (drop n rss)"
  proof (cases "?ss = []")
    case True
    then have "left = []" "rss = []" "lrss = []" using inv by (auto simp: wal_inv_def)
    with True inv show ?thesis by (simp add: wal_inv_def)
  next
    case False
    have ckn: "checkpointName \<notin> set ?ns" using wal_inv_names(4)[OF inv] by (fastforce dest: in_set_takeD)
    have c: "segs_chain (?l @ drop n ?ss) (?lr @ drop n rss) (w_next_seq w)"
      using chain False n(2) by (intro segs_chain_filter[OF _ lz[symmetric]]) simp_all
    have st: "\<forall>rs\<in>set ?lr. \<forall>r\<in>set rs. fst r \<le> readCheckpoint ?d"
    proof -
      have "\<forall>rs\<in>set (lrss @ take n rss). \<forall>r\<in>set rs. fst r \<le> ?cp"
        using inv n(3) rc by (auto simp: wal_inv_def)
      then show ?thesis using remove_files_props(4)[OF ckn] rc by (fastforce dest: set_zip_rightD)
    qed
    have la: "drop n rss \<noteq> []" "last (drop n ?ss) = last ?ss" "last (drop n rss) = last rss"
      using n(2) False len by auto
    have di: "distinct (map fst ?d)" using inv unfolding remove_files_props(3) by (simp add: wal_inv_def)
    show ?thesis
      unfolding wal_inv_def
      using ok_l ok_r c ls st la di inv n(2) False rc remove_files_props(4)[OF ckn, of d]
      by (auto simp: wal_inv_def)
  qed
  moreover have "readCheckpoint ?d = ?cp"
    using rc wal_inv_names(4)[OF inv] by (subst remove_files_props(4)) (fastforce dest: in_set_takeD)+
  moreover have "concat rss = concat (take n rss) @ concat (drop n rss)" by (metis r concat_append)
  moreover note gl
  ultimately have "\<exists>left' lrss' gone rss'. wal_inv ?w ?d left' lrss' rss' \<and> concat rss = gone @ concat rss' \<and>
     (\<forall>r\<in>set gone. fst r \<le> ?cp)" by blast
  then show ?thesis unfolding pr prod.case using \<open>readCheckpoint ?d = ?cp\<close> by simp
qed

lemma SetCheckpoint_inv:
  assumes inv: "wal_inv w d left lrss rss" and seq: "seq < w_next_seq w" "seq < 2 ^ 64"
  shows "case SetCheckpoint wok rok rm w d seq of (ok, w', d') \<Rightarrow>
     w_next_seq w' = w_next_seq w \<and> w_checkpoint w' = max seq (w_checkpoint w) \<and> w_active w' = w_active w \<and>
     (readCheckpoint d = w_checkpoint w \<and> ok \<longrightarrow> readCheckpoint d' = w_checkpoint w') \<and>
     (wok \<and> rok \<longrightarrow> ok) \<and>
     (\<exists>left' lrss' gone rss'. wal_inv w' d' left' lrss' rss' \<and> concat rss = gone @ concat rss' \<and>
        (\<forall>r\<in>set gone. fst r \<le> w_checkpoint w') \<and>
        ((readCheckpoint d' = readCheckpoint d \<and> gone = []) \<or> (w_checkpoint w < seq \<and> readCheckpoint d' = seq)))"
proof (cases "seq \<le> w_checkpoint w")
  case True
  have "\<exists>left' lrss' gone rss'. wal_inv w d left' lrss' rss' \<and> concat rss = gone @ concat rss' \<and>
        (\<forall>r\<in>set gone. fst r \<le> w_checkpoint w) \<and> ((readCheckpoint d = readCheckpoint d \<and> gone = []) \<or> (w_checkpoint w < seq \<and> readCheckpoint d = seq))"
    by (intro exI[of _ left] exI[of _ lrss] exI[of _ "[]"] exI[of _ rss]) (simp add: inv)
  with True show ?thesis by (simp add: SetCheckpoint_def)
next
  case False
  let ?w = "w\<lparr>w_checkpoint := seq\<rparr>"
  obtain ok d1 where wc: "writeCheckpoint wok rok d seq = (ok, d1)" by fastforce
  have w1: "wal_inv ?w d1 left lrss rss" "ok \<longrightarrow> readCheckpoint d1 = seq" "ok \<longleftrightarrow> wok \<and> rok" "\<not> ok \<longrightarrow> readCheckpoint d1 = readCheckpoint d"
    using writeCheckpoint_inv[OF inv _ seq, of wok rok] False wc by auto
  obtain w2 d2 where pr: "pruneSegmentsLocked rm ?w d1 = (w2, d2)" by fastforce
  show ?thesis
  proof (cases ok)
    case True
    then have "readCheckpoint d1 = w_checkpoint ?w" using w1(2) by simp
    note pi = prune_inv[OF w1(1) this, of rm]
    have sc: "SetCheckpoint wok rok rm w d seq = (True, w2, d2)"
      using True False pr by (simp add: SetCheckpoint_def wc)
    show ?thesis unfolding sc using pi pr False by simp
  next
    case f: False
    have "\<exists>left' lrss' gone rss'. wal_inv ?w d1 left' lrss' rss' \<and> concat rss = gone @ concat rss' \<and>
        (\<forall>r\<in>set gone. fst r \<le> w_checkpoint ?w) \<and> ((readCheckpoint d1 = readCheckpoint d \<and> gone = []) \<or> (w_checkpoint w < seq \<and> readCheckpoint d1 = seq))"
      using f by (intro exI[of _ left] exI[of _ lrss] exI[of _ "[]"] exI[of _ rss]) (simp add: w1(1,4))
    with f False w1(3) show ?thesis by (simp add: SetCheckpoint_def wc)
  qed
qed

section \<open>Reopening after a crash\<close>

text \<open>The sequence counter is never ahead of what a scan can recover.\<close>

definition tight :: "wal \<Rightarrow> fs \<Rightarrow> (nat \<times> byte list) list list \<Rightarrow> bool" where
  "tight w d rss \<longleftrightarrow> w_next_seq w = Suc (readCheckpoint d) \<or>
     (\<exists>r\<in>set (concat rss). w_next_seq w = Suc (fst r))"

lemma max_seq_Max: "max_seq m rs = Max (insert m (fst ` set rs))"
proof (induction rs arbitrary: m)
  case (Cons r rs)
  have "max_seq m (r # rs) = max_seq (max m (fst r)) rs"
    by (simp add: max_seq_def max_def split: prod.split)
  also have "\<dots> = Max (insert m (insert (fst r) (fst ` set rs)))"
    unfolding Cons by (cases "set rs = {}") (simp_all add: max.assoc)
  finally show ?case by simp
qed (simp add: max_seq_def)

lemma Max_Max_insert:
  "finite A \<Longrightarrow> finite B \<Longrightarrow> Max (insert (Max (insert m A)) B) = Max (insert m A \<union> B)"
  for m :: nat
  using Max_Un[of "insert m A" B] by (cases "B = {}") (simp_all del: Un_insert_left)

lemma max_seqs_Max:
  "foldl (\<lambda>m (s, n). max_seq m (f n)) m ss = Max (insert m (fst ` set (concat (map (\<lambda>s. f (snd s)) ss))))"
proof (induction ss arbitrary: m)
  case (Cons s ss)
  let ?A = "fst ` set (f (snd s))" and ?B = "fst ` set (concat (map (\<lambda>s. f (snd s)) ss))"
  have "foldl (\<lambda>m (s, n). max_seq m (f n)) m (s # ss) = Max (insert (Max (insert m ?A)) ?B)"
    using Cons[of "max_seq m (f (snd s))"] by (cases s) (simp add: max_seq_Max)
  also have "\<dots> = Max (insert m ?A \<union> ?B)"
    by (rule Max_Max_insert) simp_all
  finally show ?case by (simp add: image_Un)
qed simp

text \<open>A crash in the middle of an append leaves any proper prefix of the record behind.\<close>

definition crash_files :: "wal \<Rightarrow> fs \<Rightarrow> byte list \<Rightarrow> nat \<Rightarrow> fs" where
  "crash_files w d p k = (if w_active w then AList.update (active_name w)
     (fdata d (active_name w) @ take k (encodeRecord (w_next_seq w) p)) d else d)"

definition good_open :: open_io where
  "good_open = \<lparr>oi_mkdir = True, oi_truncate = True, oi_open = True, oi_stat = True\<rparr>"

lemma listed_records:
  "list_all2 (seg_ok d) ss rss \<Longrightarrow> map (\<lambda>s. seg_records (fdata d (snd s))) ss = rss"
  by (induction ss rss rule: list_all2_induct) (auto simp: seg_ok_def seg_records_all)

lemma next_seq_recovered:
  assumes inv: "wal_inv w d left lrss rss" and ti: "tight w d rss"
  shows "Suc (max (readCheckpoint d) (Max (insert 0 (fst ` set (concat (lrss @ rss)))))) = w_next_seq w"
proof -
  let ?S = "fst ` set (concat (lrss @ rss))"
  have "\<forall>r\<in>set (concat (lrss @ rss)). fst r < w_next_seq w"
    using inv segs_chain_less unfolding wal_inv_def by (metis (no_types, lifting) in_set_conv_decomp set_concat UN_E)
  then have "Suc (max (readCheckpoint d) (Max (insert 0 ?S))) \<le> w_next_seq w"
    using inv by (auto simp: wal_inv_def Suc_le_eq)
  moreover have "w_next_seq w \<le> Suc (max (readCheckpoint d) (Max (insert 0 ?S)))"
  proof (cases "w_next_seq w = Suc (readCheckpoint d)")
    case False
    then obtain r where "r \<in> set (concat rss)" "w_next_seq w = Suc (fst r)" using ti by (auto simp: tight_def)
    moreover from this have "fst r \<le> Max (insert 0 ?S)" by (intro Max_ge) auto
    ultimately show ?thesis by (simp only: Suc_le_mono max.coboundedI2)
  qed simp
  ultimately show ?thesis by simp
qed

lemma Open_inv:
  assumes inv: "wal_inv w d left lrss rss" and ti: "tight w d rss" and fit: "fits (w_next_seq w, p)"
    and k: "k < headerSize + length p"
  shows "\<exists>w' d'. Open good_open True mx sync (crash_files w d p k) = Inr (w', d') \<and>
    w_next_seq w' = w_next_seq w \<and> w_checkpoint w' = readCheckpoint d \<and> readCheckpoint d' = readCheckpoint d \<and>
    wal_inv w' d' [] [] (lrss @ rss) \<and> (w_segments w \<noteq> [] \<longrightarrow> w_active w')"
proof -
  let ?c = "crash_files w d p k" and ?all = "left @ w_segments w"
  have ok: "list_all2 (seg_ok d) ?all (lrss @ rss)" using inv by (auto simp: wal_inv_def intro: list_all2_appendI)
  show ?thesis
  proof (cases "w_segments w = []")
    case True
    then have e: "left = []" "rss = []" "lrss = []" "\<not> w_active w" using inv by (auto simp: wal_inv_def)
    then have n: "w_next_seq w = Suc (readCheckpoint d)" using ti by (auto simp: tight_def)
    show ?thesis using inv True e n by (auto simp: Open_def crash_files_def good_open_def wal_inv_def Let_def)
  next
    case False
    let ?n = "active_name w"
    obtain ss s rs0 rs where s: "w_segments w = ss @ [s]" "rss = rs0 @ [rs]" "list_all2 (seg_ok d) ss rs0"
      "seg_ok d s rs" "active_name w = snd s" "\<And>t. t \<in> set ss \<union> set left \<Longrightarrow> snd t \<noteq> snd s"
      using last_segment[OF inv False] by blast
    have fit_rs: "list_all fits rs" and fd: "fdata d ?n = enc_all rs" using s(4,5) by (auto simp: seg_ok_def)
    have nm: "?n \<in> set (map fst d)" "?n \<noteq> checkpointName" using wal_inv_names[OF inv, of s] s(1,5) by auto
    define j where "j = (if w_active w then k else 0)"
    have fc: "fdata ?c ?n = enc_all rs @ take j (encodeRecord (w_next_seq w) p)"
      by (simp add: crash_files_def fd j_def)
    have j: "j < headerSize + length p" using k by (auto simp: j_def headerSize_def)
    have scan: "scanSegment (fdata ?c ?n) 0 = (rs, length (enc_all rs), j \<noteq> 0)"
      using scan_all[OF fit_rs, of "take j (encodeRecord (w_next_seq w) p)" 0] scan_torn[OF fit j]
      by (simp add: fc)
    have oth: "fdata ?c (snd t) = fdata d (snd t)" if "t \<in> set ss \<union> set left" for t
      using s(5,6) that by (auto simp: crash_files_def)
    have ls: "listSegments ?c = ?all" using inv nm(1) by (simp add: crash_files_def listSegments_update_old wal_inv_def)
    have rc: "readCheckpoint ?c = readCheckpoint d" using nm(2) by (simp add: crash_files_def readCheckpoint_update)
    have recs: "map (\<lambda>t. seg_records (fdata ?c (snd t))) ?all = lrss @ rss"
    proof -
      have "map (\<lambda>t. seg_records (fdata ?c (snd t))) (left @ ss) = map (\<lambda>t. seg_records (fdata d (snd t))) (left @ ss)"
        using oth by auto
      also have "\<dots> = lrss @ rs0"
        using listed_records[OF list_all2_appendI[OF _ s(3)], of left lrss] inv by (simp add: wal_inv_def)
      finally show ?thesis using s(1,2,5) scan by (simp add: seg_records_def)
    qed
    let ?d' = "AList.update ?n (enc_all rs) ?c"
    define d' where "d' = (if j \<noteq> 0 then AList.update ?n (take (length (enc_all rs)) (fdata ?c ?n)) ?c else ?c)"
    have mf: "map fst d' = map fst d" using nm(1) by (simp add: d'_def crash_files_def map_fst_update del: set_map)
    have mo: "map_of d' = map_of d"
    proof -
      obtain b where b: "map_of d ?n = Some b" using nm(1) by (metis map_of_eq_None_iff not_None_eq set_map)
      then have b: "map_of d ?n = Some (enc_all rs)" using fd by (simp add: fdata_def)
      then show ?thesis
        unfolding d'_def fc using fd by (auto simp: crash_files_def j_def update_conv' fun_eq_iff)
    qed
    have so: "seg_ok d' = seg_ok d" using mo mf by (simp add: seg_ok_def fdata_def fun_eq_iff del: set_map)
    have ls': "listSegments d' = listSegments d" and rc': "readCheckpoint d' = readCheckpoint d"
      using mf mo by (simp_all add: listSegments_entries readCheckpoint_def)
    let ?w = "\<lparr>w_max_segment = (if mx = 0 then defaultSegmentMax else mx), w_sync_on_append = sync,
        w_next_seq = w_next_seq w, w_checkpoint = readCheckpoint d, w_segments = ?all, w_active = True,
        w_active_size = length (fdata d' ?n)\<rparr>"
    have mxs: "foldl (\<lambda>m (_, n). max_seq m (seg_records (fdata ?c n))) 0 ?all
        = Max (insert 0 (fst ` set (concat (lrss @ rss))))"
      unfolding max_seqs_Max recs ..
    let ?M = "Max (insert 0 (fst ` set (concat (lrss @ rss))))"
    have nx: "(if readCheckpoint d + 1 > ?M + 1 then readCheckpoint d + 1 else ?M + 1) = w_next_seq w"
    proof -
      have "Suc (max a m) = n \<Longrightarrow> (if a + 1 > m + 1 then a + 1 else m + 1) = n" for a m n :: nat
        by (auto simp: max_def split: if_splits)
      then show ?thesis using next_seq_recovered[OF inv ti] by blast
    qed
    have la: "snd (last ?all) = ?n" "?all \<noteq> []" using s(1,5) by simp_all
    have dd: "(if j \<noteq> 0 then AList.update ?n (take (length (enc_all rs)) (fdata ?c ?n)) ?c else ?c) = d'"
      by (simp add: d'_def)
    have "Open good_open True mx sync ?c = Inr (?w, d')"
      unfolding Open_def Let_def ls mxs rc nx la scan prod.case dd
      using la(2) by (simp add: good_open_def)
    moreover have "fdata d' ?n = enc_all rs" using mo fd by (simp add: fdata_def)
    moreover have "wal_inv ?w d' [] [] (lrss @ rss)"
      using inv so ls' rc' mf ok s(2) \<open>fdata d' ?n = enc_all rs\<close> by (auto simp: wal_inv_def)
    ultimately show ?thesis using rc' by auto
  qed
qed

section \<open>The contract of the log\<close>

text \<open>A well-formed log: some segment contents explain the process's state and the directory.\<close>

definition wal_ok :: "wal \<times> fs \<Rightarrow> bool" where
  "wal_ok st \<longleftrightarrow> (\<exists>left lrss rss. wal_inv (fst st) (snd st) left lrss rss \<and> tight (fst st) (snd st) rss)"

lemma wal_okI: "wal_inv w d left lrss rss \<Longrightarrow> tight w d rss \<Longrightarrow> wal_ok (w, d)"
  by (auto simp: wal_ok_def)

lemma wal_okE:
  assumes "wal_ok (w, d)"
  obtains left lrss rss where "wal_inv w d left lrss rss" "tight w d rss"
    "pending w d = filter (\<lambda>(q, _). q > w_checkpoint w) (concat rss)"
  using assms pending_rss by (auto simp: wal_ok_def)

lemma append_write_readCheckpoint:
  "active_name w \<noteq> checkpointName \<Longrightarrow>
   (case append_write io w d p of (r, w', d') \<Rightarrow> readCheckpoint d' = readCheckpoint d)"
  by (auto simp: append_write_def Let_def readCheckpoint_update split: option.splits)

lemma Append_readCheckpoint:
  assumes inv: "wal_inv w d left lrss rss" and fit: "fits (w_next_seq w, p)"
  shows "case Append io w d p of (r, w', d') \<Rightarrow> readCheckpoint d' = readCheckpoint d"
proof -
  let ?s = "segment_name (w_next_seq w)"
  have n: "?s \<noteq> checkpointName"
    using segment_start_name[of "w_next_seq w"] checkpoint_names fit by (auto simp: fits_def)
  have a: "active_name w \<noteq> checkpointName" if "w_active w"
    using wal_inv_names(4)[OF inv, of "last (w_segments w)"] inv that by (auto simp: wal_inv_def active_name_def)
  let ?rot = "w_active w \<and> w_active_size w > 0 \<and> w_active_size w + length (encodeRecord (w_next_seq w) p) > w_max_segment w"
  obtain ok w1 where w1: "(if ?rot then rotateLocked io w else (True, w)) = (ok, w1)" by fastforce
  then have a1: "active_name w1 \<noteq> checkpointName" if "w_active w1"
    using a that by (auto simp: rotateLocked_def split: if_splits)
  have new: "case openNewSegmentLocked io (w_next_seq w) w1 d of (ok, w2, d2) \<Rightarrow>
      readCheckpoint d2 = readCheckpoint d \<and> (ok \<longrightarrow> active_name w2 \<noteq> checkpointName)"
    using n by (simp add: openNewSegmentLocked_def Let_def readCheckpoint_update active_name_def)
  have app: "Append io w d p = (if \<not> ok then (Inl RotateFailed, w1, d)
      else if \<not> w_active w1 then (let (ok, w2, d2) = openNewSegmentLocked io (w_next_seq w) w1 d
            in if \<not> ok then (Inl CreateFailed, w2, d2) else append_write io w2 d2 p)
      else append_write io w1 d p)"
    unfolding Append_def Let_def w1 by simp
  obtain ok2 w2 d2 where o: "openNewSegmentLocked io (w_next_seq w) w1 d = (ok2, w2, d2)" by (metis prod_cases3)
  show ?thesis
    unfolding app o using new[unfolded o] a1 append_write_readCheckpoint[where w = w1 and io = io and d = d and p = p] append_write_readCheckpoint[where w = w2 and io = io and d = d2 and p = p]
    by (cases ok; cases "w_active w1"; cases ok2) (auto split: prod.splits)
qed

lemma Append_ok:
  assumes ok: "wal_ok (w, d)" and fit: "fits (w_next_seq w, p)" and tr: "ai_truncate io"
  shows "case Append io w d p of
      (Inl e, w', d') \<Rightarrow> wal_ok (w', d') \<and> pending w' d' = pending w d \<and> w_next_seq w' = w_next_seq w
    | (Inr q, w', d') \<Rightarrow> wal_ok (w', d') \<and> pending w' d' = pending w d @ [(w_next_seq w, p)] \<and>
        q = w_next_seq w \<and> w_next_seq w' = Suc (w_next_seq w)"
proof -
  obtain left lrss rss where inv: "wal_inv w d left lrss rss" and ti: "tight w d rss"
      and pe: "pending w d = filter (\<lambda>(q, _). q > w_checkpoint w) (concat rss)"
    using ok by (rule wal_okE)
  have cp: "w_checkpoint w < w_next_seq w" using inv by (simp add: wal_inv_def)
  obtain r w' d' where ap: "Append io w d p = (r, w', d')" by (metis prod_cases3)
  have rc: "readCheckpoint d' = readCheckpoint d"
    using Append_readCheckpoint[OF inv fit, of io] ap by simp
  note ai = Append_inv[OF inv fit tr, unfolded ap prod.case]
  show ?thesis
  proof (cases r)
    case (Inl e)
    with ai obtain rss' where "wal_inv w' d' left lrss rss'" "concat rss' = concat rss"
        "w_next_seq w' = w_next_seq w" "w_checkpoint w' = w_checkpoint w" by auto
    moreover from this have "tight w' d' rss'" using ti rc by (simp add: tight_def del: set_concat)
    ultimately show ?thesis using Inl ap pe by (auto intro!: wal_okI simp: pending_rss)
  next
    case (Inr q)
    with ai obtain rss' where "wal_inv w' d' left lrss rss'" "concat rss' = concat rss @ [(q, p)]" "q = w_next_seq w"
        "w_next_seq w' = Suc q" "w_checkpoint w' = w_checkpoint w" by auto
    moreover from this have "tight w' d' rss'" by (simp add: tight_def del: set_concat)
    ultimately show ?thesis using Inr ap pe cp by (auto intro!: wal_okI simp: pending_rss)
  qed
qed

lemma SetCheckpoint_ok:
  assumes ok: "wal_ok (w, d)" and seq: "n < w_next_seq w" "n < 2 ^ 64"
  shows "case SetCheckpoint wok rok rm w d n of (r, w', d') \<Rightarrow>
    wal_ok (w', d') \<and> pending w' d' = filter (\<lambda>(q, _). n < q) (pending w d) \<and>
    w_next_seq w' = w_next_seq w \<and> w_checkpoint w' = max n (w_checkpoint w) \<and>
    (wok \<and> rok \<and> readCheckpoint d = w_checkpoint w \<longrightarrow> r \<and> readCheckpoint d' = w_checkpoint w')"
proof -
  obtain left lrss rss where inv: "wal_inv w d left lrss rss" and ti: "tight w d rss"
      and pe: "pending w d = filter (\<lambda>(q, _). q > w_checkpoint w) (concat rss)"
    using ok by (rule wal_okE)
  obtain r w' d' where sc: "SetCheckpoint wok rok rm w d n = (r, w', d')" by (metis prod_cases3)
  have "\<exists>left' lrss' gone rss'. w_next_seq w' = w_next_seq w \<and> w_checkpoint w' = max n (w_checkpoint w) \<and>
      (readCheckpoint d = w_checkpoint w \<and> r \<longrightarrow> readCheckpoint d' = w_checkpoint w') \<and> (wok \<and> rok \<longrightarrow> r) \<and>
      wal_inv w' d' left' lrss' rss' \<and> concat rss = gone @ concat rss' \<and>
      (\<forall>x\<in>set gone. fst x \<le> w_checkpoint w') \<and> ((readCheckpoint d' = readCheckpoint d \<and> gone = [])
        \<or> (w_checkpoint w < n \<and> readCheckpoint d' = n))"
    using SetCheckpoint_inv[OF inv seq, of wok rok rm, unfolded sc prod.case] by blast
  then obtain left' lrss' gone rss' where s: "w_next_seq w' = w_next_seq w" "w_checkpoint w' = max n (w_checkpoint w)"
      "readCheckpoint d = w_checkpoint w \<and> r \<longrightarrow> readCheckpoint d' = w_checkpoint w'" "wok \<and> rok \<longrightarrow> r"
      "wal_inv w' d' left' lrss' rss'" "concat rss = gone @ concat rss'" "\<forall>x\<in>set gone. fst x \<le> w_checkpoint w'"
      "(readCheckpoint d' = readCheckpoint d \<and> gone = []) \<or> (w_checkpoint w < n \<and> readCheckpoint d' = n)"
    by blast
  have "tight w' d' rss'"
    using s(8)
  proof
    assume "readCheckpoint d' = readCheckpoint d \<and> gone = []"
    with s(1,6) ti show ?thesis by (simp add: tight_def del: set_concat)
  next
    assume a: "w_checkpoint w < n \<and> readCheckpoint d' = n"
    have "readCheckpoint d \<le> w_checkpoint w" using inv by (simp add: wal_inv_def)
    with a seq(1) have "w_next_seq w \<noteq> Suc (readCheckpoint d)" by linarith
    then obtain x where x: "x \<in> set (gone @ concat rss')" "w_next_seq w = Suc (fst x)"
      using ti s(6) by (auto simp: tight_def simp del: set_concat)
    show ?thesis
    proof (cases "x \<in> set (concat rss')")
      case True
      then show ?thesis using x(2) s(1) by (auto simp: tight_def simp del: set_concat)
    next
      case False
      then have "fst x \<le> n" using x(1) s(2,7) a by auto
      then have "w_next_seq w = Suc n" using x(2) seq(1) by linarith
      then show ?thesis using a s(1) by (simp add: tight_def)
    qed
  qed
  moreover have "pending w' d' = filter (\<lambda>(q, _). n < q) (pending w d)"
  proof -
    have "pending w' d' = filter (\<lambda>(q, _). q > w_checkpoint w') (gone @ concat rss')"
      using s(7) by (auto simp: pending_rss[OF s(5)] filter_empty_conv)
    also have "\<dots> = filter (\<lambda>(q, _). n < q) (pending w d)"
      unfolding s(6)[symmetric] pe filter_filter s(2) by (rule filter_cong) auto
    finally show ?thesis .
  qed
  ultimately show ?thesis unfolding sc using s by (auto intro!: wal_okI)
qed

lemma Open_ok:
  assumes ok: "wal_ok (w, d)" and fit: "fits (w_next_seq w, p)" and k: "k < headerSize + length p"
  shows "\<exists>w' d'. Open good_open True mx sync (crash_files w d p k) = Inr (w', d') \<and> wal_ok (w', d') \<and>
    w_next_seq w' = w_next_seq w \<and> w_checkpoint w' = readCheckpoint d \<and> readCheckpoint d' = readCheckpoint d \<and>
    pending w d = filter (\<lambda>(q, _). w_checkpoint w < q) (pending w' d')"
proof -
  obtain left lrss rss where inv: "wal_inv w d left lrss rss" and ti: "tight w d rss"
      and pe: "pending w d = filter (\<lambda>(q, _). q > w_checkpoint w) (concat rss)"
    using ok by (rule wal_okE)
  obtain w' d' where o: "Open good_open True mx sync (crash_files w d p k) = Inr (w', d')"
      "w_next_seq w' = w_next_seq w" "w_checkpoint w' = readCheckpoint d" "readCheckpoint d' = readCheckpoint d"
      "wal_inv w' d' [] [] (lrss @ rss)"
    using Open_inv[OF inv ti fit k, of mx sync] by blast
  have "tight w' d' (lrss @ rss)" using ti o(2,4) by (auto simp: tight_def)
  moreover have rc: "readCheckpoint d \<le> w_checkpoint w" "\<forall>rs\<in>set lrss. \<forall>r\<in>set rs. fst r \<le> readCheckpoint d"
    using inv unfolding wal_inv_def by blast+
  then have low: "\<forall>r\<in>set (concat lrss). fst r \<le> w_checkpoint w" by fastforce
  have "filter (\<lambda>(q, _). w_checkpoint w < q) (pending w' d') = pending w d"
  proof -
    let ?P = "\<lambda>x. (case x of (q, _) \<Rightarrow> readCheckpoint d < q) \<and> (case x of (q, _) \<Rightarrow> w_checkpoint w < q)"
    have "filter ?P (concat lrss) = []" using low unfolding filter_empty_conv by fastforce
    moreover have "filter ?P (concat rss) = filter (\<lambda>(q, _). w_checkpoint w < q) (concat rss)"
      using rc(1) by (intro filter_cong) auto
    ultimately show ?thesis unfolding pending_rss[OF o(5)] pe filter_filter o(3) concat_append filter_append by simp
  qed
  ultimately show ?thesis using o by (auto intro!: wal_okI)
qed

text \<open>C4. Appending is atomic for records within the limits.  On a well-formed log, with a payload of at
  most 64 MiB and a next number below 2 to the 64, whatever system calls fail during the call
  (rotation, creation, a short write, the sync), provided that the truncation which undoes a failed
  write succeeds, a reported error leaves the pending records and the sequence counter as they were,
  and success adds exactly the new record at the end under the next number; either way the log stays
  well formed.  \<^verbatim>\<open>Append\<close> itself checks neither limit: a larger record is reported as written and lost
  at the next start.\<close>

theorem Append_atomic:
  assumes "wal_ok (w, d)" "fits (w_next_seq w, p)" "ai_truncate io" "Append io w d p = (r, w', d')"
  shows "wal_ok (w', d') \<and> (case r of
      Inl e \<Rightarrow> pending w' d' = pending w d \<and> w_next_seq w' = w_next_seq w
    | Inr q \<Rightarrow> q = w_next_seq w \<and> w_next_seq w' = Suc q \<and> pending w' d' = pending w d @ [(q, p)])"
  using Append_ok[OF assms(1-3)] assms(4) by (auto split: sum.splits)

definition empty_log :: "wal \<times> fs" where
  "empty_log = (\<lparr>w_max_segment = 100, w_sync_on_append = True, w_next_seq = 1, w_checkpoint = 0,
     w_segments = [], w_active = False, w_active_size = 0\<rparr>, [])"

lemma empty_log_Open: "Open good_open True 100 True [] = Inr empty_log"
  by (simp add: Open_def good_open_def empty_log_def listSegments_def readCheckpoint_def map_filter_simps)

lemma empty_log_ok: "wal_ok empty_log"
  unfolding wal_ok_def
  by (intro exI[of _ "[]"])
     (simp add: empty_log_def wal_inv_def tight_def listSegments_def readCheckpoint_def map_filter_simps)

theorem Append_atomic_witness:
  "\<exists>r w' d'. Append (good_io\<lparr>ai_sync := False\<rparr>) (fst empty_log) (snd empty_log) [1, 2] = (r, w', d') \<and>
     r = Inl SyncFailed \<and> pending w' d' = pending (fst empty_log) (snd empty_log)"
proof -
  have f: "fits (w_next_seq (fst empty_log), [1, 2])" by (simp add: empty_log_def fits_def maxRecordBytes_def)
  obtain r w' d' where a: "Append (good_io\<lparr>ai_sync := False\<rparr>) (fst empty_log) (snd empty_log) [1, 2] = (r, w', d')"
    by (metis prod_cases3)
  moreover from a have "r = Inl SyncFailed"
    by (simp add: Append_def empty_log_def openNewSegmentLocked_def append_write_def good_io_def Let_def)
  ultimately show ?thesis
    using Append_atomic[of "fst empty_log" "snd empty_log" "[1, 2]" "good_io\<lparr>ai_sync := False\<rparr>" r w' d'] f empty_log_ok
    by (simp add: good_io_def)
qed

text \<open>Checkpointing drops exactly what it covers.  Whatever fails while the checkpoint is
  written or covered segments are removed, the records pending afterwards are the earlier ones
  with a number above the checkpoint: no unprocessed record is lost with a pruned segment.\<close>

theorem SetCheckpoint_exact:
  assumes "wal_ok (w, d)" "n < w_next_seq w" "n < 2 ^ 64" "SetCheckpoint wok rok rm w d n = (r, w', d')"
  shows "wal_ok (w', d') \<and> pending w' d' = filter (\<lambda>(q, _). n < q) (pending w d) \<and>
    w_checkpoint w' = max n (w_checkpoint w)"
  using SetCheckpoint_ok[OF assms(1-3), of wok rok rm] assms(4) by simp

theorem SetCheckpoint_exact_witness:
  "wal_ok (snd (SetCheckpoint True True (\<lambda>_. True) (fst empty_log) (snd empty_log) 0))"
  using SetCheckpoint_exact[of "fst empty_log" "snd empty_log" 0 True True "\<lambda>_. True"] empty_log_ok
  by (cases "SetCheckpoint True True (\<lambda>_. True) (fst empty_log) (snd empty_log) 0") (simp add: empty_log_def)

text \<open>Recovery after a crash.  If the process dies with an append half written (any proper prefix
  of the record's bytes in the file), opening the directory again succeeds, continues with the same
  sequence number and offers for replay every record that was pending, in order; only records a
  checkpoint that failed to reach the disk had covered come back in addition.\<close>

theorem Open_recovers:
  assumes "wal_ok (w, d)" "fits (w_next_seq w, p)" "k < headerSize + length p"
  shows "\<exists>w' d'. Open good_open True mx sync (crash_files w d p k) = Inr (w', d') \<and> wal_ok (w', d') \<and>
    w_next_seq w' = w_next_seq w \<and> pending w d = filter (\<lambda>(q, _). w_checkpoint w < q) (pending w' d') \<and>
    (readCheckpoint d = w_checkpoint w \<longrightarrow> pending w' d' = pending w d)"
proof -
  obtain w' d' where o: "Open good_open True mx sync (crash_files w d p k) = Inr (w', d')" "wal_ok (w', d')"
    "w_next_seq w' = w_next_seq w" "w_checkpoint w' = readCheckpoint d"
    "pending w d = filter (\<lambda>(q, _). w_checkpoint w < q) (pending w' d')"
    using Open_ok[OF assms, of mx sync] by blast
  have "filter (\<lambda>(q, _). w_checkpoint w' < q) (pending w' d') = pending w' d'"
    by (simp add: pending_def)
  with o show ?thesis by auto
qed

theorem Open_recovers_witness:
  "\<exists>w' d'. Open good_open True 100 True (crash_files (fst empty_log) (snd empty_log) [5] 3) = Inr (w', d') \<and> wal_ok (w', d')"
proof -
  have "fits (w_next_seq (fst empty_log), [5])" by (simp add: empty_log_def fits_def maxRecordBytes_def)
  then show ?thesis
    using Open_recovers[of "fst empty_log" "snd empty_log" "[5]" 3 100 True] empty_log_ok
    by (auto simp: headerSize_def)
qed

section \<open>The interface to the log's clients\<close>

datatype ('p, 'c) log_op = Put 'p | Ack nat | Crash 'c

text \<open>The abstract log: the pending records and the next number.  Crashes are invisible.\<close>

fun spec_step :: "(nat \<times> 'p) list \<times> nat \<Rightarrow> ('p, 'c) log_op \<Rightarrow> (nat \<times> 'p) list \<times> nat" where
  "spec_step (ps, n) (Put p) = (ps @ [(n, p)], Suc n)"
| "spec_step (ps, n) (Ack m) = (filter (\<lambda>(q, _). m < q) ps, n)"
| "spec_step (ps, n) (Crash c) = (ps, n)"

text \<open>Runs of a concrete log, given by its operations, and when an operation may be called.\<close>

fun log_step :: "('s \<Rightarrow> 'p \<Rightarrow> 's) \<Rightarrow> ('s \<Rightarrow> nat \<Rightarrow> 's) \<Rightarrow> ('s \<Rightarrow> 'c \<Rightarrow> 's) \<Rightarrow> 's \<Rightarrow> ('p, 'c) log_op \<Rightarrow> 's" where
  "log_step app ack rec s (Put p) = app s p"
| "log_step app ack rec s (Ack n) = ack s n"
| "log_step app ack rec s (Crash c) = rec s c"

fun log_enabled :: "('s \<Rightarrow> 'p \<Rightarrow> bool) \<Rightarrow> ('s \<Rightarrow> nat) \<Rightarrow> ('s \<Rightarrow> 'c \<Rightarrow> bool) \<Rightarrow> 's \<Rightarrow> ('p, 'c) log_op \<Rightarrow> bool" where
  "log_enabled room next_no torn s (Put p) = room s p"
| "log_enabled room next_no torn s (Ack n) = (n < next_no s)"
| "log_enabled room next_no torn s (Crash c) = torn s c"

inductive log_runs :: "('s \<Rightarrow> 'a \<Rightarrow> bool) \<Rightarrow> ('s \<Rightarrow> 'a \<Rightarrow> 's) \<Rightarrow> 's \<Rightarrow> 'a list \<Rightarrow> 's \<Rightarrow> bool" for en st where
  log_end: "log_runs en st s [] s"
| log_more: "en s a \<Longrightarrow> log_runs en st (st s a) as t \<Longrightarrow> log_runs en st s (a # as) t"

inductive_cases log_runs_ConsE: "log_runs en st s (a # as) t"

locale durable_log =
  fixes ok :: "'s \<Rightarrow> bool" and room :: "'s \<Rightarrow> 'p \<Rightarrow> bool" and torn :: "'s \<Rightarrow> 'c \<Rightarrow> bool"
    and pend :: "'s \<Rightarrow> (nat \<times> 'p) list" and next_no :: "'s \<Rightarrow> nat"
    and app :: "'s \<Rightarrow> 'p \<Rightarrow> 's" and ack :: "'s \<Rightarrow> nat \<Rightarrow> 's" and recov :: "'s \<Rightarrow> 'c \<Rightarrow> 's"
  assumes append_law: "ok s \<Longrightarrow> room s p \<Longrightarrow> ok (app s p) \<and>
      pend (app s p) = pend s @ [(next_no s, p)] \<and> next_no (app s p) = Suc (next_no s)"
    and ack_law: "ok s \<Longrightarrow> n < next_no s \<Longrightarrow> ok (ack s n) \<and>
      pend (ack s n) = filter (\<lambda>(q, _). n < q) (pend s) \<and> next_no (ack s n) = next_no s"
    and recover_law: "ok s \<Longrightarrow> torn s c \<Longrightarrow> ok (recov s c) \<and> pend (recov s c) = pend s \<and>
      next_no (recov s c) = next_no s"
begin

lemma step_refines:
  "ok s \<Longrightarrow> log_enabled room next_no torn s a \<Longrightarrow> ok (log_step app ack recov s a) \<and>
   (pend (log_step app ack recov s a), next_no (log_step app ack recov s a)) = spec_step (pend s, next_no s) a"
  by (cases a) (simp_all add: append_law ack_law recover_law)

lemma runs_refine:
  "log_runs (log_enabled room next_no torn) (log_step app ack recov) s as t \<Longrightarrow> ok s \<Longrightarrow>
   ok t \<and> (pend t, next_no t) = foldl spec_step (pend s, next_no s) as"
proof (induction rule: log_runs.induct)
  case (log_more s a as t)
  then show ?case using step_refines[of s a] by (metis foldl_Cons)
qed simp

end

lemma spec_keeps:
  "(q, p) \<in> set (fst s) \<Longrightarrow> (\<forall>n. Ack n \<in> set as \<longrightarrow> n < q) \<Longrightarrow> (q, p) \<in> set (fst (foldl spec_step s as))"
proof (induction as arbitrary: s)
  case (Cons a as)
  then have "(q, p) \<in> set (fst (spec_step s a))" by (cases s; cases a) auto
  with Cons show ?case by simp
qed simp

text \<open>The write-ahead log as an instance, with system calls that succeed and arbitrary crashes.\<close>

definition wal_synced :: "wal \<times> fs \<Rightarrow> bool" where
  "wal_synced st \<longleftrightarrow> wal_ok st \<and> readCheckpoint (snd st) = w_checkpoint (fst st) \<and> w_next_seq (fst st) \<le> 2 ^ 64"

definition wal_room :: "wal \<times> fs \<Rightarrow> byte list \<Rightarrow> bool" where
  "wal_room st p \<longleftrightarrow> fits (w_next_seq (fst st), p)"

definition wal_torn :: "wal \<times> fs \<Rightarrow> byte list \<times> nat \<Rightarrow> bool" where
  "wal_torn st c \<longleftrightarrow> wal_room st (fst c) \<and> snd c < headerSize + length (fst c)"

definition wal_pending :: "wal \<times> fs \<Rightarrow> (nat \<times> byte list) list" where
  "wal_pending st = pending (fst st) (snd st)"

definition wal_next :: "wal \<times> fs \<Rightarrow> nat" where
  "wal_next st = w_next_seq (fst st)"

definition wal_append :: "wal \<times> fs \<Rightarrow> byte list \<Rightarrow> wal \<times> fs" where
  "wal_append st p = snd (Append good_io (fst st) (snd st) p)"

definition wal_ack :: "wal \<times> fs \<Rightarrow> nat \<Rightarrow> wal \<times> fs" where
  "wal_ack st n = snd (SetCheckpoint True True (\<lambda>_. True) (fst st) (snd st) n)"

definition wal_recover :: "wal \<times> fs \<Rightarrow> byte list \<times> nat \<Rightarrow> wal \<times> fs" where
  "wal_recover st c = (case Open good_open True (w_max_segment (fst st)) (w_sync_on_append (fst st))
       (crash_files (fst st) (snd st) (fst c) (snd c)) of Inr st' \<Rightarrow> st' | Inl e \<Rightarrow> st)"

lemma Append_good: 
  assumes "wal_ok (w, d)" "fits (w_next_seq w, p)"
  shows "\<exists>w' d'. Append good_io w d p = (Inr (w_next_seq w), w', d')"
  by (simp add: Append_def good_io_def rotateLocked_def openNewSegmentLocked_def append_write_def Let_def)

lemma Append_checkpoint:
  assumes "wal_ok (w, d)" "fits (w_next_seq w, p)" "ai_truncate io"
  shows "case Append io w d p of (r, w', d') \<Rightarrow>
    readCheckpoint d' = readCheckpoint d \<and> w_checkpoint w' = w_checkpoint w"
proof -
  obtain left lrss rss where inv: "wal_inv w d left lrss rss" using assms(1) by (auto simp: wal_ok_def)
  obtain r w' d' where a: "Append io w d p = (r, w', d')" by (metis prod_cases3)
  show ?thesis
    using Append_inv[OF inv assms(2,3)] Append_readCheckpoint[OF inv assms(2), of io] a
    by (cases r) auto
qed

interpretation wal_log: durable_log wal_synced wal_room wal_torn wal_pending wal_next wal_append wal_ack wal_recover
proof
  fix s p assume s: "wal_synced s" "wal_room s p"
  obtain w d where w: "s = (w, d)" by fastforce
  have ok: "wal_ok (w, d)" and fit: "fits (w_next_seq w, p)" using s w by (auto simp: wal_synced_def wal_room_def)
  obtain w' d' where a: "Append good_io w d p = (Inr (w_next_seq w), w', d')" using Append_good[OF ok fit] by blast
  have rc: "readCheckpoint d' = readCheckpoint d" "w_checkpoint w' = w_checkpoint w"
    using Append_checkpoint[OF ok fit, of good_io] a by (auto simp: good_io_def)
  show "wal_synced (wal_append s p) \<and> wal_pending (wal_append s p) = wal_pending s @ [(wal_next s, p)] \<and>
      wal_next (wal_append s p) = Suc (wal_next s)"
    using Append_ok[OF ok fit, of good_io] a s w rc fit
    by (auto simp: wal_append_def wal_pending_def wal_next_def wal_synced_def good_io_def fits_def)
next
  fix s n assume s: "wal_synced s" "n < wal_next s"
  obtain w d where w: "s = (w, d)" by fastforce
  show "wal_synced (wal_ack s n) \<and> wal_pending (wal_ack s n) = filter (\<lambda>(q, _). n < q) (wal_pending s) \<and>
      wal_next (wal_ack s n) = wal_next s"
    using SetCheckpoint_ok[of w d n True True "\<lambda>_. True"] s w
    by (auto simp: wal_ack_def wal_pending_def wal_next_def wal_synced_def)
next
  fix s c assume s: "wal_synced s" "wal_torn s c"
  obtain w d where w: "s = (w, d)" by fastforce
  have ok: "wal_ok (w, d)" and fit: "fits (w_next_seq w, fst c)" "snd c < headerSize + length (fst c)"
    and rc: "readCheckpoint d = w_checkpoint w"
    using s w by (auto simp: wal_synced_def wal_torn_def wal_room_def)
  obtain w' d' where o: "Open good_open True (w_max_segment w) (w_sync_on_append w) (crash_files w d (fst c) (snd c)) = Inr (w', d')"
     "wal_ok (w', d')" "w_next_seq w' = w_next_seq w" "w_checkpoint w' = readCheckpoint d" "readCheckpoint d' = readCheckpoint d"
     "pending w d = filter (\<lambda>(q, _). w_checkpoint w < q) (pending w' d')"
    using Open_ok[OF ok fit, of "w_max_segment w" "w_sync_on_append w"] by blast
  have "filter (\<lambda>(q, _). w_checkpoint w' < q) (pending w' d') = pending w' d'" by (simp add: pending_def)
  then show "wal_synced (wal_recover s c) \<and> wal_pending (wal_recover s c) = wal_pending s \<and>
      wal_next (wal_recover s c) = wal_next s"
    using o rc s w by (simp add: wal_recover_def wal_pending_def wal_next_def wal_synced_def)
qed

text \<open>C3. The log refines its abstract specification.  In any run of appends, checkpoints and crashes
  (each possibly tearing a half-written record) from a well-formed log, the pending records and
  the next sequence number are those of the abstract list in which an append adds at the end, a
  checkpoint drops what it covers, and a crash changes nothing.  The steps of such a run (\<open>log_enabled\<close>)
  append payloads of at most 64 MiB while sequence numbers last, and their system calls succeed.\<close>

theorem wal_refines_list:
  assumes "wal_synced s" "log_runs (log_enabled wal_room wal_next wal_torn) (log_step wal_append wal_ack wal_recover) s as t"
  shows "wal_synced t \<and> (wal_pending t, wal_next t) = foldl spec_step (wal_pending s, wal_next s) as"
  using wal_log.runs_refine[OF assms(2,1)] .

lemma empty_log_synced: "wal_synced empty_log"
  using empty_log_ok by (simp add: wal_synced_def) (simp add: empty_log_def readCheckpoint_def)

lemma empty_log_run:
  "log_runs (log_enabled wal_room wal_next wal_torn) (log_step wal_append wal_ack wal_recover) empty_log
     [Put [1, 2], Crash ([3], 4)] (wal_recover (wal_append empty_log [1, 2]) ([3], 4))"
proof -
  have a: "wal_room empty_log [1, 2]" by (simp add: wal_room_def fits_def empty_log_def maxRecordBytes_def)
  have "wal_next (wal_append empty_log [1, 2]) = 2"
    using wal_log.append_law[OF empty_log_synced a] by (simp add: wal_next_def empty_log_def)
  then have "wal_torn (wal_append empty_log [1, 2]) ([3], 4)"
    by (simp add: wal_torn_def wal_room_def wal_next_def fits_def maxRecordBytes_def headerSize_def)
  with a show ?thesis by (auto intro!: log_runs.intros)
qed

theorem wal_refines_list_witness:
  "wal_pending (wal_recover (wal_append empty_log [1, 2]) ([3], 4)) = [(1, [1, 2])]"
  using wal_refines_list[OF empty_log_synced empty_log_run]
  by (simp add: wal_pending_def wal_next_def pending_def) (simp add: empty_log_def)

text \<open>At-least-once at the level of the log: a record that is pending stays pending, whatever
  is appended and however often the process crashes, until a checkpoint at or above its number.\<close>

theorem wal_keeps_unacknowledged:
  assumes "wal_synced s" "log_runs (log_enabled wal_room wal_next wal_torn) (log_step wal_append wal_ack wal_recover) s as t"
    "(q, p) \<in> set (wal_pending s)" "\<forall>n. Ack n \<in> set as \<longrightarrow> n < q"
  shows "(q, p) \<in> set (wal_pending t)"
proof -
  have "(wal_pending t, wal_next t) = foldl spec_step (wal_pending s, wal_next s) as"
    using wal_log.runs_refine[OF assms(2,1)] by blast
  then show ?thesis using spec_keeps[of q p "(wal_pending s, wal_next s)" as] assms(3,4) by (metis fst_conv)
qed

theorem wal_keeps_unacknowledged_witness:
  "(1, [1, 2]) \<in> set (wal_pending (wal_recover (wal_append empty_log [1, 2]) ([3], 4)))"
proof -
  let ?s = "wal_append empty_log [1, 2]"
  have a: "wal_room empty_log [1, 2]" by (simp add: wal_room_def fits_def empty_log_def maxRecordBytes_def)
  note s = wal_log.append_law[OF empty_log_synced a]
  have m: "(1, [1, 2]) \<in> set (wal_pending ?s)" using s by (simp add: wal_next_def) (simp add: empty_log_def)
  have "log_runs (log_enabled wal_room wal_next wal_torn) (log_step wal_append wal_ack wal_recover) ?s
     [Crash ([3], 4)] (wal_recover ?s ([3], 4))"
    by (rule log_runs_ConsE[OF empty_log_run]) simp
  from wal_keeps_unacknowledged[OF _ this m] s show ?thesis by simp
qed

end
