(* ===== verification/FloatArith.thy ===== *)
theory FloatArith
  imports Complex_Main GoLib
begin

text \<open>
  IEEE-754 double arithmetic on bit patterns, for the component that computes with
  \<^verbatim>\<open>float64\<close> values (the token bucket), and \<^verbatim>\<open>Duration.Seconds\<close>.
\<close>

section \<open>Arithmetic on doubles\<close>

text \<open>
  The exact rational value of a finite double, rounding of a rational to the nearest double (ties
  to even), and the four operations with their special cases.
\<close>

definition pow2 :: "int \<Rightarrow> rat" where
  "pow2 e = (if 0 \<le> e then 2 ^ nat e else 1 / 2 ^ nat (- e))"

definition f64_val :: "f64 \<Rightarrow> rat" where
  "f64_val w =
     (let v = of_nat (f64_mant w) * pow2 (int (max 1 (f64_exp w)) - 1075)
      in if f64_neg w then - v else v)"

definition f64_finite :: "f64 \<Rightarrow> bool" where
  "f64_finite w \<longleftrightarrow> f64_exp w < 2047"

definition f64_is_inf :: "f64 \<Rightarrow> bool" where
  "f64_is_inf w \<longleftrightarrow> f64_mag w = 2047 * 2 ^ 52"

definition f64_nan :: f64 where "f64_nan = 0x7FF8000000000001"
definition f64_inf :: f64 where "f64_inf = 0x7FF0000000000000"

definition f64_signed :: "bool \<Rightarrow> f64 \<Rightarrow> f64" where
  "f64_signed neg w = (if neg then w + 0x8000000000000000 else w)"

definition rat_round_even :: "rat \<Rightarrow> int" where
  "rat_round_even x =
     (let q = \<lfloor>x\<rfloor>; d = x - of_int q
      in if d < 1 / 2 then q else if d > 1 / 2 then q + 1 else if even q then q else q + 1)"

definition f64_of_rat :: "rat \<Rightarrow> f64" where
  "f64_of_rat r =
     (if r = 0 then 0
      else let (a, b) = quotient_of r;
               e0 = int (bit_length (nat a)) - int (bit_length (nat b)) - 53;
               e1 = (if \<lfloor>r / pow2 e0\<rfloor> \<ge> 2 ^ 53 then e0 + 1 else e0);
               e = max e1 (- 1074);
               bits = (e + 1074) * 2 ^ 52 + rat_round_even (r / pow2 e)
           in if bits \<ge> 2047 * 2 ^ 52 then f64_inf else word_of_int bits)"

definition f64_pack :: "bool \<Rightarrow> rat \<Rightarrow> f64" where
  "f64_pack neg r = f64_signed neg (f64_of_rat \<bar>r\<bar>)"

definition f64_add :: "f64 \<Rightarrow> f64 \<Rightarrow> f64" where
  "f64_add a b =
     (if f64_is_nan a \<or> f64_is_nan b \<or> (f64_is_inf a \<and> f64_is_inf b \<and> f64_neg a \<noteq> f64_neg b) then f64_nan
      else if f64_is_inf a then a else if f64_is_inf b then b
      else let v = f64_val a + f64_val b
           in if v = 0 then f64_signed (f64_neg a \<and> f64_neg b) 0 else f64_pack (v < 0) v)"

definition f64_neg_of :: "f64 \<Rightarrow> f64" where
  "f64_neg_of w = w + 0x8000000000000000"

definition f64_sub :: "f64 \<Rightarrow> f64 \<Rightarrow> f64" where
  "f64_sub a b = f64_add a (f64_neg_of b)"

definition f64_mul :: "f64 \<Rightarrow> f64 \<Rightarrow> f64" where
  "f64_mul a b =
     (let neg = (f64_neg a \<noteq> f64_neg b)
      in if f64_is_nan a \<or> f64_is_nan b \<or> (f64_is_inf a \<and> f64_mag b = 0) \<or> (f64_is_inf b \<and> f64_mag a = 0)
         then f64_nan
         else if f64_is_inf a \<or> f64_is_inf b then f64_signed neg f64_inf
         else f64_pack neg (f64_val a * f64_val b))"

definition f64_div :: "f64 \<Rightarrow> f64 \<Rightarrow> f64" where
  "f64_div a b =
     (let neg = (f64_neg a \<noteq> f64_neg b)
      in if f64_is_nan a \<or> f64_is_nan b \<or> (f64_is_inf a \<and> f64_is_inf b) \<or> (f64_mag a = 0 \<and> f64_mag b = 0)
         then f64_nan
         else if f64_is_inf a \<or> f64_mag b = 0 then f64_signed neg f64_inf
         else if f64_is_inf b then f64_signed neg 0
         else f64_pack neg (f64_val a / f64_val b))"

text \<open>\<^verbatim>\<open>Duration.Seconds\<close>\<close>

definition go_rem :: "int \<Rightarrow> int \<Rightarrow> int" where
  "go_rem a b = a - go_quot a b * b"

definition duration_seconds :: "duration \<Rightarrow> f64" where
  "duration_seconds d =
     f64_add (f64_of_int (go_quot d second)) (f64_div (f64_of_int (go_rem d second)) 0x41CDCD6500000000)"

lemmas float_arith_defs [go_defs] = pow2_def f64_val_def f64_finite_def f64_is_inf_def f64_nan_def
  f64_inf_def f64_signed_def rat_round_even_def f64_of_rat_def f64_pack_def f64_add_def f64_sub_def
  f64_neg_of_def f64_mul_def f64_div_def go_rem_def duration_seconds_def

end
