(* ===== verification/Admission.thy ===== *)
theory Admission
  imports FloatArith
begin

text \<open>
  \<^verbatim>\<open>src/internal/admission/admission.go\<close>: the per-key token bucket and daily quotas.  The limiter's
  map of key states is a map; the state pointer that \<^verbatim>\<open>stateLocked\<close> returns and the callers mutate
  is the key's entry, written back.  A UTC date is represented by the number of its day since the
  epoch (the code only compares the rendered dates).  Counters are \<^verbatim>\<open>int64\<close> and wrap.
\<close>

section \<open>The limiter\<close>

record Limits =
  lm_rate :: f64
  lm_burst :: int
  lm_daily_events :: int
  lm_daily_bytes :: int

datatype reason = RateReason | EventsQuota | BytesQuota

text \<open>\<open>None\<close> is \<^verbatim>\<open>Decision{Allowed: true}\<close>.\<close>

type_synonym Decision = "reason option"

record keyState =
  ks_tokens :: f64
  ks_last :: time
  ks_day :: int
  ks_events :: int
  ks_bytes :: int

record Limiter =
  l_limits :: Limits
  l_burst :: f64
  l_keys :: "string \<rightharpoonup> keyState"

definition day :: "time \<Rightarrow> int" where
  "day t = t div (24 * hour)"

definition burst_of :: "Limits \<Rightarrow> f64" where
  "burst_of limits =
     (let burst = f64_of_int (lm_burst limits)
      in if f64_lt burst 0x3FF0000000000000
         then (if f64_lt 0x3FF0000000000000 (lm_rate limits) then lm_rate limits else 0x3FF0000000000000)
         else burst)"

definition new_limiter :: "Limits \<Rightarrow> Limiter" where
  "new_limiter limits = \<lparr>l_limits = limits, l_burst = burst_of limits, l_keys = Map.empty\<rparr>"

definition enabledLocked :: "Limiter \<Rightarrow> bool" where
  "enabledLocked l \<longleftrightarrow> f64_lt 0 (lm_rate (l_limits l)) \<or> lm_daily_events (l_limits l) > 0
     \<or> lm_daily_bytes (l_limits l) > 0"

definition Enabled :: "Limiter \<Rightarrow> bool" where
  "Enabled l = enabledLocked l"

definition SetLimits :: "Limits \<Rightarrow> Limiter \<Rightarrow> Limiter" where
  "SetLimits limits l = l\<lparr>l_limits := limits, l_burst := burst_of limits\<rparr>"

definition refill :: "time \<Rightarrow> Limiter \<Rightarrow> keyState \<Rightarrow> keyState" where
  "refill now l st =
     (if f64_lt 0 (lm_rate (l_limits l))
      then let elapsed = duration_seconds (time_sub now (ks_last st))
           in if f64_lt 0 elapsed
              then let tokens = f64_add (ks_tokens st) (f64_mul elapsed (lm_rate (l_limits l)))
                   in st\<lparr>ks_tokens := (if f64_lt (l_burst l) tokens then l_burst l else tokens), ks_last := now\<rparr>
              else st
      else st)"

definition roll_day :: "time \<Rightarrow> keyState \<Rightarrow> keyState" where
  "roll_day now st =
     (if ks_day st \<noteq> day now then st\<lparr>ks_day := day now, ks_events := 0, ks_bytes := 0\<rparr> else st)"

definition key_state :: "time \<Rightarrow> string \<Rightarrow> Limiter \<Rightarrow> keyState" where
  "key_state now key l =
     (case l_keys l key of
        Some st \<Rightarrow> st
      | None \<Rightarrow> \<lparr>ks_tokens = l_burst l, ks_last = now, ks_day = day now, ks_events = 0, ks_bytes = 0\<rparr>)"

definition stateLocked :: "time \<Rightarrow> string \<Rightarrow> Limiter \<Rightarrow> keyState \<times> Limiter" where
  "stateLocked now key l =
     (let st = roll_day now (refill now l (key_state now key l))
      in (st, l\<lparr>l_keys := (l_keys l)(key \<mapsto> st)\<rparr>))"

definition Allow :: "time \<Rightarrow> string \<Rightarrow> int \<Rightarrow> Limiter \<Rightarrow> Decision \<times> Limiter" where
  "Allow now key bytes l =
     (if \<not> enabledLocked l then (None, l)
      else let (st, l1) = stateLocked now key l; lim = l_limits l
           in if f64_lt 0 (lm_rate lim) \<and> f64_lt (ks_tokens st) 0x3FF0000000000000 then (Some RateReason, l1)
              else if lm_daily_bytes lim > 0 \<and> i64 (ks_bytes st + bytes) > lm_daily_bytes lim
              then (Some BytesQuota, l1)
              else if lm_daily_events lim > 0 \<and> ks_events st \<ge> lm_daily_events lim
              then (Some EventsQuota, l1)
              else (None, if f64_lt 0 (lm_rate lim)
                          then l1\<lparr>l_keys := (l_keys l1)(key \<mapsto>
                                 st\<lparr>ks_tokens := f64_sub (ks_tokens st) 0x3FF0000000000000\<rparr>)\<rparr>
                          else l1))"

definition Record :: "time \<Rightarrow> string \<Rightarrow> int \<Rightarrow> int \<Rightarrow> Limiter \<Rightarrow> Limiter" where
  "Record now key events bytes l =
     (if \<not> enabledLocked l then l
      else let (st, l1) = stateLocked now key l
           in l1\<lparr>l_keys := (l_keys l1)(key \<mapsto>
                st\<lparr>ks_events := i64 (ks_events st + events), ks_bytes := i64 (ks_bytes st + bytes)\<rparr>)\<rparr>)"

section \<open>What a check does to the state\<close>

lemma refill_counters [simp]:
  "ks_day (refill now l st) = ks_day st" "ks_events (refill now l st) = ks_events st"
  "ks_bytes (refill now l st) = ks_bytes st"
  by (simp_all add: refill_def Let_def)

text \<open>The events that count against the quota of a key at instant \<open>now\<close>.\<close>

definition events_on :: "time \<Rightarrow> string \<Rightarrow> Limiter \<Rightarrow> int" where
  "events_on now key l =
     (case l_keys l key of Some st \<Rightarrow> if ks_day st = day now then ks_events st else 0 | None \<Rightarrow> 0)"

definition bytes_on :: "time \<Rightarrow> string \<Rightarrow> Limiter \<Rightarrow> int" where
  "bytes_on now key l =
     (case l_keys l key of Some st \<Rightarrow> if ks_day st = day now then ks_bytes st else 0 | None \<Rightarrow> 0)"

lemma stateLocked_simps:
  "l_limits (snd (stateLocked now key l)) = l_limits l"
  "ks_events (fst (stateLocked now key l)) = events_on now key l"
  "ks_bytes (fst (stateLocked now key l)) = bytes_on now key l"
  "ks_day (fst (stateLocked now key l)) = day now"
  "l_keys (snd (stateLocked now key l)) = (l_keys l)(key \<mapsto> fst (stateLocked now key l))"
  by (auto simp: stateLocked_def roll_day_def key_state_def events_on_def bytes_on_def Let_def
      split: option.split)

lemma Allow_limits [simp]: "l_limits (snd (Allow now key b l)) = l_limits l"
  by (simp add: Allow_def Let_def stateLocked_simps split: prod.split)
     (metis snd_conv stateLocked_simps(1))

lemma Record_limits [simp]: "l_limits (Record now key e b l) = l_limits l"
  by (simp add: Record_def Let_def split: prod.split) (metis snd_conv stateLocked_simps(1))

lemma other_key:
  assumes "k \<noteq> key"
  shows "l_keys (snd (Allow now key b l)) k = l_keys l k" "l_keys (Record now key e b l) k = l_keys l k"
  using assms by (simp_all add: Allow_def Record_def Let_def stateLocked_def)

lemma Allow_events:
  "events_on now key (snd (Allow now key b l)) = events_on now key l"
proof -
  obtain st l1 where s: "stateLocked now key l = (st, l1)" by (cases "stateLocked now key l")
  note st = stateLocked_simps[of now key l, unfolded s fst_conv snd_conv]
  then have "events_on now key l1 = events_on now key l" by (simp add: events_on_def)
  then show ?thesis using st by (simp add: Allow_def s Let_def) (simp add: events_on_def)
qed

lemma Record_events:
  "events_on now key (Record now key e b l) = (if enabledLocked l then i64 (events_on now key l + e) else events_on now key l)"
proof -
  obtain st l1 where s: "stateLocked now key l = (st, l1)" by (cases "stateLocked now key l")
  note st = stateLocked_simps[of now key l, unfolded s fst_conv snd_conv]
  then show ?thesis by (simp add: Record_def s Let_def) (simp add: events_on_def)
qed

lemma Allow_grants:
  assumes "fst (Allow now key b l) = None" "lm_daily_events (l_limits l) > 0"
  shows "events_on now key l < lm_daily_events (l_limits l)"
proof -
  obtain st l1 where s: "stateLocked now key l = (st, l1)" by (cases "stateLocked now key l")
  have "ks_events st = events_on now key l"
    using stateLocked_simps(2)[of now key l] s by simp
  then show ?thesis using assms
    by (auto simp: Allow_def s Let_def enabledLocked_def split: if_split_asm)
qed

section \<open>The daily quota under concurrent requests\<close>

text \<open>
  A request is admitted (\<open>Allow\<close>), read, and accounted for when it is finished (\<open>Record\<close>);
  requests overlap.  The state is the limiter and how many admitted requests of each key are still
  being read: at most \<open>C\<close> at a time, each accepting at most \<open>M\<close> events.  The clock readings are
  arbitrary.
\<close>

inductive adm_reach :: "Limits \<Rightarrow> nat \<Rightarrow> nat \<Rightarrow> Limiter \<Rightarrow> (string \<Rightarrow> nat) \<Rightarrow> bool" for limits C M where
  start: "adm_reach limits C M (new_limiter limits) (\<lambda>_. 0)"
| granted: "adm_reach limits C M l infl \<Longrightarrow> Allow now key b l = (None, l') \<Longrightarrow> infl key < C \<Longrightarrow>
    adm_reach limits C M l' (infl(key := Suc (infl key)))"
| refused: "adm_reach limits C M l infl \<Longrightarrow> Allow now key b l = (Some r, l') \<Longrightarrow>
    adm_reach limits C M l' infl"
| finished: "adm_reach limits C M l infl \<Longrightarrow> infl key = Suc n \<Longrightarrow> 0 \<le> e \<Longrightarrow> e \<le> int M \<Longrightarrow>
    adm_reach limits C M (Record now key e b l) (infl(key := n))"

inductive_cases adm_reach_cases: "adm_reach limits C M l infl"

text \<open>The counter of a key, whatever day it belongs to.\<close>

definition stored_events :: "string \<Rightarrow> Limiter \<Rightarrow> int" where
  "stored_events key l = (case l_keys l key of Some st \<Rightarrow> ks_events st | None \<Rightarrow> 0)"

lemma stored_other: "k \<noteq> key \<Longrightarrow> stored_events k (snd (Allow now key b l)) = stored_events k l"
    "k \<noteq> key \<Longrightarrow> stored_events k (Record now key e b l) = stored_events k l"
  by (simp_all add: stored_events_def other_key)

lemma events_on_stored: "events_on now key l = 0 \<or> events_on now key l = stored_events key l"
  by (auto simp: events_on_def stored_events_def split: option.split)

lemma Allow_stored:
  assumes "enabledLocked l"
  shows "stored_events key (snd (Allow now key b l)) = events_on now key l"
proof -
  obtain st l1 where s: "stateLocked now key l = (st, l1)" by (cases "stateLocked now key l")
  note st = stateLocked_simps[of now key l, unfolded s fst_conv snd_conv]
  then show ?thesis using assms by (simp add: Allow_def s Let_def stored_events_def)
qed

lemma Record_stored:
  assumes "enabledLocked l"
  shows "stored_events key (Record now key e b l) = i64 (events_on now key l + e)"
proof -
  obtain st l1 where s: "stateLocked now key l = (st, l1)" by (cases "stateLocked now key l")
  note st = stateLocked_simps[of now key l, unfolded s fst_conv snd_conv]
  then show ?thesis using assms by (simp add: Record_def s Let_def stored_events_def)
qed

definition quota_inv :: "int \<Rightarrow> nat \<Rightarrow> nat \<Rightarrow> Limiter \<Rightarrow> (string \<Rightarrow> nat) \<Rightarrow> bool" where
  "quota_inv de C M l infl \<longleftrightarrow> (\<forall>key. infl key \<le> C \<and> 0 \<le> stored_events key l \<and>
     stored_events key l + int M * int (infl key) < de + int C * int M)"

lemma quota_inv_update:
  assumes "quota_inv de C M l infl" "\<And>k. k \<noteq> key \<Longrightarrow> stored_events k l' = stored_events k l"
    "n \<le> C" "0 \<le> stored_events key l'" "stored_events key l' + int M * int n < de + int C * int M"
  shows "quota_inv de C M l' (infl(key := n))"
  using assms by (simp add: quota_inv_def)

lemma adm_reach_quota:
  assumes "adm_reach limits C M l infl" and de: "0 < lm_daily_events limits"
    and small: "lm_daily_events limits + int C * int M < 2 ^ 63"
  shows "l_limits l = limits \<and> quota_inv (lm_daily_events limits) C M l infl"
  using assms(1)
proof induction
  case start
  then show ?case using de by (simp add: quota_inv_def new_limiter_def stored_events_def add_pos_nonneg)
next
  case (granted l infl now key b l')
  then have lim: "l_limits l = limits" and inv: "quota_inv (lm_daily_events limits) C M l infl" by auto
  then have en: "enabledLocked l" using de by (simp add: enabledLocked_def)
  have l': "l' = snd (Allow now key b l)" using granted.hyps(2) by simp
  have "events_on now key l < lm_daily_events limits"
    using Allow_grants[of now key b l] granted.hyps(2) de lim by simp
  moreover have "0 \<le> events_on now key l"
    using events_on_stored[of now key l] inv by (auto simp: quota_inv_def)
  moreover have "int M * int (Suc (infl key)) \<le> int M * int C"
    using granted.hyps(3) by (intro mult_left_mono) auto
  ultimately have "quota_inv (lm_daily_events limits) C M l' (infl(key := Suc (infl key)))"
    using granted.hyps(3) Allow_stored[OF en, of key now b] stored_other(1)[of _ key now b l] l'
    by (intro quota_inv_update[OF inv]) (simp_all add: mult.commute)
  then show ?case using lim by (simp add: l' del: fun_upd_apply)
next
  case (refused l infl now key b r l')
  then have lim: "l_limits l = limits" and inv: "quota_inv (lm_daily_events limits) C M l infl" by auto
  then have en: "enabledLocked l" using de by (simp add: enabledLocked_def)
  have l': "l' = snd (Allow now key b l)" using refused.hyps(2) by simp
  have "0 \<le> events_on now key l \<and> events_on now key l \<le> stored_events key l"
    using events_on_stored[of now key l] inv by (auto simp: quota_inv_def)
  moreover have "infl key \<le> C" "stored_events key l + int M * int (infl key) < lm_daily_events limits + int C * int M"
    using inv by (auto simp: quota_inv_def)
  ultimately have "quota_inv (lm_daily_events limits) C M l' (infl(key := infl key))"
    using inv Allow_stored[OF en, of key now b] stored_other(1)[of _ key now b l] l'
    by (intro quota_inv_update[OF inv]) simp_all
  then show ?case using lim by (simp add: l')
next
  case (finished l infl key n e now b)
  then have lim: "l_limits l = limits" and inv: "quota_inv (lm_daily_events limits) C M l infl" by auto
  then have en: "enabledLocked l" using de by (simp add: enabledLocked_def)
  have ev: "0 \<le> events_on now key l" "events_on now key l \<le> stored_events key l"
    using events_on_stored[of now key l] inv by (auto simp: quota_inv_def)
  have st: "stored_events key l + int M * int (Suc n) < lm_daily_events limits + int C * int M"
    using inv finished.hyps(2) by (metis quota_inv_def)
  then have le: "events_on now key l + e + int M * int n < lm_daily_events limits + int C * int M"
    using ev finished.hyps(3,4) by (simp add: distrib_left)
  moreover have "0 \<le> int M * int n" by simp
  ultimately have "events_on now key l + e < 2 ^ 63" using small by linarith
  then have "i64_range (events_on now key l + e)"
    using ev finished.hyps(3) by (simp add: i64_range_def)
  then have "stored_events key (Record now key e b l) = events_on now key l + e"
    using Record_stored[OF en] by simp
  moreover have "n \<le> C" using inv finished.hyps(2) by (metis Suc_leD quota_inv_def)
  ultimately have "quota_inv (lm_daily_events limits) C M (Record now key e b l) (infl(key := n))"
    using le ev finished.hyps(3) stored_other(2)[of _ key now e b l]
    by (intro quota_inv_update[OF inv]) simp_all
  then show ?case using lim by (simp del: fun_upd_apply)
qed

section \<open>Properties\<close>

text \<open>The daily event quota is exceeded only by the requests in flight: if at most \<open>C\<close> requests
  of a key are read at a time and each accepts at most \<open>M\<close> events, the events counted for a key on
  any day stay below \<open>DailyEvents + C * M\<close>, in every interleaving of checks and completions and
  for every sequence of clock readings.\<close>

theorem quota_overshoot:
  assumes "adm_reach limits C M l infl" "0 < lm_daily_events limits"
    "lm_daily_events limits + int C * int M < 2 ^ 63"
  shows "0 \<le> events_on now key l \<and> events_on now key l < lm_daily_events limits + int C * int M"
proof -
  have "quota_inv (lm_daily_events limits) C M l infl" using adm_reach_quota[OF assms] by blast
  then have "0 \<le> stored_events key l" "stored_events key l + int M * int (infl key) < lm_daily_events limits + int C * int M"
    by (auto simp: quota_inv_def)
  moreover have "0 \<le> int M * int (infl key)" by simp
  ultimately have "0 \<le> stored_events key l" "stored_events key l < lm_daily_events limits + int C * int M"
    by linarith+
  then show ?thesis using events_on_stored[of now key l] assms(2) by auto
qed

definition five_a_day :: Limits where
  "five_a_day = \<lparr>lm_rate = 0, lm_burst = 0, lm_daily_events = 5, lm_daily_bytes = 0\<rparr>"

lemma five_a_day_simps [simp]: "lm_rate five_a_day = 0" "lm_daily_events five_a_day = 5" "lm_daily_bytes five_a_day = 0"
  by (simp_all add: five_a_day_def)

lemma not_zero_less_zero [simp]: "\<not> f64_lt 0 0"
  by (simp add: f64_defs)

theorem quota_overshoot_witness:
  "\<exists>l infl. adm_reach five_a_day 2 4 l infl \<and> events_on 0 ''k'' l = 8 \<and>
     events_on 0 ''k'' l < lm_daily_events five_a_day + int 2 * int 4"
proof -
  let ?l0 = "new_limiter five_a_day"
  have e0: "l_limits ?l0 = five_a_day" "events_on 0 ''k'' ?l0 = 0"
    by (simp_all add: new_limiter_def events_on_def)
  have s: "\<exists>l1. Allow 0 ''k'' 0 l = (None, l1)" if "l_limits l = five_a_day" "events_on 0 ''k'' l < 5" for l
    using that stateLocked_simps(2)[of 0 "''k''" l] by (auto simp: Allow_def Let_def split: prod.split)
  obtain l1 where a1: "Allow 0 ''k'' 0 ?l0 = (None, l1)"
    using s[OF e0(1)] e0(2) by auto
  have e1: "l_limits l1 = five_a_day" "events_on 0 ''k'' l1 = 0"
    using Allow_limits[of 0 "''k''" 0 ?l0] Allow_events[of 0 "''k''" 0 ?l0] a1 e0
    by simp_all
  then obtain l2 where a2: "Allow 0 ''k'' 0 l1 = (None, l2)" using s[of l1] by auto
  have e2: "l_limits l2 = five_a_day" "events_on 0 ''k'' l2 = 0"
    using Allow_limits[of 0 "''k''" 0 l1] Allow_events[of 0 "''k''" 0 l1] a2 e1 by simp_all
  let ?l3 = "Record 0 ''k'' 4 0 l2" and ?l4 = "Record 0 ''k'' 4 0 (Record 0 ''k'' 4 0 l2)"
  have en: "enabledLocked l" if "l_limits l = five_a_day" for l
    using that by (simp add: enabledLocked_def)
  have "adm_reach five_a_day 2 4 l1 ((\<lambda>_. 0)(''k'' := Suc 0))"
    by (rule adm_reach.granted[OF adm_reach.start a1]) simp
  then have "adm_reach five_a_day 2 4 l2 ((\<lambda>_. 0)(''k'' := Suc 0, ''k'' := Suc (Suc 0)))"
    using adm_reach.granted[OF _ a2, of five_a_day 2 4 "(\<lambda>_. 0)(''k'' := Suc 0)"] by simp
  then have "adm_reach five_a_day 2 4 ?l3 ((\<lambda>_. 0)(''k'' := Suc 0, ''k'' := Suc (Suc 0), ''k'' := Suc 0))"
    by (rule adm_reach.finished) simp_all
  then have r: "adm_reach five_a_day 2 4 ?l4 ((\<lambda>_. 0)(''k'' := Suc 0, ''k'' := Suc (Suc 0), ''k'' := Suc 0, ''k'' := 0))"
    by (rule adm_reach.finished) simp_all
  have "events_on 0 ''k'' ?l4 = 8"
    using e2 en[of l2] en[of ?l3] by (simp add: Record_events i64_range_def)
  with quota_overshoot[OF r, of 0 "''k''"] r show ?thesis by auto
qed

text \<open>The byte quota can be talked past: a request that announces \<open>2 ^ 63 - 1\<close> bytes
  (a legal \<^verbatim>\<open>Content-Length\<close>) is never refused for the byte quota once the key has used any
  byte of the day, however far over the quota it is, since the sum wraps to a negative number;
  with the other limits off it is admitted.\<close>

theorem Allow_huge_length:
  assumes "0 < bytes_on now key l" "bytes_on now key l < 2 ^ 63"
  shows "fst (Allow now key (2 ^ 63 - 1) l) \<noteq> Some BytesQuota \<and>
    (\<not> f64_lt 0 (lm_rate (l_limits l)) \<longrightarrow> lm_daily_events (l_limits l) \<le> 0 \<longrightarrow>
      fst (Allow now key (2 ^ 63 - 1) l) = None)"
proof -
  obtain st l1 where s: "stateLocked now key l = (st, l1)" by (cases "stateLocked now key l")
  have st: "ks_bytes st = bytes_on now key l" using stateLocked_simps(3)[of now key l] s by simp
  have "i64 (ks_bytes st + (2 ^ 63 - 1)) = ks_bytes st - 1 - 2 ^ 63"
    using assms st by (subst i64_wrap_up) simp_all
  then have "i64 (ks_bytes st + (2 ^ 63 - 1)) < 0" using assms st by simp
  then have "\<not> (0 < lm_daily_bytes (l_limits l) \<and>
      i64 (ks_bytes st + (2 ^ 63 - 1)) > lm_daily_bytes (l_limits l))" by linarith
  then show ?thesis unfolding Allow_def s Let_def prod.case by auto
qed

definition over_quota :: Limiter where
  "over_quota = \<lparr>l_limits = \<lparr>lm_rate = 0, lm_burst = 0, lm_daily_events = 0, lm_daily_bytes = 100\<rparr>, l_burst = 0,
     l_keys = [''k'' \<mapsto> \<lparr>ks_tokens = 0, ks_last = 0, ks_day = 0, ks_events = 3, ks_bytes = 5000\<rparr>]\<rparr>"

theorem Allow_huge_length_witness:
  "fst (Allow 0 ''k'' 1 over_quota) = Some BytesQuota \<and> fst (Allow 0 ''k'' (2 ^ 63 - 1) over_quota) = None"
proof
  have d: "day 0 = 0" by (simp add: day_def)
  show "fst (Allow 0 ''k'' 1 over_quota) = Some BytesQuota"
    by (simp add: over_quota_def Allow_def enabledLocked_def stateLocked_def key_state_def refill_def
        roll_day_def Let_def d i64_range_def)
  have "bytes_on 0 ''k'' over_quota = 5000" by (simp add: over_quota_def bytes_on_def d)
  then show "fst (Allow 0 ''k'' (2 ^ 63 - 1) over_quota) = None"
    using Allow_huge_length[of 0 "''k''" over_quota] by (simp add: over_quota_def)
qed

end
