(* ===== verification/Store.thy ===== *)
theory Store
  imports Model
begin

text \<open>
  \<^verbatim>\<open>src/internal/store/sqlite/sqlite.go\<close>: the write path of the event store, \<^verbatim>\<open>Append\<close>,
  \<^verbatim>\<open>Purge\<close> and \<^verbatim>\<open>ftsText\<close>.  The two tables are association lists keyed by rowid;
  a statement that fails at any point rolls the transaction back.  \<^verbatim>\<open>json.Marshal\<close> of the
  attributes is a parameter.  The contract \<^verbatim>\<open>store.Store\<close> promises its writers is the locale
  \<open>event_store\<close>, interpreted on this model.
\<close>

section \<open>The tables\<close>

record logrow =
  r_id :: string
  r_ts :: int
  r_received :: int
  r_source :: string
  r_service :: string
  r_level :: string
  r_message :: string
  r_attributes :: string
  r_raw :: string

record db =
  d_logs :: "(nat \<times> logrow) list"
  d_fts :: "(nat \<times> (string \<times> string)) list"

definition ftsText :: "golib \<Rightarrow> logevent \<Rightarrow> string" where
  "ftsText lib e = ev_message e @ '' '' @ ev_raw e @ '' '' @ ev_service e @ '' '' @ ev_source e
     @ concat (map (\<lambda>(k, v). '' '' @ k @ '' '' @ lib_fmt_v lib v) (ev_attrs e))"

text \<open>The parameters of a write: marshalling, the statement that fails (if one does), the commit.\<close>

record store_io =
  so_lib :: golib
  so_marshal :: "(string \<times> any) list \<Rightarrow> string option"
  so_fails :: "nat option"
  so_commit :: bool

definition row_of :: "logevent \<Rightarrow> string \<Rightarrow> logrow" where
  "row_of e attrs = \<lparr>r_id = ev_id e, r_ts = i64 (ev_timestamp e), r_received = i64 (ev_received e),
     r_source = ev_source e, r_service = ev_service e, r_level = ev_level e, r_message = ev_message e,
     r_attributes = attrs, r_raw = ev_raw e\<rparr>"

definition rowid_of :: "string \<Rightarrow> db \<Rightarrow> nat option" where
  "rowid_of i d = map_of (map (\<lambda>(rid, r). (r_id r, rid)) (d_logs d)) i"

text \<open>A fresh rowid is one more than the largest in use.\<close>

definition fresh_rowid :: "db \<Rightarrow> nat" where
  "fresh_rowid d = Suc (foldl max 0 (map fst (d_logs d)))"

definition put_event :: "golib \<Rightarrow> logevent \<Rightarrow> string \<Rightarrow> db \<Rightarrow> db" where
  "put_event lib e attrs d =
     (let rid = (case rowid_of (ev_id e) d of Some rid \<Rightarrow> rid | None \<Rightarrow> fresh_rowid d)
      in \<lparr>d_logs = AList.update rid (row_of e attrs) (d_logs d),
          d_fts = (rid, (ev_id e, ftsText lib e)) # AList.delete rid (d_fts d)\<rparr>)"

fun put_events :: "store_io \<Rightarrow> nat \<Rightarrow> logevent list \<Rightarrow> db \<Rightarrow> db option" where
  "put_events io n [] d = Some d"
| "put_events io n (e # es) d =
     (case (if ev_attrs e = [] then Some ''{}'' else so_marshal io (ev_attrs e)) of
        None \<Rightarrow> None
      | Some attrs \<Rightarrow> if so_fails io = Some n then None
          else put_events io (Suc n) es (put_event (so_lib io) e attrs d))"

definition db_append :: "store_io \<Rightarrow> logevent list \<Rightarrow> db \<Rightarrow> bool \<times> db" where
  "db_append io es d =
     (if es = [] then (True, d)
      else case put_events io 0 es d of
             None \<Rightarrow> (False, d)
           | Some d' \<Rightarrow> if so_commit io then (True, d') else (False, d))"

definition Purge :: "bool \<Rightarrow> time \<Rightarrow> db \<Rightarrow> (nat option) \<times> db" where
  "Purge commit olderThan d =
     (let cutoff = i64 olderThan;
          old = map fst (filter (\<lambda>(_, r). r_ts r < cutoff) (d_logs d));
          d' = \<lparr>d_logs = filter (\<lambda>(_, r). \<not> r_ts r < cutoff) (d_logs d),
                d_fts = filter (\<lambda>(rid, _). rid \<notin> set old) (d_fts d)\<rparr>
      in if commit then (Some (length old), d') else (None, d))"

section \<open>The two tables stay aligned\<close>

text \<open>
  Rowids and event IDs are unique, and the full-text table has exactly one row for each row of
  the log table, under the same rowid and with the same event ID.
\<close>

definition db_ok :: "db \<Rightarrow> bool" where
  "db_ok d \<longleftrightarrow> distinct (map fst (d_logs d)) \<and> distinct (map fst (d_fts d)) \<and>
     (\<forall>p \<in> set (d_logs d). \<forall>q \<in> set (d_logs d). r_id (snd p) = r_id (snd q) \<longrightarrow> p = q) \<and>
     (\<forall>rid i. (\<exists>t. (rid, (i, t)) \<in> set (d_fts d)) \<longleftrightarrow> (\<exists>r. (rid, r) \<in> set (d_logs d) \<and> r_id r = i))"

definition has_event :: "db \<Rightarrow> string \<Rightarrow> bool" where
  "has_event d i \<longleftrightarrow> (\<exists>(rid, r) \<in> set (d_logs d). r_id r = i)"

lemma rowid_of_Some: "rowid_of i d = Some rid \<Longrightarrow> \<exists>r. (rid, r) \<in> set (d_logs d) \<and> r_id r = i"
  by (auto simp: rowid_of_def dest!: map_of_SomeD)

lemma rowid_of_None: "rowid_of i d = None \<longleftrightarrow> \<not> has_event d i"
  by (force simp: rowid_of_def has_event_def map_of_eq_None_iff)

lemma foldl_max_ge: "x \<in> set xs \<or> x \<le> a \<Longrightarrow> x \<le> foldl max a (xs :: nat list)"
  by (induction xs arbitrary: a) (auto simp: le_max_iff_disj)

lemma fresh_rowid_new: "fresh_rowid d \<notin> fst ` set (d_logs d)"
  using foldl_max_ge[of "fresh_rowid d" "map fst (d_logs d)" 0] by (auto simp: fresh_rowid_def)

lemma set_update_distinct:
  "distinct (map fst xs) \<Longrightarrow> set (AList.update k v xs) = insert (k, v) {p \<in> set xs. fst p \<noteq> k}"
  by (induction xs) (auto simp: image_iff)

lemma set_delete: "set (AList.delete k xs) = {p \<in> set xs. fst p \<noteq> k}"
  by (auto simp: AList.delete_eq)

text \<open>Both tables lose the rows of the event and gain one, under a common rowid.\<close>

lemma put_event_tables:
  assumes ok: "db_ok d"
  obtains rid where
    "set (d_logs (put_event lib e a d)) = insert (rid, row_of e a) {p \<in> set (d_logs d). r_id (snd p) \<noteq> ev_id e}"
    "set (d_fts (put_event lib e a d)) = insert (rid, (ev_id e, ftsText lib e)) {p \<in> set (d_fts d). fst (snd p) \<noteq> ev_id e}"
    "rid \<notin> fst ` {p \<in> set (d_logs d). r_id (snd p) \<noteq> ev_id e}"
proof -
  define rid where "rid = (case rowid_of (ev_id e) d of Some rid \<Rightarrow> rid | None \<Rightarrow> fresh_rowid d)"
  have same: "(k = rid) \<longleftrightarrow> r_id r = ev_id e" if kr: "(k, r) \<in> set (d_logs d)" for k r
  proof (cases "rowid_of (ev_id e) d")
    case None
    then have "r_id r \<noteq> ev_id e" using kr by (force simp: rowid_of_None has_event_def)
    moreover have "k \<noteq> rid" using kr fresh_rowid_new[of d] None by (force simp: rid_def image_iff)
    ultimately show ?thesis by simp
  next
    case (Some x)
    then obtain r0 where r0: "(rid, r0) \<in> set (d_logs d)" "r_id r0 = ev_id e"
      using rowid_of_Some[OF Some] by (auto simp: rid_def)
    have "(k, r) = (rid, r0)" if "k = rid"
      using that kr r0 ok by (metis db_ok_def map_of_is_SomeI option.inject)
    moreover have "(k, r) = (rid, r0)" if "r_id r = ev_id e"
      using that kr r0 ok unfolding db_ok_def by (metis snd_conv)
    ultimately show ?thesis using r0(2) by blast
  qed
  have l: "{p \<in> set (d_logs d). fst p \<noteq> rid} = {p \<in> set (d_logs d). r_id (snd p) \<noteq> ev_id e}"
  proof (intro Collect_cong)
    fix p show "(p \<in> set (d_logs d) \<and> fst p \<noteq> rid) = (p \<in> set (d_logs d) \<and> r_id (snd p) \<noteq> ev_id e)"
      using same[of "fst p" "snd p"] by auto
  qed
  have f: "{p \<in> set (d_fts d). fst p \<noteq> rid} = {p \<in> set (d_fts d). fst (snd p) \<noteq> ev_id e}"
  proof -
    have "(k = rid) \<longleftrightarrow> i = ev_id e" if "(k, (i, t)) \<in> set (d_fts d)" for k i t
      using that same ok unfolding db_ok_def by metis
    then show ?thesis by force
  qed
  have put: "put_event lib e a d = \<lparr>d_logs = AList.update rid (row_of e a) (d_logs d),
      d_fts = (rid, (ev_id e, ftsText lib e)) # AList.delete rid (d_fts d)\<rparr>"
    by (simp add: put_event_def rid_def Let_def)
  show ?thesis
  proof (rule that[of rid])
    show "set (d_logs (put_event lib e a d)) = insert (rid, row_of e a) {p \<in> set (d_logs d). r_id (snd p) \<noteq> ev_id e}"
      using ok l by (simp add: put set_update_distinct db_ok_def)
    show "set (d_fts (put_event lib e a d)) = insert (rid, (ev_id e, ftsText lib e)) {p \<in> set (d_fts d). fst (snd p) \<noteq> ev_id e}"
      using f by (simp add: put set_delete)
    show "rid \<notin> fst ` {p \<in> set (d_logs d). r_id (snd p) \<noteq> ev_id e}"
      by (simp only: l[symmetric]) auto
  qed
qed

lemma r_id_row_of [simp]: "r_id (row_of e a) = ev_id e"
  by (simp add: row_of_def)

lemma put_event_ok [inv_intros]:
  assumes ok: "db_ok d"
  shows "db_ok (put_event lib e a d)"
proof -
  obtain rid where t:
    "set (d_logs (put_event lib e a d)) = insert (rid, row_of e a) {p \<in> set (d_logs d). r_id (snd p) \<noteq> ev_id e}"
    "set (d_fts (put_event lib e a d)) = insert (rid, (ev_id e, ftsText lib e)) {p \<in> set (d_fts d). fst (snd p) \<noteq> ev_id e}"
    "rid \<notin> fst ` {p \<in> set (d_logs d). r_id (snd p) \<noteq> ev_id e}"
    using put_event_tables[OF ok] by blast
  have "distinct (map fst (AList.delete k (d_fts d)))" "k \<notin> fst ` set (AList.delete k (d_fts d))" for k
    using ok by (auto simp: db_ok_def distinct_delete set_delete)
  then have "distinct (map fst (d_logs (put_event lib e a d)))" "distinct (map fst (d_fts (put_event lib e a d)))"
    using ok by (simp_all add: put_event_def Let_def distinct_update db_ok_def)
  moreover have "\<forall>p \<in> set (d_logs (put_event lib e a d)). \<forall>q \<in> set (d_logs (put_event lib e a d)).
      r_id (snd p) = r_id (snd q) \<longrightarrow> p = q"
    using ok unfolding t(1) db_ok_def by auto
  moreover have "(\<exists>x. (k, (i, x)) \<in> set (d_fts (put_event lib e a d)))
      \<longleftrightarrow> (\<exists>r. (k, r) \<in> set (d_logs (put_event lib e a d)) \<and> r_id r = i)" for k i
  proof -
    have "(\<exists>x. (k, (i, x)) \<in> set (d_fts d)) \<longleftrightarrow> (\<exists>r. (k, r) \<in> set (d_logs d) \<and> r_id r = i)"
      using ok unfolding db_ok_def by blast
    then show ?thesis unfolding t(1,2) by auto
  qed
  ultimately show ?thesis unfolding db_ok_def by blast
qed

section \<open>The store as a map from event IDs\<close>

text \<open>What the two tables hold for an event ID: its log row and its searchable text.\<close>

definition db_get :: "db \<Rightarrow> string \<Rightarrow> (logrow \<times> string) option" where
  "db_get d i =
     (case rowid_of i d of
        None \<Rightarrow> None
      | Some rid \<Rightarrow> (case (map_of (d_logs d) rid, map_of (d_fts d) rid) of
          (Some r, Some (_, t)) \<Rightarrow> Some (r, t) | _ \<Rightarrow> None))"

lemma db_get_iff:
  assumes ok: "db_ok d"
  shows "db_get d i = Some (r, t) \<longleftrightarrow> (\<exists>rid. (rid, r) \<in> set (d_logs d) \<and> r_id r = i \<and> (rid, (i, t)) \<in> set (d_fts d))"
proof (cases "rowid_of i d")
  case None
  then have "db_get d i = None" by (simp add: db_get_def)
  moreover have "r_id r' \<noteq> i" if "(k, r') \<in> set (d_logs d)" for k r'
    using None that by (auto simp: rowid_of_None has_event_def)
  ultimately show ?thesis by auto
next
  case (Some rid)
  then obtain r0 where r0: "(rid, r0) \<in> set (d_logs d)" "r_id r0 = i" using rowid_of_Some by blast
  then obtain t0 where t0: "(rid, (i, t0)) \<in> set (d_fts d)" using ok unfolding db_ok_def by blast
  have "map_of (d_logs d) rid = Some r0" "map_of (d_fts d) rid = Some (i, t0)"
    using r0 t0 ok by (auto simp: db_ok_def)
  then have "db_get d i = Some (r0, t0)" by (simp add: db_get_def Some)
  moreover have "k = rid \<and> r' = r0 \<and> t' = t0"
    if "(k, r') \<in> set (d_logs d)" "r_id r' = i" "(k, (i, t')) \<in> set (d_fts d)" for k r' t'
  proof -
    have "(k, r') = (rid, r0)" using ok that r0 unfolding db_ok_def by (metis snd_conv)
    moreover from this have "(rid, (i, t')) \<in> set (d_fts d)" using that(3) by simp
    then have "(i, t') = (i, t0)" using ok t0 unfolding db_ok_def by (metis eq_key_imp_eq_value)
    ultimately show ?thesis by simp
  qed
  ultimately have u: "db_get d i = Some (r0, t0)"
    "\<And>k r' t'. (k, r') \<in> set (d_logs d) \<Longrightarrow> r_id r' = i \<Longrightarrow> (k, (i, t')) \<in> set (d_fts d) \<Longrightarrow>
      k = rid \<and> r' = r0 \<and> t' = t0" by blast+
  show ?thesis
  proof
    assume "db_get d i = Some (r, t)"
    then show "\<exists>rid. (rid, r) \<in> set (d_logs d) \<and> r_id r = i \<and> (rid, (i, t)) \<in> set (d_fts d)"
      using u(1) r0 t0 by auto
  next
    assume "\<exists>rid. (rid, r) \<in> set (d_logs d) \<and> r_id r = i \<and> (rid, (i, t)) \<in> set (d_fts d)"
    then show "db_get d i = Some (r, t)" using u by blast
  qed
qed

lemma option_eqI:
  assumes "\<And>a b. x = Some (a, b) \<longleftrightarrow> y = Some (a, b)"
  shows "x = y"
proof (cases x)
  case None
  then have "y \<noteq> Some (a, b)" for a b using assms[of a b] by simp
  then show ?thesis using None by (cases y) auto
next
  case (Some p)
  then show ?thesis using assms[of "fst p" "snd p"] by simp
qed

lemma db_get_put:
  assumes ok: "db_ok d"
  shows "db_get (put_event lib e a d) = (db_get d)(ev_id e \<mapsto> (row_of e a, ftsText lib e))"
proof
  fix i
  obtain rid where t:
    "set (d_logs (put_event lib e a d)) = insert (rid, row_of e a) {p \<in> set (d_logs d). r_id (snd p) \<noteq> ev_id e}"
    "set (d_fts (put_event lib e a d)) = insert (rid, (ev_id e, ftsText lib e)) {p \<in> set (d_fts d). fst (snd p) \<noteq> ev_id e}"
    "rid \<notin> fst ` {p \<in> set (d_logs d). r_id (snd p) \<noteq> ev_id e}"
    using put_event_tables[OF ok] by blast
  note get = db_get_iff[OF ok] db_get_iff[OF put_event_ok[OF ok], of lib e a]
  show "db_get (put_event lib e a d) i = ((db_get d)(ev_id e \<mapsto> (row_of e a, ftsText lib e))) i"
  proof (cases "i = ev_id e")
    case True
    then have "db_get (put_event lib e a d) i = Some (row_of e a, ftsText lib e)"
      unfolding get t(1,2) by auto
    then show ?thesis using True by simp
  next
    case False
    have "db_get (put_event lib e a d) i = Some (r, x) \<longleftrightarrow> db_get d i = Some (r, x)" for r x
      unfolding get t(1,2) using False by auto
    then have "db_get (put_event lib e a d) i = db_get d i"
      by (intro option_eqI) auto
    then show ?thesis using False by simp
  qed
qed

lemma has_event_get:
  assumes ok: "db_ok d"
  shows "has_event d i \<longleftrightarrow> db_get d i \<noteq> None"
proof
  assume "has_event d i"
  then obtain rid r where r: "(rid, r) \<in> set (d_logs d)" "r_id r = i" by (auto simp: has_event_def)
  then obtain t where "(rid, (i, t)) \<in> set (d_fts d)" using ok unfolding db_ok_def by blast
  with r have "db_get d i = Some (r, t)" by (auto simp: db_get_iff[OF ok])
  then show "db_get d i \<noteq> None" by simp
next
  assume "db_get d i \<noteq> None"
  then obtain r t where "db_get d i = Some (r, t)" by auto
  then show "has_event d i" by (auto simp: db_get_iff[OF ok] has_event_def)
qed

text \<open>The abstract write: later events win over earlier ones with the same ID.\<close>

definition attrs_json :: "store_io \<Rightarrow> logevent \<Rightarrow> string" where
  "attrs_json io e = (if ev_attrs e = [] then ''{}'' else the (so_marshal io (ev_attrs e)))"

definition spec_put :: "store_io \<Rightarrow> (string \<rightharpoonup> logrow \<times> string) \<Rightarrow> logevent list \<Rightarrow> (string \<rightharpoonup> logrow \<times> string)" where
  "spec_put io = foldl (\<lambda>m e. m(ev_id e \<mapsto> (row_of e (attrs_json io e), ftsText (so_lib io) e)))"

lemma spec_put_simps [simp]:
  "spec_put io m [] = m"
  "spec_put io m (e # es) = spec_put io (m(ev_id e \<mapsto> (row_of e (attrs_json io e), ftsText (so_lib io) e))) es"
  by (simp_all add: spec_put_def)

lemma put_events_refines:
  "put_events io n es d = Some d' \<Longrightarrow> db_ok d \<Longrightarrow> db_ok d' \<and> db_get d' = spec_put io (db_get d) es"
proof (induction io n es d rule: put_events.induct)
  case (2 io n e es d)
  obtain a where a: "(if ev_attrs e = [] then Some ''{}'' else so_marshal io (ev_attrs e)) = Some a"
      and rest: "put_events io (Suc n) es (put_event (so_lib io) e a d) = Some d'" "so_fails io \<noteq> Some n"
    using 2(2) by (auto split: option.split_asm if_split_asm)
  have aj: "a = attrs_json io e" using a by (auto simp: attrs_json_def split: if_split_asm)
  from 2(1)[OF a rest(2,1) put_event_ok[OF 2(3)]] show ?case
    by (simp add: db_get_put[OF 2(3)] aj del: fun_upd_apply)
qed simp

lemma db_append_refines:
  assumes ok: "db_ok d" and ap: "db_append io es d = (r, d')"
  shows "db_ok d' \<and> db_get d' = (if r then spec_put io (db_get d) es else db_get d)"
  using assms put_events_refines[of io 0 es d d'] 
  by (auto simp: db_append_def split: option.split_asm if_split_asm)

lemma Purge_refines:
  assumes ok: "db_ok d" and pu: "Purge commit t d = (Some n, d')"
  shows "db_ok d' \<and> (\<forall>i. db_get d' i =
    (case db_get d i of Some (r, x) \<Rightarrow> if r_ts r < i64 t then None else Some (r, x) | None \<Rightarrow> None))"
proof -
  have d': "d_logs d' = filter (\<lambda>(_, r). \<not> r_ts r < i64 t) (d_logs d)"
    "d_fts d' = filter (\<lambda>(rid, _). rid \<notin> set (map fst (filter (\<lambda>(_, r). r_ts r < i64 t) (d_logs d)))) (d_fts d)"
    using pu by (auto simp: Purge_def Let_def split: if_split_asm)
  have l: "set (d_logs d') = {p \<in> set (d_logs d). \<not> r_ts (snd p) < i64 t}"
    by (auto simp: d'(1))
  have f: "set (d_fts d') = {p \<in> set (d_fts d). \<not> (\<exists>r. (fst p, r) \<in> set (d_logs d) \<and> r_ts r < i64 t)}"
    by (force simp: d'(2) image_iff)
  have d: "distinct (map fst (d_logs d'))" "distinct (map fst (d_fts d'))"
    using ok by (simp_all only: d' db_ok_def distinct_map_filter)
  have key: "r = r'" if "(k, r) \<in> set (d_logs d)" "(k, r') \<in> set (d_logs d)" for k r r'
    using that ok unfolding db_ok_def by (metis eq_key_imp_eq_value)
  have al: "(\<exists>x. (k, (i, x)) \<in> set (d_fts d)) \<longleftrightarrow> (\<exists>r. (k, r) \<in> set (d_logs d) \<and> r_id r = i)" for k i
    using ok unfolding db_ok_def by blast
  have "db_ok d'"
  proof -
    have "\<forall>p \<in> set (d_logs d'). \<forall>q \<in> set (d_logs d'). r_id (snd p) = r_id (snd q) \<longrightarrow> p = q"
      using ok l by (auto simp: db_ok_def)
    moreover have "(\<exists>x. (k, (i, x)) \<in> set (d_fts d')) \<longleftrightarrow> (\<exists>r. (k, r) \<in> set (d_logs d') \<and> r_id r = i)" for k i
      using al[of k i] key[of k] unfolding l f by auto
    ultimately show ?thesis using d unfolding db_ok_def by blast
  qed
  moreover have "db_get d' i = (case db_get d i of Some (r, x) \<Rightarrow> if r_ts r < i64 t then None else Some (r, x) | None \<Rightarrow> None)" for i
  proof (rule option_eqI)
    fix r x
    have "db_get d' i = Some (r, x) \<longleftrightarrow> db_get d i = Some (r, x) \<and> \<not> r_ts r < i64 t"
      unfolding db_get_iff[OF ok] db_get_iff[OF \<open>db_ok d'\<close>] l f using key by auto
    then show "db_get d' i = Some (r, x) \<longleftrightarrow>
        (case db_get d i of Some (r, x) \<Rightarrow> if r_ts r < i64 t then None else Some (r, x) | None \<Rightarrow> None) = Some (r, x)"
      by (auto split: option.split)
  qed
  ultimately show ?thesis by blast
qed

section \<open>The writer's contract\<close>

text \<open>
  What \<^verbatim>\<open>store.Store\<close> promises the ingest pipeline: a successful append holds every event of the
  batch, and no append, successful or not, loses an event that was held.
\<close>

locale event_store =
  fixes ok :: "'s \<Rightarrow> bool" and holds :: "'s \<Rightarrow> string \<Rightarrow> bool"
    and append :: "'o \<Rightarrow> logevent list \<Rightarrow> 's \<Rightarrow> bool \<times> 's"
  assumes ok_law: "ok s \<Longrightarrow> ok (snd (append io es s))"
    and held_law: "ok s \<Longrightarrow> append io es s = (True, s') \<Longrightarrow> e \<in> set es \<Longrightarrow> holds s' (ev_id e)"
    and keep_law: "ok s \<Longrightarrow> holds s i \<Longrightarrow> holds (snd (append io es s)) i"

lemma spec_put_dom: "dom (spec_put io m es) = dom m \<union> ev_id ` set es"
  by (induction es arbitrary: m) auto

interpretation sqlite: event_store db_ok has_event db_append
proof
  fix d io es i assume ok: "db_ok d"
  obtain r d' where a: "db_append io es d = (r, d')" by (cases "db_append io es d")
  note ref = db_append_refines[OF ok a]
  show "db_ok (snd (db_append io es d))" using ref a by simp
  have "i \<in> dom (db_get d')" if "i \<in> dom (db_get d)"
    using ref that spec_put_dom[of io "db_get d" es] by (cases r) auto
  then show "has_event d i \<Longrightarrow> has_event (snd (db_append io es d)) i"
    using ref a ok by (simp add: has_event_get domIff)
next
  fix d io es d' e assume ok: "db_ok d" and a: "db_append io es d = (True, d')" and e: "e \<in> set es"
  note ref = db_append_refines[OF ok a]
  have "ev_id e \<in> dom (db_get d')"
    using ref e spec_put_dom[of io "db_get d" es] by auto
  then show "has_event d' (ev_id e)"
    using ref by (simp add: has_event_get domIff)
qed

section \<open>Properties\<close>

text \<open>C37. Writing a batch is all or nothing and idempotent by event ID.  On aligned tables a
  successful \<^verbatim>\<open>Append\<close> refines the map in which every event of the batch, in order, replaces the
  log row and the searchable text of its ID; a failed one changes nothing; the log table and the
  full-text table stay aligned row for row in either case.\<close>

theorem Append_refines_map:
  assumes "db_ok d" "db_append io es d = (r, d')"
  shows "db_ok d' \<and> db_get d' = (if r then spec_put io (db_get d) es else db_get d)"
  by (rule db_append_refines[OF assms])

definition ev_a :: logevent where "ev_a = empty_event\<lparr>ev_id := ''a'', ev_message := ''one''\<rparr>"

definition fine_io :: store_io where
  "fine_io = \<lparr>so_lib = ascii_lib, so_marshal = (\<lambda>_. None), so_fails = None, so_commit = True\<rparr>"

theorem Append_refines_map_witness:
  "\<exists>d'. db_append fine_io [ev_a, ev_a\<lparr>ev_message := ''two''\<rparr>] \<lparr>d_logs = [], d_fts = []\<rparr> = (True, d') \<and>
     map_option (\<lambda>(r, _). r_message r) (db_get d' ''a'') = Some ''two''"
proof -
  let ?d = "\<lparr>d_logs = [], d_fts = []\<rparr>" and ?es = "[ev_a, ev_a\<lparr>ev_message := ''two''\<rparr>]"
  have ok: "db_ok ?d" by (simp add: db_ok_def)
  have "fst (db_append fine_io ?es ?d)"
    by (simp add: db_append_def fine_io_def ev_a_def empty_event_def)
  then obtain d' where a: "db_append fine_io ?es ?d = (True, d')" by (metis (full_types) prod.collapse)
  from Append_refines_map[OF ok a] show ?thesis
    using a by (simp add: ev_a_def empty_event_def row_of_def)
qed

end
