(* ===== verification/Dedupe.thy ===== *)
theory Dedupe
  imports Prelude
begin

text \<open>
  \<^verbatim>\<open>src/internal/ingest/dedupe.go\<close>: the time-bounded memory of batch IDs that recognises a
  re-sent batch.  The deduper's map is an association list with distinct keys (in the order a
  \<^verbatim>\<open>range\<close> visits them); the clock is an argument.  The contract that the HTTP handlers rely on
  is the locale \<open>retry_memory\<close>, interpreted on \<open>Seen\<close>.
\<close>

section \<open>The deduper\<close>

definition dedupeTTL :: duration where "dedupeTTL = 10 * minute"
definition maxDedupeEntries :: nat where "maxDedupeEntries = 50000"

record batchDeduper =
  bd_seen :: "(string \<times> time) list"

definition newBatchDeduper :: batchDeduper where
  "newBatchDeduper = \<lparr>bd_seen = []\<rparr>"

definition medianAge :: "(string \<times> time) list \<Rightarrow> time \<Rightarrow> duration" where
  "medianAge seen now =
     (case map (\<lambda>(_, at). time_sub now at) seen of
        [] \<Rightarrow> 0
      | a # ages \<Rightarrow>
          (let (oldest, newest) = foldl (\<lambda>(oldest, newest) age.
                 (if age > oldest then age else oldest, if age < newest then age else newest)) (a, a) ages
           in go_quot (i64 (oldest + newest)) 2))"

definition evictLocked :: "time \<Rightarrow> (string \<times> time) list \<Rightarrow> (string \<times> time) list" where
  "evictLocked now seen =
     (let live = filter (\<lambda>(_, at). \<not> time_sub now at \<ge> dedupeTTL) seen
      in if length live < maxDedupeEntries then live
         else let cutoff = medianAge live now
              in filter (\<lambda>(_, at). \<not> time_sub now at \<ge> cutoff) live)"

definition Seen :: "time \<Rightarrow> string \<Rightarrow> batchDeduper \<Rightarrow> bool \<times> batchDeduper" where
  "Seen now bid d =
     (if bid = [] then (False, d)
      else if (case map_of (bd_seen d) bid of Some at \<Rightarrow> time_sub now at < dedupeTTL | None \<Rightarrow> False)
      then (True, d)
      else let seen = (if length (bd_seen d) \<ge> maxDedupeEntries then evictLocked now (bd_seen d) else bd_seen d)
           in (False, d\<lparr>bd_seen := AList.update bid now seen\<rparr>))"

text \<open>A sequence of calls, each with the clock reading it makes.\<close>

fun run_calls :: "(time \<Rightarrow> string \<Rightarrow> 's \<Rightarrow> bool \<times> 's) \<Rightarrow> (time \<times> string) list \<Rightarrow> 's \<Rightarrow> bool list \<times> 's" where
  "run_calls seen [] d = ([], d)"
| "run_calls seen ((t, bid) # cs) d =
     (let (r, d1) = seen t bid d; (rs, d2) = run_calls seen cs d1 in (r # rs, d2))"

text \<open>
  The reference: an unbounded history of the batches that were let through.  A batch is a
  duplicate when the same ID was let through less than \<open>dedupeTTL\<close> ago.
\<close>

fun ref_calls :: "(string \<times> time) list \<Rightarrow> (time \<times> string) list \<Rightarrow> bool list" where
  "ref_calls h [] = []"
| "ref_calls h ((t, bid) # cs) =
     (let r = (bid \<noteq> [] \<and> (\<exists>(k, at) \<in> set h. k = bid \<and> t - at < dedupeTTL))
      in r # ref_calls (if r \<or> bid = [] then h else (bid, t) # h) cs)"

lemma run_calls_verdicts: "fst (run_calls seen (c # cs) d)
    = fst (seen (fst c) (snd c) d) # fst (run_calls seen cs (snd (seen (fst c) (snd c) d)))"
  by (cases c) (simp add: Let_def split: prod.split)

lemma run_calls_state: "snd (run_calls seen (c # cs) d) = snd (run_calls seen cs (snd (seen (fst c) (snd c) d)))"
  by (cases c) (simp add: Let_def split: prod.split)

section \<open>Bounded memory\<close>

lemma dedupe_ttl: "time_sub now at < dedupeTTL \<longleftrightarrow> now - at < dedupeTTL"
  by (rule time_sub_less_iff) (simp_all add: dedupeTTL_def duration_defs)

lemma extreme_ages:
  "y \<le> x \<Longrightarrow> foldl (\<lambda>(oldest, newest) age. (if age > oldest then age else oldest,
       if age < newest then age else newest)) (x :: int, y) ages = (p, q) \<Longrightarrow>
     p \<in> insert x (set ages) \<and> q \<in> insert y (set ages) \<and> q \<le> p"
proof (induction ages arbitrary: x y)
  case (Cons a ages)
  have "(if a < y then a else y) \<le> (if a > x then a else x)" using Cons.prems(1) by auto
  from Cons.IH[OF this] Cons.prems(2) show ?case by (auto split: if_split_asm)
qed simp

text \<open>The cut-off lies between the ages of the youngest and the oldest entry.\<close>

lemma medianAge_le_oldest:
  assumes ne: "seen \<noteq> []" and ages: "\<forall>(k, at) \<in> set seen. 0 \<le> now - at \<and> now - at < dedupeTTL"
  shows "\<exists>(k, at) \<in> set seen. medianAge seen now \<le> now - at"
proof -
  let ?ages = "map (\<lambda>(_, at). now - at) seen"
  have small: "i64_range (now - at)" if "(k, at) \<in> set seen" for k at
    using ages that by (force simp: i64_range_def dedupeTTL_def duration_defs)
  then have eq: "map (\<lambda>(_, at). time_sub now at) seen = ?ages"
    by (intro map_cong) auto
  obtain a as where aa: "?ages = a # as" using ne by (cases seen) auto
  obtain p q where pq: "foldl (\<lambda>(oldest, newest) age. (if age > oldest then age else oldest,
       if age < newest then age else newest)) (a, a) as = (p, q)" by (rule prod.exhaust)
  have in_ages: "p \<in> set ?ages" "q \<in> set ?ages" "q \<le> p"
    using extreme_ages[OF order.refl pq] by (simp_all only: aa) simp_all
  moreover have b: "0 \<le> v \<and> v < dedupeTTL" if "v \<in> set ?ages" for v using that ages by auto
  ultimately have r: "0 \<le> q" "q \<le> p" "p < dedupeTTL" by blast+
  then have "i64_range (p + q)" by (simp add: i64_range_def dedupeTTL_def duration_defs)
  then have "medianAge seen now = (p + q) div 2"
    using r pq by (simp add: medianAge_def eq aa go_quot_nonneg)
  then have "medianAge seen now \<le> p" using r by simp
  with in_ages(1) show ?thesis by auto
qed

definition deduper_ok :: "time \<Rightarrow> batchDeduper \<Rightarrow> bool" where
  "deduper_ok now d \<longleftrightarrow> distinct (map fst (bd_seen d)) \<and> length (bd_seen d) \<le> maxDedupeEntries \<and>
     (\<forall>(k, at) \<in> set (bd_seen d). at \<le> now)"

lemma length_filter_strict: "x \<in> set xs \<Longrightarrow> \<not> P x \<Longrightarrow> length (filter P xs) < length xs"
  by (rule length_filter_less)

lemma evict_makes_room:
  assumes "deduper_ok now d"
  shows "length (evictLocked now (bd_seen d)) < maxDedupeEntries"
proof -
  let ?live = "filter (\<lambda>(_, at). \<not> time_sub now at \<ge> dedupeTTL) (bd_seen d)"
  have le: "length ?live \<le> maxDedupeEntries"
    using assms by (intro le_trans[OF length_filter_le]) (simp add: deduper_ok_def)
  show ?thesis
  proof (cases "length ?live < maxDedupeEntries")
    case False
    with le have len: "length ?live = maxDedupeEntries" by simp
    then have ne: "?live \<noteq> []" by (auto simp: maxDedupeEntries_def)
    have ages: "\<forall>(k, at) \<in> set ?live. 0 \<le> now - at \<and> now - at < dedupeTTL"
      using assms by (auto simp: deduper_ok_def not_le dedupe_ttl)
    obtain k at where o: "(k, at) \<in> set ?live" "medianAge ?live now \<le> now - at"
      using medianAge_le_oldest[OF ne ages] by blast
    have "i64_range (now - at)"
      using ages o(1) by (force simp: i64_range_def dedupeTTL_def duration_defs)
    then have "time_sub now at = now - at" by simp
    then have "length (filter (\<lambda>(_, at). \<not> time_sub now at \<ge> medianAge ?live now) ?live) < length ?live"
      using o by (intro length_filter_strict[of "(k, at)"]) simp_all
    then show ?thesis using False len by (simp add: evictLocked_def Let_def)
  qed (simp add: evictLocked_def Let_def)
qed

lemma evict_subset: "set (evictLocked now seen) \<subseteq> set seen"
  by (auto simp: evictLocked_def Let_def)

lemma evict_distinct: "distinct (map fst seen) \<Longrightarrow> distinct (map fst (evictLocked now seen))"
  by (simp add: evictLocked_def Let_def distinct_map_filter)

lemma length_update: "length (AList.update k v xs) = (if k \<in> fst ` set xs then length xs else Suc (length xs))"
  by (induction xs) auto

lemma set_update: "set (AList.update k v xs) \<subseteq> insert (k, v) (set xs)"
  by (induction xs) auto

lemma Seen_deduper_ok [inv_intros]:
  assumes "deduper_ok t d" "t \<le> now"
  shows "deduper_ok now (snd (Seen now bid d))"
proof -
  have ok: "deduper_ok now d" using assms by (force simp: deduper_ok_def)
  define seen where "seen = (if length (bd_seen d) \<ge> maxDedupeEntries then evictLocked now (bd_seen d) else bd_seen d)"
  have "length seen < maxDedupeEntries" "distinct (map fst seen)" "set seen \<subseteq> set (bd_seen d)"
    using evict_makes_room[OF ok] evict_subset evict_distinct ok
    by (auto simp: seen_def deduper_ok_def)
  then have "deduper_ok now \<lparr>bd_seen = AList.update bid now seen\<rparr>"
    using ok set_update[of bid now seen]
    by (auto simp: deduper_ok_def length_update distinct_update)
  then show ?thesis using ok
    by (cases d) (auto simp: Seen_def seen_def Let_def)
qed

section \<open>The contract of a retry memory\<close>

text \<open>
  \<open>mem s\<close> is what the memory \<open>s\<close> knows: pairs of a batch ID and when it was recorded.  A memory
  may forget, but it never invents: a duplicate verdict needs a recorded entry within the window.
\<close>

locale retry_memory =
  fixes seen :: "time \<Rightarrow> string \<Rightarrow> 's \<Rightarrow> bool \<times> 's"
    and mem :: "'s \<Rightarrow> (string \<times> time) set"
    and ok :: "'s \<Rightarrow> bool"
  assumes ok_law: "ok s \<Longrightarrow> ok (snd (seen t bid s))"
    and dup_law: "ok s \<Longrightarrow> seen t bid s = (True, s') \<Longrightarrow>
      bid \<noteq> [] \<and> s' = s \<and> (\<exists>at. (bid, at) \<in> mem s \<and> t - at < dedupeTTL)"
    and grow_law: "ok s \<Longrightarrow> seen t bid s = (False, s') \<Longrightarrow> mem s' \<subseteq> insert (bid, t) (mem s)"
begin

lemma first_use:
  assumes "ok s" "bid \<notin> fst ` mem s"
  shows "\<not> fst (seen t bid s)"
  using assms dup_law[of s t bid "snd (seen t bid s)"]
  by (cases "seen t bid s") (force simp: image_iff)

lemma mem_after:
  assumes "ok s" "run_calls seen cs s = (rs, s')"
  shows "fst ` mem s' \<subseteq> fst ` mem s \<union> snd ` set cs"
  using assms
proof (induction cs arbitrary: s rs)
  case (Cons c cs)
  obtain t bid where c: "c = (t, bid)" by (cases c)
  obtain r s1 where s1: "seen t bid s = (r, s1)" by (cases "seen t bid s")
  obtain rs1 where "run_calls seen cs s1 = (rs1, s')"
    using Cons.prems(2) by (auto simp: c s1 Let_def split: prod.split_asm)
  moreover have "ok s1" using ok_law[OF Cons.prems(1), of t bid] s1 by simp
  ultimately have "fst ` mem s' \<subseteq> fst ` mem s1 \<union> snd ` set cs" by (intro Cons.IH)
  moreover have "fst ` mem s1 \<subseteq> insert bid (fst ` mem s)"
  proof (cases r)
    case True
    then show ?thesis using dup_law[OF Cons.prems(1), of t bid s1] s1 by auto
  next
    case False
    then have "mem s1 \<subseteq> insert (bid, t) (mem s)"
      using grow_law[OF Cons.prems(1), of t bid s1] s1 by simp
    then show ?thesis by auto
  qed
  ultimately show ?case by (auto simp: c)
qed simp

end

text \<open>With room left it forgets nothing: every call is answered as the unbounded history answers it.\<close>

locale exact_retry_memory = retry_memory seen mem ok
    for seen :: "time \<Rightarrow> string \<Rightarrow> 's \<Rightarrow> bool \<times> 's" and mem ok +
  fixes cap :: nat
  assumes hit_law: "ok s \<Longrightarrow> bid \<noteq> [] \<Longrightarrow> (bid, at) \<in> mem s \<Longrightarrow> t - at < dedupeTTL \<Longrightarrow> fst (seen t bid s)"
    and keep_law: "ok s \<Longrightarrow> card (fst ` mem s) < cap \<Longrightarrow> bid \<noteq> [] \<Longrightarrow> seen t bid s = (False, s') \<Longrightarrow>
      mem s' = insert (bid, t) {(k, at) \<in> mem s. k \<noteq> bid}"
    and empty_law: "seen t [] s = (False, s)"
begin

definition covers :: "(string \<times> time) list \<Rightarrow> 's \<Rightarrow> bool" where
  "covers h s \<longleftrightarrow> ok s \<and> mem s \<subseteq> set h \<and> (\<forall>(k, at) \<in> set h. \<exists>at' \<ge> at. (k, at') \<in> mem s)"

lemma covers_hit:
  assumes "covers h s" "bid \<noteq> []"
  shows "fst (seen t bid s) \<longleftrightarrow> (\<exists>(k, at) \<in> set h. k = bid \<and> t - at < dedupeTTL)"
proof
  assume "fst (seen t bid s)"
  then have "seen t bid s = (True, snd (seen t bid s))" by (cases "seen t bid s") simp
  with dup_law[of s t bid] assms(1) show "\<exists>(k, at) \<in> set h. k = bid \<and> t - at < dedupeTTL"
    by (fastforce simp: covers_def)
next
  assume "\<exists>(k, at) \<in> set h. k = bid \<and> t - at < dedupeTTL"
  then obtain at where "(bid, at) \<in> set h" "t - at < dedupeTTL" by blast
  moreover then obtain at' where "at \<le> at'" "(bid, at') \<in> mem s"
    using assms(1) by (fastforce simp: covers_def)
  ultimately show "fst (seen t bid s)" using hit_law[of s bid at' t] assms by (simp add: covers_def)
qed

lemma covers_record:
  assumes c: "covers h s" and bid: "bid \<noteq> []" and new: "seen t bid s = (False, s')"
    and room: "card (fst ` set h) < cap" and past: "\<forall>(k, at) \<in> set h. at \<le> t"
  shows "covers ((bid, t) # h) s'"
proof -
  have "card (fst ` mem s) \<le> card (fst ` set h)"
    using c by (intro card_mono image_mono) (auto simp: covers_def)
  then have m: "mem s' = insert (bid, t) {(k, at) \<in> mem s. k \<noteq> bid}"
    using keep_law[OF _ _ bid new] room c by (simp add: covers_def)
  have "\<exists>at' \<ge> at. (k, at') \<in> mem s'" if "(k, at) \<in> set ((bid, t) # h)" for k at
  proof (cases "k = bid")
    case True
    then show ?thesis using that past m by auto
  next
    case False
    then have "(k, at) \<in> set h" using that by simp
    then show ?thesis using c False m by (fastforce simp: covers_def)
  qed
  then show ?thesis using c m ok_law[of s t bid] new by (auto simp: covers_def)
qed

lemma calls_eq_ref:
  assumes "covers h s" "sorted (map fst cs)" "\<forall>(k, at) \<in> set h. \<forall>c \<in> set cs. at \<le> fst c"
    "card (fst ` set h \<union> snd ` set cs) < cap"
  shows "fst (run_calls seen cs s) = ref_calls h cs"
  using assms
proof (induction cs arbitrary: h s)
  case (Cons c cs)
  obtain t bid where c: "c = (t, bid)" by (cases c)
  obtain r s1 where s1: "seen t bid s = (r, s1)" by (cases "seen t bid s")
  let ?dup = "bid \<noteq> [] \<and> (\<exists>(k, at) \<in> set h. k = bid \<and> t - at < dedupeTTL)"
  have r: "r \<longleftrightarrow> ?dup"
    using covers_hit[OF Cons.prems(1), of bid t] s1 empty_law[of t s] by (cases "bid = []") auto
  let ?h = "if ?dup \<or> bid = [] then h else (bid, t) # h"
  have "card (fst ` set h) < cap"
    using Cons.prems(4) by (intro le_less_trans[OF card_mono Cons.prems(4)]) auto
  then have "covers ?h s1"
    using Cons.prems(1)[unfolded covers_def, THEN conjunct1] Cons.prems(1,3) r s1 dup_law[of s t bid s1] empty_law[of t s] covers_record[of h s bid t s1]
    by (cases r) (auto simp: c)
  moreover have "\<forall>(k, at) \<in> set ?h. \<forall>c \<in> set cs. at \<le> fst c"
    using Cons.prems(2,3) by (auto simp: c)
  moreover have "card (fst ` set ?h \<union> snd ` set cs) < cap"
    by (intro le_less_trans[OF card_mono Cons.prems(4)]) (auto simp: c)
  ultimately have "fst (run_calls seen cs s1) = ref_calls ?h cs"
    using Cons.prems(2) by (intro Cons.IH) (auto simp: c)
  moreover have "ref_calls h (c # cs) = ?dup # ref_calls ?h cs" by (simp only: c ref_calls.simps Let_def)
  ultimately show ?case using r by (simp only: run_calls_verdicts) (simp add: c s1)
qed simp

text \<open>While there is room, calls within the window do not dislodge an entry.\<close>

lemma mem_kept:
  assumes "ok s" "finite (mem s)" "(bid, at) \<in> mem s" "bid \<noteq> []"
    and "card (fst ` mem s) + length cs \<le> cap" "\<forall>c \<in> set cs. fst c - at < dedupeTTL"
  shows "(bid, at) \<in> mem (snd (run_calls seen cs s)) \<and> ok (snd (run_calls seen cs s))"
  using assms
proof (induction cs arbitrary: s)
  case (Cons c cs)
  obtain t b where c: "c = (t, b)" by (cases c)
  obtain r s1 where s1: "seen t b s = (r, s1)" by (cases "seen t b s")
  have ok1: "ok s1" using ok_law[OF Cons.prems(1), of t b] s1 by simp
  have "(bid, at) \<in> mem s1 \<and> finite (mem s1) \<and> card (fst ` mem s1) \<le> Suc (card (fst ` mem s))"
  proof (cases "r \<or> b = []")
    case True
    then have "s1 = s" using s1 dup_law[OF Cons.prems(1), of t b s1] empty_law[of t s] by auto
    then show ?thesis using Cons.prems(2,3) by simp
  next
    case False
    then have m: "mem s1 = insert (b, t) {(k, at) \<in> mem s. k \<noteq> b}"
      using keep_law[OF Cons.prems(1), of b t s1] s1 Cons.prems(5) by simp
    have "b \<noteq> bid"
      using hit_law[OF Cons.prems(1,4,3), of t] Cons.prems(6) False s1 c by auto
    then have "(bid, at) \<in> mem s1" using m Cons.prems(3) by simp
    moreover have fin: "finite (mem s1)"
      unfolding m by (intro finite.insertI finite_subset[OF _ Cons.prems(2)]) auto
    moreover have "fst ` mem s1 \<subseteq> insert b (fst ` mem s)" using m by auto
    then have "card (fst ` mem s1) \<le> card (insert b (fst ` mem s))"
      using Cons.prems(2) by (intro card_mono) auto
    then have "card (fst ` mem s1) \<le> Suc (card (fst ` mem s))"
      using Cons.prems(2) by (simp add: card_insert_if split: if_split_asm)
    ultimately show ?thesis by blast
  qed
  then show ?case using Cons.IH[OF ok1 _ _ Cons.prems(4)] Cons.prems(5,6) c s1 by (simp add: case_prod_beta)
qed simp

end

section \<open>The deduper is such a memory\<close>

definition bd_mem :: "batchDeduper \<Rightarrow> (string \<times> time) set" where
  "bd_mem d = {(k, at). map_of (bd_seen d) k = Some at}"

definition bd_ok :: "batchDeduper \<Rightarrow> bool" where
  "bd_ok d \<longleftrightarrow> distinct (map fst (bd_seen d))"

lemma map_of_filter_Some: "distinct (map fst xs) \<Longrightarrow> map_of (filter P xs) k = Some v \<Longrightarrow> map_of xs k = Some v"
  by (meson distinct_map_filter filter_is_subset map_of_SomeD map_of_is_SomeI subsetD)

lemma map_of_evict:
  "distinct (map fst seen) \<Longrightarrow> map_of (evictLocked now seen) k = Some v \<Longrightarrow> map_of seen k = Some v"
  by (auto simp: evictLocked_def Let_def distinct_map_filter split: if_split_asm dest!: map_of_filter_Some)

lemma Seen_cases:
  obtains (blank) "bid = []" "Seen t bid d = (False, d)"
  | (dup) at where "bid \<noteq> []" "map_of (bd_seen d) bid = Some at" "t - at < dedupeTTL" "Seen t bid d = (True, d)"
  | (new) seen where "bid \<noteq> []" "\<And>at. map_of (bd_seen d) bid = Some at \<Longrightarrow> \<not> t - at < dedupeTTL"
      "seen = (if length (bd_seen d) \<ge> maxDedupeEntries then evictLocked t (bd_seen d) else bd_seen d)"
      "Seen t bid d = (False, \<lparr>bd_seen = AList.update bid t seen\<rparr>)"
proof (cases "bid = []")
  case False
  show ?thesis
  proof (cases "\<exists>at. map_of (bd_seen d) bid = Some at \<and> t - at < dedupeTTL")
    case True
    then obtain at where at: "map_of (bd_seen d) bid = Some at" "t - at < dedupeTTL" by blast
    then have "Seen t bid d = (True, d)" using False by (simp add: Seen_def dedupe_ttl)
    with False at show ?thesis by (rule dup)
  next
    case no: False
    then have "\<not> (case map_of (bd_seen d) bid of Some at \<Rightarrow> time_sub t at < dedupeTTL | None \<Rightarrow> False)"
      by (auto simp: dedupe_ttl split: option.split)
    then have "Seen t bid d = (False, \<lparr>bd_seen = AList.update bid t
        (if length (bd_seen d) \<ge> maxDedupeEntries then evictLocked t (bd_seen d) else bd_seen d)\<rparr>)"
      using False by (cases d) (simp add: Seen_def Let_def)
    from new[OF False _ refl this] no show ?thesis by blast
  qed
qed (auto simp: Seen_def intro: blank)

lemma mem_update: "bd_mem \<lparr>bd_seen = AList.update k t xs\<rparr> = insert (k, t) {(k', at). map_of xs k' = Some at \<and> k' \<noteq> k}"
  by (auto simp: bd_mem_def update_conv' split: if_split_asm)

interpretation dedupe: exact_retry_memory Seen bd_mem bd_ok maxDedupeEntries
proof unfold_locales
  fix t bid d d'
  show "bd_ok d \<Longrightarrow> bd_ok (snd (Seen t bid d))"
    by (cases rule: Seen_cases[of bid t d]) (simp_all add: bd_ok_def distinct_update evict_distinct)
  show "Seen t bid d = (True, d') \<Longrightarrow> bid \<noteq> [] \<and> d' = d \<and> (\<exists>at. (bid, at) \<in> bd_mem d \<and> t - at < dedupeTTL)"
    by (cases rule: Seen_cases[of bid t d]) (auto simp: bd_mem_def)
  show "bd_mem d' \<subseteq> insert (bid, t) (bd_mem d)" if "bd_ok d" "Seen t bid d = (False, d')"
  proof (cases rule: Seen_cases[of bid t d])
    case (new seen)
    have "map_of (bd_seen d) k = Some at" if "map_of seen k = Some at" for k at
      using that new(3) map_of_evict[of "bd_seen d" t k at] \<open>bd_ok d\<close>
      by (simp add: bd_ok_def del: map_of_eq_Some_iff split: if_split_asm)
    moreover have "bd_mem d' = insert (bid, t) {(k, at). map_of seen k = Some at \<and> k \<noteq> bid}"
      using new(4) that(2) by (simp add: mem_update)
    ultimately show ?thesis unfolding bd_mem_def by blast
  qed (use that in auto)
  show "fst (Seen t bid d)" if "bd_ok d" "bid \<noteq> []" "(bid, at) \<in> bd_mem d" "t - at < dedupeTTL" for at
    using that by (cases rule: Seen_cases[of bid t d]) (auto simp: bd_mem_def)
  show "bd_mem d' = insert (bid, t) {(k, at) \<in> bd_mem d. k \<noteq> bid}"
    if "card (fst ` bd_mem d) < maxDedupeEntries" "bd_ok d" "bid \<noteq> []" "Seen t bid d = (False, d')"
  proof -
    have "fst ` bd_mem d = fst ` set (bd_seen d)"
      using dom_map_of_conv_image_fst[of "bd_seen d"] by (auto simp: bd_mem_def dom_def image_def)
    then have "length (bd_seen d) < maxDedupeEntries"
      using that(1,2) distinct_card[of "map fst (bd_seen d)"] by (simp add: bd_ok_def)
    with that show ?thesis
      by (cases rule: Seen_cases[of bid t d]) (auto simp: mem_update, auto simp: bd_mem_def)
  qed
  show "Seen t [] d = (False, d)" by (simp add: Seen_def)
qed

lemma bd_mem_finite: "finite (bd_mem d)" and card_bd_mem: "card (fst ` bd_mem d) \<le> length (bd_seen d)"
proof -
  have sub: "bd_mem d \<subseteq> set (bd_seen d)" by (auto simp: bd_mem_def dest: map_of_SomeD)
  then show "finite (bd_mem d)" by (rule finite_subset) simp
  have "card (fst ` bd_mem d) \<le> card (set (map fst (bd_seen d)))" using sub by (intro card_mono) auto
  then show "card (fst ` bd_mem d) \<le> length (bd_seen d)" using card_length[of "map fst (bd_seen d)"] by simp
qed

section \<open>Properties\<close>

lemma run_calls_deduper_ok:
  assumes "deduper_ok t0 d" "sorted (t0 # map fst cs)"
  shows "deduper_ok (last (t0 # map fst cs)) (snd (run_calls Seen cs d))"
  using assms
proof (induction cs arbitrary: t0 d)
  case (Cons c cs)
  obtain t bid where c: "c = (t, bid)" by (cases c)
  have "deduper_ok t (snd (Seen t bid d))"
    using Cons.prems by (intro Seen_deduper_ok[of t0]) (auto simp: c)
  from Cons.IH[OF this] Cons.prems(2) show ?case
    by (simp add: c run_calls_state del: run_calls.simps)
qed simp

text \<open>The memory of batch IDs is bounded: as long as the clock does not run backwards, no
  sequence of calls leaves more than \<open>maxDedupeEntries\<close> entries, each ID has one entry, and none
  is in the future.  (Eviction always frees a slot: the cut-off never exceeds the oldest age.)\<close>

theorem dedupe_bounded:
  assumes "sorted (t0 # map fst cs)"
  shows "deduper_ok (last (t0 # map fst cs)) (snd (run_calls Seen cs newBatchDeduper))"
  by (rule run_calls_deduper_ok[OF _ assms]) (simp add: deduper_ok_def newBatchDeduper_def)

theorem dedupe_bounded_witness:
  "sorted (0 # map fst [(1 :: int, ''a''), (2, ''b''), (2, ''a'')]) \<and>
   length (bd_seen (snd (run_calls Seen [(1, ''a''), (2, ''b''), (2, ''a'')] newBatchDeduper))) \<le> maxDedupeEntries"
  using dedupe_bounded[of 0 "[(1, ''a''), (2, ''b''), (2, ''a'')]"] by (simp add: deduper_ok_def)

text \<open>C38. The bounded memory answers like the unbounded one: while fewer than
  \<open>maxDedupeEntries\<close> different IDs occur, a call reports a duplicate exactly when the same
  non-empty ID was let through less than ten minutes before.\<close>

theorem dedupe_exact:
  assumes "sorted (map fst cs)" "card (snd ` set cs) < maxDedupeEntries"
  shows "fst (run_calls Seen cs newBatchDeduper) = ref_calls [] cs"
  using assms by (intro dedupe.calls_eq_ref)
    (simp_all add: dedupe.covers_def bd_ok_def bd_mem_def newBatchDeduper_def)

theorem dedupe_exact_witness:
  "fst (run_calls Seen [(0, ''a''), (5, ''b''), (7, ''a''), (600000000007, ''a''), (600000000008, [])] newBatchDeduper)
   = ref_calls [] [(0, ''a''), (5, ''b''), (7, ''a''), (600000000007, ''a''), (600000000008, [])] \<and>
   ref_calls [] [(0, ''a''), (5, ''b''), (7, ''a''), (600000000007, ''a''), (600000000008, [])]
   = [False, False, True, False, False]"
  using dedupe_exact[of "[(0, ''a''), (5, ''b''), (7, ''a''), (600000000007, ''a''), (600000000008, [])]"]
  by (simp add: maxDedupeEntries_def dedupeTTL_def duration_defs card_insert_if)

end
