(* ===== verification/Ingest.thy ===== *)
theory Ingest
  imports Wal Store Dedupe Admission
begin

text \<open>
  \<^verbatim>\<open>src/internal/ingest/ingest.go\<close>: the queue between the ingest paths and the store, its
  write-ahead log, the batch writer and crash recovery.  The goroutines are the steps of a
  transition system: an \<^verbatim>\<open>Enqueue\<close> (serialised by its mutex), one receive of the batch writer, a
  tick, and a crash followed by a restart.  The outcome of every system call and of every store
  write is an argument.  \<^verbatim>\<open>json.Marshal\<close> and \<^verbatim>\<open>json.Unmarshal\<close> of an event are the
  fields of a \<open>codec\<close>, the transform pipelines a function on events.
\<close>

section \<open>The ingestor\<close>

record codec =
  cd_enc :: "logevent \<Rightarrow> byte list option"
  cd_dec :: "byte list \<Rightarrow> logevent option"

record Options =
  op_buffer :: int
  op_batch :: int
  op_flush :: duration
  op_max_body :: int
  op_max_line :: int

definition defaultMaxBodyBytes :: int where "defaultMaxBodyBytes = 32 * 2 ^ 20"
definition defaultMaxLineBytes :: int where "defaultMaxLineBytes = 2 ^ 20"

definition withDefaults :: "Options \<Rightarrow> Options" where
  "withDefaults p = \<lparr>
     op_buffer = (if op_buffer p \<le> 0 then 10000 else op_buffer p),
     op_batch = (if op_batch p \<le> 0 then 500 else op_batch p),
     op_flush = (if op_flush p \<le> 0 then 500 * millisecond else op_flush p),
     op_max_body = (if op_max_body p \<le> 0 then defaultMaxBodyBytes else op_max_body p),
     op_max_line = (if op_max_line p \<le> 0 then defaultMaxLineBytes else op_max_line p)\<rparr>"

record Ingestor =
  ig_opts :: Options
  ig_log :: "(wal \<times> fs) option"
  ig_limiter :: Limiter
  ig_dedupe :: batchDeduper
  ig_ch :: "(logevent \<times> nat) list"
  ig_closed :: bool
  ig_stalled :: bool
  ig_received :: int
  ig_written :: int
  ig_dropped :: int
  ig_rejected :: int
  ig_duplicates :: int

definition no_limits :: Limits where
  "no_limits = \<lparr>lm_rate = 0, lm_burst = 0, lm_daily_events = 0, lm_daily_bytes = 0\<rparr>"

definition new_ingestor :: "Options \<Rightarrow> Limiter option \<Rightarrow> (wal \<times> fs) option \<Rightarrow> Ingestor" where
  "new_ingestor opts limr lg = \<lparr>ig_opts = withDefaults opts, ig_log = lg,
     ig_limiter = (case limr of Some l \<Rightarrow> l | None \<Rightarrow> new_limiter no_limits),
     ig_dedupe = newBatchDeduper, ig_ch = [], ig_closed = False, ig_stalled = False,
     ig_received = 0, ig_written = 0, ig_dropped = 0, ig_rejected = 0, ig_duplicates = 0\<rparr>"

text \<open>The batch writer's own variables.\<close>

record batch_writer =
  bw_batch :: "logevent list"
  bw_max :: nat

definition new_writer :: batch_writer where
  "new_writer = \<lparr>bw_batch = [], bw_max = 0\<rparr>"

section \<open>Operations\<close>

definition drop_event :: "Ingestor \<Rightarrow> Ingestor" where
  "drop_event i = i\<lparr>ig_dropped := ig_dropped i + 1\<rparr>"

definition queue_event :: "logevent \<Rightarrow> nat \<Rightarrow> Ingestor \<Rightarrow> Ingestor" where
  "queue_event e seq i = i\<lparr>ig_ch := ig_ch i @ [(e, seq)], ig_received := ig_received i + 1\<rparr>"

definition Enqueue :: "codec \<Rightarrow> (logevent \<Rightarrow> logevent) \<Rightarrow> append_io \<Rightarrow> logevent \<Rightarrow> Ingestor \<Rightarrow> bool \<times> Ingestor" where
  "Enqueue cd pipe aio e0 i =
     (let e = pipe e0
      in if ig_closed i \<or> int (length (ig_ch i)) \<ge> op_buffer (ig_opts i) then (False, drop_event i)
         else case ig_log i of
             None \<Rightarrow> (True, queue_event e 0 i)
           | Some (w, d) \<Rightarrow> (case cd_enc cd e of
               None \<Rightarrow> (False, drop_event i)
             | Some payload \<Rightarrow> (case Wal.Append aio w d payload of
                 (Inl err, w', d') \<Rightarrow> (False, drop_event (i\<lparr>ig_log := Some (w', d')\<rparr>))
               | (Inr seq, w', d') \<Rightarrow> (True, queue_event e seq (i\<lparr>ig_log := Some (w', d')\<rparr>)))))"

text \<open>The outcomes one batch write depends on.\<close>

record write_io =
  wi_sync :: bool
  wi_store :: store_io
  wi_cp_write :: bool
  wi_cp_rename :: bool
  wi_remove :: "string \<Rightarrow> bool"

text \<open>\<^verbatim>\<open>writeBatch\<close>; the last component is what it publishes to the live-tail hub.\<close>

definition writeBatch :: "write_io \<Rightarrow> logevent list \<Rightarrow> nat \<Rightarrow> Ingestor \<Rightarrow> db \<Rightarrow> Ingestor \<times> db \<times> logevent list" where
  "writeBatch io batch maxSeq i0 db =
     (let i = (if ig_log i0 \<noteq> None \<and> \<not> wi_sync io then i0\<lparr>ig_stalled := True\<rparr> else i0)
      in case db_append (wi_store io) batch db of
          (False, db') \<Rightarrow> (i\<lparr>ig_stalled := True\<rparr>, db', [])
        | (True, db') \<Rightarrow>
            (let i1 = i\<lparr>ig_written := ig_written i + int (length batch)\<rparr>
             in (case ig_log i1 of
                   None \<Rightarrow> i1
                 | Some (w, d) \<Rightarrow>
                     if maxSeq > 0 \<and> \<not> ig_stalled i1
                     then (case SetCheckpoint (wi_cp_write io) (wi_cp_rename io) (wi_remove io) w d maxSeq of
                             (ok, w', d') \<Rightarrow> i1\<lparr>ig_log := Some (w', d'), ig_stalled := \<not> ok\<rparr>)
                     else i1, db', batch)))"

definition flush :: "write_io \<Rightarrow> batch_writer \<Rightarrow> Ingestor \<Rightarrow> db \<Rightarrow> batch_writer \<times> Ingestor \<times> db \<times> logevent list" where
  "flush io wr i db =
     (if bw_batch wr = [] then (wr, i, db, [])
      else case writeBatch io (bw_batch wr) (bw_max wr) i db of
             (i', db', pub) \<Rightarrow> (new_writer, i', db', pub))"

text \<open>One turn of the loop of \<^verbatim>\<open>run\<close>: a receive from the non-empty queue.\<close>

definition run_receive :: "write_io \<Rightarrow> batch_writer \<Rightarrow> Ingestor \<Rightarrow> db \<Rightarrow> batch_writer \<times> Ingestor \<times> db \<times> logevent list" where
  "run_receive io wr i db =
     (case ig_ch i of
        [] \<Rightarrow> (wr, i, db, [])
      | (e, seq) # q \<Rightarrow>
          (let wr' = \<lparr>bw_batch = bw_batch wr @ [e], bw_max = (if seq > bw_max wr then seq else bw_max wr)\<rparr>;
               i' = i\<lparr>ig_ch := q\<rparr>
           in if int (length (bw_batch wr')) \<ge> op_batch (ig_opts i) then flush io wr' i' db
              else (wr', i', db, [])))"

lemma writeBatch_ch: "ig_ch (fst (writeBatch io b m i db)) = ig_ch i"
  by (auto simp: writeBatch_def Let_def split: prod.split bool.split option.split)

lemma flush_ch: "ig_ch (fst (snd (flush io wr i db))) = ig_ch i"
  using writeBatch_ch[of io "bw_batch wr" "bw_max wr" i db] by (auto simp: flush_def split: prod.split)

lemma run_receive_ch: "ig_ch (fst (snd (run_receive io wr i db))) = tl (ig_ch i)"
  by (auto simp: run_receive_def Let_def flush_ch split: list.split prod.split)

text \<open>
  After \<^verbatim>\<open>Stop\<close> has closed the queue the loop drains it and writes the remainder; the ticks of
  the timer in between are \<open>flush\<close> steps of their own.  \<open>io n\<close> are the outcomes of the turn with
  \<open>n\<close> events left.
\<close>

definition Stop :: "Ingestor \<Rightarrow> Ingestor" where
  "Stop i = (if ig_closed i then i else i\<lparr>ig_closed := True\<rparr>)"

function drain :: "(nat \<Rightarrow> write_io) \<Rightarrow> batch_writer \<Rightarrow> Ingestor \<Rightarrow> db \<Rightarrow> batch_writer \<times> Ingestor \<times> db \<times> logevent list" where
  "drain io wr i db =
     (if ig_ch i = [] then flush (io 0) wr i db
      else case run_receive (io (length (ig_ch i))) wr i db of
             (wr', i', db', pub) \<Rightarrow> (case drain io wr' i' db' of (wr2, i2, db2, pub2) \<Rightarrow> (wr2, i2, db2, pub @ pub2)))"
  by pat_completeness auto

termination
proof (relation "measure (\<lambda>(_, _, i, _). length (ig_ch i))")
  fix io :: "nat \<Rightarrow> write_io" and wr i db x y xa ya xb yb
  assume ne: "ig_ch i \<noteq> []" and "(x, y) = run_receive (io (length (ig_ch i))) wr i db" "(xa, ya) = y" "(xb, yb) = ya"
  then have "run_receive (io (length (ig_ch i))) wr i db = (x, xa, xb, yb)" by simp
  then have "ig_ch xa = tl (ig_ch i)" using run_receive_ch[of "io (length (ig_ch i))" wr i db] by simp
  then show "((io, x, xa, xb), io, wr, i, db) \<in> measure (\<lambda>(_, _, i, _). length (ig_ch i))"
    using ne by simp
qed simp

declare drain.simps [simp del]

text \<open>The callback of \<^verbatim>\<open>Recover\<close>: batch, highest sequence number, count and the store.\<close>

record recovery =
  rv_batch :: "logevent list"
  rv_max :: nat
  rv_count :: nat
  rv_db :: db

definition recover_flush :: "(nat \<Rightarrow> store_io) \<Rightarrow> recovery \<Rightarrow> recovery + recovery" where
  "recover_flush sio s =
     (if rv_batch s = [] then Inr s
      else case db_append (sio (rv_count s)) (rv_batch s) (rv_db s) of
             (False, db') \<Rightarrow> Inl (s\<lparr>rv_db := db'\<rparr>)
           | (True, db') \<Rightarrow> Inr (s\<lparr>rv_batch := [], rv_db := db'\<rparr>))"

definition recover_visit :: "codec \<Rightarrow> (nat \<Rightarrow> store_io) \<Rightarrow> int \<Rightarrow> nat \<Rightarrow> byte list \<Rightarrow> recovery \<Rightarrow> recovery + recovery" where
  "recover_visit cd sio batch_size seq payload s =
     (case cd_dec cd payload of
        None \<Rightarrow> Inr s
      | Some e \<Rightarrow>
          (let s' = s\<lparr>rv_batch := rv_batch s @ [e], rv_max := seq, rv_count := rv_count s + 1\<rparr>
           in if int (length (rv_batch s')) \<ge> batch_size then recover_flush sio s' else Inr s'))"

text \<open>\<^verbatim>\<open>Recover\<close>: the error flag, the count, the ingestor and the store.\<close>

definition Recover :: "codec \<Rightarrow> (nat \<Rightarrow> store_io) \<Rightarrow> write_io \<Rightarrow> Ingestor \<Rightarrow> db \<Rightarrow> bool \<times> nat \<times> Ingestor \<times> db" where
  "Recover cd sio io i db =
     (case ig_log i of
        None \<Rightarrow> (True, 0, i, db)
      | Some (w, d) \<Rightarrow>
          (case try_bind (Replay (recover_visit cd sio (op_batch (ig_opts i))) w d
                   \<lparr>rv_batch = [], rv_max = 0, rv_count = 0, rv_db = db\<rparr>) (recover_flush sio) of
             Inl s \<Rightarrow> (False, rv_count s, i, rv_db s)
           | Inr s \<Rightarrow>
               if rv_max s > 0
               then (case SetCheckpoint (wi_cp_write io) (wi_cp_rename io) (wi_remove io) w d (rv_max s) of
                       (ok, w', d') \<Rightarrow> (ok, rv_count s, i\<lparr>ig_log := Some (w', d')\<rparr>, rv_db s))
               else (True, rv_count s, i, rv_db s)))"

definition recordUsage :: "time \<Rightarrow> string \<Rightarrow> nat \<Rightarrow> int \<Rightarrow> Ingestor \<Rightarrow> Ingestor" where
  "recordUsage now key accepted bytes i =
     i\<lparr>ig_limiter := Record now key (int accepted) bytes (ig_limiter i)\<rparr>"

record Metrics =
  mt_received :: int
  mt_written :: int
  mt_dropped :: int
  mt_rejected :: int
  mt_queued :: int
  mt_duplicates :: int

definition Ingestor_Metrics :: "Ingestor \<Rightarrow> Metrics" where
  "Ingestor_Metrics i = \<lparr>mt_received = ig_received i, mt_written = ig_written i, mt_dropped = ig_dropped i,
     mt_rejected = ig_rejected i, mt_queued = int (length (ig_ch i)), mt_duplicates = ig_duplicates i\<rparr>"

section \<open>The whole system and its runs\<close>

text \<open>
  The state: the ingestor, the batch writer's variables, the store, and as a ghost the IDs of the
  events that \<^verbatim>\<open>Enqueue\<close> accepted.  A crash tears at most a half-written record
  (\<open>crash_files\<close>); the restart opens the directory and recovers.  A restart that fails leaves the
  process down; only another restart can follow.
\<close>

record ingest_sys =
  sy_ig :: Ingestor
  sy_wr :: batch_writer
  sy_db :: db
  sy_up :: bool
  sy_acked :: "string set"

definition sys_enqueue :: "codec \<Rightarrow> (logevent \<Rightarrow> logevent) \<Rightarrow> append_io \<Rightarrow> logevent \<Rightarrow> ingest_sys \<Rightarrow> ingest_sys" where
  "sys_enqueue cd pipe aio e s =
     (case Enqueue cd pipe aio e (sy_ig s) of
        (ok, i) \<Rightarrow> s\<lparr>sy_ig := i, sy_acked := (if ok then insert (ev_id (pipe e)) (sy_acked s) else sy_acked s)\<rparr>)"

definition sys_write :: "batch_writer \<times> Ingestor \<times> db \<times> logevent list \<Rightarrow> ingest_sys \<Rightarrow> ingest_sys" where
  "sys_write r s = (case r of (wr, i, db, _) \<Rightarrow> s\<lparr>sy_ig := i, sy_wr := wr, sy_db := db\<rparr>)"

definition restarted :: "Options \<Rightarrow> wal \<Rightarrow> fs \<Rightarrow> Ingestor" where
  "restarted opts w d = new_ingestor opts None (Some (w, d))"

inductive ingest_step :: "codec \<Rightarrow> ingest_sys \<Rightarrow> ingest_sys \<Rightarrow> bool" for cd where
  accept: "sy_up s \<Longrightarrow> ai_truncate aio \<Longrightarrow>
     (\<And>w d p. ig_log (sy_ig s) = Some (w, d) \<Longrightarrow> cd_enc cd (pipe e) = Some p \<Longrightarrow> fits (w_next_seq w, p)) \<Longrightarrow>
     ingest_step cd s (sys_enqueue cd pipe aio e s)"
| receive: "sy_up s \<Longrightarrow> ingest_step cd s (sys_write (run_receive io (sy_wr s) (sy_ig s) (sy_db s)) s)"
| tick: "sy_up s \<Longrightarrow> ingest_step cd s (sys_write (flush io (sy_wr s) (sy_ig s) (sy_db s)) s)"
| close: "sy_up s \<Longrightarrow> ingest_step cd s (s\<lparr>sy_ig := Stop (sy_ig s)\<rparr>)"
| crash: "ig_log (sy_ig s) = Some (w, d) \<Longrightarrow> fits (w_next_seq w, p) \<Longrightarrow> k < headerSize + length p \<Longrightarrow>
     Open good_open True mx sync (crash_files w d p k) = Inr (w', d') \<Longrightarrow>
     Recover cd sio io (restarted opts w' d') (sy_db s) = (ok, n, i', db') \<Longrightarrow>
     ingest_step cd s (s\<lparr>sy_ig := i', sy_wr := new_writer, sy_db := db', sy_up := ok\<rparr>)"

inductive_cases ingest_stepE: "ingest_step cd s s'"

abbreviation ingest_steps :: "codec \<Rightarrow> ingest_sys \<Rightarrow> ingest_sys \<Rightarrow> bool" where
  "ingest_steps cd \<equiv> (ingest_step cd)\<^sup>*\<^sup>*"

section \<open>The invariant\<close>

text \<open>Unmarshalling what was marshalled gives back an event with the same ID.\<close>

definition codec_ok :: "codec \<Rightarrow> bool" where
  "codec_ok cd \<longleftrightarrow> (\<forall>e p. cd_enc cd e = Some p \<longrightarrow> (\<exists>e'. cd_dec cd p = Some e' \<and> ev_id e' = ev_id e))"

text \<open>A record of the log is safe to forget: its event is in the store, or still on its way there.\<close>

definition in_flight :: "Ingestor \<Rightarrow> batch_writer \<Rightarrow> nat \<Rightarrow> string \<Rightarrow> bool" where
  "in_flight i wr q k \<longleftrightarrow> (q \<le> bw_max wr \<and> k \<in> ev_id ` set (bw_batch wr)) \<or> (\<exists>e. (e, q) \<in> set (ig_ch i) \<and> ev_id e = k)"

definition covered :: "codec \<Rightarrow> Ingestor \<Rightarrow> batch_writer \<Rightarrow> db \<Rightarrow> (nat \<times> byte list) list \<Rightarrow> bool" where
  "covered cd i wr db ps \<longleftrightarrow> (\<forall>(q, p) \<in> set ps. \<forall>e. cd_dec cd p = Some e \<longrightarrow> has_event db (ev_id e) \<or> in_flight i wr q (ev_id e))"

text \<open>Every accepted event is in the store or in a pending record of the log.\<close>

definition recoverable :: "codec \<Rightarrow> db \<Rightarrow> (nat \<times> byte list) list \<Rightarrow> string \<Rightarrow> bool" where
  "recoverable cd db ps k \<longleftrightarrow> has_event db k \<or> (\<exists>(q, p) \<in> set ps. \<exists>e. cd_dec cd p = Some e \<and> ev_id e = k)"

definition queue_ok :: "Ingestor \<Rightarrow> batch_writer \<Rightarrow> nat \<Rightarrow> bool" where
  "queue_ok i wr n \<longleftrightarrow> sorted_wrt (<) (map snd (ig_ch i)) \<and> (\<forall>(e, q) \<in> set (ig_ch i). bw_max wr < q \<and> q < n) \<and> bw_max wr < n"

definition ingest_inv :: "codec \<Rightarrow> Ingestor \<Rightarrow> batch_writer \<Rightarrow> db \<Rightarrow> string set \<Rightarrow> wal \<Rightarrow> fs \<Rightarrow> bool" where
  "ingest_inv cd i wr db acked w d \<longleftrightarrow>
     ig_log i = Some (w, d) \<and> wal_ok (w, d) \<and> w_next_seq w \<le> 2 ^ 64 \<and> db_ok db \<and>
     queue_ok i wr (w_next_seq w) \<and>
     (\<not> ig_stalled i \<longrightarrow> covered cd i wr db (pending w d)) \<and>
     (\<forall>k \<in> acked. recoverable cd db (pending w d) k)"

lemma Enqueue_inv:
  assumes cd: "codec_ok cd" and inv: "ingest_inv cd i wr db A w d" and tr: "ai_truncate aio"
    and fit: "\<And>p. cd_enc cd (pipe e) = Some p \<Longrightarrow> fits (w_next_seq w, p)"
    and en: "Enqueue cd pipe aio e i = (ok, i')"
  shows "\<exists>w' d'. ingest_inv cd i' wr db (if ok then insert (ev_id (pipe e)) A else A) w' d'"
proof -
  have lg: "ig_log i = Some (w, d)" and wok: "wal_ok (w, d)" and q: "queue_ok i wr (w_next_seq w)"
    using inv by (auto simp: ingest_inv_def)
  consider (full) "ok = False" "i' = drop_event i"
    | (failed) p err w' d' where "cd_enc cd (pipe e) = Some p" "Wal.Append aio w d p = (Inl err, w', d')"
        "ok = False" "i' = drop_event (i\<lparr>ig_log := Some (w', d')\<rparr>)"
    | (added) p seq w' d' where "cd_enc cd (pipe e) = Some p" "Wal.Append aio w d p = (Inr seq, w', d')"
        "ok = True" "i' = queue_event (pipe e) seq (i\<lparr>ig_log := Some (w', d')\<rparr>)"
    using en lg by (auto simp: Enqueue_def Let_def split: if_split_asm option.split_asm prod.split_asm sum.split_asm)
  then show ?thesis
  proof cases
    case full
    then have "ingest_inv cd i' wr db A w d"
      using inv by (simp add: ingest_inv_def drop_event_def queue_ok_def covered_def in_flight_def)
    then show ?thesis using full by auto
  next
    case failed
    then have "wal_ok (w', d') \<and> pending w' d' = pending w d \<and> w_next_seq w' = w_next_seq w"
      using Append_ok[OF wok fit tr, of p] by simp
    then have "ingest_inv cd i' wr db A w' d'"
      using inv failed by (simp add: ingest_inv_def drop_event_def queue_ok_def covered_def in_flight_def)
    then show ?thesis using failed by auto
  next
    case added
    then have ap: "wal_ok (w', d')" "pending w' d' = pending w d @ [(seq, p)]" "seq = w_next_seq w"
        "w_next_seq w' = Suc (w_next_seq w)" and lim64: "w_next_seq w < 2 ^ 64"
      using Append_ok[OF wok fit tr, of p] fit[of p] by (simp_all add: fits_def)
    obtain e' where e': "cd_dec cd p = Some e'" "ev_id e' = ev_id (pipe e)"
      using cd added(1) unfolding codec_ok_def by blast
    have "queue_ok i' wr (w_next_seq w')"
      using q ap(3,4) added(4) by (fastforce simp: queue_ok_def queue_event_def sorted_wrt_append)
    moreover have "covered cd i' wr db (pending w' d')" if "\<not> ig_stalled i'"
      using inv that e' added(4) by (auto simp: ingest_inv_def covered_def in_flight_def queue_event_def ap(2)) blast+
    moreover have "recoverable cd db (pending w' d') k" if "k \<in> insert (ev_id (pipe e)) A" for k
      using inv that e' by (auto simp: ingest_inv_def recoverable_def ap(2))
    ultimately have "ingest_inv cd i' wr db (insert (ev_id (pipe e)) A) w' d'"
      using inv ap(1,4) lim64 added(4) by (simp add: ingest_inv_def queue_event_def)
    then show ?thesis using added(3) by auto
  qed
qed
lemma recoverable_mono:
  "recoverable cd db ps k \<Longrightarrow> (has_event db k \<Longrightarrow> has_event db' k) \<Longrightarrow> recoverable cd db' ps k"
  by (auto simp: recoverable_def)

lemma covered_written:
  assumes "covered cd i wr db ps" "\<And>k. has_event db k \<Longrightarrow> has_event db' k"
    "\<And>e. e \<in> set (bw_batch wr) \<Longrightarrow> has_event db' (ev_id e)" "ig_ch i' = ig_ch i" "set ps' \<subseteq> set ps"
  shows "covered cd i' new_writer db' ps'"
  using assms unfolding covered_def in_flight_def new_writer_def by fastforce

text \<open>A checkpoint at the writer's highest number forgets only records whose events are stored.\<close>

lemma recoverable_checkpoint:
  assumes cov: "covered cd i wr db ps" and q: "queue_ok i wr n" and rec: "recoverable cd db ps k"
    and keep: "\<And>k. has_event db k \<Longrightarrow> has_event db' k"
    and new: "\<And>e. e \<in> set (bw_batch wr) \<Longrightarrow> has_event db' (ev_id e)"
  shows "recoverable cd db' (filter (\<lambda>(q, _). bw_max wr < q) ps) k"
proof (cases "has_event db k")
  case True
  then show ?thesis using keep by (simp add: recoverable_def)
next
  case False
  then obtain x p e where p: "(x, p) \<in> set ps" "cd_dec cd p = Some e" "ev_id e = k"
    using rec by (auto simp: recoverable_def)
  show ?thesis
  proof (cases "bw_max wr < x")
    case True
    then show ?thesis using p by (force simp: recoverable_def)
  next
    case low: False
    have "in_flight i wr x k" using cov p False by (auto simp: covered_def)
    moreover have "(e', x) \<notin> set (ig_ch i)" for e' using q low by (auto simp: queue_ok_def)
    ultimately have "k \<in> ev_id ` set (bw_batch wr)" by (auto simp: in_flight_def)
    then show ?thesis using new by (auto simp: recoverable_def)
  qed
qed

lemma flush_inv:
  assumes inv: "ingest_inv cd i wr db A w d" and fl: "flush io wr i db = (wr', i', db', pub)"
  shows "\<exists>w' d'. ingest_inv cd i' wr' db' A w' d'"
proof (cases "bw_batch wr = []")
  case True
  then show ?thesis using inv fl by (auto simp: flush_def)
next
  case ne: False
  have lg: "ig_log i = Some (w, d)" and wok: "wal_ok (w, d)" and q: "queue_ok i wr (w_next_seq w)"
      and dok: "db_ok db" and n64: "w_next_seq w \<le> 2 ^ 64"
    using inv by (auto simp: ingest_inv_def)
  obtain r db1 where ap: "db_append (wi_store io) (bw_batch wr) db = (r, db1)"
    by (cases "db_append (wi_store io) (bw_batch wr) db")
  have dok1: "db_ok db1" using sqlite.ok_law[OF dok, of "wi_store io" "bw_batch wr"] ap by simp
  have keep: "has_event db k \<Longrightarrow> has_event db1 k" for k
    using sqlite.keep_law[OF dok, of k "wi_store io" "bw_batch wr"] ap by simp
  have rec: "recoverable cd db1 (pending w d) k" if "k \<in> A" for k
    using inv that keep recoverable_mono[of cd db "pending w d" k db1] by (auto simp: ingest_inv_def)
  have q': "queue_ok i'' new_writer (w_next_seq w)" if "ig_ch i'' = ig_ch i" for i''
    using q that by (force simp: queue_ok_def new_writer_def)
  have stuck: "ingest_inv cd i'' new_writer db1 A w d"
    if "ig_ch i'' = ig_ch i" "ig_log i'' = Some (w, d)"
       "\<not> ig_stalled i'' \<Longrightarrow> covered cd i'' new_writer db1 (pending w d)" for i''
    using that wok n64 dok1 rec q' by (simp add: ingest_inv_def)
  define i0 where "i0 = (if ig_log i \<noteq> None \<and> \<not> wi_sync io then i\<lparr>ig_stalled := True\<rparr> else i)"
  have i0: "ig_ch i0 = ig_ch i" "ig_log i0 = Some (w, d)" "\<not> ig_stalled i0 \<Longrightarrow> \<not> ig_stalled i"
    using lg by (auto simp: i0_def split: if_split_asm)
  show ?thesis
  proof (cases r)
    case False
    then have "wr' = new_writer" "i' = i0\<lparr>ig_stalled := True\<rparr>" "db' = db1"
      using fl ne ap lg by (auto simp: flush_def writeBatch_def i0_def Let_def)
    moreover have "ingest_inv cd (i0\<lparr>ig_stalled := True\<rparr>) new_writer db1 A w d" by (rule stuck) (simp_all add: i0)
    ultimately show ?thesis by blast
  next
    case True
    have new: "has_event db1 (ev_id e)" if "e \<in> set (bw_batch wr)" for e
      using sqlite.held_law[OF dok, of "wi_store io" "bw_batch wr" db1 e] ap True that by simp
    have cov: "covered cd i'' new_writer db1 ps" if "\<not> ig_stalled i" "ig_ch i'' = ig_ch i" "set ps \<subseteq> set (pending w d)" for i'' ps
      using inv that keep new covered_written[of cd i wr db "pending w d" db1 i'' ps] by (auto simp: ingest_inv_def)
    define i1 where "i1 = i0\<lparr>ig_written := ig_written i0 + int (length (bw_batch wr))\<rparr>"
    have i1: "ig_ch i1 = ig_ch i" "ig_log i1 = Some (w, d)" "\<not> ig_stalled i1 \<Longrightarrow> \<not> ig_stalled i"
      using i0 by (simp_all add: i1_def)
    show ?thesis
    proof (cases "bw_max wr > 0 \<and> \<not> ig_stalled i1")
      case no: False
      then have "wr' = new_writer" "i' = i1" "db' = db1"
        using fl ne ap True no lg unfolding i1_def i0_def by (auto simp: flush_def writeBatch_def Let_def split: if_split_asm)
      moreover have "ingest_inv cd i1 new_writer db1 A w d" by (rule stuck) (use i1 cov in auto)
      ultimately show ?thesis by blast
    next
      case cp: True
      obtain ok w2 d2 where sc: "SetCheckpoint (wi_cp_write io) (wi_cp_rename io) (wi_remove io) w d (bw_max wr) = (ok, w2, d2)"
        by (metis prod_cases3)
      let ?i = "i1\<lparr>ig_log := Some (w2, d2), ig_stalled := \<not> ok\<rparr>"
      have eq: "wr' = new_writer" "i' = ?i" "db' = db1"
        using fl ne ap True cp sc lg unfolding i1_def i0_def
        by (auto simp: flush_def writeBatch_def Let_def split: if_split_asm)
      have "bw_max wr < w_next_seq w" using q by (simp add: queue_ok_def)
      then have w2: "wal_ok (w2, d2)" "pending w2 d2 = filter (\<lambda>(q, _). bw_max wr < q) (pending w d)"
          "w_next_seq w2 = w_next_seq w"
        using SetCheckpoint_ok[OF wok, of "bw_max wr" "wi_cp_write io" "wi_cp_rename io" "wi_remove io"] n64 sc by auto
      have nst: "\<not> ig_stalled i" using cp i1(3) by blast
      have "recoverable cd db1 (pending w2 d2) k" if "k \<in> A" for k
        unfolding w2(2)
        by (rule recoverable_checkpoint[OF _ q _ keep new]) (use inv nst that in \<open>auto simp: ingest_inv_def\<close>)
      moreover have "covered cd ?i new_writer db1 (pending w2 d2)"
        by (rule cov[OF nst]) (auto simp: i1 w2(2))
      ultimately have "ingest_inv cd ?i new_writer db1 A w2 d2"
        using w2 dok1 n64 q'[of ?i] i1 by (cases ok) (simp_all add: ingest_inv_def)
      then show ?thesis using eq by blast
    qed
  qed
qed

lemma receive_inv:
  assumes inv: "ingest_inv cd i wr db A w d" and rc: "run_receive io wr i db = (wr', i', db', pub)"
  shows "\<exists>w' d'. ingest_inv cd i' wr' db' A w' d'"
proof (cases "ig_ch i")
  case Nil
  then show ?thesis using inv rc by (auto simp: run_receive_def)
next
  case (Cons x ch)
  obtain e q where x: "x = (e, q)" by (cases x)
  let ?wr = "\<lparr>bw_batch = bw_batch wr @ [e], bw_max = (if q > bw_max wr then q else bw_max wr)\<rparr>"
  let ?i = "i\<lparr>ig_ch := ch\<rparr>"
  have qok: "queue_ok i wr (w_next_seq w)" using inv by (simp add: ingest_inv_def)
  then have "queue_ok ?i ?wr (w_next_seq w)" using Cons x by (fastforce simp: queue_ok_def)
  moreover have "in_flight ?i ?wr y k" if "in_flight i wr y k" for y k
    using that Cons x qok by (fastforce simp: in_flight_def queue_ok_def)
  then have "covered cd ?i ?wr db ps" if "covered cd i wr db ps" for ps
    using that by (fastforce simp: covered_def)
  ultimately have inv': "ingest_inv cd ?i ?wr db A w d" using inv by (simp add: ingest_inv_def)
  show ?thesis
  proof (cases "int (length (bw_batch ?wr)) \<ge> op_batch (ig_opts i)")
    case True
    then have "flush io ?wr ?i db = (wr', i', db', pub)" using rc Cons x by (simp add: run_receive_def)
    then show ?thesis using flush_inv[OF inv'] by blast
  next
    case False
    then show ?thesis using rc Cons x inv' by (auto simp: run_receive_def)
  qed
qed
section \<open>Recovery\<close>

lemma pending_less:
  assumes "wal_ok (w, d)" "(q, p) \<in> set (pending w d)"
  shows "q < w_next_seq w"
proof -
  obtain left lrss rss where inv: "wal_inv w d left lrss rss"
      and pe: "pending w d = filter (\<lambda>(q, _). q > w_checkpoint w) (concat rss)"
    using assms(1) by (rule wal_okE)
  have "segs_chain (left @ w_segments w) (lrss @ rss) (w_next_seq w)" using inv by (simp add: wal_inv_def)
  then show ?thesis using segs_chain_less assms(2) unfolding pe by fastforce
qed

text \<open>After the records \<open>ps\<close> have been visited, their events are in the store or in the open batch.\<close>

definition recovering :: "codec \<Rightarrow> db \<Rightarrow> (nat \<times> byte list) list \<Rightarrow> recovery \<Rightarrow> bool" where
  "recovering cd db0 ps s \<longleftrightarrow> db_ok (rv_db s) \<and> (\<forall>k. has_event db0 k \<longrightarrow> has_event (rv_db s) k) \<and>
     (\<forall>(q, p) \<in> set ps. \<forall>e. cd_dec cd p = Some e \<longrightarrow> has_event (rv_db s) (ev_id e) \<or> e \<in> set (rv_batch s)) \<and>
     (rv_max s = 0 \<or> rv_max s \<in> fst ` set ps)"

text \<open>A failed recovery has lost nothing either.\<close>

fun recovered :: "codec \<Rightarrow> db \<Rightarrow> (nat \<times> byte list) list \<Rightarrow> recovery + recovery \<Rightarrow> bool" where
  "recovered cd db0 ps (Inr s) = recovering cd db0 ps s"
| "recovered cd db0 ps (Inl s) = (db_ok (rv_db s) \<and> (\<forall>k. has_event db0 k \<longrightarrow> has_event (rv_db s) k))"

lemma recover_flush_ok:
  assumes "recovering cd db0 ps s"
  shows "recovered cd db0 ps (recover_flush sio s) \<and> (\<forall>s'. recover_flush sio s = Inr s' \<longrightarrow> rv_batch s' = [])"
proof (cases "rv_batch s = []")
  case False
  have ok: "db_ok (rv_db s)" using assms by (simp add: recovering_def)
  obtain r db' where a: "db_append (sio (rv_count s)) (rv_batch s) (rv_db s) = (r, db')"
    by (cases "db_append (sio (rv_count s)) (rv_batch s) (rv_db s)")
  have ok': "db_ok db'" using sqlite.ok_law[OF ok, of "sio (rv_count s)" "rv_batch s"] a by simp
  have keep: "has_event (rv_db s) k \<Longrightarrow> has_event db' k" for k
    using sqlite.keep_law[OF ok, of k "sio (rv_count s)" "rv_batch s"] a by simp
  have new: "r \<Longrightarrow> e \<in> set (rv_batch s) \<Longrightarrow> has_event db' (ev_id e)" for e
    using sqlite.held_law[OF ok, of "sio (rv_count s)" "rv_batch s" db' e] a by simp
  show ?thesis
    using assms False a ok' keep new by (cases r) (fastforce simp: recover_flush_def recovering_def)+
qed (use assms in \<open>simp add: recover_flush_def\<close>)

lemma recover_visit_ok:
  assumes s: "recovering cd db0 ps s"
  shows "recovered cd db0 (ps @ [(seq, p)]) (recover_visit cd sio n seq p s)"
proof (cases "cd_dec cd p")
  case None
  then show ?thesis using s by (auto simp: recover_visit_def recovering_def)
next
  case (Some e)
  let ?s = "s\<lparr>rv_batch := rv_batch s @ [e], rv_max := seq, rv_count := rv_count s + 1\<rparr>"
  have "recovering cd db0 (ps @ [(seq, p)]) ?s" using s Some by (fastforce simp: recovering_def)
  then show ?thesis
    using recover_flush_ok[of cd db0 "ps @ [(seq, p)]" ?s sio] Some by (simp add: recover_visit_def Let_def)
qed

lemma replay_recovers:
  "recovering cd db0 ps s \<Longrightarrow> recovered cd db0 (ps @ rs) (replay_visit (recover_visit cd sio n) rs s)"
proof (induction rs arbitrary: ps s)
  case (Cons r rs)
  obtain seq p where r: "r = (seq, p)" by (cases r)
  have v: "recovered cd db0 (ps @ [(seq, p)]) (recover_visit cd sio n seq p s)" by (rule recover_visit_ok[OF Cons.prems])
  show ?case
  proof (cases "recover_visit cd sio n seq p s")
    case (Inr s')
    then have "recovering cd db0 (ps @ [(seq, p)]) s'" using v by simp
    from Cons.IH[OF this] show ?thesis using Inr by (simp add: r)
  qed (use v r in simp)
qed simp

lemma Recover_inv:
  assumes wok: "wal_ok (w, d)" and n64: "w_next_seq w \<le> 2 ^ 64" and dok: "db_ok db"
    and lg: "ig_log i = Some (w, d)" and rc: "Recover cd sio io i db = (ok, n, i', db')"
  obtains w' d' where "ig_log i' = Some (w', d')" "wal_ok (w', d')" "w_next_seq w' \<le> 2 ^ 64" "db_ok db'"
    "\<And>k. has_event db k \<Longrightarrow> has_event db' k" "ig_ch i' = ig_ch i" "ig_stalled i' = ig_stalled i"
    "set (pending w' d') \<subseteq> set (pending w d)" "0 < w_next_seq w'"
    "\<And>k. recoverable cd db (pending w d) k \<Longrightarrow> recoverable cd db' (pending w' d') k"
    "\<And>q p e. ok \<Longrightarrow> (q, p) \<in> set (pending w d) \<Longrightarrow> cd_dec cd p = Some e \<Longrightarrow> has_event db' (ev_id e)"
proof -
  let ?s0 = "\<lparr>rv_batch = [], rv_max = 0, rv_count = 0, rv_db = db\<rparr>" and ?ps = "pending w d"
  let ?run = "try_bind (Replay (recover_visit cd sio (op_batch (ig_opts i))) w d ?s0) (recover_flush sio)"
  have pos: "0 < w_next_seq w" using wok by (auto simp: wal_ok_def wal_inv_def)
  have "recovering cd db [] ?s0" using dok by (simp add: recovering_def)
  from replay_recovers[OF this, of ?ps sio "op_batch (ig_opts i)"]
  have "recovered cd db ?ps (Replay (recover_visit cd sio (op_batch (ig_opts i))) w d ?s0)"
    by (simp add: Replay_def)
  then have run: "recovered cd db ?ps ?run \<and> (\<forall>s. ?run = Inr s \<longrightarrow> rv_batch s = [])"
    using recover_flush_ok[of cd db ?ps _ sio]
    by (cases "Replay (recover_visit cd sio (op_batch (ig_opts i))) w d ?s0") auto
  have mono: "recoverable cd db ?ps k \<Longrightarrow> (\<And>k. has_event db k \<Longrightarrow> has_event db'' k) \<Longrightarrow> recoverable cd db'' ?ps k" for db'' k
    by (rule recoverable_mono)
  show ?thesis
  proof (cases ?run)
    case (Inl s)
    then have r: "ok = False" "i' = i" "db' = rv_db s" using rc lg by (simp_all add: Recover_def)
    show ?thesis by (rule that[of w d]) (use run Inl r wok n64 lg pos mono in auto)
  next
    case (Inr s)
    then have rec: "recovering cd db ?ps s" and em: "rv_batch s = []" using run by auto
    have all: "has_event (rv_db s) (ev_id e)" if "(q, p) \<in> set ?ps" "cd_dec cd p = Some e" for q p e
      using rec em that by (fastforce simp: recovering_def)
    have keep: "db_ok (rv_db s)" "has_event db k \<Longrightarrow> has_event (rv_db s) k" for k
      using rec by (simp_all add: recovering_def)
    have stored: "has_event (rv_db s) k" if "recoverable cd db ?ps k" for k
      using that keep all by (auto simp: recoverable_def)
    show ?thesis
    proof (cases "rv_max s > 0")
      case False
      then have r: "ok = True" "i' = i" "db' = rv_db s" using rc lg Inr by (simp_all add: Recover_def)
      show ?thesis by (rule that[of w d]) (use r wok n64 lg pos mono keep all in auto)
    next
      case True
      obtain b w2 d2 where sc: "SetCheckpoint (wi_cp_write io) (wi_cp_rename io) (wi_remove io) w d (rv_max s) = (b, w2, d2)"
        by (metis prod_cases3)
      have r: "ok = b" "i' = i\<lparr>ig_log := Some (w2, d2)\<rparr>" "db' = rv_db s"
        using rc lg Inr True sc by (simp_all add: Recover_def)
      obtain p where "(rv_max s, p) \<in> set ?ps" using rec True by (auto simp: recovering_def)
      then have "rv_max s < w_next_seq w" by (rule pending_less[OF wok])
      then have w2: "wal_ok (w2, d2)" "pending w2 d2 = filter (\<lambda>(q, _). rv_max s < q) ?ps" "w_next_seq w2 = w_next_seq w"
        using SetCheckpoint_ok[OF wok, of "rv_max s" "wi_cp_write io" "wi_cp_rename io" "wi_remove io"] n64 sc by auto
      have "recoverable cd db' (pending w2 d2) k" if "recoverable cd db ?ps k" for k
        using stored[OF that] r(3) by (simp add: recoverable_def)
      then show ?thesis by (intro that[of w2 d2]) (use r w2 n64 pos keep all in auto)
    qed
  qed
qed

definition sys_inv :: "codec \<Rightarrow> ingest_sys \<Rightarrow> bool" where
  "sys_inv cd s \<longleftrightarrow> (\<exists>w d. ingest_inv cd ((sy_ig s)\<lparr>ig_stalled := (ig_stalled (sy_ig s) \<or> \<not> sy_up s)\<rparr>)
     (sy_wr s) (sy_db s) (sy_acked s) w d)"

lemma sys_inv_up: "sy_up s \<Longrightarrow> sys_inv cd s \<longleftrightarrow> (\<exists>w d. ingest_inv cd (sy_ig s) (sy_wr s) (sy_db s) (sy_acked s) w d)"
  by (simp add: sys_inv_def)

lemma crash_pending:
  assumes wok: "wal_ok (w, d)" and fit: "fits (w_next_seq w, p)" "k < headerSize + length p"
    and op: "Open good_open True mx sync (crash_files w d p k) = Inr (w', d')"
  shows "wal_ok (w', d') \<and> w_next_seq w' = w_next_seq w \<and> set (pending w d) \<subseteq> set (pending w' d')"
  using Open_ok[OF wok fit, of mx sync] op by auto

lemma crash_inv:
  assumes inv: "sys_inv cd s" and lg: "ig_log (sy_ig s) = Some (w, d)"
    and fit: "fits (w_next_seq w, p)" "k < headerSize + length p"
    and op: "Open good_open True mx sync (crash_files w d p k) = Inr (w', d')"
    and rc: "Recover cd sio io (restarted opts w' d') (sy_db s) = (ok, n, i', db')"
  shows "sys_inv cd (s\<lparr>sy_ig := i', sy_wr := new_writer, sy_db := db', sy_up := ok\<rparr>) \<and>
    (ok \<longrightarrow> (\<forall>x \<in> sy_acked s. has_event db' x))"
proof -
  have i: "wal_ok (w, d)" "w_next_seq w \<le> 2 ^ 64" "db_ok (sy_db s)"
    "\<And>x. x \<in> sy_acked s \<Longrightarrow> recoverable cd (sy_db s) (pending w d) x"
    using inv lg by (auto simp: sys_inv_def ingest_inv_def)
  note o = crash_pending[OF i(1) fit op]
  have new: "ig_log (restarted opts w' d') = Some (w', d')" "ig_ch (restarted opts w' d') = []"
    "\<not> ig_stalled (restarted opts w' d')" by (simp_all add: restarted_def new_ingestor_def)
  have rec: "recoverable cd (sy_db s) (pending w' d') x" if "x \<in> sy_acked s" for x
    using i(4)[OF that] o by (auto simp: recoverable_def)
  have "w_next_seq w' \<le> 2 ^ 64" using o i(2) by simp
  from Recover_inv[OF _ this i(3) new(1) rc] o obtain w2 d2 where r:
    "ig_log i' = Some (w2, d2)" "wal_ok (w2, d2)" "w_next_seq w2 \<le> 2 ^ 64" "db_ok db'"
    "ig_ch i' = []" "\<not> ig_stalled i'"
    "set (pending w2 d2) \<subseteq> set (pending w' d')" "0 < w_next_seq w2"
    "\<And>k. recoverable cd (sy_db s) (pending w' d') k \<Longrightarrow> recoverable cd db' (pending w2 d2) k"
    "\<And>q p e. ok \<Longrightarrow> (q, p) \<in> set (pending w' d') \<Longrightarrow> cd_dec cd p = Some e \<Longrightarrow> has_event db' (ev_id e)"
    "\<And>k. has_event (sy_db s) k \<Longrightarrow> has_event db' k"
    using new by (metis (no_types, lifting))
  have "covered cd i' new_writer db' (pending w2 d2)" if ok
    using that r(7,10) by (fastforce simp: covered_def)
  then have "sys_inv cd (s\<lparr>sy_ig := i', sy_wr := new_writer, sy_db := db', sy_up := ok\<rparr>)"
    using r rec by (cases ok) (auto simp: sys_inv_def ingest_inv_def queue_ok_def new_writer_def covered_def in_flight_def)
  moreover have "has_event db' x" if "ok" "x \<in> sy_acked s" for x
    using rec[OF that(2)] r(10)[OF that(1)] r(11) by (auto simp: recoverable_def)
  ultimately show ?thesis by blast
qed
lemma step_inv [inv_intros]:
  assumes "ingest_step cd s s'" "codec_ok cd" "sys_inv cd s"
  shows "sys_inv cd s'"
  using assms
proof cases
  case (accept aio pipe e)
  obtain w d where inv: "ingest_inv cd (sy_ig s) (sy_wr s) (sy_db s) (sy_acked s) w d"
    using assms(3) accept by (auto simp: sys_inv_up)
  then have "ig_log (sy_ig s) = Some (w, d)" by (simp add: ingest_inv_def)
  from accept(4)[OF this] have fit: "\<And>p. cd_enc cd (pipe e) = Some p \<Longrightarrow> fits (w_next_seq w, p)" by blast
  obtain ok i' where en: "Enqueue cd pipe aio e (sy_ig s) = (ok, i')" by (cases "Enqueue cd pipe aio e (sy_ig s)")
  from Enqueue_inv[OF assms(2) inv accept(3) fit en] accept(2) show ?thesis
    by (simp add: accept(1) sys_enqueue_def en sys_inv_up)
next
  case (receive io)
  obtain w d where inv: "ingest_inv cd (sy_ig s) (sy_wr s) (sy_db s) (sy_acked s) w d"
    using assms(3) receive by (auto simp: sys_inv_up)
  obtain wr i db pub where r: "run_receive io (sy_wr s) (sy_ig s) (sy_db s) = (wr, i, db, pub)" by (metis prod_cases4)
  from receive_inv[OF inv r] receive(2) show ?thesis by (simp add: receive(1) sys_write_def r sys_inv_up)
next
  case (tick io)
  obtain w d where inv: "ingest_inv cd (sy_ig s) (sy_wr s) (sy_db s) (sy_acked s) w d"
    using assms(3) tick by (auto simp: sys_inv_up)
  obtain wr i db pub where r: "flush io (sy_wr s) (sy_ig s) (sy_db s) = (wr, i, db, pub)" by (metis prod_cases4)
  from flush_inv[OF inv r] tick(2) show ?thesis by (simp add: tick(1) sys_write_def r sys_inv_up)
next
  case close
  then show ?thesis using assms(3)
    by (auto simp: sys_inv_up Stop_def ingest_inv_def queue_ok_def covered_def in_flight_def)
next
  case (crash w d p k mx sync w' d' sio io opts ok n i' db')
  show ?thesis unfolding crash(1) using crash_inv[OF assms(3) crash(2-6)] by blast
qed

lemma steps_inv:
  "ingest_steps cd s s' \<Longrightarrow> codec_ok cd \<Longrightarrow> sys_inv cd s \<Longrightarrow> sys_inv cd s'"
  by (induction rule: rtranclp_induct) (auto intro: step_inv)

definition start_sys :: "Options \<Rightarrow> ingest_sys" where
  "start_sys opts = \<lparr>sy_ig = restarted opts (fst empty_log) (snd empty_log), sy_wr = new_writer,
     sy_db = \<lparr>d_logs = [], d_fts = []\<rparr>, sy_up = True, sy_acked = {}\<rparr>"

lemma start_inv: "sys_inv cd (start_sys opts)"
proof -
  have "pending (fst empty_log) (snd empty_log) = []" by (simp add: pending_def empty_log_def)
  moreover have "db_ok \<lparr>d_logs = [], d_fts = []\<rparr>" by (simp add: db_ok_def)
  ultimately have "ingest_inv cd (sy_ig (start_sys opts)) (sy_wr (start_sys opts)) (sy_db (start_sys opts)) {}
      (fst empty_log) (snd empty_log)"
    using empty_log_ok
    by (simp add: ingest_inv_def start_sys_def restarted_def new_ingestor_def queue_ok_def new_writer_def
        covered_def) (simp add: empty_log_def)
  then show ?thesis by (auto simp: sys_inv_def start_sys_def)
qed

section \<open>Draining\<close>

definition write_ok :: "write_io \<Rightarrow> bool" where
  "write_ok io \<longleftrightarrow> wi_sync io \<and> wi_cp_write io \<and> wi_cp_rename io \<and>
     so_fails (wi_store io) = None \<and> so_commit (wi_store io) \<and> (\<forall>a. so_marshal (wi_store io) a \<noteq> None)"

lemma put_events_total:
  assumes "so_fails io = None" "\<forall>a. so_marshal io a \<noteq> None"
  shows "\<exists>d'. put_events io n es d = Some d'"
proof (induction es arbitrary: n d)
  case (Cons e es)
  obtain a where "(if ev_attrs e = [] then Some ''{}'' else so_marshal io (ev_attrs e)) = Some a"
    using assms(2) by (cases "ev_attrs e = []") auto
  then show ?case using Cons assms(1) by simp
qed simp

lemma write_ok_append: "write_ok io \<Longrightarrow> \<exists>d'. db_append (wi_store io) es d = (True, d')"
  using put_events_total[of "wi_store io" 0 es d] by (auto simp: write_ok_def db_append_def)

lemma SetCheckpoint_succeeds: "SetCheckpoint True True rm w d n = (r, w', d') \<Longrightarrow> r"
  by (auto simp: SetCheckpoint_def writeCheckpoint_def Let_def split: if_split_asm)

lemma writeBatch_good:
  assumes io: "write_ok io" and st: "\<not> ig_stalled i" and wb: "writeBatch io b m i db = (i', db', pub)"
  shows "\<not> ig_stalled i'"
proof -
  obtain d' where ap: "db_append (wi_store io) b db = (True, d')" using write_ok_append[OF io] by blast
  show ?thesis
  proof (cases "ig_log i")
    case None
    then show ?thesis using wb ap st by (auto simp: writeBatch_def Let_def)
  next
    case (Some lg)
    obtain w d where lg: "lg = (w, d)" by (cases lg)
    obtain r w2 d2 where sc: "SetCheckpoint (wi_cp_write io) (wi_cp_rename io) (wi_remove io) w d m = (r, w2, d2)"
      by (metis prod_cases3)
    then have r using io SetCheckpoint_succeeds by (auto simp: write_ok_def)
    moreover have "wi_sync io" using io by (simp add: write_ok_def)
    ultimately show ?thesis using wb ap st Some lg sc
      by (auto simp: writeBatch_def Let_def split: if_split_asm)
  qed
qed

lemma flush_good:
  assumes io: "write_ok io" and st: "\<not> ig_stalled i" and fl: "flush io wr i db = (wr', i', db', pub)"
  shows "\<not> ig_stalled i' \<and> bw_batch wr' = []"
proof (cases "bw_batch wr = []")
  case False
  then obtain i1 db1 pub1 where "writeBatch io (bw_batch wr) (bw_max wr) i db = (i1, db1, pub1)" "i' = i1" "wr' = new_writer"
    using fl by (auto simp: flush_def split: prod.split_asm)
  then show ?thesis using writeBatch_good[OF io st] by (simp add: new_writer_def)
qed (use fl st in \<open>simp add: flush_def\<close>)

lemma receive_good:
  assumes "write_ok io" "\<not> ig_stalled i" "run_receive io wr i db = (wr', i', db', pub)"
  shows "\<not> ig_stalled i'"
proof (cases "ig_ch i")
  case (Cons x q)
  let ?i = "i\<lparr>ig_ch := q\<rparr>"
  have "\<not> ig_stalled ?i" using assms(2) by simp
  then have fl: "\<not> ig_stalled i'" if "flush io wr2 ?i db = (wr', i', db', pub)" for wr2
    using flush_good[OF assms(1) _ that] by blast
  show ?thesis using assms(2,3) Cons fl
    by (cases x) (auto simp: run_receive_def Let_def split: if_split_asm)
qed (use assms in \<open>simp add: run_receive_def\<close>)

lemma drain_good:
  assumes "\<forall>n. write_ok (io n)" "\<not> ig_stalled i" "ingest_inv cd i wr db A w d" "drain io wr i db = (wr', i', db', pub)"
  shows "\<not> ig_stalled i' \<and> bw_batch wr' = [] \<and> ig_ch i' = [] \<and> (\<exists>w' d'. ingest_inv cd i' wr' db' A w' d')"
  using assms
proof (induction io wr i db arbitrary: w d pub rule: drain.induct)
  case (1 io wr i db)
  show ?case
  proof (cases "ig_ch i = []")
    case True
    then have fl: "flush (io 0) wr i db = (wr', i', db', pub)" using 1(5) by (simp add: drain.simps)
    have "ig_ch i' = []" using flush_ch[of "io 0" wr i db] fl True by simp
    with flush_good[OF 1(2)[rule_format] 1(3) fl] flush_inv[OF 1(4) fl] show ?thesis by blast
  next
    case False
    obtain wr1 i1 db1 pub1 where r: "run_receive (io (length (ig_ch i))) wr i db = (wr1, i1, db1, pub1)" by (metis prod_cases4)
    obtain pub2 where d: "drain io wr1 i1 db1 = (wr', i', db', pub2)"
      using 1(5) False r by (subst (asm) drain.simps) (auto split: prod.split_asm)
    obtain w1 d1 where "ingest_inv cd i1 wr1 db1 A w1 d1" using receive_inv[OF 1(4) r] by blast
    from 1(1)[OF False r[symmetric] refl refl 1(2) _ this d] receive_good[OF 1(2)[rule_format] 1(3) r] show ?thesis by blast
  qed
qed

lemma recover_flush_total:
  assumes "\<forall>n. \<forall>es d. \<exists>d'. db_append (sio n) es d = (True, d')"
  shows "\<exists>s'. recover_flush sio s = Inr s'"
proof (cases "rv_batch s = []")
  case False
  obtain d' where "db_append (sio (rv_count s)) (rv_batch s) (rv_db s) = (True, d')" using assms by blast
  then show ?thesis using False by (simp add: recover_flush_def)
qed (simp add: recover_flush_def)

lemma replay_total:
  assumes "\<forall>n. \<forall>es d. \<exists>d'. db_append (sio n) es d = (True, d')"
  shows "\<exists>s'. replay_visit (recover_visit cd sio b) rs s = Inr s'"
proof (induction rs arbitrary: s)
  case (Cons r rs)
  obtain seq p where r: "r = (seq, p)" by (cases r)
  have "\<exists>s1. recover_visit cd sio b seq p s = Inr s1"
    using recover_flush_total[OF assms] by (cases "cd_dec cd p") (auto simp: recover_visit_def Let_def)
  then obtain s1 where "recover_visit cd sio b seq p s = Inr s1" by blast
  then show ?case using Cons by (simp add: r)
qed simp

text \<open>Recovery succeeds when the store accepts every write and the checkpoint can be written.\<close>

lemma Recover_succeeds:
  assumes "\<forall>n. write_ok (io\<lparr>wi_store := sio n\<rparr>)"
  shows "\<exists>n i' db'. Recover cd sio io i db = (True, n, i', db')"
proof (cases "ig_log i")
  case (Some lg)
  obtain w d where lg: "lg = (w, d)" by (cases lg)
  have st: "\<forall>n. \<forall>es d. \<exists>d'. db_append (sio n) es d = (True, d')"
    using assms write_ok_append by fastforce
  let ?s0 = "\<lparr>rv_batch = [], rv_max = 0, rv_count = 0, rv_db = db\<rparr>"
  obtain s1 where "Replay (recover_visit cd sio (op_batch (ig_opts i))) w d ?s0 = Inr s1"
    using replay_total[OF st] unfolding Replay_def by blast
  moreover obtain s2 where "recover_flush sio s1 = Inr s2" using recover_flush_total[OF st] by blast
  ultimately have run: "try_bind (Replay (recover_visit cd sio (op_batch (ig_opts i))) w d ?s0) (recover_flush sio) = Inr s2"
    by simp
  obtain ok w' d' where sc: "SetCheckpoint (wi_cp_write io) (wi_cp_rename io) (wi_remove io) w d (rv_max s2) = (ok, w', d')"
    by (metis prod_cases3)
  then have ok using assms SetCheckpoint_succeeds by (auto simp: write_ok_def)
  then show ?thesis using Some lg run sc by (auto simp: Recover_def)
qed (simp add: Recover_def)

definition id_codec :: codec where
  "id_codec = \<lparr>cd_enc = (\<lambda>e. Some (map (\<lambda>c. of_nat (of_char c)) (ev_id e))),
     cd_dec = (\<lambda>p. Some (empty_event\<lparr>ev_id := map (\<lambda>b. char_of (unat b)) p\<rparr>))\<rparr>"

lemma id_codec_ok: "codec_ok id_codec"
proof -
  have "char_of (unat (of_nat (of_char c) :: byte)) = c" for c
    by (simp add: unat_of_nat take_bit_eq_mod)
  then have "map ((\<lambda>b. char_of (unat b)) \<circ> (\<lambda>c. of_nat (of_char c) :: byte)) xs = xs" for xs
    by (induction xs) simp_all
  then show ?thesis by (simp add: codec_ok_def id_codec_def empty_event_def)
qed

definition all_io :: write_io where
  "all_io = \<lparr>wi_sync = True, wi_store = \<lparr>so_lib = ascii_lib, so_marshal = (\<lambda>_. Some []), so_fails = None, so_commit = True\<rparr>,
     wi_cp_write = True, wi_cp_rename = True, wi_remove = (\<lambda>_. True)\<rparr>"

lemma all_io_ok: "write_ok all_io" "write_ok (all_io\<lparr>wi_store := wi_store all_io\<rparr>)"
  by (simp_all add: all_io_def write_ok_def)

definition zero_opts :: Options where
  "zero_opts = \<lparr>op_buffer = 0, op_batch = 0, op_flush = 0, op_max_body = 0, op_max_line = 0\<rparr>"

lemma small_payload: "length p \<le> 100 \<Longrightarrow> w_next_seq w < 100 \<Longrightarrow> fits (w_next_seq w, p)"
  by (simp add: fits_def maxRecordBytes_def)

text \<open>One accepted event.\<close>

lemma one_accepted:
  "\<exists>s w d. ingest_steps id_codec (start_sys zero_opts) s \<and> sy_acked s = {''a''} \<and> sy_up s \<and> \<not> ig_stalled (sy_ig s) \<and>
     ig_log (sy_ig s) = Some (w, d) \<and> wal_ok (w, d) \<and> w_next_seq w = 2"
proof -
  obtain w d where e: "empty_log = (w, d)" by (cases empty_log)
  define s where "s = start_sys zero_opts"
  let ?p = "[97] :: byte list"
  have s: "ig_log (sy_ig s) = Some (w, d)" "sy_up s" "sy_acked s = {}" "\<not> ig_stalled (sy_ig s)"
      "\<not> ig_closed (sy_ig s)" "ig_ch (sy_ig s) = []" "op_buffer (ig_opts (sy_ig s)) = 10000"
    by (simp_all add: s_def start_sys_def restarted_def new_ingestor_def e withDefaults_def zero_opts_def)
  have "w = fst empty_log" by (simp add: e)
  then have n: "w_next_seq w = 1" by (simp add: empty_log_def)
  have enc: "cd_enc id_codec ev_a = Some ?p" by (simp add: id_codec_def ev_a_def empty_event_def)
  have fit: "fits (w_next_seq w, ?p)" using small_payload[of ?p w] n by simp
  have wok: "wal_ok (w, d)" using empty_log_ok e by simp
  obtain w' d' where ap: "Wal.Append good_io w d ?p = (Inr 1, w', d')" using Append_good[OF wok fit] n by auto
  have w': "wal_ok (w', d')" "w_next_seq w' = 2"
    using Append_ok[OF wok fit, of good_io] ap n by (simp_all add: good_io_def)
  let ?i = "queue_event ev_a 1 ((sy_ig s)\<lparr>ig_log := Some (w', d')\<rparr>)"
  have en: "Enqueue id_codec (\<lambda>e. e) good_io ev_a (sy_ig s) = (True, ?i)"
    unfolding Enqueue_def Let_def by (simp add: s enc ap)
  have "ingest_step id_codec s (sys_enqueue id_codec (\<lambda>e. e) good_io ev_a s)"
    by (rule ingest_step.accept) (use s enc fit in \<open>auto simp: good_io_def\<close>)
  moreover have "sys_enqueue id_codec (\<lambda>e. e) good_io ev_a s = s\<lparr>sy_ig := ?i, sy_acked := {''a''}\<rparr>"
    unfolding sys_enqueue_def en prod.case by (simp add: s) (simp add: ev_a_def empty_event_def)
  ultimately have "ingest_steps id_codec (start_sys zero_opts) (s\<lparr>sy_ig := ?i, sy_acked := {''a''}\<rparr>)"
    unfolding s_def[symmetric] by simp
  then show ?thesis
    using w' s by (intro exI[of _ "s\<lparr>sy_ig := ?i, sy_acked := {''a''}\<rparr>"]) (simp add: queue_event_def)
qed

section \<open>Properties\<close>

text \<open>C1. At-least-once ingestion.  Start with an empty log and store and let accepts (with any I/O
  outcome), receives, timer ticks, store failures, failed checkpoints, shutdowns, crashes that tear
  a record, and failed restarts happen in any order: an event whose \<^verbatim>\<open>Enqueue\<close> returned true is,
  after the next crash and a restart whose recovery succeeds, in the store.  (Assumed: unmarshalling
  a marshalled event keeps its ID, payloads stay below 64 MiB, and the truncation undoing a failed
  append works.)\<close>

theorem accepted_events_survive:
  assumes "codec_ok cd" "ingest_steps cd (start_sys opts0) s" "x \<in> sy_acked s"
    "ig_log (sy_ig s) = Some (w, d)" "fits (w_next_seq w, p)" "k < headerSize + length p"
    "Open good_open True mx sync (crash_files w d p k) = Inr (w', d')"
    "Recover cd sio io (restarted opts w' d') (sy_db s) = (True, n, i', db')"
  shows "has_event db' x"
  using crash_inv[OF steps_inv[OF assms(2,1) start_inv] assms(4-8)] assms(3) by blast

theorem accepted_events_survive_witness:
  "\<exists>s w d w' d' n i' db'. ingest_steps id_codec (start_sys zero_opts) s \<and> sy_acked s = {''a''} \<and>
     Open good_open True 100 True (crash_files w d [1] 3) = Inr (w', d') \<and>
     Recover id_codec (\<lambda>_. wi_store all_io) all_io (restarted zero_opts w' d') (sy_db s) = (True, n, i', db') \<and>
     has_event db' ''a''"
proof -
  obtain s w d where "ingest_steps id_codec (start_sys zero_opts) s \<and> sy_acked s = {''a''} \<and> sy_up s \<and>
     \<not> ig_stalled (sy_ig s) \<and> ig_log (sy_ig s) = Some (w, d) \<and> wal_ok (w, d) \<and> w_next_seq w = 2"
    using one_accepted by (elim exE)
  then have s: "ingest_steps id_codec (start_sys zero_opts) s" "sy_acked s = {''a''}"
     "ig_log (sy_ig s) = Some (w, d)" "wal_ok (w, d)" "w_next_seq w = 2" by simp_all
  have fit: "fits (w_next_seq w, [1])" "3 < headerSize + length ([1] :: byte list)"
    using small_payload[of "[1]" w] s(5) by (simp_all add: headerSize_def)
  obtain w' d' where o: "Open good_open True 100 True (crash_files w d [1] 3) = Inr (w', d')"
    using Open_ok[OF s(4) fit] by blast
  obtain n i' db' where r: "Recover id_codec (\<lambda>_. wi_store all_io) all_io (restarted zero_opts w' d') (sy_db s) = (True, n, i', db')"
    using Recover_succeeds[of "\<lambda>_. wi_store all_io" all_io] all_io_ok(2) by blast
  have "has_event db' ''a''"
    using accepted_events_survive[OF id_codec_ok s(1) _ s(3) fit o r, of "''a''"] s(2) by simp
  then show ?thesis using s(1,2) o r by (intro exI conjI)
qed

text \<open>C2. Shutdown delivers.  If no store write has failed before and those of the shutdown succeed,
  draining the closed queue terminates with the queue and the open batch empty and every accepted
  event in the store.\<close>

theorem drain_delivers:
  assumes "codec_ok cd" "ingest_steps cd (start_sys opts) s" "sy_up s" "\<not> ig_stalled (sy_ig s)"
    "\<forall>n. write_ok (io n)" "drain io (sy_wr s) (Stop (sy_ig s)) (sy_db s) = (wr', i', db', pub)"
  shows "ig_ch i' = [] \<and> bw_batch wr' = [] \<and> (\<forall>x \<in> sy_acked s. has_event db' x)"
proof -
  obtain w d where inv: "ingest_inv cd (sy_ig s) (sy_wr s) (sy_db s) (sy_acked s) w d"
    using steps_inv[OF assms(2,1) start_inv] assms(3) by (auto simp: sys_inv_up)
  then have inv': "ingest_inv cd (Stop (sy_ig s)) (sy_wr s) (sy_db s) (sy_acked s) w d"
    by (simp add: Stop_def ingest_inv_def queue_ok_def covered_def in_flight_def)
  have "\<not> ig_stalled (Stop (sy_ig s))" using assms(4) by (simp add: Stop_def)
  from drain_good[OF assms(5) this inv' assms(6)] obtain w2 d2 where
    e: "\<not> ig_stalled i'" "bw_batch wr' = []" "ig_ch i' = []" "ingest_inv cd i' wr' db' (sy_acked s) w2 d2" by blast
  have "has_event db' x" if "x \<in> sy_acked s" for x
    using e that by (fastforce simp: ingest_inv_def covered_def recoverable_def in_flight_def)
  with e show ?thesis by blast
qed

theorem drain_delivers_witness:
  "\<exists>s wr' i' db' pub. ingest_steps id_codec (start_sys zero_opts) s \<and> sy_acked s = {''a''} \<and>
     drain (\<lambda>_. all_io) (sy_wr s) (Stop (sy_ig s)) (sy_db s) = (wr', i', db', pub) \<and> has_event db' ''a''"
proof -
  obtain s w d where "ingest_steps id_codec (start_sys zero_opts) s \<and> sy_acked s = {''a''} \<and> sy_up s \<and>
     \<not> ig_stalled (sy_ig s) \<and> ig_log (sy_ig s) = Some (w, d) \<and> wal_ok (w, d) \<and> w_next_seq w = 2"
    using one_accepted by (elim exE)
  then have s: "ingest_steps id_codec (start_sys zero_opts) s" "sy_acked s = {''a''}" "sy_up s" "\<not> ig_stalled (sy_ig s)"
    by simp_all
  obtain wr' i' db' pub where d: "drain (\<lambda>_. all_io) (sy_wr s) (Stop (sy_ig s)) (sy_db s) = (wr', i', db', pub)"
    by (metis prod_cases4)
  from drain_delivers[OF id_codec_ok s(1,3,4) _ d] all_io_ok(1) s(2) have "has_event db' ''a''" by simp
  then show ?thesis using s(1,2) d by (intro exI conjI)
qed

end
