(* ===== verification/IngestHttp.thy ===== *)
theory IngestHttp
  imports Ingest
begin

text \<open>
  \<^verbatim>\<open>src/internal/ingest/handler.go\<close> and \<^verbatim>\<open>Ingestor.admit\<close>: the HTTP ingest endpoints.  A
  request is a record of what the handlers read of it; the body is the byte string the peer sends
  before the stream ends.  \<^verbatim>\<open>bufio.Scanner\<close> with its line cap is spelled out; the incremental
  JSON decoder is a parameter.  Between two enqueues the batch writer may run: \<open>hc_env\<close> is what it
  does to the ingestor.
\<close>

section \<open>Requests and responses\<close>

record request =
  rq_key :: string
  rq_length :: int
  rq_batch_id :: string
  rq_body :: string
  rq_broken :: bool
  rq_query :: "string \<Rightarrow> string"
  rq_header :: "string \<Rightarrow> string"
  rq_host :: "string option"
  rq_remote :: string

datatype rec_error = ParseError event_error | BufferFull | LineLimit | BadArray

record ingestResponse =
  rs_accepted :: nat
  rs_rejected :: nat
  rs_duplicate :: bool
  rs_errors :: "(nat \<times> rec_error) list"

definition empty_response :: ingestResponse where
  "empty_response = \<lparr>rs_accepted = 0, rs_rejected = 0, rs_duplicate = False, rs_errors = []\<rparr>"

datatype http_response = JsonResponse nat ingestResponse | TextResponse nat | RefusedResponse reason

datatype read_error = MaxBytesError | TooLongError | OtherReadError

definition readErrStatus :: "read_error \<Rightarrow> nat" where
  "readErrStatus e = (if e = MaxBytesError \<or> e = TooLongError then 413 else 400)"

text \<open>\<^verbatim>\<open>http.MaxBytesReader\<close>: the bytes delivered and the error that ends them (\<open>None\<close>: EOF).\<close>

definition read_body :: "int \<Rightarrow> request \<Rightarrow> string \<times> read_error option" where
  "read_body cap rq =
     (if int (length (rq_body rq)) > cap then (take (nat cap) (rq_body rq), Some MaxBytesError)
      else (rq_body rq, if rq_broken rq then Some OtherReadError else None))"

abbreviation newline :: char where "newline \<equiv> CHR 0x0A"

definition drop_cr :: "string \<Rightarrow> string" where
  "drop_cr s = (if s \<noteq> [] \<and> last s = CHR 0x0D then butlast s else s)"

text \<open>\<^verbatim>\<open>bufio.Scanner\<close> with \<^verbatim>\<open>ScanLines\<close>: a line with its newline must fit the buffer.\<close>

function scan_lines :: "nat \<Rightarrow> string \<Rightarrow> read_error option \<Rightarrow> string list \<times> read_error option" where
  "scan_lines cap b fin =
     (if b = [] then ([], fin)
      else case index_byte newline (take cap b) of
          Some k \<Rightarrow> (let (ls, e) = scan_lines cap (drop (Suc k) b) fin in (drop_cr (take k b) # ls, e))
        | None \<Rightarrow> if length b \<ge> cap then ([], Some TooLongError) else ([drop_cr b], fin))"
  by pat_completeness auto
termination by (relation "measure (\<lambda>(_, b, _). length b)") auto

declare scan_lines.simps [simp del]

definition line_cap :: "Options \<Rightarrow> nat" where
  "line_cap p = max (64 * 1024) (nat (op_max_line p))"

section \<open>The JSON decoder's part\<close>

datatype first_json = FirstValue bool | FirstTruncated | FirstInvalid

datatype jsonState = JsonComplete | JsonIncomplete | JsonInvalid

text \<open>
  \<open>hl_first b\<close>: decoding the first value of \<open>b\<close> and whether only white space follows it;
  \<open>hl_array b\<close>: the elements of the array that starts \<open>b\<close> and whether a syntax error follows them.
\<close>

record http_ctx =
  hc_lib :: golib
  hl_first :: "string \<Rightarrow> first_json"
  hl_array :: "string \<Rightarrow> string list \<times> bool"
  hc_codec :: codec
  hc_pipe :: "logevent \<Rightarrow> logevent"
  hc_append :: "nat \<Rightarrow> append_io"
  hc_env :: "nat \<Rightarrow> Ingestor \<Rightarrow> Ingestor"
  hc_rnd :: "nat \<Rightarrow> byte list"
  hc_read :: int

definition classifyJSON :: "http_ctx \<Rightarrow> string \<Rightarrow> jsonState" where
  "classifyJSON c b =
     (case hl_first c b of
        FirstValue eof \<Rightarrow> if eof then JsonComplete else JsonInvalid
      | FirstTruncated \<Rightarrow> JsonIncomplete
      | FirstInvalid \<Rightarrow> JsonInvalid)"

fun peekFirstNonSpace :: "string \<Rightarrow> string" where
  "peekFirstNonSpace [] = []"
| "peekFirstNonSpace (b # bs) =
     (if b \<in> set [CHR '' '', CHR 0x09, CHR 0x0A, CHR 0x0D] then peekFirstNonSpace bs else b # bs)"

fun firstNonEmpty :: "string list \<Rightarrow> string" where
  "firstNonEmpty [] = []"
| "firstNonEmpty (v # vs) = (if v \<noteq> [] then v else firstNonEmpty vs)"

definition clientIP :: "request \<Rightarrow> string" where
  "clientIP rq = (case rq_host rq of Some h \<Rightarrow> h | None \<Rightarrow> rq_remote rq)"

section \<open>The handlers\<close>

record hstate =
  hs_resp :: ingestResponse
  hs_overflow :: bool
  hs_ig :: Ingestor

definition count_reject :: "nat \<Rightarrow> rec_error \<Rightarrow> hstate \<Rightarrow> hstate" where
  "count_reject idx err s = s\<lparr>hs_resp := (hs_resp s)\<lparr>rs_rejected := rs_rejected (hs_resp s) + 1,
     rs_errors := rs_errors (hs_resp s) @ [(idx, err)]\<rparr>\<rparr>"

text \<open>How many records have been counted so far; it indexes the per-call outcomes.\<close>

definition counted :: "hstate \<Rightarrow> nat" where
  "counted s = rs_accepted (hs_resp s) + rs_rejected (hs_resp s)"

definition try_enqueue :: "http_ctx \<Rightarrow> logevent \<Rightarrow> hstate \<Rightarrow> bool \<times> hstate" where
  "try_enqueue c e s =
     (if hs_overflow s then (False, s)
      else let n = counted s; (ok, ig) = Enqueue (hc_codec c) (hc_pipe c) (hc_append c n) e (hc_env c n (hs_ig s))
           in (ok, s\<lparr>hs_ig := ig, hs_overflow := \<not> ok\<rparr>))"

definition count_accept :: "hstate \<Rightarrow> hstate" where
  "count_accept s = s\<lparr>hs_resp := (hs_resp s)\<lparr>rs_accepted := rs_accepted (hs_resp s) + 1\<rparr>\<rparr>"

definition emit :: "http_ctx \<Rightarrow> time \<Rightarrow> nat \<Rightarrow> string \<Rightarrow> hstate \<Rightarrow> hstate" where
  "emit c now idx raw0 s =
     (let raw = trim_space raw0
      in if raw = [] then s
         else case EventFromJSON (hc_lib c) now (hc_rnd c (counted s)) raw of
             Inl err \<Rightarrow> count_reject idx (ParseError err) s
           | Inr e \<Rightarrow> (case try_enqueue c e s of
               (True, s') \<Rightarrow> count_accept s'
             | (False, s') \<Rightarrow> count_reject idx BufferFull s'))"

text \<open>The scanner loop of the NDJSON form: pending bytes, record index, state.\<close>

fun ndjson :: "http_ctx \<Rightarrow> time \<Rightarrow> nat \<Rightarrow> string list \<Rightarrow> string \<Rightarrow> nat \<Rightarrow> hstate \<Rightarrow> string \<times> nat \<times> hstate" where
  "ndjson c now max_line [] pend idx s = (pend, idx, s)"
| "ndjson c now max_line (line # ls) pend idx s =
     (if pend = [] \<and> trim_space line = [] then ndjson c now max_line ls pend idx s
      else let p = pend @ line @ [newline]
           in if length p > max_line then ndjson c now max_line ls [] (Suc idx) (count_reject idx LineLimit s)
              else if classifyJSON c p \<noteq> JsonIncomplete then ndjson c now max_line ls [] (Suc idx) (emit c now idx p s)
              else ndjson c now max_line ls p idx s)"

fun emit_all :: "http_ctx \<Rightarrow> time \<Rightarrow> nat \<Rightarrow> string list \<Rightarrow> hstate \<Rightarrow> nat \<times> hstate" where
  "emit_all c now idx [] s = (idx, s)"
| "emit_all c now idx (r # rs) s = emit_all c now (Suc idx) rs (emit c now idx r s)"

definition finish :: "http_ctx \<Rightarrow> time \<Rightarrow> request \<Rightarrow> http_response \<Rightarrow> hstate \<Rightarrow> http_response \<times> Ingestor" where
  "finish c now rq resp s = (resp, recordUsage now (rq_key rq) (rs_accepted (hs_resp s)) (hc_read c) (hs_ig s))"

definition done_status :: "hstate \<Rightarrow> nat" where
  "done_status s = (if hs_overflow s then 429 else 200)"

text \<open>\<^verbatim>\<open>admit\<close> and \<^verbatim>\<open>duplicateBatch\<close>: either the early response, or the ingestor to go on with.\<close>

definition admit :: "time \<Rightarrow> request \<Rightarrow> Ingestor \<Rightarrow> http_response option \<times> Ingestor" where
  "admit now rq ig =
     (case Allow now (rq_key rq) (if rq_length rq < 0 then 0 else rq_length rq) (ig_limiter ig) of
        (Some r, l) \<Rightarrow> (Some (RefusedResponse r), ig\<lparr>ig_limiter := l, ig_rejected := ig_rejected ig + 1\<rparr>)
      | (None, l) \<Rightarrow> (None, ig\<lparr>ig_limiter := l\<rparr>))"

definition duplicateBatch :: "time \<Rightarrow> request \<Rightarrow> Ingestor \<Rightarrow> http_response option \<times> Ingestor" where
  "duplicateBatch now rq ig =
     (if rq_batch_id rq = [] then (None, ig)
      else case Seen now (rq_batch_id rq) (ig_dedupe ig) of
          (False, d) \<Rightarrow> (None, ig\<lparr>ig_dedupe := d\<rparr>)
        | (True, d) \<Rightarrow> (Some (JsonResponse 200 (empty_response\<lparr>rs_duplicate := True\<rparr>)),
             ig\<lparr>ig_dedupe := d, ig_duplicates := ig_duplicates ig + 1\<rparr>))"

definition gate :: "time \<Rightarrow> request \<Rightarrow> Ingestor \<Rightarrow> http_response option \<times> Ingestor" where
  "gate now rq ig =
     (case admit now rq ig of
        (Some r, ig1) \<Rightarrow> (Some r, ig1)
      | (None, ig1) \<Rightarrow> duplicateBatch now rq ig1)"

definition Handler :: "http_ctx \<Rightarrow> time \<Rightarrow> request \<Rightarrow> Ingestor \<Rightarrow> http_response \<times> Ingestor" where
  "Handler c now rq ig0 =
     (case gate now rq ig0 of
        (Some r, ig) \<Rightarrow> (r, ig)
      | (None, ig) \<Rightarrow>
          (let s0 = \<lparr>hs_resp = empty_response, hs_overflow = False, hs_ig = ig\<rparr>;
               (content, fin) = read_body (op_max_body (ig_opts ig)) rq;
               rest = peekFirstNonSpace content
           in if rest = [] \<and> fin \<noteq> None then finish c now rq (TextResponse (readErrStatus (the fin))) s0
              else if rest \<noteq> [] \<and> hd rest = CHR ''['' then
                (let (elems, bad) = hl_array c rest; (idx, s) = emit_all c now 0 elems s0
                 in if bad then (let s' = count_reject idx BadArray s in finish c now rq (JsonResponse 400 (hs_resp s')) s')
                    else finish c now rq (JsonResponse (done_status s) (hs_resp s)) s)
              else
                (let (ls, e) = scan_lines (line_cap (ig_opts ig)) rest fin;
                     (pend, idx, s) = ndjson c now (nat (op_max_line (ig_opts ig))) ls [] 0 s0
                 in case e of
                      Some err \<Rightarrow> finish c now rq (TextResponse (readErrStatus err)) s
                    | None \<Rightarrow>
                        (let s' = (if trim_space pend \<noteq> [] then emit c now idx pend s else s)
                         in finish c now rq (JsonResponse (done_status s') (hs_resp s')) s'))))"

definition raw_event :: "http_ctx \<Rightarrow> time \<Rightarrow> request \<Rightarrow> string \<Rightarrow> byte list \<Rightarrow> logevent" where
  "raw_event c now rq line rnd =
     Normalize now rnd (empty_event\<lparr>
       ev_service := firstNonEmpty [rq_query rq ''service'', rq_header rq ''X-Service''],
       ev_source := firstNonEmpty [rq_query rq ''source'', rq_header rq ''X-Source'', clientIP rq],
       ev_level := ParseLevel (firstNonEmpty [rq_query rq ''level'', ''info'']),
       ev_message := line, ev_raw := line\<rparr>)"

fun raw_lines :: "http_ctx \<Rightarrow> time \<Rightarrow> request \<Rightarrow> string list \<Rightarrow> hstate \<Rightarrow> hstate" where
  "raw_lines c now rq [] s = s"
| "raw_lines c now rq (l # ls) s =
     (let line = trim_right [CHR 0x0D] l
      in if trim_space line = [] then raw_lines c now rq ls s
         else case try_enqueue c (raw_event c now rq line (hc_rnd c (counted s))) s of
             (True, s') \<Rightarrow> raw_lines c now rq ls (count_accept s')
           | (False, s') \<Rightarrow> raw_lines c now rq ls
               (s'\<lparr>hs_resp := (hs_resp s')\<lparr>rs_rejected := rs_rejected (hs_resp s') + 1\<rparr>\<rparr>))"

definition RawHandler :: "http_ctx \<Rightarrow> time \<Rightarrow> request \<Rightarrow> Ingestor \<Rightarrow> http_response \<times> Ingestor" where
  "RawHandler c now rq ig0 =
     (case gate now rq ig0 of
        (Some r, ig) \<Rightarrow> (r, ig)
      | (None, ig) \<Rightarrow>
          (let s0 = \<lparr>hs_resp = empty_response, hs_overflow = False, hs_ig = ig\<rparr>;
               (content, fin) = read_body (op_max_body (ig_opts ig)) rq;
               (ls, e) = scan_lines (line_cap (ig_opts ig)) content fin;
               s = raw_lines c now rq ls s0
           in case e of
                Some err \<Rightarrow> finish c now rq (TextResponse (readErrStatus err)) s
              | None \<Rightarrow> finish c now rq (JsonResponse (done_status s) (hs_resp s)) s))"

section \<open>Reassembling records from lines\<close>

definition unlines :: "string list \<Rightarrow> string" where
  "unlines ls = concat (map (\<lambda>l. l @ [newline]) ls)"

lemma unlines_simps [simp]: "unlines [] = []" "unlines (l # ls) = l @ newline # unlines ls"
  "unlines (ls @ ms) = unlines ls @ unlines ms"
  by (simp_all add: unlines_def)

text \<open>A line the scanner returns as it is: no newline, no trailing CR, short enough for the buffer.\<close>

definition scannable :: "nat \<Rightarrow> string \<Rightarrow> bool" where
  "scannable cap l \<longleftrightarrow> newline \<notin> set l \<and> (l = [] \<or> last l \<noteq> CHR 0x0D) \<and> length l < cap"

lemma scan_unlines:
  "\<forall>l \<in> set ls. scannable cap l \<Longrightarrow> scan_lines cap (unlines ls) fin = (ls, fin)"
proof (induction ls)
  case (Cons l ls)
  have l: "newline \<notin> set l" "length l < cap" "drop_cr l = l"
    using Cons.prems by (auto simp: scannable_def drop_cr_def)
  have "take cap (l @ newline # unlines ls) = l @ newline # take (cap - Suc (length l)) (unlines ls)"
    using l(2) by (simp add: take_Cons') (metis Suc_diff_Suc diff_Suc_1 diff_Suc_eq_diff_pred)?
  then have "index_byte newline (take cap (l @ newline # unlines ls)) = Some (length l)"
    using index_byte_append[OF l(1)] by simp
  then show ?case using Cons l(3) by (subst scan_lines.simps) simp
qed (subst scan_lines.simps, simp)

text \<open>
  One record spread over lines: its first line is not blank, every proper prefix is an unfinished
  JSON value, the whole is not.
\<close>

definition record_lines :: "http_ctx \<Rightarrow> nat \<Rightarrow> string list \<Rightarrow> bool" where
  "record_lines c max_line r \<longleftrightarrow> r \<noteq> [] \<and> trim_space (hd r) \<noteq> [] \<and> length (unlines r) \<le> max_line \<and>
     classifyJSON c (unlines r) \<noteq> JsonIncomplete \<and>
     (\<forall>k. 0 < k \<and> k < length r \<longrightarrow> classifyJSON c (unlines (take k r)) = JsonIncomplete)"

lemma unlines_Nil_iff [simp]: "unlines ls = [] \<longleftrightarrow> ls = []"
  by (cases ls) simp_all

lemma ndjson_tail:
  assumes r: "record_lines c m (done @ r)" and ne: "done \<noteq> []" "r \<noteq> []"
  shows "ndjson c now m (r @ ls) (unlines done) idx s
    = ndjson c now m ls [] (Suc idx) (emit c now idx (unlines (done @ r)) s)"
  using assms
proof (induction r arbitrary: "done")
  case (Cons l r)
  let ?p = "unlines (done @ [l])"
  have p: "unlines done @ l @ [newline] = ?p" by simp
  have len: "length ?p \<le> m" using Cons.prems(1) by (simp add: record_lines_def)
  show ?case
  proof (cases "r = []")
    case True
    have "classifyJSON c ?p \<noteq> JsonIncomplete" using Cons.prems(1) True by (simp add: record_lines_def)
    then show ?thesis using len Cons.prems(2) True by (simp add: Let_def del: unlines_simps) (simp add: p[symmetric])
  next
    case False
    have "classifyJSON c (unlines (take (Suc (length done)) (done @ l # r))) = JsonIncomplete"
      using Cons.prems(1) False unfolding record_lines_def by (metis length_append length_Cons add_Suc_right
          less_add_same_cancel1 length_greater_0_conv zero_less_Suc add_Suc_shift Suc_less_eq)
    then have inc: "classifyJSON c ?p = JsonIncomplete" by simp
    have "ndjson c now m ((l # r) @ ls) (unlines done) idx s = ndjson c now m (r @ ls) ?p idx s"
      using len inc Cons.prems(2) unfolding append_Cons ndjson.simps Let_def p by (simp del: unlines_simps)
    also have "\<dots> = ndjson c now m ls [] (Suc idx) (emit c now idx (unlines ((done @ [l]) @ r)) s)"
      by (rule Cons.IH) (use Cons.prems False in auto)
    finally show ?thesis by simp
  qed
qed simp

lemma ndjson_record:
  assumes "record_lines c m r"
  shows "ndjson c now m (r @ ls) [] idx s = ndjson c now m ls [] (Suc idx) (emit c now idx (unlines r) s)"
proof -
  obtain l r' where r: "r = l # r'" using assms by (cases r) (auto simp: record_lines_def)
  have l: "trim_space l \<noteq> []" using assms by (simp add: record_lines_def r)
  have len: "length (unlines [l]) \<le> m" using assms by (simp add: record_lines_def r)
  show ?thesis
  proof (cases "r' = []")
    case True
    then show ?thesis using assms l len r by (simp add: record_lines_def Let_def)
  next
    case False
    have "classifyJSON c (unlines (take 1 r)) = JsonIncomplete"
      using assms False unfolding record_lines_def r by (cases r') auto
    then have "ndjson c now m (r @ ls) [] idx s = ndjson c now m (r' @ ls) (unlines [l]) idx s"
      using l len by (simp add: r Let_def)
    also have "\<dots> = ndjson c now m ls [] (Suc idx) (emit c now idx (unlines ([l] @ r')) s)"
      by (rule ndjson_tail) (use assms r False in auto)
    finally show ?thesis by (simp add: r)
  qed
qed

lemma ndjson_records:
  "\<forall>r \<in> set recs. record_lines c m r \<Longrightarrow>
   ndjson c now m (concat recs) [] idx s = (case emit_all c now idx (map unlines recs) s of (i, s') \<Rightarrow> ([], i, s'))"
  by (induction recs arbitrary: idx s) (simp_all add: ndjson_record)

section \<open>The handlers leave the batch memory alone\<close>

lemma Enqueue_dedupe [simp]: "ig_dedupe (snd (Enqueue cd pipe aio e i)) = ig_dedupe i"
  by (auto simp: Enqueue_def Let_def drop_event_def queue_event_def split: option.split prod.split sum.split)

definition env_keeps_dedupe :: "http_ctx \<Rightarrow> bool" where
  "env_keeps_dedupe c \<longleftrightarrow> (\<forall>n i. ig_dedupe (hc_env c n i) = ig_dedupe i)"

abbreviation hs_dedupe :: "hstate \<Rightarrow> batchDeduper" where "hs_dedupe s \<equiv> ig_dedupe (hs_ig s)"

lemma count_dedupe [simp]: "hs_dedupe (count_reject i e s) = hs_dedupe s" "hs_dedupe (count_accept s) = hs_dedupe s"
  by (simp_all add: count_reject_def count_accept_def)

lemma try_enqueue_dedupe:
  assumes "env_keeps_dedupe c"
  shows "hs_dedupe (snd (try_enqueue c e s)) = hs_dedupe s"
proof -
  obtain ok ig where en: "Enqueue (hc_codec c) (hc_pipe c) (hc_append c (counted s)) e (hc_env c (counted s) (hs_ig s)) = (ok, ig)"
    by (rule prod.exhaust)
  then have "ig_dedupe ig = hs_dedupe s"
    using assms Enqueue_dedupe[of "hc_codec c" "hc_pipe c" "hc_append c (counted s)" e "hc_env c (counted s) (hs_ig s)"]
    by (simp add: env_keeps_dedupe_def)
  then show ?thesis by (simp add: try_enqueue_def Let_def en)
qed

lemma emit_dedupe: "env_keeps_dedupe c \<Longrightarrow> hs_dedupe (emit c now idx raw s) = hs_dedupe s"
  by (auto simp: emit_def Let_def split: sum.split prod.split bool.split dest: try_enqueue_dedupe)
     (metis snd_conv try_enqueue_dedupe)+

lemma ndjson_dedupe: "env_keeps_dedupe c \<Longrightarrow> hs_dedupe (snd (snd (ndjson c now m ls p idx s))) = hs_dedupe s"
  by (induction c now m ls p idx s rule: ndjson.induct) (simp_all add: Let_def emit_dedupe)

lemma emit_all_dedupe: "env_keeps_dedupe c \<Longrightarrow> hs_dedupe (snd (emit_all c now idx rs s)) = hs_dedupe s"
  by (induction c now idx rs s rule: emit_all.induct) (simp_all add: emit_dedupe)

lemma raw_lines_dedupe: "env_keeps_dedupe c \<Longrightarrow> hs_dedupe (raw_lines c now rq ls s) = hs_dedupe s"
proof (induction c now rq ls s rule: raw_lines.induct)
  case (2 c now rq l ls s)
  then show ?case
    using try_enqueue_dedupe[OF 2(4)] 
    by (auto simp: Let_def split: prod.split bool.split) (metis snd_conv)+
qed simp

lemma finish_dedupe [simp]: "ig_dedupe (snd (finish c now rq r s)) = hs_dedupe s"
  by (simp add: finish_def recordUsage_def)
section \<open>Properties\<close>

lemma gate_admits:
  assumes "gate now rq ig = (None, ig1)" "rq_batch_id rq \<noteq> []"
  shows "(rq_batch_id rq, now) \<in> bd_mem (ig_dedupe ig1)"
  using assms
proof -
  obtain l where "duplicateBatch now rq (ig\<lparr>ig_limiter := l\<rparr>) = (None, ig1)"
    using assms(1) by (auto simp: gate_def admit_def split: prod.split_asm option.split_asm)
  then obtain d where "Seen now (rq_batch_id rq) (ig_dedupe ig) = (False, d)" "ig_dedupe ig1 = d"
    using assms(2) by (auto simp: duplicateBatch_def split: prod.split_asm bool.split_asm)
  then show ?thesis using assms(2)
    by (cases rule: Seen_cases[of "rq_batch_id rq" now "ig_dedupe ig"]) (auto simp: mem_update)
qed

lemma Handler_dedupe:
  assumes "env_keeps_dedupe c" "gate now rq ig = (None, ig1)"
  shows "ig_dedupe (snd (Handler c now rq ig)) = ig_dedupe ig1"
  using assms(2) emit_all_dedupe[OF assms(1)] ndjson_dedupe[OF assms(1)] emit_dedupe[OF assms(1)]
  unfolding Handler_def Let_def
  by (auto simp: split_beta split: option.split) 

lemma RawHandler_dedupe:
  assumes "env_keeps_dedupe c" "gate now rq ig = (None, ig1)"
  shows "ig_dedupe (snd (RawHandler c now rq ig)) = ig_dedupe ig1"
  using assms(2) raw_lines_dedupe[OF assms(1)]
  unfolding RawHandler_def Let_def
  by (auto simp: split_beta split: option.split)

text \<open>C5. A batch ID is used up by the first attempt, not by its success.  Once a request with a
  batch ID has passed admission, whatever its outcome (every record refused with 429 for a full
  buffer included), every retry of that ID within ten minutes that passes admission is answered
  200 \<^verbatim>\<open>duplicate\<close> and queues nothing, whatever other batches came in between, as long as the
  memory of IDs has room for them (from its 50,000th entry on it may evict the ID): a client that
  retries the 429 loses the batch.  While the first request runs no other batch ID is recorded.\<close>

theorem retried_batch_is_dropped:
  assumes h: "h = Handler \<or> h = RawHandler" and env: "env_keeps_dedupe c"
    and first: "gate now rq ig = (None, ig1)" "rq_batch_id rq \<noteq> []" "h c now rq ig = (resp, ig')"
    and between: "bd_ok (ig_dedupe ig')" "ig_dedupe ig2 = snd (run_calls Seen calls (ig_dedupe ig'))"
      "length (bd_seen (ig_dedupe ig')) + length calls \<le> maxDedupeEntries" "\<forall>c \<in> set calls. fst c - now < dedupeTTL"
    and later: "now' - now < dedupeTTL" "rq_batch_id rq' = rq_batch_id rq" "admit now' rq' ig2 = (None, ig3)"
  shows "\<exists>ig4. h c' now' rq' ig2 = (JsonResponse 200 (empty_response\<lparr>rs_duplicate := True\<rparr>), ig4) \<and>
    ig_ch ig4 = ig_ch ig2 \<and> ig_log ig4 = ig_log ig2"
proof -
  have "ig_dedupe ig' = ig_dedupe ig1"
    using h first(3) Handler_dedupe[OF env first(1)] RawHandler_dedupe[OF env first(1)] by auto
  then have "(rq_batch_id rq, now) \<in> bd_mem (ig_dedupe ig')" using gate_admits[OF first(1,2)] by simp
  from dedupe.mem_kept[OF between(1) bd_mem_finite this first(2) _ between(4)] between(3) card_bd_mem[of "ig_dedupe ig'"]
  have m: "(rq_batch_id rq', now) \<in> bd_mem (ig_dedupe ig2)" and ok: "bd_ok (ig_dedupe ig2)"
    using between(2) later(2) by auto
  have ig3: "ig_dedupe ig3 = ig_dedupe ig2" "ig_ch ig3 = ig_ch ig2" "ig_log ig3 = ig_log ig2"
    using later(3) by (auto simp: admit_def split: prod.split_asm option.split_asm)
  have "fst (Seen now' (rq_batch_id rq') (ig_dedupe ig3))"
    using dedupe.hit_law[OF ok _ m later(1)] first(2) later(2) ig3(1) by simp
  then obtain d where "Seen now' (rq_batch_id rq') (ig_dedupe ig3) = (True, d)" by (metis prod.collapse)
  then have "gate now' rq' ig2 = (Some (JsonResponse 200 (empty_response\<lparr>rs_duplicate := True\<rparr>)),
      ig3\<lparr>ig_dedupe := d, ig_duplicates := ig_duplicates ig3 + 1\<rparr>)"
    using later(2,3) first(2) by (simp add: gate_def duplicateBatch_def)
  then show ?thesis using h ig3 by (auto simp: Handler_def RawHandler_def)
qed

definition one_slot :: Ingestor where
  "one_slot = (new_ingestor (zero_opts\<lparr>op_buffer := 1\<rparr>) None None)\<lparr>ig_ch := [(ev_a, 0)]\<rparr>"

definition raw_ctx :: http_ctx where
  "raw_ctx = \<lparr>hc_lib = ascii_lib, hl_first = (\<lambda>_. FirstInvalid), hl_array = (\<lambda>_. ([], False)), hc_codec = id_codec,
     hc_pipe = (\<lambda>e. e), hc_append = (\<lambda>_. good_io), hc_env = (\<lambda>_ i. i), hc_rnd = (\<lambda>_. replicate 10 0), hc_read = 3\<rparr>"

definition one_line :: request where
  "one_line = \<lparr>rq_key = ''k'', rq_length = 3, rq_batch_id = ''b'', rq_body = ''boo'', rq_broken = False,
     rq_query = (\<lambda>_. []), rq_header = (\<lambda>_. []), rq_host = None, rq_remote = ''r''\<rparr>"

lemma one_slot_gate:
  "gate 5 one_line one_slot = (None, one_slot\<lparr>ig_dedupe := \<lparr>bd_seen = [(''b'', 5)]\<rparr>\<rparr>)"
  "admit 6 one_line (one_slot\<lparr>ig_ch := [], ig_dedupe := \<lparr>bd_seen = [(''b'', 5), (''c'', 5)]\<rparr>\<rparr>)
    = (None, one_slot\<lparr>ig_ch := [], ig_dedupe := \<lparr>bd_seen = [(''b'', 5), (''c'', 5)]\<rparr>\<rparr>)"
  by (simp_all add: gate_def admit_def one_slot_def new_ingestor_def one_line_def Allow_def new_limiter_def
      enabledLocked_def no_limits_def duplicateBatch_def Seen_def newBatchDeduper_def maxDedupeEntries_def)

lemma trim_boo [simp]: "trim_space ''boo'' = ''boo''"
  by (rule trim_space_graphic) code_simp

lemma one_slot_first:
  "RawHandler raw_ctx 5 one_line one_slot
   = (JsonResponse 429 (empty_response\<lparr>rs_rejected := 1\<rparr>),
      snd (RawHandler raw_ctx 5 one_line one_slot))"
  unfolding RawHandler_def one_slot_gate
  by (simp add: one_slot_def one_line_def new_ingestor_def withDefaults_def zero_opts_def read_body_def
      defaultMaxBodyBytes_def line_cap_def defaultMaxLineBytes_def Let_def scan_lines.simps drop_cr_def
      trim_right_def strip.simps
      try_enqueue_def Enqueue_def raw_ctx_def drop_event_def done_status_def finish_def empty_response_def)

theorem retried_batch_is_dropped_witness:
  "fst (RawHandler raw_ctx 5 one_line one_slot) = JsonResponse 429 (empty_response\<lparr>rs_rejected := 1\<rparr>) \<and>
   fst (RawHandler raw_ctx 6 one_line (one_slot\<lparr>ig_ch := [], ig_dedupe := \<lparr>bd_seen = [(''b'', 5), (''c'', 5)]\<rparr>\<rparr>))
     = JsonResponse 200 (empty_response\<lparr>rs_duplicate := True\<rparr>)"
proof -
  have env: "env_keeps_dedupe raw_ctx" by (simp add: env_keeps_dedupe_def raw_ctx_def)
  have a: "fst (RawHandler raw_ctx 5 one_line one_slot) = JsonResponse 429 (empty_response\<lparr>rs_rejected := 1\<rparr>)"
    using arg_cong[OF one_slot_first, of fst] by (simp only: fst_conv)
  let ?ig = "one_slot\<lparr>ig_ch := [], ig_dedupe := \<lparr>bd_seen = [(''b'', 5), (''c'', 5)]\<rparr>\<rparr>"
  have d1: "ig_dedupe (snd (RawHandler raw_ctx 5 one_line one_slot)) = \<lparr>bd_seen = [(''b'', 5)]\<rparr>"
    using RawHandler_dedupe[OF env one_slot_gate(1)] by simp
  have d: "ig_dedupe ?ig = snd (run_calls Seen [(5, ''c'')] (ig_dedupe (snd (RawHandler raw_ctx 5 one_line one_slot))))"
    unfolding d1 by (simp add: Seen_def maxDedupeEntries_def)
  have b: "bd_ok (ig_dedupe (snd (RawHandler raw_ctx 5 one_line one_slot)))"
     "length (bd_seen (ig_dedupe (snd (RawHandler raw_ctx 5 one_line one_slot)))) + length [(5 :: time, ''c'')] \<le> maxDedupeEntries"
     "\<forall>c \<in> set [(5 :: time, ''c'')]. fst c - 5 < dedupeTTL"
    unfolding d1 by (simp_all add: bd_ok_def maxDedupeEntries_def dedupeTTL_def duration_defs)
  have m: "6 - 5 < dedupeTTL" "rq_batch_id one_line \<noteq> []"
    by (simp_all add: dedupeTTL_def duration_defs one_line_def)
  obtain ig4 where "RawHandler raw_ctx 6 one_line ?ig = (JsonResponse 200 (empty_response\<lparr>rs_duplicate := True\<rparr>), ig4)"
    using retried_batch_is_dropped[where h = RawHandler and c' = raw_ctx and now = 5 and now' = 6,
      OF _ env one_slot_gate(1) m(2) one_slot_first b(1) d b(2,3) m(1) refl one_slot_gate(2)] by blast
  with a show ?thesis by simp
qed

text \<open>C6. A record may span lines.  If the body is a sequence of records, each given as lines whose
  proper prefixes are unfinished JSON values (so pretty-printed objects qualify) and each within
  the line limit, the handler treats it exactly as the list of those records, in order.\<close>

theorem Handler_reassembles:
  assumes gate: "gate now rq ig = (None, ig1)"
    and body: "read_body (op_max_body (ig_opts ig1)) rq = (unlines (concat recs), None)"
    and start: "peekFirstNonSpace (unlines (concat recs)) = unlines (concat recs)"
      "recs \<noteq> [] \<longrightarrow> hd (unlines (concat recs)) \<noteq> CHR ''[''"
    and recs: "\<forall>r \<in> set recs. record_lines c (nat (op_max_line (ig_opts ig1))) r"
    and lines: "\<forall>l \<in> set (concat recs). scannable (line_cap (ig_opts ig1)) l"
    and out: "emit_all c now 0 (map unlines recs) \<lparr>hs_resp = empty_response, hs_overflow = False, hs_ig = ig1\<rparr> = (n, s)"
  shows "Handler c now rq ig = finish c now rq (JsonResponse (done_status s) (hs_resp s)) s"
proof -
  have nb: "\<not> (unlines (concat recs) \<noteq> [] \<and> hd (unlines (concat recs)) = CHR ''['')"
    using start(2) by (cases recs) auto
  show ?thesis
    unfolding Handler_def gate option.case prod.case Let_def body start(1) scan_unlines[OF lines]
      ndjson_records[OF recs] out using nb
    by (auto simp del: unlines_Nil_iff concat_eq_Nil_conv)
qed

definition brace_ctx :: http_ctx where
  "brace_ctx = raw_ctx\<lparr>hl_first := (\<lambda>b. if CHR ''}'' \<in> set b then FirstValue True else FirstTruncated)\<rparr>"

definition two_lines :: request where
  "two_lines = one_line\<lparr>rq_batch_id := [], rq_body := unlines [''{'', ''}'']\<rparr>"

lemma trim_brace [simp]: "trim_space ''{'' = ''{''"
  by (rule trim_space_graphic) code_simp

theorem Handler_reassembles_witness:
  "\<exists>n s. emit_all brace_ctx 5 0 [unlines [''{'', ''}'']] \<lparr>hs_resp = empty_response, hs_overflow = False, hs_ig = one_slot\<rparr> = (n, s) \<and>
     Handler brace_ctx 5 two_lines one_slot = finish brace_ctx 5 two_lines (JsonResponse (done_status s) (hs_resp s)) s"
proof -
  obtain n s where out: "emit_all brace_ctx 5 0 [unlines [''{'', ''}'']]
      \<lparr>hs_resp = empty_response, hs_overflow = False, hs_ig = one_slot\<rparr> = (n, s)" by (rule prod.exhaust)
  then have out': "emit_all brace_ctx 5 0 (map unlines [[''{'', ''}'']])
      \<lparr>hs_resp = empty_response, hs_overflow = False, hs_ig = one_slot\<rparr> = (n, s)" by (simp only: list.map)
  have g: "gate 5 two_lines one_slot = (None, one_slot)"
    by (simp add: gate_def admit_def one_slot_def new_ingestor_def two_lines_def one_line_def Allow_def
        new_limiter_def enabledLocked_def no_limits_def duplicateBatch_def)
  have opts: "op_max_body (ig_opts one_slot) = 32 * 2 ^ 20" "op_max_line (ig_opts one_slot) = 2 ^ 20"
    by (simp_all add: one_slot_def new_ingestor_def withDefaults_def zero_opts_def defaultMaxBodyBytes_def
        defaultMaxLineBytes_def)
  have k: "(\<forall>k. 0 < k \<and> k < Suc (Suc 0) \<longrightarrow> P k) = P (1 :: nat)" for P
    by (auto simp: less_Suc_eq)
  have "Handler brace_ctx 5 two_lines one_slot = finish brace_ctx 5 two_lines (JsonResponse (done_status s) (hs_resp s)) s"
    by (rule Handler_reassembles[OF g _ _ _ _ _ out'])
       (simp_all add: opts read_body_def two_lines_def one_line_def record_lines_def classifyJSON_def brace_ctx_def
         raw_ctx_def scannable_def line_cap_def k)
  with out show ?thesis by blast
qed

end
