(* ===== verification/Syslog.thy ===== *)
theory Syslog
  imports Model
begin

text \<open>
  \<^verbatim>\<open>src/internal/syslog/parse.go\<close> and \<^verbatim>\<open>server.go\<close>: parsing of RFC 5424 and RFC 3164
  messages into events, and the RFC 6587 framing of a TCP stream.  Attribute maps are association
  lists.  \<^verbatim>\<open>time.Parse\<close> of the three RFC 3164 layouts and the year of an instant in the
  process's time zone are parameters (\<open>sl_stamp\<close>, \<open>sl_year\<close>); a connection is the byte string
  the peer sends and the error that ends it.
\<close>

section \<open>Priority and severity\<close>

definition facilityNames :: "string list" where
  "facilityNames = [''kern'', ''user'', ''mail'', ''daemon'', ''auth'', ''syslog'', ''lpr'', ''news'',
     ''uucp'', ''cron'', ''authpriv'', ''ftp'', ''ntp'', ''audit'', ''alert'', ''clock'',
     ''local0'', ''local1'', ''local2'', ''local3'', ''local4'', ''local5'', ''local6'', ''local7'']"

definition severityNames :: "string list" where
  "severityNames = [''emerg'', ''alert'', ''crit'', ''err'', ''warning'', ''notice'', ''info'', ''debug'']"

definition nilValue :: string where "nilValue = ''-''"

definition facilityName :: "nat \<Rightarrow> string" where
  "facilityName f = (if f < length facilityNames then facilityNames ! f else show_nat f)"

definition severityName :: "nat \<Rightarrow> string" where
  "severityName s = (if s < length severityNames then severityNames ! s else show_nat s)"

definition parsePRI :: "string \<Rightarrow> (nat \<times> string) option" where
  "parsePRI line =
     (if length line < 3 \<or> hd line \<noteq> CHR ''<'' then None
      else case index_byte (CHR ''>'') line of
          None \<Rightarrow> None
        | Some e \<Rightarrow>
            if e < 2 \<or> e > 4 then None
            else (case parse_int (take (e - 1) (tl line)) of
                    None \<Rightarrow> None
                  | Some n \<Rightarrow> if n < 0 \<or> n > 191 then None else Some (nat n, drop (Suc e) line)))"

definition isRFC5424 :: "string \<Rightarrow> bool" where
  "isRFC5424 rest =
     (let ds = takeWhile is_digit rest; r = dropWhile is_digit rest
      in ds \<noteq> [] \<and> r \<noteq> [] \<and> hd r = CHR '' '')"

definition unNil :: "string \<Rightarrow> string" where
  "unNil s = (if s = nilValue then [] else s)"

definition stripBOM :: "string \<Rightarrow> string" where
  "stripBOM s = trim_prefix [char_of (0xEF :: nat), char_of (0xBB :: nat), char_of (0xBF :: nat)] s"

section \<open>Structured data\<close>

abbreviation bslash :: char where "bslash \<equiv> CHR 0x5C"
abbreviation dquote :: char where "dquote \<equiv> CHR 0x22"

text \<open>The index of the bracket that closes the block, with the loop's three variables.\<close>

fun sd_end :: "bool \<Rightarrow> bool \<Rightarrow> int \<Rightarrow> string \<Rightarrow> nat option" where
  "sd_end inQuote escaped depth [] = None"
| "sd_end inQuote escaped depth (c # cs) =
     (if escaped then map_option Suc (sd_end inQuote False depth cs)
      else if c = bslash then map_option Suc (sd_end inQuote True depth cs)
      else if c = dquote then map_option Suc (sd_end (\<not> inQuote) False depth cs)
      else if inQuote then map_option Suc (sd_end inQuote False depth cs)
      else if c = CHR ''['' then map_option Suc (sd_end inQuote False (depth + 1) cs)
      else if c = CHR '']'' then
        (if depth - 1 = 0 \<and> \<not> (cs \<noteq> [] \<and> hd cs = CHR ''['') then Some 0
         else map_option Suc (sd_end inQuote False (depth - 1) cs))
      else map_option Suc (sd_end inQuote False depth cs))"

definition splitStructuredData :: "string \<Rightarrow> string \<times> string" where
  "splitStructuredData s0 =
     (let s = trim_left '' '' s0
      in if prefix nilValue s then ([], trim_prefix '' '' (tl s))
         else if \<not> prefix ''['' s then ([], s)
         else case sd_end False False 0 s of
             Some i \<Rightarrow> (take (Suc i) s, trim_prefix '' '' (drop (Suc i) s))
           | None \<Rightarrow> (s, []))"

text \<open>\<open>cur\<close> is the element being read (\<^verbatim>\<open>start >= 0\<close>).\<close>

fun split_elems :: "bool \<Rightarrow> bool \<Rightarrow> string option \<Rightarrow> string \<Rightarrow> string list" where
  "split_elems inQuote escaped cur [] = []"
| "split_elems inQuote escaped cur (c # cs) =
     (let cur' = map_option (\<lambda>a. a @ [c]) cur
      in if escaped then split_elems inQuote False cur' cs
         else if c = bslash then split_elems inQuote True cur' cs
         else if c = dquote then split_elems (\<not> inQuote) False cur' cs
         else if inQuote then split_elems inQuote False cur' cs
         else if c = CHR ''['' then split_elems inQuote False (if cur = None then Some [] else cur') cs
         else if c = CHR '']'' then
           (case cur of Some a \<Rightarrow> a # split_elems inQuote False None cs
            | None \<Rightarrow> split_elems inQuote False None cs)
         else split_elems inQuote False cur' cs)"

definition splitElements :: "string \<Rightarrow> string list" where
  "splitElements sd = split_elems False False None sd"

text \<open>\<^verbatim>\<open>readQuoted\<close> after the opening quote: value, rest and whether the quote was closed.\<close>

fun read_quoted :: "bool \<Rightarrow> string \<Rightarrow> string \<times> string \<times> bool" where
  "read_quoted escaped [] = ([], [], False)"
| "read_quoted escaped (c # cs) =
     (if escaped then (case read_quoted False cs of (v, r, ok) \<Rightarrow> (c # v, r, ok))
      else if c = bslash then read_quoted True cs
      else if c = dquote then ([], cs, True)
      else (case read_quoted False cs of (v, r, ok) \<Rightarrow> (c # v, r, ok)))"

definition readQuoted :: "string \<Rightarrow> string \<times> string \<times> bool" where
  "readQuoted s = (if \<not> prefix [dquote] s then ([], s, False) else read_quoted False (tl s))"

lemma read_quoted_rest: "length (fst (snd (read_quoted esc s))) \<le> length s"
  by (induction esc s rule: read_quoted.induct) (auto split: prod.split, blast intro: le_SucI)

lemma read_quoted_length: "read_quoted esc s = (v, r, ok) \<Longrightarrow> length r \<le> length s"
  using read_quoted_rest[of esc s] by simp

lemma length_trim_left: "length (trim_left cs s) \<le> length s"
  by (simp add: trim_left_def length_dropWhile_le)

function sd_params :: "string \<Rightarrow> (string \<times> string) list \<Rightarrow> (string \<times> string) list" where
  "sd_params rest0 params =
     (let rest = trim_left '' '' rest0
      in if rest = [] then params
         else case index_byte (CHR ''='') rest of
             None \<Rightarrow> params
           | Some eq \<Rightarrow>
               (let r = drop (Suc eq) rest
                in if \<not> prefix [dquote] r then params
                   else case readQuoted r of
                       (v, remainder, ok) \<Rightarrow>
                         if \<not> ok then params
                         else sd_params remainder (AList.update (take eq rest) v params)))"
  by pat_completeness auto
termination
proof (relation "measure (\<lambda>(r, _). length r)")
  fix rest0 params rest eq r v y remainder ok
  assume h: "rest = trim_left '' '' rest0" "rest \<noteq> []" "index_byte (CHR ''='') rest = Some eq"
    "r = drop (Suc eq) rest" "\<not> \<not> prefix [dquote] r" "(v, y) = readQuoted r" "(remainder, ok) = y" "\<not> \<not> ok"
  then have "read_quoted False (tl r) = (v, remainder, ok)" by (simp add: readQuoted_def)
  then have "length remainder \<le> length (tl r)" by (rule read_quoted_length)
  also have "\<dots> < length rest" using h(2,4) by (cases rest) auto
  also have "\<dots> \<le> length rest0" using h(1) length_trim_left by simp
  finally show "((remainder, AList.update (take eq rest) v params), rest0, params) \<in> measure (\<lambda>(r, _). length r)" by simp
qed simp

declare sd_params.simps [simp del]

definition splitElementID :: "string \<Rightarrow> string \<times> (string \<times> string) list" where
  "splitElementID elem0 =
     (let elem = trim_space elem0
      in case index_byte (CHR '' '') elem of
           None \<Rightarrow> (elem, [])
         | Some sp \<Rightarrow> (take sp elem, sd_params (drop (Suc sp) elem) []))"

definition sd_element :: "(string \<times> any) list \<Rightarrow> string \<Rightarrow> (string \<times> any) list" where
  "sd_element out elem =
     (case splitElementID elem of
        (sid, params) \<Rightarrow>
          if sid = [] then out
          else if params = [] then AList.update sid (ABool True) out
          else foldl (\<lambda>m (k, v). AList.update (sid @ ''.'' @ k) (AStr v) m) out params)"

definition parseStructuredData :: "string \<Rightarrow> (string \<times> any) list" where
  "parseStructuredData sd = foldl sd_element [] (splitElements sd)"

section \<open>RFC 5424\<close>

fun take_fields :: "nat \<Rightarrow> string \<Rightarrow> string list \<times> string" where
  "take_fields 0 s = ([], s)"
| "take_fields (Suc n) s =
     (case index_byte (CHR '' '') s of
        None \<Rightarrow> ([s], [])
      | Some k \<Rightarrow> (let (fs, r) = take_fields n (drop (Suc k) s) in (take k s # fs, r)))"

definition set_attr :: "string \<Rightarrow> string \<Rightarrow> logevent \<Rightarrow> logevent" where
  "set_attr k v e = e\<lparr>ev_attrs := AList.update k (AStr v) (ev_attrs e)\<rparr>"

definition parse5424 :: "golib \<Rightarrow> string \<Rightarrow> logevent \<Rightarrow> logevent" where
  "parse5424 lib rest e0 =
     (case take_fields 6 rest of
        (flds, remainder) \<Rightarrow>
          if length flds < 6 then e0\<lparr>ev_message := trim_space rest\<rparr>
          else (let ts = unNil (flds ! 1);
                    e1 = (if ts = [] then e0 else case lib_rfc3339 lib ts of Some t \<Rightarrow> e0\<lparr>ev_timestamp := t\<rparr> | None \<Rightarrow> e0);
                    e2 = e1\<lparr>ev_source := unNil (flds ! 2), ev_service := unNil (flds ! 3)\<rparr>;
                    procID = unNil (flds ! 4); msgID = unNil (flds ! 5);
                    e3 = (if procID \<noteq> [] then set_attr ''procid'' procID e2 else e2);
                    e4 = (if msgID \<noteq> [] then set_attr ''msgid'' msgID e3 else e3);
                    (sd, msg) = splitStructuredData remainder
                in e4\<lparr>ev_attrs := foldl (\<lambda>m (k, v). AList.update k v m) (ev_attrs e4) (parseStructuredData sd),
                      ev_message := trim_space (stripBOM msg)\<rparr>))"

section \<open>RFC 3164\<close>

definition days_from_civil :: "int \<Rightarrow> int \<Rightarrow> int \<Rightarrow> int" where
  "days_from_civil y m d =
     (let y' = (if m \<le> 2 then y - 1 else y); era = y' div 400; yoe = y' - era * 400;
          doy = (153 * ((m + 9) mod 12) + 2) div 5 + d - 1
      in era * 146097 + yoe * 365 + yoe div 4 - yoe div 100 + doy - 719468)"

text \<open>A parsed stamp: year (0 if absent), month, day and the time of day.\<close>

record stamp =
  st_year :: int
  st_month :: int
  st_day :: int
  st_clock :: duration

text \<open>\<^verbatim>\<open>time.Date\<close> and \<^verbatim>\<open>AddDate\<close> normalise the one parsed day a year may lack, 29 February, to 1 March.\<close>

definition norm_day :: "int \<Rightarrow> stamp \<Rightarrow> stamp" where
  "norm_day y s =
     (if st_month s = 2 \<and> st_day s = 29 \<and> \<not> (y mod 4 = 0 \<and> (y mod 100 \<noteq> 0 \<or> y mod 400 = 0))
      then s\<lparr>st_month := 3, st_day := 1\<rparr> else s)"

definition date_utc :: "int \<Rightarrow> stamp \<Rightarrow> time" where
  "date_utc y s = days_from_civil y (st_month s) (st_day s) * (24 * hour) + st_clock s"

record syslib = golib +
  sl_stamp :: "nat \<Rightarrow> string \<Rightarrow> stamp option"
  sl_year :: "time \<Rightarrow> int"

definition rfc3164Layouts :: "string list" where
  "rfc3164Layouts = [''Jan _2 15:04:05'', ''Jan 02 15:04:05'', ''Jan _2 2006 15:04:05'']"

text \<open>The first layout that fits, with the missing year filled in.\<close>

definition stamp_time :: "syslib \<Rightarrow> time \<Rightarrow> stamp \<Rightarrow> time" where
  "stamp_time lib now s =
     (if st_year s = 0
      then let y = sl_year lib now; d = norm_day y s; t = date_utc y d
           in if time_sub t now > 24 * hour then date_utc (y - 1) (norm_day (y - 1) d) else t
      else date_utc (st_year s) s)"

fun first_layout :: "syslib \<Rightarrow> nat list \<Rightarrow> string \<Rightarrow> stamp option" where
  "first_layout lib [] st = None"
| "first_layout lib (l # ls) st = (case sl_stamp lib l st of Some s \<Rightarrow> Some s | None \<Rightarrow> first_layout lib ls st)"

definition time_3339 :: "syslib \<Rightarrow> string \<Rightarrow> logevent \<Rightarrow> logevent \<times> string" where
  "time_3339 lib rest e =
     (case index_byte (CHR '' '') rest of
        Some sp \<Rightarrow> if sp = 0 then (e, rest)
          else (case lib_rfc3339 (golib.truncate lib) (take sp rest) of
                  Some t \<Rightarrow> (e\<lparr>ev_timestamp := t\<rparr>, trim_left '' '' (drop (Suc sp) rest))
                | None \<Rightarrow> (e, rest))
      | None \<Rightarrow> (e, rest))"

definition time_3164 :: "syslib \<Rightarrow> time \<Rightarrow> string \<Rightarrow> logevent \<Rightarrow> logevent \<times> string" where
  "time_3164 lib now rest e =
     (if is_zero (ev_timestamp e) \<and> length rest \<ge> 15
      then case first_layout lib [0..<length rfc3164Layouts] (take 15 rest) of
             Some s \<Rightarrow> (e\<lparr>ev_timestamp := stamp_time lib now s\<rparr>, trim_left '' '' (drop 15 rest))
           | None \<Rightarrow> (e, rest)
      else (e, rest))"

definition host_3164 :: "string \<Rightarrow> logevent \<Rightarrow> logevent \<times> string" where
  "host_3164 rest e =
     (case index_byte (CHR '' '') rest of
        Some sp \<Rightarrow> if sp = 0 then (e, rest)
          else (e\<lparr>ev_source := take sp rest\<rparr>, trim_left '' '' (drop (Suc sp) rest))
      | None \<Rightarrow> (e, rest))"

definition tag_3164 :: "string \<Rightarrow> logevent \<Rightarrow> logevent \<times> string" where
  "tag_3164 rest e =
     (case index_byte (CHR '':'') rest of
        Some colon \<Rightarrow>
          if colon > 0 \<and> colon \<le> 48 \<and> CHR '' '' \<notin> set (take colon rest)
          then (let tag = take colon rest;
                    (e1, tag1) = (case index_byte (CHR ''['') tag of
                        Some opn \<Rightarrow> if opn > 0 \<and> suffix '']'' tag
                          then (set_attr ''procid'' (butlast (drop (Suc opn) tag)) e, take opn tag) else (e, tag)
                      | None \<Rightarrow> (e, tag))
                in (e1\<lparr>ev_service := tag1\<rparr>, trim_left '' '' (drop (Suc colon) rest)))
          else (e, rest)
      | None \<Rightarrow> (e, rest))"

definition parse3164 :: "syslib \<Rightarrow> time \<Rightarrow> string \<Rightarrow> logevent \<Rightarrow> logevent" where
  "parse3164 lib now rest0 e0 =
     (let (e1, r1) = time_3339 lib (trim_left '' '' rest0) e0;
          (e2, r2) = time_3164 lib now r1 e1;
          (e3, r3) = host_3164 r2 e2;
          (e4, r4) = tag_3164 r3 e3
      in e4\<lparr>ev_message := trim_space r4\<rparr>)"

section \<open>One message\<close>

definition trailer :: string where "trailer = [CHR 0x0D, CHR 0x0A, CHR 0x00]"

definition Parse_syslog :: "syslib \<Rightarrow> time \<Rightarrow> byte list \<Rightarrow> string \<Rightarrow> logevent" where
  "Parse_syslog lib now rnd line0 =
     (let line = trim_right trailer line0; e = empty_event\<lparr>ev_raw := line\<rparr>
      in case parsePRI line of
           None \<Rightarrow> Normalize now rnd (e\<lparr>ev_message := trim_space line\<rparr>)
         | Some (pri, rest) \<Rightarrow>
             (let facility = pri div 8; severity = pri mod 8;
                  e1 = e\<lparr>ev_attrs := [(''syslog_facility'', AStr (facilityName facility)),
                              (''syslog_severity'', AStr (severityName severity))],
                         ev_level := ParseLevel (show_nat severity)\<rparr>
              in Normalize now rnd
                   (if isRFC5424 rest then parse5424 (golib.truncate lib) rest e1 else parse3164 lib now rest e1)))"

section \<open>The server\<close>

definition maxLineBytes :: nat where "maxLineBytes = 2 ^ 20"
definition maxDatagramBytes :: nat where "maxDatagramBytes = 64 * 1024"
definition maxConns :: nat where "maxConns = 512"

datatype frame_error = StreamEnd | StreamError | ImplausibleLength | OverLimit

text \<open>
  What is left of the connection: the bytes still to come and the error (EOF, reset, idle timeout)
  that follows them.
\<close>

type_synonym stream = "string \<times> frame_error"

text \<open>\<^verbatim>\<open>bufio.Reader.ReadString('\n')\<close>: the data up to and including the newline, or all of it and the error.\<close>

definition read_string :: "stream \<Rightarrow> string \<times> frame_error option \<times> stream" where
  "read_string st =
     (case index_byte (CHR 0x0A) (fst st) of
        Some k \<Rightarrow> (take (Suc k) (fst st), None, (drop (Suc k) (fst st), snd st))
      | None \<Rightarrow> (fst st, Some (snd st), ([], snd st)))"

function readLineLimited :: "string \<Rightarrow> stream \<Rightarrow> string \<times> frame_error option \<times> stream" where
  "readLineLimited b st =
     (case read_string st of
        (chunk, err, st') \<Rightarrow>
          if err \<noteq> None then (b @ chunk, err, st')
          else if suffix [CHR 0x0A] chunk then (b @ chunk, None, st')
          else if length (b @ chunk) > maxLineBytes then (b @ chunk, Some OverLimit, st')
          else readLineLimited (b @ chunk) st')"
  by pat_completeness auto
termination
proof (relation "measure (\<lambda>(_, st). length (fst st))")
  fix b :: string and st chunk y err st'
  assume "(chunk, y) = read_string st" "(err, st') = y" "\<not> err \<noteq> None"
  then have "read_string st = (chunk, None, st')" by simp
  then have "length (fst st') < length (fst st)"
    by (cases st) (auto simp: read_string_def split: option.split_asm dest!: index_byte_Some)
  then show "((b @ chunk, st'), b, st) \<in> measure (\<lambda>(_, st). length (fst st))" by simp
qed simp

declare readLineLimited.simps [simp del]

definition crlf :: string where "crlf = [CHR 0x0D, CHR 0x0A]"

text \<open>The digits of an octet count, at most ten: the digits, the error or the offending byte.\<close>

datatype digits_end = DigitsSpace | DigitsFull | DigitsOther | DigitsError frame_error

fun read_digits :: "nat \<Rightarrow> stream \<Rightarrow> string \<times> digits_end \<times> stream" where
  "read_digits 0 st = ([], DigitsFull, st)"
| "read_digits (Suc n) (s, fin) =
     (case s of
        [] \<Rightarrow> ([], DigitsError fin, ([], fin))
      | b # bs \<Rightarrow>
          if b = CHR '' '' then ([], DigitsSpace, (bs, fin))
          else if \<not> is_digit b then ([], DigitsOther, (b # bs, fin))
          else (case read_digits n (bs, fin) of (ds, e, st) \<Rightarrow> (b # ds, e, st)))"

definition readOctetCounted :: "stream \<Rightarrow> string \<times> frame_error option \<times> stream" where
  "readOctetCounted st0 =
     (case read_digits 10 st0 of
        (ds, DigitsError e, st) \<Rightarrow> ([], Some e, st)
      | (ds, DigitsOther, st) \<Rightarrow> (case readLineLimited [] st of
           (line, err, st') \<Rightarrow> (ds @ trim_right crlf line, err, st'))
      | (ds, _, st) \<Rightarrow>
          (case parse_int ds of
             None \<Rightarrow> ([], Some ImplausibleLength, st)
           | Some n \<Rightarrow>
               if n < 0 \<or> n > int maxLineBytes then ([], Some ImplausibleLength, st)
               else if length (fst st) < nat n then ([], Some (snd st), ([], snd st))
               else (take (nat n) (fst st), None, (drop (nat n) (fst st), snd st))))"

definition readFrame :: "stream \<Rightarrow> string \<times> frame_error option \<times> stream" where
  "readFrame st =
     (case fst st of
        [] \<Rightarrow> ([], Some (snd st), st)
      | b # _ \<Rightarrow>
          if is_digit b then readOctetCounted st
          else (case readLineLimited [] st of (line, err, st') \<Rightarrow> (trim_right crlf line, err, st')))"

record syslog_server =
  ss_closed :: bool
  ss_conns :: "nat list"
  ss_received :: int
  ss_dropped :: int
  ss_malformed :: int

definition trackConn :: "nat \<Rightarrow> syslog_server \<Rightarrow> bool \<times> syslog_server" where
  "trackConn c s =
     (if ss_closed s \<or> length (ss_conns s) \<ge> maxConns then (False, s)
      else (True, s\<lparr>ss_conns := List.insert c (ss_conns s)\<rparr>))"

definition untrackConn :: "nat \<Rightarrow> syslog_server \<Rightarrow> syslog_server" where
  "untrackConn c s = s\<lparr>ss_conns := removeAll c (ss_conns s)\<rparr>"

definition Stop_syslog :: "syslog_server \<Rightarrow> syslog_server" where
  "Stop_syslog s = (if ss_closed s then s else s\<lparr>ss_closed := True\<rparr>)"

text \<open>\<^verbatim>\<open>handle\<close>: the events offered to the sink, whose answer is an argument, and the counters.\<close>

definition handle :: "syslib \<Rightarrow> time \<Rightarrow> byte list \<Rightarrow> (logevent \<Rightarrow> bool) \<Rightarrow> string \<Rightarrow> syslog_server \<Rightarrow> logevent option \<times> syslog_server" where
  "handle lib now rnd sink raw0 s =
     (let raw = trim_space raw0
      in if raw = [] then (None, s)
         else let e = Parse_syslog lib now rnd raw
              in (Some e, s\<lparr>ss_malformed := ss_malformed s + (if ev_message e = [] \<and> ev_raw e \<noteq> [] then 1 else 0),
                       ss_received := ss_received s + 1,
                       ss_dropped := ss_dropped s + (if sink e then 0 else 1)\<rparr>))"

text \<open>One datagram: \<^verbatim>\<open>ReadFrom\<close> truncates to the buffer.\<close>

definition serveUDP :: "syslib \<Rightarrow> time \<Rightarrow> byte list \<Rightarrow> (logevent \<Rightarrow> bool) \<Rightarrow> string \<Rightarrow> syslog_server \<Rightarrow> logevent option \<times> syslog_server" where
  "serveUDP lib now rnd sink datagram s =
     (let d = take maxDatagramBytes datagram in if d = [] then (None, s) else handle lib now rnd sink d s)"

text \<open>
  A chunk that \<^verbatim>\<open>ReadString\<close> returns without an error ends with the newline, so the loop of
  \<^verbatim>\<open>readLineLimited\<close> never gets to its size check.
\<close>

lemma readLineLimited_eq:
  "readLineLimited b st = (case read_string st of (chunk, err, st') \<Rightarrow> (b @ chunk, err, st'))"
proof (cases "index_byte (CHR 0x0A) (fst st)")
  case (Some k)
  then have "suffix [CHR 0x0A] (take (Suc k) (fst st))"
    using index_byte_Some[OF Some] by (auto simp: take_Suc_conv_app_nth)
  then show ?thesis using Some by (subst readLineLimited.simps) (simp add: read_string_def)
qed (subst readLineLimited.simps, simp add: read_string_def)

lemma readLine_shrinks:
  assumes "readLineLimited b st = (m, err, st')"
  shows "length (fst st') \<le> length (fst st) \<and> (fst st \<noteq> [] \<longrightarrow> length (fst st') < length (fst st))"
  using assms by (auto simp: readLineLimited_eq read_string_def split: option.split_asm)

lemma read_digits_le: "length (fst (snd (snd (read_digits n st)))) \<le> length (fst st)"
proof (induction n st rule: read_digits.induct)
  case (2 n s fin)
  show ?case
  proof (cases s)
    case (Cons b bs)
    then show ?thesis using 2[OF Cons] by (auto split: prod.split)
  qed simp
qed simp

lemma read_digits_shrinks:
  assumes "read_digits (Suc n) (b # bs, fin) = (ds, e, st')" "is_digit b"
  shows "length (fst st') < length (b # bs)"
proof -
  have "b \<noteq> CHR '' ''" using assms(2) by (auto simp: is_digit_def)
  then have "st' = snd (snd (read_digits n (bs, fin)))" using assms by (auto split: prod.split_asm)
  then show ?thesis using read_digits_le[of n "(bs, fin)"] by simp
qed

text \<open>Every frame that is read without an error takes at least one byte off the stream.\<close>

lemma readFrame_shrinks:
  assumes "readFrame st = (m, None, st')"
  shows "length (fst st') < length (fst st)"
proof (cases "fst st")
  case Nil
  then show ?thesis using assms by (simp add: readFrame_def)
next
  case (Cons b bs)
  show ?thesis
  proof (cases "is_digit b")
    case False
    then show ?thesis using assms Cons readLine_shrinks[of "[]" st]
      by (auto simp: readFrame_def split: prod.split_asm)
  next
    case True
    obtain ds e st1 where d: "read_digits 10 st = (ds, e, st1)" by (metis prod_cases3)
    have ten: "(10 :: nat) = Suc 9" and st: "st = (b # bs, snd st)" using Cons by (simp_all add: prod_eq_iff)
    have "read_digits (Suc 9) (b # bs, snd st) = (ds, e, st1)" using d unfolding ten by (subst (asm) st)
    from read_digits_shrinks[OF this True] have l: "length (fst st1) < length (fst st)" using Cons by simp
    have o: "readOctetCounted st = (m, None, st')" using assms Cons True by (simp add: readFrame_def)
    show ?thesis
    proof (cases e)
      case DigitsOther
      then obtain line where "readLineLimited [] st1 = (line, None, st')"
        using o d by (auto simp: readOctetCounted_def split: prod.split_asm)
      then show ?thesis using l readLine_shrinks by fastforce
    qed (use o d l in \<open>auto simp: readOctetCounted_def split: option.split_asm if_split_asm\<close>)
  qed
qed

text \<open>The messages \<^verbatim>\<open>serveConn\<close> hands to \<^verbatim>\<open>handle\<close>, in order, and the error that ended it.\<close>

function serveConn :: "stream \<Rightarrow> string list \<times> frame_error" where
  "serveConn st =
     (case readFrame st of
        (msg, err, st') \<Rightarrow>
          (let here = (if msg \<noteq> [] then [msg] else [])
           in case err of
                Some e \<Rightarrow> (here, e)
              | None \<Rightarrow> (case serveConn st' of (ms, e) \<Rightarrow> (here @ ms, e))))"
  by pat_completeness auto
termination
proof (relation "measure (\<lambda>st. length (fst st))")
  fix st msg y err st' and here :: "string list"
  assume "(msg, y) = readFrame st" "(err, st') = y" "err = None"
  then have "readFrame st = (msg, None, st')" by simp
  then show "(st', st) \<in> measure (\<lambda>st. length (fst st))" using readFrame_shrinks by simp
qed simp

declare serveConn.simps [simp del]

section \<open>Framing\<close>

datatype frame = Octets string | Line string

fun frame_msg :: "frame \<Rightarrow> string" where
  "frame_msg (Octets m) = m"
| "frame_msg (Line m) = m"

text \<open>How a sender writes a message in either framing, and which messages it may frame that way.\<close>

fun render_frame :: "frame \<Rightarrow> string" where
  "render_frame (Octets m) = show_nat (length m) @ '' '' @ m"
| "render_frame (Line m) = m @ [CHR 0x0A]"

fun frame_ok :: "frame \<Rightarrow> bool" where
  "frame_ok (Octets m) \<longleftrightarrow> m \<noteq> [] \<and> length m \<le> maxLineBytes"
| "frame_ok (Line m) \<longleftrightarrow> m \<noteq> [] \<and> \<not> is_digit (hd m) \<and> CHR 0x0A \<notin> set m \<and> last m \<noteq> CHR 0x0D"

lemma length_show_nat: "n < 10 ^ k \<Longrightarrow> 0 < k \<Longrightarrow> length (show_nat n) \<le> k"
proof (induction n arbitrary: k rule: show_nat.induct)
  case (1 n)
  show ?case
  proof (cases "n < 10")
    case True
    then show ?thesis using 1(3) by (subst show_nat.simps) simp
  next
    case False
    then obtain j where j: "k = Suc (Suc j)" using 1(2,3) by (cases k; cases "k - 1") auto
    then have "n div 10 < 10 ^ Suc j" using 1(2) by (simp add: less_mult_imp_div_less mult.commute)
    from 1(1)[OF False this] show ?thesis using j False by (subst show_nat.simps) simp
  qed
qed

lemma read_digits_number:
  "list_all is_digit ds \<Longrightarrow> length ds < n \<Longrightarrow> read_digits n (ds @ CHR '' '' # rest, fin) = (ds, DigitsSpace, (rest, fin))"
proof (induction ds arbitrary: n)
  case Nil
  then show ?case by (cases n) simp_all
next
  case (Cons d ds)
  then have "d \<noteq> CHR '' ''" by (auto simp: is_digit_def)
  with Cons show ?case by (cases n) simp_all
qed

lemma trim_right_line: "m \<noteq> [] \<Longrightarrow> last m \<notin> set crlf \<Longrightarrow> trim_right crlf (m @ [CHR 0x0A]) = m"
  by (cases m rule: rev_cases) (simp_all add: trim_right_def crlf_def)

lemma readFrame_render:
  assumes "frame_ok f"
  shows "readFrame (render_frame f @ rest, fin) = (frame_msg f, None, (rest, fin))"
proof (cases f)
  case (Octets m)
  let ?n = "show_nat (length m)"
  have m: "m \<noteq> []" "length m \<le> maxLineBytes" using assms Octets by simp_all
  obtain d ds where n: "?n = d # ds" "is_digit d" using show_nat_hd by blast
  have "length m < 10 ^ 9" using m(2) by (simp add: maxLineBytes_def)
  then have "length ?n < 10" using length_show_nat[of "length m" 9] by (simp add: less_Suc_eq_le)
  then have rd: "read_digits 10 (?n @ CHR '' '' # m @ rest, fin) = (?n, DigitsSpace, (m @ rest, fin))"
    using read_digits_number show_nat_digits by blast
  have "parse_int ?n = Some (int (length m))"
    using parse_int_show[of "int (length m)"] m(2) by (simp add: show_int_def maxLineBytes_def i64_range_def)
  then have "readOctetCounted (?n @ CHR '' '' # m @ rest, fin) = (m, None, (rest, fin))"
    using rd m(2) by (simp add: readOctetCounted_def)
  then show ?thesis using Octets n by (simp add: readFrame_def)
next
  case (Line m)
  then have m: "m \<noteq> []" "\<not> is_digit (hd m)" "CHR 0x0A \<notin> set m" "last m \<noteq> CHR 0x0D" using assms by simp_all
  have "last m \<noteq> CHR 0x0A" using m(1,3) by (metis last_in_set)
  then have "trim_right crlf (m @ [CHR 0x0A]) = m" using trim_right_line[OF m(1)] m(4) by (simp add: crlf_def)
  then show ?thesis using Line m(1,2) index_byte_append[OF m(3), of rest]
    by (cases m) (simp_all add: readFrame_def readLineLimited_eq read_string_def del: index_byte.simps)
qed

lemma frame_msg_ne: "frame_ok f \<Longrightarrow> frame_msg f \<noteq> []"
  by (cases f) auto

section \<open>Properties of the framing\<close>

text \<open>Both RFC 6587 framings, mixed freely on one connection, are undone exactly: the messages
  handed on are the ones that were framed, in order, octet-counted ones of up to 1 MiB with any
  bytes in them, and the connection ends with its own error.\<close>

theorem frames_roundtrip:
  assumes "\<forall>f \<in> set fs. frame_ok f"
  shows "serveConn (concat (map render_frame fs), fin) = (map frame_msg fs, fin)"
  using assms
proof (induction fs)
  case Nil
  show ?case by (subst serveConn.simps) (simp add: readFrame_def)
next
  case (Cons f fs)
  then show ?case
    by (subst serveConn.simps) (simp add: readFrame_render frame_msg_ne)
qed

theorem frames_roundtrip_witness:
  "serveConn (''3 a b<0>x'' @ [CHR 0x0A], StreamEnd) = ([''a b'', ''<0>x''], StreamEnd)"
proof -
  have "render_frame (Octets ''a b'') = ''3 a b''" by code_simp
  then show ?thesis
    using frames_roundtrip[of "[Octets ''a b'', Line ''<0>x'']" StreamEnd]
    by (simp add: maxLineBytes_def is_digit_def)
qed

text \<open>The line limit is dead code.  \<^verbatim>\<open>readLineLimited\<close> never reports it, and a sender that never
  sends a newline has everything it sends buffered into one message, however long.\<close>

theorem line_limit_unreachable:
  "fst (snd (readLineLimited b (s, StreamEnd))) \<noteq> Some OverLimit \<and>
   (CHR 0x0A \<notin> set s \<longrightarrow> readLineLimited b (s, fin) = (b @ s, Some fin, ([], fin)))"
proof
  show "fst (snd (readLineLimited b (s, StreamEnd))) \<noteq> Some OverLimit"
    by (simp add: readLineLimited_eq read_string_def split: option.split)
  show "CHR 0x0A \<notin> set s \<longrightarrow> readLineLimited b (s, fin) = (b @ s, Some fin, ([], fin))"
  proof
    assume "CHR 0x0A \<notin> set s"
    then have "index_byte (CHR 0x0A) s = None" by (simp add: index_byte_None)
    then show "readLineLimited b (s, fin) = (b @ s, Some fin, ([], fin))"
      by (simp add: readLineLimited_eq read_string_def)
  qed
qed

theorem line_limit_unreachable_witness:
  "readLineLimited [] (replicate (2 * maxLineBytes) (CHR ''x''), StreamError)
   = (replicate (2 * maxLineBytes) (CHR ''x''), Some StreamError, ([], StreamError))"
  using line_limit_unreachable[of "[]" "replicate (2 * maxLineBytes) (CHR ''x'')" StreamError]
  by (auto simp: in_set_replicate)

text \<open>\<^verbatim>\<open>serveConn\<close> stopped after a number of iterations.\<close>

fun serve_fuel :: "nat \<Rightarrow> stream \<Rightarrow> (string list \<times> frame_error) option" where
  "serve_fuel 0 st = None"
| "serve_fuel (Suc n) st =
     (case readFrame st of
        (msg, err, st') \<Rightarrow>
          (let here = (if msg \<noteq> [] then [msg] else [])
           in case err of
                Some e \<Rightarrow> Some (here, e)
              | None \<Rightarrow> map_option (\<lambda>(ms, e). (here @ ms, e)) (serve_fuel n st')))"

text \<open>The loop over a connection ends.  One iteration per byte the peer sent, and one for the
  error, always suffice: no framing, however malformed, makes the server spin without consuming
  input.\<close>

theorem serveConn_terminates:
  assumes "length (fst st) < n"
  shows "serve_fuel n st = Some (serveConn st)"
  using assms
proof (induction n arbitrary: st)
  case (Suc n)
  obtain msg err st' where r: "readFrame st = (msg, err, st')" by (cases "readFrame st")
  show ?case
  proof (cases err)
    case None
    then have "length (fst st') < n" using readFrame_shrinks[of st msg st'] r Suc.prems by simp
    then have "serve_fuel n st' = Some (serveConn st')" by (rule Suc.IH)
    then show ?thesis using r None by (subst serveConn.simps) (simp split: prod.split)
  qed (subst serveConn.simps, simp add: r)
qed simp

theorem serveConn_terminates_witness:
  "serve_fuel 9 (''12x<0>y'', StreamEnd) = Some (serveConn (''12x<0>y'', StreamEnd)) \<and>
   serveConn (''12x<0>y'', StreamEnd) = ([''12x<0>y''], StreamEnd)"
proof
  show *: "serve_fuel 9 (''12x<0>y'', StreamEnd) = Some (serveConn (''12x<0>y'', StreamEnd))"
    by (rule serveConn_terminates) simp
  have "serve_fuel 9 (''12x<0>y'', StreamEnd) = Some ([''12x<0>y''], StreamEnd)" by code_simp
  with * show "serveConn (''12x<0>y'', StreamEnd) = ([''12x<0>y''], StreamEnd)" by simp
qed

section \<open>Rendering RFC 5424\<close>

record message5424 =
  m_pri :: nat
  m_version :: string
  m_stamp :: string
  m_host :: string
  m_app :: string
  m_proc :: string
  m_msgid :: string
  m_sd :: "(string \<times> (string \<times> string) list) list"
  m_msg :: string

text \<open>Parameter values escape the quote, the backslash and the closing bracket.\<close>

definition esc :: "string \<Rightarrow> string" where
  "esc v = concat (map (\<lambda>c. if c \<in> {dquote, bslash, CHR '']''} then [bslash, c] else [c]) v)"

lemma esc_simps [simp]: "esc [] = []"
  "esc (c # v) = (if c \<in> {dquote, bslash, CHR '']''} then [bslash, c] else [c]) @ esc v"
  by (simp_all add: esc_def)

definition render_param :: "string \<times> string \<Rightarrow> string" where
  "render_param p = '' '' @ fst p @ ''='' @ [dquote] @ esc (snd p) @ [dquote]"

definition render_elem :: "string \<times> (string \<times> string) list \<Rightarrow> string" where
  "render_elem e = fst e @ concat (map render_param (snd e))"

definition render_sd :: "(string \<times> (string \<times> string) list) list \<Rightarrow> string" where
  "render_sd sd = (if sd = [] then ''-'' else concat (map (\<lambda>e. ''['' @ render_elem e @ '']'') sd))"

definition render5424 :: "message5424 \<Rightarrow> string" where
  "render5424 m = ''<'' @ show_nat (m_pri m) @ ''>'' @ m_version m @ '' '' @ m_stamp m @ '' '' @ m_host m @ '' '' @
     m_app m @ '' '' @ m_proc m @ '' '' @ m_msgid m @ '' '' @ render_sd (m_sd m) @ '' '' @ m_msg m"

text \<open>Names of elements and parameters: printable, without the five characters of the syntax.\<close>

definition sd_name :: "string \<Rightarrow> bool" where
  "sd_name s \<longleftrightarrow> s \<noteq> [] \<and> list_all (\<lambda>c. graphic c \<and> c \<notin> {dquote, bslash, CHR '']'', CHR ''['', CHR ''=''}) s"

definition elem_ok :: "string \<times> (string \<times> string) list \<Rightarrow> bool" where
  "elem_ok e \<longleftrightarrow> sd_name (fst e) \<and> (\<forall>p \<in> set (snd e). sd_name (fst p)) \<and> distinct (map fst (snd e))"

definition field_ok :: "string \<Rightarrow> bool" where
  "field_ok s \<longleftrightarrow> CHR '' '' \<notin> set s"

definition message_ok :: "message5424 \<Rightarrow> bool" where
  "message_ok m \<longleftrightarrow> m_pri m \<le> 191 \<and> m_version m \<noteq> [] \<and> list_all is_digit (m_version m) \<and>
     list_all field_ok [m_stamp m, m_host m, m_app m, m_proc m, m_msgid m] \<and>
     list_all elem_ok (m_sd m) \<and> m_msg m \<noteq> [] \<and> graphic (hd (m_msg m)) \<and> graphic (last (m_msg m))"

section \<open>Structured data round trip\<close>

abbreviation bare_char :: "char \<Rightarrow> bool" where
  "bare_char c \<equiv> c \<notin> {dquote, bslash, CHR '']'', CHR ''[''}"

text \<open>Moving an index to the right.\<close>

definition shift :: "nat \<Rightarrow> nat option \<Rightarrow> nat option" where
  "shift n x = map_option ((+) n) x"

lemma shift_simps [simp]: "shift 0 x = x" "shift a (shift b x) = shift (a + b) x" "map_option Suc (shift a x) = shift (Suc a) x"
    "shift a (map_option Suc x) = shift (Suc a) x" "shift a (Some k) = Some (a + k)" "map_option Suc x = shift (Suc 0) x"
  by (cases x; simp add: shift_def)+

lemma sd_end_bare: "list_all bare_char w \<Longrightarrow>
    sd_end False False d (w @ rest) = shift (length w) (sd_end False False d rest)"
  by (induction w) auto

lemma sd_end_esc: "sd_end True False d (esc v @ rest) = shift (length (esc v)) (sd_end True False d rest)"
  by (induction v) auto

lemma sd_name_bare: "sd_name w \<Longrightarrow> list_all bare_char w"
  by (auto simp: sd_name_def list_all_iff)

lemma sd_end_param:
  assumes "sd_name (fst p)"
  shows "sd_end False False d (render_param p @ rest) = shift (length (render_param p)) (sd_end False False d rest)"
proof -
  have b: "list_all bare_char ('' '' @ fst p @ ''='')" using sd_name_bare[OF assms] by simp
  have "sd_end False False d (('' '' @ fst p @ ''='') @ dquote # esc (snd p) @ dquote # rest)
    = shift (length (render_param p)) (sd_end False False d rest)"
    unfolding sd_end_bare[OF b] by (simp add: sd_end_esc render_param_def)
  then show ?thesis by (simp add: render_param_def)
qed

lemma sd_end_params:
  "\<forall>p \<in> set ps. sd_name (fst p) \<Longrightarrow> sd_end False False d (concat (map render_param ps) @ rest)
     = shift (length (concat (map render_param ps))) (sd_end False False d rest)"
  by (induction ps) (auto simp: sd_end_param add.assoc)

lemma sd_end_elem:
  assumes "elem_ok e"
  shows "sd_end False False 0 (''['' @ render_elem e @ '']'' @ rest)
    = (if rest \<noteq> [] \<and> hd rest = CHR ''['' then shift (length (render_elem e) + 2) (sd_end False False 0 rest)
       else Some (length (render_elem e) + 1))"
proof -
  have n: "sd_name (fst e)" "\<forall>p \<in> set (snd e). sd_name (fst p)" using assms by (simp_all add: elem_ok_def)
  have "sd_end False False 1 (render_elem e @ '']'' @ rest)
     = shift (length (render_elem e)) (sd_end False False 1 ('']'' @ rest))"
    unfolding render_elem_def append_assoc sd_end_bare[OF sd_name_bare[OF n(1)]] sd_end_params[OF n(2)]
    by (simp add: add.assoc)
  then show ?thesis by auto
qed

abbreviation bracketed :: "(string \<times> (string \<times> string) list) list \<Rightarrow> string" where
  "bracketed sd \<equiv> concat (map (\<lambda>e. ''['' @ render_elem e @ '']'') sd)"

lemma sd_end_sd:
  "list_all elem_ok sd \<Longrightarrow> sd \<noteq> [] \<Longrightarrow> \<not> (rest \<noteq> [] \<and> hd rest = CHR ''['') \<Longrightarrow>
   sd_end False False 0 (bracketed sd @ rest) = Some (length (bracketed sd) - 1)"
proof (induction sd)
  case (Cons e sd)
  have e: "elem_ok e" using Cons.prems by simp
  show ?case
  proof (cases "sd = []")
    case True
    then show ?thesis using sd_end_elem[OF e, of rest] Cons.prems(3) by simp
  next
    case False
    then have h: "bracketed sd @ rest \<noteq> [] \<and> hd (bracketed sd @ rest) = CHR ''[''" by (cases sd) auto
    have "bracketed sd \<noteq> []" using False by (cases sd) auto
    then obtain k where k: "length (bracketed sd) = Suc k" by (cases "length (bracketed sd)") auto
    have "sd_end False False 0 (bracketed sd @ rest) = Some (length (bracketed sd) - 1)"
      using Cons.IH Cons.prems False by simp
    then have "sd_end False False 0 (bracketed (e # sd) @ rest) = Some (length (render_elem e) + 2 + k)"
      using sd_end_elem[OF e, of "bracketed sd @ rest"] h k by simp
    moreover have "length (bracketed (e # sd)) = length (render_elem e) + 2 + Suc k"
      using k by (simp only: list.map concat.simps length_append) simp
    ultimately show ?thesis by simp
  qed
qed simp

lemma split_bare: "list_all bare_char w \<Longrightarrow> split_elems False False (Some a) (w @ rest) = split_elems False False (Some (a @ w)) rest"
  by (induction w arbitrary: a) (auto simp: Let_def)

lemma split_esc: "split_elems True False (Some a) (esc v @ rest) = split_elems True False (Some (a @ esc v)) rest"
  by (induction v arbitrary: a) (auto simp: Let_def)

lemma split_param:
  assumes "sd_name (fst p)"
  shows "split_elems False False (Some a) (render_param p @ rest) = split_elems False False (Some (a @ render_param p)) rest"
proof -
  have b: "list_all bare_char ('' '' @ fst p @ ''='')" using sd_name_bare[OF assms] by simp
  have "split_elems False False (Some a) (('' '' @ fst p @ ''='') @ dquote # esc (snd p) @ dquote # rest)
    = split_elems False False (Some (a @ render_param p)) rest"
    unfolding split_bare[OF b] by (simp add: split_esc render_param_def Let_def)
  then show ?thesis by (simp add: render_param_def)
qed

lemma split_params:
  "\<forall>p \<in> set ps. sd_name (fst p) \<Longrightarrow> split_elems False False (Some a) (concat (map render_param ps) @ rest)
     = split_elems False False (Some (a @ concat (map render_param ps))) rest"
  by (induction ps arbitrary: a) (simp_all add: split_param)

lemma splitElements_sd: "list_all elem_ok sd \<Longrightarrow> split_elems False False None (bracketed sd) = map render_elem sd"
proof (induction sd)
  case (Cons e sd)
  have n: "sd_name (fst e)" "\<forall>p \<in> set (snd e). sd_name (fst p)" using Cons.prems by (simp_all add: elem_ok_def)
  have "split_elems False False (Some []) (render_elem e @ '']'' @ bracketed sd)
     = split_elems False False (Some (render_elem e)) ('']'' @ bracketed sd)"
    unfolding render_elem_def append_assoc split_bare[OF sd_name_bare[OF n(1)]] split_params[OF n(2)] by simp
  then show ?case using Cons by (simp add: Let_def)
qed simp

lemma read_quoted_esc: "read_quoted False (esc v @ dquote # rest) = (v, rest, True)"
  by (induction v) auto

lemma trim_left_name: "sd_name k \<Longrightarrow> trim_left '' '' (k @ rest) = k @ rest" "sd_name k \<Longrightarrow> trim_left '' '' (CHR '' '' # k @ rest) = k @ rest"
proof -
  have "\<not> graphic (CHR '' '')" by code_simp
  then show "sd_name k \<Longrightarrow> trim_left '' '' (k @ rest) = k @ rest" "sd_name k \<Longrightarrow> trim_left '' '' (CHR '' '' # k @ rest) = k @ rest"
    by (cases k; auto simp: sd_name_def trim_left_def)+
qed

lemma sd_params_param:
  assumes k: "sd_name k" and sp: "trim_left '' '' s = k @ CHR ''='' # dquote # esc v @ dquote # rest"
  shows "sd_params s acc = sd_params rest (AList.update k v acc)"
proof -
  have "CHR ''='' \<notin> set k" using k by (auto simp: sd_name_def list_all_iff)
  note ib = index_byte_append[OF this, of "dquote # esc v @ dquote # rest"]
  have "k \<noteq> []" using k by (simp add: sd_name_def)
  then show ?thesis
    by (subst sd_params.simps) (simp add: sp ib Let_def readQuoted_def read_quoted_esc del: index_byte.simps)
qed

lemma sd_params_all:
  "\<forall>p \<in> set ps. sd_name (fst p) \<Longrightarrow>
   sd_params (concat (map render_param ps)) acc = foldl (\<lambda>m p. AList.update (fst p) (snd p) m) acc ps"
proof (induction ps arbitrary: acc)
  case Nil
  show ?case by (subst sd_params.simps) (simp add: trim_left_def)
next
  case (Cons p ps)
  then have p: "sd_name (fst p)" by simp
  have "sd_params (concat (map render_param (p # ps))) acc
      = sd_params (concat (map render_param ps)) (AList.update (fst p) (snd p) acc)"
    using trim_left_name(2)[OF p] by (intro sd_params_param[OF p]) (simp add: render_param_def)
  then show ?case using Cons by simp
qed

lemma updates_distinct:
  "distinct (map fst (m @ ps)) \<Longrightarrow> foldl (\<lambda>m p. AList.update (fst p) (snd p) m) m ps = m @ ps"
  by (induction ps arbitrary: m) (auto simp: update_new)

lemma splitElementID_render:
  assumes e: "elem_ok e"
  shows "splitElementID (render_elem e) = e"
proof (cases e)
  case (Pair i ps)
  have n: "sd_name i" "\<forall>p \<in> set ps. sd_name (fst p)" "distinct (map fst ps)" using e Pair by (simp_all add: elem_ok_def)
  have i: "i \<noteq> []" "graphic (hd i)" "CHR '' '' \<notin> set i"
  proof -
    have "\<not> graphic (CHR '' '')" by code_simp
    then show "i \<noteq> []" "graphic (hd i)" "CHR '' '' \<notin> set i" using n(1) by (auto simp: sd_name_def list_all_iff)
  qed
  have "graphic (last (render_elem e))"
  proof (cases ps rule: rev_cases)
    case Nil
    then show ?thesis using Pair n(1) i(1) by (auto simp: render_elem_def sd_name_def list_all_iff)
  next
    case (snoc qs q)
    moreover have "graphic dquote" by code_simp
    ultimately show ?thesis using Pair by (simp add: render_elem_def render_param_def)
  qed
  then have t: "trim_space (render_elem e) = render_elem e"
    using i Pair by (intro trim_space_id) (auto simp: render_elem_def)
  show ?thesis
  proof (cases ps)
    case Nil
    then have "render_elem e = i" using Pair by (simp add: render_elem_def)
    moreover have "index_byte (CHR '' '') i = None" using i(3) by (simp add: index_byte_None)
    ultimately show ?thesis using t Pair Nil by (simp add: splitElementID_def)
  next
    case (Cons p qs)
    then have p: "sd_name (fst p)" using n by simp
    let ?tail = "fst p @ CHR ''='' # dquote # esc (snd p) @ dquote # concat (map render_param qs)"
    have re: "render_elem e = i @ CHR '' '' # ?tail" using Pair Cons by (simp add: render_elem_def render_param_def)
    have "sd_params ?tail [] = sd_params (concat (map render_param qs)) (AList.update (fst p) (snd p) [])"
      by (rule sd_params_param[OF p]) (rule trim_left_name(1)[OF p])
    also have "\<dots> = foldl (\<lambda>m p. AList.update (fst p) (snd p) m) [] ps"
      using sd_params_all[of qs "AList.update (fst p) (snd p) []"] n(2) Cons by simp
    also have "\<dots> = ps" using updates_distinct[of "[]" ps] n(3) by simp
    finally have "sd_params ?tail [] = ps" .
    then show ?thesis
      using t re Pair index_byte_append[OF i(3), of ?tail] by (simp add: splitElementID_def del: index_byte.simps)
  qed
qed

section \<open>The message round trip\<close>

text \<open>The attributes of the structured data: \<open>id.param\<close>, or the ID alone for an element without parameters.\<close>

definition sd_attrs :: "(string \<times> (string \<times> string) list) list \<Rightarrow> (string \<times> any) list" where
  "sd_attrs = foldl (\<lambda>out (i, ps).
     if ps = [] then AList.update i (ABool True) out
     else foldl (\<lambda>m (k, v). AList.update (i @ ''.'' @ k) (AStr v) m) out ps) []"

lemma parse_render_sd:
  assumes "list_all elem_ok sd"
  shows "parseStructuredData (bracketed sd) = sd_attrs sd"
proof -
  have "foldl sd_element out (map render_elem sd) = foldl (\<lambda>out (i, ps).
     if ps = [] then AList.update i (ABool True) out
     else foldl (\<lambda>m (k, v). AList.update (i @ ''.'' @ k) (AStr v) m) out ps) out sd" for out
    using assms
  proof (induction sd arbitrary: out)
    case (Cons e sd)
    obtain i ps where e: "e = (i, ps)" by (cases e)
    have "i \<noteq> []" using Cons.prems e by (simp add: elem_ok_def sd_name_def)
    then have "sd_element out (render_elem e) = (if ps = [] then AList.update i (ABool True) out
       else foldl (\<lambda>m (k, v). AList.update (i @ ''.'' @ k) (AStr v) m) out ps)"
      using splitElementID_render[of e] Cons.prems by (simp add: sd_element_def e)
    then show ?case using Cons by (simp add: e)
  qed simp
  then show ?thesis
    unfolding parseStructuredData_def splitElements_def splitElements_sd[OF assms] sd_attrs_def by blast
qed

lemma split_render_sd:
  assumes sd: "list_all elem_ok sd"
  shows "splitStructuredData (render_sd sd @ CHR '' '' # msg) = (if sd = [] then [] else bracketed sd, msg)"
proof (cases "sd = []")
  case True
  then show ?thesis
    by (simp add: splitStructuredData_def render_sd_def trim_left_def nilValue_def trim_prefix_def Let_def)
next
  case False
  let ?s = "bracketed sd @ CHR '' '' # msg"
  obtain b where b: "bracketed sd = CHR ''['' # b" using False by (cases sd) auto
  have "sd_end False False 0 ?s = Some (length (bracketed sd) - 1)"
    by (rule sd_end_sd[OF sd False]) simp
  then show ?thesis
    using False b by (simp add: splitStructuredData_def render_sd_def trim_left_def nilValue_def trim_prefix_def Let_def)
qed

lemma take_fields_render:
  assumes "list_all field_ok fs"
  shows "take_fields (length fs) (concat (map (\<lambda>f. f @ '' '') fs) @ rest) = (fs, rest)"
  using assms
proof (induction fs)
  case (Cons f fs)
  then have "CHR '' '' \<notin> set f" by (simp add: field_ok_def)
  from index_byte_append[OF this] Cons show ?case by (simp del: index_byte.simps)
qed simp

lemma trim_right_last: "s \<noteq> [] \<Longrightarrow> last s \<notin> set cs \<Longrightarrow> trim_right cs s = s"
  by (cases s rule: rev_cases) (simp_all add: trim_right_def)

lemma parsePRI_render:
  assumes "n \<le> 191"
  shows "parsePRI (''<'' @ show_nat n @ ''>'' @ rest) = Some (n, rest)"
proof -
  have l: "length (show_nat n) \<le> 3" using length_show_nat[of n 3] assms by simp
  obtain d ds where d: "show_nat n = d # ds" using show_nat_hd by blast
  have "CHR ''>'' \<notin> set (show_nat n)"
    using show_nat_digits[of n] by (auto simp: list_all_iff is_digit_def)
  then have "CHR ''>'' \<notin> set (''<'' @ show_nat n)" by simp
  from index_byte_append[OF this, of rest]
  have i: "index_byte (CHR ''>'') (''<'' @ show_nat n @ ''>'' @ rest) = Some (Suc (length (show_nat n)))" by simp
  have p: "parse_int (show_nat n) = Some (int n)"
    using parse_int_show[of "int n"] assms by (simp add: show_int_def i64_range_def)
  have "1 \<le> length (show_nat n)" using d by simp
  then show ?thesis using l i p assms by (simp add: parsePRI_def del: index_byte.simps)
qed

text \<open>The event a well-formed RFC 5424 message stands for.\<close>

definition event5424 :: "golib \<Rightarrow> message5424 \<Rightarrow> logevent" where
  "event5424 lib m =
     \<lparr>ev_id = [],
      ev_timestamp = (if unNil (m_stamp m) = [] then zero_time
        else case lib_rfc3339 lib (m_stamp m) of Some t \<Rightarrow> t | None \<Rightarrow> zero_time),
      ev_received = zero_time,
      ev_source = unNil (m_host m), ev_service = unNil (m_app m),
      ev_level = ParseLevel (show_nat (m_pri m mod 8)),
      ev_message = m_msg m,
      ev_attrs = foldl (\<lambda>a (k, v). AList.update k v a)
        ([(''syslog_facility'', AStr (facilityName (m_pri m div 8))), (''syslog_severity'', AStr (severityName (m_pri m mod 8)))]
         @ (if unNil (m_proc m) = [] then [] else [(''procid'', AStr (m_proc m))])
         @ (if unNil (m_msgid m) = [] then [] else [(''msgid'', AStr (m_msgid m))]))
        (if m_sd m = [] then [] else sd_attrs (m_sd m)),
      ev_raw = render5424 m\<rparr>"

lemma parse_empty_sd: "parseStructuredData [] = []"
  by (simp add: parseStructuredData_def splitElements_def)

lemma stripBOM_graphic: "s \<noteq> [] \<Longrightarrow> graphic (hd s) \<Longrightarrow> stripBOM s = s"
  by (cases s) (auto simp: stripBOM_def trim_prefix_def graphic_def)

lemma isRFC5424_render: "v \<noteq> [] \<Longrightarrow> list_all is_digit v \<Longrightarrow> isRFC5424 (v @ CHR '' '' # rest)"
proof -
  assume v: "v \<noteq> []" "list_all is_digit v"
  have "\<not> is_digit (CHR '' '')" by (simp add: is_digit_def)
  then show ?thesis using v by (simp add: isRFC5424_def takeWhile_append dropWhile_append list_all_iff)
qed

text \<open>C20. RFC 5424 round trip.  A message rendered as the RFC writes it, with any number of structured
  data elements whose parameter values are arbitrary byte strings escaped as the RFC says, is
  parsed back to exactly its parts: priority, time stamp, host, application, process and message
  IDs (\<^verbatim>\<open>-\<close> being absence), one attribute per parameter, and the message text.\<close>

theorem syslog_roundtrip:
  assumes ok: "message_ok m"
  shows "Parse_syslog lib now rnd (render5424 m) = Normalize now rnd (event5424 (golib.truncate lib) m)"
proof -
  have f: "m_pri m \<le> 191" "m_version m \<noteq> []" "list_all is_digit (m_version m)" "list_all elem_ok (m_sd m)"
    "m_msg m \<noteq> []" "graphic (hd (m_msg m))" "graphic (last (m_msg m))"
    "list_all field_ok [m_stamp m, m_host m, m_app m, m_proc m, m_msgid m]"
    using ok by (simp_all add: message_ok_def)
  have "field_ok (m_version m)" using f(3) by (auto simp: field_ok_def list_all_iff is_digit_def)
  then have fs: "list_all field_ok [m_version m, m_stamp m, m_host m, m_app m, m_proc m, m_msgid m]" using f(8) by simp
  let ?rest = "render_sd (m_sd m) @ CHR '' '' # m_msg m"
  let ?fields = "[m_version m, m_stamp m, m_host m, m_app m, m_proc m, m_msgid m]"
  let ?body = "concat (map (\<lambda>f. f @ '' '') ?fields) @ ?rest"
  have r: "render5424 m = ''<'' @ show_nat (m_pri m) @ ''>'' @ ?body"
    by (simp add: render5424_def)
  have tf: "take_fields 6 ?body = (?fields, ?rest)" proof -
    have n: "(6 :: nat) = length ?fields" by simp
    show ?thesis unfolding n by (rule take_fields_render[OF fs])
  qed
  have is5: "isRFC5424 ?body" using isRFC5424_render[OF f(2,3)] by simp
  have last: "render5424 m \<noteq> []" "last (render5424 m) = last (m_msg m)" using f(5) by (simp_all add: render5424_def)
  have "\<not> graphic (CHR 0x0D) \<and> \<not> graphic (CHR 0x0A) \<and> \<not> graphic (CHR 0x00)" by code_simp
  then have "last (render5424 m) \<notin> set trailer" using last(2) f(7) by (auto simp: trailer_def)
  then have tr: "trim_right trailer (render5424 m) = render5424 m" by (rule trim_right_last[OF last(1)])
  have msg: "trim_space (stripBOM (m_msg m)) = m_msg m" using f(5-7) by (simp add: stripBOM_graphic)
  have pri: "parsePRI (render5424 m) = Some (m_pri m, ?body)" unfolding r by (rule parsePRI_render[OF f(1)])
  have attrs: "parseStructuredData (if m_sd m = [] then [] else bracketed (m_sd m)) = (if m_sd m = [] then [] else sd_attrs (m_sd m))"
    using parse_render_sd[OF f(4)] parse_empty_sd by simp
  have P: "unNil s = [] \<or> unNil s = s \<and> s \<noteq> []" for s by (simp add: unNil_def)
  let ?e = "empty_event\<lparr>ev_raw := render5424 m, ev_attrs := [(''syslog_facility'', AStr (facilityName (m_pri m div 8))),
     (''syslog_severity'', AStr (severityName (m_pri m mod 8)))], ev_level := ParseLevel (show_nat (m_pri m mod 8))\<rparr>"
  have "parse5424 (golib.truncate lib) ?body ?e = event5424 (golib.truncate lib) m"
    unfolding parse5424_def tf prod.case split_render_sd[OF f(4)] Let_def
    using P[of "m_proc m"] P[of "m_msgid m"] P[of "m_stamp m"]
    by (elim disjE conjE)
      (simp_all add: event5424_def empty_event_def set_attr_def msg attrs split: option.split)
  then show ?thesis
    unfolding Parse_syslog_def tr pri Let_def option.case prod.case if_P[OF is5] by simp
qed

definition sample5424 :: message5424 where
  "sample5424 = \<lparr>m_pri = 34, m_version = ''1'', m_stamp = ''-'', m_host = ''h'', m_app = ''su'', m_proc = ''-'', m_msgid = ''ID47'',
     m_sd = [(''a@1'', [(''x'', ''br]k'' @ [dquote])]), (''b'', [])], m_msg = ''failed for x''\<rparr>"

lemma sample5424_ok: "message_ok sample5424"
  by code_simp

definition no_stamps :: syslib where
  "no_stamps = golib.extend ascii_lib (syslib.fields (\<lambda>_ _. None) (\<lambda>_. 2026))"

theorem syslog_roundtrip_witness:
  "ev_attrs (event5424 ascii_lib sample5424) =
     [(''syslog_facility'', AStr ''auth''), (''syslog_severity'', AStr ''crit''), (''msgid'', AStr ''ID47''),
      (''a@1.x'', AStr (''br]k'' @ [dquote])), (''b'', ABool True)] \<and>
   Parse_syslog no_stamps 0 (replicate 10 0) (render5424 sample5424)
   = Normalize 0 (replicate 10 0) (event5424 (golib.truncate no_stamps) sample5424)"
proof
  show "ev_attrs (event5424 ascii_lib sample5424) =
     [(''syslog_facility'', AStr ''auth''), (''syslog_severity'', AStr ''crit''), (''msgid'', AStr ''ID47''),
      (''a@1.x'', AStr (''br]k'' @ [dquote])), (''b'', ABool True)]"
    by code_simp
  show "Parse_syslog no_stamps 0 (replicate 10 0) (render5424 sample5424)
   = Normalize 0 (replicate 10 0) (event5424 (golib.truncate no_stamps) sample5424)"
    by (rule syslog_roundtrip[OF sample5424_ok])
qed

end
