(* ===== verification/Forward.thy ===== *)
theory Forward
  imports Wal
begin

text \<open>
  \<^verbatim>\<open>src/internal/forward/spool.go\<close> and \<^verbatim>\<open>forward.go\<close>: the log forwarder.  Its spool is a
  write-ahead log of batches (\<open>Wal\<close>) and a dead-letter file; a batch is spooled, posted with
  capped exponential backoff, and settled.  The JSON encoding of batches is a parameter
  (\<open>batch_codec\<close>), the network a function from the number of an attempt to its reply, disk
  errors are arguments of each operation.  A file being tailed is its identity and its bytes.
\<close>

section \<open>Options and backoff\<close>

record fwd_options =
  fo_batch :: int
  fo_flush :: duration
  fo_poll :: duration
  fo_from_start :: bool
  fo_backoff :: duration
  fo_max_backoff :: duration

definition maxPostAttempts :: nat where "maxPostAttempts = 6"
definition baseBackoff :: duration where "baseBackoff = 500 * millisecond"
definition maxBackoff :: duration where "maxBackoff = 30 * second"

definition fwd_defaults :: "fwd_options \<Rightarrow> fwd_options" where
  "fwd_defaults o1 = \<lparr>
     fo_batch = (if fo_batch o1 \<le> 0 then 200 else fo_batch o1),
     fo_flush = (if fo_flush o1 \<le> 0 then second else fo_flush o1),
     fo_poll = (if fo_poll o1 \<le> 0 then 250 * millisecond else fo_poll o1),
     fo_from_start = fo_from_start o1,
     fo_backoff = (if fo_backoff o1 \<le> 0 then baseBackoff else fo_backoff o1),
     fo_max_backoff = (if fo_max_backoff o1 \<le> 0 then maxBackoff else fo_max_backoff o1)\<rparr>"

definition retryable :: "int \<Rightarrow> bool" where
  "retryable status \<longleftrightarrow> status = 429 \<or> status \<ge> 500"

definition backoffFor :: "fwd_options \<Rightarrow> int \<Rightarrow> duration" where
  "backoffFor opts attempt0 =
     (let attempt = (if attempt0 < 1 then 1 else attempt0);
          d = i64 (push_bit (nat (attempt - 1)) (fo_backoff opts))
      in if d > fo_max_backoff opts \<or> d \<le> 0 then fo_max_backoff opts else d)"

section \<open>The spool\<close>

record spooledBatch =
  sb_id :: string
  sb_lines :: "string list"

record deadLetterRecord =
  dl_at :: time
  dl_batch :: string
  dl_reason :: string
  dl_lines :: "string list"

record batch_codec =
  bc_enc :: "spooledBatch \<Rightarrow> byte list option"
  bc_dec :: "byte list \<Rightarrow> spooledBatch option"
  bc_dead :: "deadLetterRecord \<Rightarrow> string option"

record spool =
  sp_log :: "wal \<times> fs"
  sp_open :: bool
  sp_dead :: string

text \<open>The outcomes of the system calls of one operation; a short write keeps that many bytes.\<close>

record spool_io =
  si_append :: append_io
  si_sync :: bool
  si_cp_write :: bool
  si_cp_rename :: bool
  si_remove :: "string \<Rightarrow> bool"
  si_dead_open :: bool
  si_dead_write :: "nat option"
  si_dead_sync :: bool

definition openSpool :: "bool \<Rightarrow> open_io \<Rightarrow> fs \<Rightarrow> string \<Rightarrow> spool option" where
  "openSpool mkdir_ok oio d dead =
     (if \<not> mkdir_ok then None
      else case Open oio True 0 False d of
          Inl e \<Rightarrow> None
        | Inr lg \<Rightarrow> Some \<lparr>sp_log = lg, sp_open = False, sp_dead = dead\<rparr>)"

text \<open>\<^verbatim>\<open>Add\<close>: the sequence number (0 if nothing was appended), whether the batch is durable, the spool.\<close>

definition Add :: "batch_codec \<Rightarrow> spool_io \<Rightarrow> spooledBatch \<Rightarrow> spool \<Rightarrow> nat \<times> bool \<times> spool" where
  "Add c io b s =
     (case bc_enc c b of
        None \<Rightarrow> (0, False, s)
      | Some payload \<Rightarrow>
          (case Append (si_append io) (fst (sp_log s)) (snd (sp_log s)) payload of
             (Inl e, lg) \<Rightarrow> (0, False, s\<lparr>sp_log := lg\<rparr>)
           | (Inr seq, lg) \<Rightarrow> (seq, si_sync io, s\<lparr>sp_log := lg\<rparr>)))"

definition Ack_spool :: "spool_io \<Rightarrow> nat \<Rightarrow> spool \<Rightarrow> bool \<times> spool" where
  "Ack_spool io seq s =
     (case SetCheckpoint (si_cp_write io) (si_cp_rename io) (si_remove io) (fst (sp_log s)) (snd (sp_log s)) seq of
        (ok, lg) \<Rightarrow> (ok, s\<lparr>sp_log := lg\<rparr>))"

definition pending_visit :: "batch_codec \<Rightarrow> (nat \<Rightarrow> spooledBatch \<Rightarrow> 's \<Rightarrow> 'e + 's) \<Rightarrow> nat \<Rightarrow> byte list \<Rightarrow> 's \<Rightarrow> 'e + 's" where
  "pending_visit c fn seq payload st = (case bc_dec c payload of None \<Rightarrow> Inr st | Some b \<Rightarrow> fn seq b st)"

definition Pending :: "batch_codec \<Rightarrow> (nat \<Rightarrow> spooledBatch \<Rightarrow> 's \<Rightarrow> 'e + 's) \<Rightarrow> spool \<Rightarrow> 's \<Rightarrow> 'e + 's" where
  "Pending c fn s st = Replay (pending_visit c fn) (fst (sp_log s)) (snd (sp_log s)) st"

definition DeadLetter :: "batch_codec \<Rightarrow> spool_io \<Rightarrow> deadLetterRecord \<Rightarrow> spool \<Rightarrow> bool \<times> spool" where
  "DeadLetter c io rec s =
     (if \<not> sp_open s \<and> \<not> si_dead_open io then (False, s)
      else let s1 = s\<lparr>sp_open := True\<rparr>
           in case bc_dead c rec of
                None \<Rightarrow> (False, s1)
              | Some js \<Rightarrow>
                  (let line = js @ [CHR 0x0A]
                   in case si_dead_write io of
                        Some k \<Rightarrow> (False, s1\<lparr>sp_dead := sp_dead s1 @ take k line\<rparr>)
                      | None \<Rightarrow> (si_dead_sync io, s1\<lparr>sp_dead := sp_dead s1 @ line\<rparr>)))"

definition Close_spool :: "spool \<Rightarrow> spool" where
  "Close_spool s = s\<lparr>sp_open := False, sp_log := (Close (fst (sp_log s)), snd (sp_log s))\<rparr>"

section \<open>Posting\<close>

datatype deliveryOutcome = Delivered | Transient | Permanent | Abandoned

text \<open>
  How one POST ends: a status, an error of the transport (the flag says whether the context is
  done), or a failure before the request is sent.
\<close>

datatype net_reply = Status int | NoReply string bool | NotSent string

fun attempt :: "net_reply \<Rightarrow> deliveryOutcome \<times> string" where
  "attempt (NotSent e) = (Transient, e)"
| "attempt (NoReply e ctx_done) = (if ctx_done then Abandoned else Transient, e)"
| "attempt (Status s) =
     (if go_quot s 100 = 2 then (Delivered, [])
      else if retryable s then (Transient, ''server returned '' @ show_int s)
      else (Permanent, ''server returned '' @ show_int s))"

text \<open>The reply to each attempt, and whether the context ends the wait before it.\<close>

record network =
  nt_reply :: "nat \<Rightarrow> net_reply"
  nt_cancelled :: "nat \<Rightarrow> bool"

text \<open>The retry loop from attempt \<open>n\<close> on; \<open>None\<close> if it never ends.\<close>

partial_function (option) post_loop :: "bool \<Rightarrow> network \<Rightarrow> nat \<Rightarrow> string \<Rightarrow> (deliveryOutcome \<times> string) option" where
  "post_loop spooled net n lastErr =
     (if n > 1 \<and> nt_cancelled net n then Some (Abandoned, lastErr)
      else case attempt (nt_reply net n) of
             (oc, err) \<Rightarrow>
               if oc = Delivered then Some (Delivered, [])
               else if oc = Permanent then Some (Permanent, err)
               else if oc = Abandoned then Some (Abandoned, err)
               else if \<not> spooled \<and> n \<ge> maxPostAttempts then Some (Transient, err)
               else post_loop spooled net (Suc n) err)"

definition post :: "bool \<Rightarrow> network \<Rightarrow> (deliveryOutcome \<times> string) option" where
  "post spooled net = post_loop spooled net 1 []"

section \<open>Delivering\<close>

record forwarder =
  fw_opts :: fwd_options
  fw_spool :: "spool option"

definition settle :: "batch_codec \<Rightarrow> spool_io \<Rightarrow> time \<Rightarrow> spooledBatch \<Rightarrow> nat \<Rightarrow> deliveryOutcome \<times> string \<Rightarrow> forwarder \<Rightarrow> forwarder" where
  "settle c io now b seq res f =
     (case fw_spool f of
        None \<Rightarrow> f
      | Some s \<Rightarrow>
          (case fst res of
             Delivered \<Rightarrow> if seq > 0 then f\<lparr>fw_spool := Some (snd (Ack_spool io seq s))\<rparr> else f
           | Permanent \<Rightarrow>
               (let rec = \<lparr>dl_at = now, dl_batch = sb_id b, dl_reason = snd res, dl_lines = sb_lines b\<rparr>;
                    s1 = snd (DeadLetter c io rec s)
                in f\<lparr>fw_spool := Some (if seq > 0 then snd (Ack_spool io seq s1) else s1)\<rparr>)
           | _ \<Rightarrow> f))"

text \<open>What surrounds the delivery of one batch: its disk, its network, its new ID, the time of settling.\<close>

record delivery =
  dv_io :: spool_io
  dv_net :: network
  dv_id :: string
  dv_now :: time

definition deliver :: "batch_codec \<Rightarrow> delivery \<Rightarrow> string list \<Rightarrow> forwarder \<Rightarrow> (deliveryOutcome \<times> forwarder) option" where
  "deliver c v lines f =
     (let b = \<lparr>sb_id = dv_id v, sb_lines = lines\<rparr>;
          (seq, f1) = (case fw_spool f of
              None \<Rightarrow> (0, f)
            | Some s \<Rightarrow> (case Add c (dv_io v) b s of (seq, ok, s1) \<Rightarrow> (seq, f\<lparr>fw_spool := Some s1\<rparr>)))
      in map_option (\<lambda>res. (fst res, settle c (dv_io v) (dv_now v) b seq res f1))
           (post (fw_spool f \<noteq> None) (dv_net v)))"

text \<open>
  \<^verbatim>\<open>drainSpool\<close>: every pending batch is posted and settled, oldest first, until one is abandoned.
  The result lists what was posted with its outcome; \<open>Inl None\<close> is a post that never returns.
\<close>

type_synonym drained = "(spooledBatch \<times> deliveryOutcome) list \<times> forwarder"

definition drain_visit :: "batch_codec \<Rightarrow> (nat \<Rightarrow> delivery) \<Rightarrow> nat \<Rightarrow> spooledBatch \<Rightarrow> drained \<Rightarrow> drained option + drained" where
  "drain_visit c env seq b st =
     (case post (fw_spool (snd st) \<noteq> None) (dv_net (env seq)) of
        None \<Rightarrow> Inl None
      | Some res \<Rightarrow>
          (let st' = (fst st @ [(b, fst res)], settle c (dv_io (env seq)) (dv_now (env seq)) b seq res (snd st))
           in if fst res = Abandoned then Inl (Some st') else Inr st'))"

definition drainSpool :: "batch_codec \<Rightarrow> (nat \<Rightarrow> delivery) \<Rightarrow> forwarder \<Rightarrow> drained option" where
  "drainSpool c env f =
     (case fw_spool f of
        None \<Rightarrow> Some ([], f)
      | Some s \<Rightarrow> (case Pending c (drain_visit c env) s ([], f) of Inl r \<Rightarrow> r | Inr st \<Rightarrow> Some st))"

section \<open>Batching\<close>

text \<open>
  The loop of \<^verbatim>\<open>send\<close>: a received line, a tick, and the end (input closed or context done).  Each
  event carries the delivery it may cause.  The result lists the delivered batches with their
  outcomes.
\<close>

datatype send_event = Received string | Tick | Finish

type_synonym sent = "(string list \<times> deliveryOutcome) list"

definition flush_batch :: "batch_codec \<Rightarrow> delivery \<Rightarrow> string list \<Rightarrow> forwarder \<Rightarrow> (sent \<times> forwarder) option" where
  "flush_batch c v batch f =
     (if batch = [] then Some ([], f)
      else map_option (\<lambda>(oc, f'). ([(batch, oc)], f')) (deliver c v batch f))"

fun send :: "batch_codec \<Rightarrow> (send_event \<times> delivery) list \<Rightarrow> string list \<Rightarrow> forwarder \<Rightarrow> (sent \<times> forwarder) option" where
  "send c [] batch f = Some ([], f)"
| "send c ((ev, v) # evs) batch f =
     (case ev of
        Finish \<Rightarrow> flush_batch c v batch f
      | Tick \<Rightarrow>
          (case flush_batch c v batch f of
             None \<Rightarrow> None
           | Some (out, f') \<Rightarrow> map_option (\<lambda>(o2, g). (out @ o2, g)) (send c evs [] f'))
      | Received line \<Rightarrow>
          (let batch' = batch @ [line]
           in if int (length batch') \<ge> fo_batch (fw_opts f)
              then (case flush_batch c v batch' f of
                      None \<Rightarrow> None
                    | Some (out, f') \<Rightarrow> map_option (\<lambda>(o2, g). (out @ o2, g)) (send c evs [] f'))
              else send c evs batch' f))"

section \<open>Tailing a file\<close>

definition line_end :: string where "line_end = [CHR 0x0D, CHR 0x0A]"

text \<open>The complete lines of what is read from the offset: those emitted, and the new offset.\<close>

function tail_read :: "string \<Rightarrow> nat \<Rightarrow> string list \<times> nat" where
  "tail_read s off =
     (case index_byte (CHR 0x0A) s of
        None \<Rightarrow> ([], off)
      | Some k \<Rightarrow>
          (let trimmed = trim_right line_end (take (Suc k) s);
               (ls, e) = tail_read (drop (Suc k) s) (off + Suc k)
           in (if trimmed \<noteq> [] then trimmed # ls else ls, e)))"
  by pat_completeness auto
termination
  by (relation "measure (\<lambda>(s, off). length s)") (auto dest: index_byte_Some)

declare tail_read.simps [simp del]

text \<open>
  One poll.  \<open>st\<close> is what \<^verbatim>\<open>Stat\<close> reports, the identity and the size; \<open>opened\<close> what can then be read
  (more than the size if the writer went on, \<open>None\<close> if opening or seeking failed).
\<close>

record tail_state =
  tl_offset :: nat
  tl_known :: "nat option"

definition tail_start :: "bool \<Rightarrow> (nat \<times> nat) option \<Rightarrow> tail_state" where
  "tail_start from_start st =
     (case st of
        None \<Rightarrow> \<lparr>tl_offset = 0, tl_known = None\<rparr>
      | Some (fid, sz) \<Rightarrow> \<lparr>tl_offset = (if from_start then 0 else sz), tl_known = Some fid\<rparr>)"

definition tail_poll :: "(nat \<times> nat) option \<Rightarrow> string option \<Rightarrow> tail_state \<Rightarrow> string list \<times> tail_state" where
  "tail_poll st opened t =
     (case st of
        None \<Rightarrow> ([], t)
      | Some (fid, sz) \<Rightarrow>
          (let off = (if tl_known t \<noteq> None \<and> tl_known t \<noteq> Some fid then 0
                      else if sz < tl_offset t then 0 else tl_offset t);
               t1 = \<lparr>tl_offset = off, tl_known = Some fid\<rparr>
           in if sz = off then ([], t1)
              else case opened of
                     None \<Rightarrow> ([], t1)
                   | Some content \<Rightarrow>
                       (case tail_read (drop off content) off of (ls, e) \<Rightarrow> (ls, t1\<lparr>tl_offset := e\<rparr>))))"

section \<open>Backoff\<close>

lemma i64_multiple: "2 ^ 43 dvd x \<Longrightarrow> 2 ^ 43 dvd i64 x"
proof -
  assume "(2 :: int) ^ 43 dvd x"
  moreover have "(2 :: int) ^ 43 dvd 2 ^ 63" by (rule le_imp_power_dvd) simp
  moreover have "(2 :: int) ^ 43 dvd 2 ^ 64" by (rule le_imp_power_dvd) simp
  ultimately show ?thesis unfolding i64_altdef by (intro dvd_diff dvd_mod dvd_add)
qed

text \<open>The default backoff schedule.  The delay before attempt \<open>k + 1\<close> is half a second doubled
  \<open>k - 1\<close> times and capped at thirty seconds, for every \<open>k\<close>: once the shift overflows the
  64-bit duration, its result is never mistaken for a shorter delay.\<close>

theorem backoff_schedule:
  assumes "fo_backoff opts \<le> 0" "fo_max_backoff opts \<le> 0" "1 \<le> k"
  shows "backoffFor (fwd_defaults opts) k = min (baseBackoff * 2 ^ nat (k - 1)) maxBackoff"
proof -
  let ?n = "nat (k - 1)" and ?d = "i64 (push_bit (nat (k - 1)) baseBackoff)"
  have b: "baseBackoff = 2 ^ 8 * 1953125" "maxBackoff = 30000000000"
    by (simp_all add: baseBackoff_def maxBackoff_def duration_defs)
  have e: "backoffFor (fwd_defaults opts) k = (if ?d > maxBackoff \<or> ?d \<le> 0 then maxBackoff else ?d)"
    using assms by (simp add: backoffFor_def fwd_defaults_def Let_def)
  show ?thesis
  proof (cases "?n \<le> 34")
    case True
    have "(2 :: int) ^ ?n \<le> 2 ^ 34" using True by (rule power_increasing) simp
    moreover obtain x where x: "x = (2 :: int) ^ ?n" "0 \<le> x" by simp
    ultimately have "i64_range (baseBackoff * 2 ^ ?n)" unfolding b i64_range_def x(1)[symmetric] by simp
    then have "?d = baseBackoff * 2 ^ ?n" by (simp add: push_bit_eq_mult)
    moreover have "0 < baseBackoff * 2 ^ ?n" unfolding b by simp
    ultimately show ?thesis unfolding e by simp
  next
    case False
    then have n: "35 \<le> ?n" by simp
    have "(2 :: int) ^ 43 dvd 2 ^ 8 * 2 ^ ?n" using n by (simp only: power_add[symmetric]) (rule le_imp_power_dvd, simp)
    moreover have "push_bit ?n baseBackoff = (2 ^ 8 * 2 ^ ?n) * 1953125" unfolding b push_bit_eq_mult by simp
    ultimately have "(2 :: int) ^ 43 dvd push_bit ?n baseBackoff" by (metis dvd_mult2)
    from i64_multiple[OF this] have m: "2 ^ 43 dvd ?d" .
    have "?d \<le> 0 \<or> 2 ^ 43 \<le> ?d" using zdvd_imp_le[OF m] by linarith
    then have "?d \<le> 0 \<or> maxBackoff < ?d" unfolding b by auto
    moreover have "(2 :: int) ^ 35 \<le> 2 ^ ?n" using n by (rule power_increasing) simp
    then have "maxBackoff \<le> baseBackoff * 2 ^ ?n" unfolding b by simp
    ultimately show ?thesis unfolding e by (auto simp: min_def)
  qed
qed

theorem backoff_schedule_witness:
  "backoffFor (fwd_defaults \<lparr>fo_batch = 0, fo_flush = 0, fo_poll = 0, fo_from_start = True, fo_backoff = 0, fo_max_backoff = 0\<rparr>) 3
   = 2 * second"
  by (subst backoff_schedule) (simp_all add: baseBackoff_def maxBackoff_def duration_defs)

section \<open>Retrying\<close>

abbreviation undecided :: "network \<Rightarrow> nat \<Rightarrow> bool" where
  "undecided net n \<equiv> fst (attempt (nt_reply net n)) = Transient \<and> (1 < n \<longrightarrow> \<not> nt_cancelled net n)"

lemma post_loop_undecided:
  "undecided net n \<Longrightarrow> spooled \<or> n < maxPostAttempts \<Longrightarrow>
   post_loop spooled net n e = post_loop spooled net (Suc n) (snd (attempt (nt_reply net n)))"
  by (subst post_loop.simps) (auto split: prod.split)

lemma post_loop_decided: "\<not> undecided net n \<or> (\<not> spooled \<and> maxPostAttempts \<le> n) \<Longrightarrow> post_loop spooled net n e \<noteq> None"
  by (subst post_loop.simps) (cases "fst (attempt (nt_reply net n))"; auto split: prod.split)

lemma post_loop_returns:
  "n \<le> m \<Longrightarrow> \<not> undecided net m \<or> (\<not> spooled \<and> maxPostAttempts \<le> m) \<Longrightarrow> post_loop spooled net n e \<noteq> None"
proof (induction "m - n" arbitrary: n e)
  case 0
  then have "n = m" by simp
  then show ?case using 0 post_loop_decided by blast
next
  case (Suc k)
  show ?case
  proof (cases "\<not> undecided net n \<or> (\<not> spooled \<and> maxPostAttempts \<le> n)")
    case True
    then show ?thesis by (rule post_loop_decided)
  next
    case False
    then have "undecided net n" "spooled \<or> n < maxPostAttempts" by auto
    from post_loop_undecided[OF this] Suc.hyps(1)[of "Suc n"] Suc.hyps(2) Suc.prems show ?thesis by simp
  qed
qed

lemma post_loop_Some: "post_loop spooled net n e = Some r \<Longrightarrow> \<exists>m\<ge>n. \<not> undecided net m \<or> (\<not> spooled \<and> maxPostAttempts \<le> m)"
proof (induction rule: post_loop.raw_induct[rotated, consumes 1, case_names step])
  case (step pl spooled net n e r)
  show ?case
  proof (cases "\<not> undecided net n \<or> (\<not> spooled \<and> maxPostAttempts \<le> n)")
    case False
    then have "pl spooled net (Suc n) (snd (attempt (nt_reply net n))) = Some r"
      using step(2) by (auto split: prod.split_asm)
    from step(1)[OF this] show ?thesis using Suc_leD by blast
  qed blast
qed

lemma post_loop_spooled: "post_loop spooled net n e = Some r \<Longrightarrow> spooled \<longrightarrow> fst r \<noteq> Transient"
proof (induction rule: post_loop.raw_induct[rotated, consumes 1, case_names step])
  case (step pl spooled net n e r)
  obtain oc err where "attempt (nt_reply net n) = (oc, err)" by fastforce
  with step(2) show ?case by (cases oc; cases r) (auto split: if_split_asm dest: step(1))
qed

lemma post_spooled: "post True net = Some r \<Longrightarrow> fst r \<noteq> Transient"
  unfolding post_def using post_loop_spooled by blast

text \<open>Retrying.  Without a spool a post always returns, after at most six attempts.  With a spool it
  is never given up: it returns exactly if at some point the server accepts or refuses the batch or
  the forwarder is shut down, and it does not return with the outcome \<open>Transient\<close>.\<close>

theorem post_returns:
  "post False net \<noteq> None \<and> (post True net = None \<longleftrightarrow> (\<forall>n\<ge>1. undecided net n)) \<and> post True net \<noteq> Some (Transient, e)"
proof (intro conjI)
  show "post False net \<noteq> None"
    unfolding post_def by (rule post_loop_returns[of 1 maxPostAttempts]) (simp_all add: maxPostAttempts_def)
  show "post True net = None \<longleftrightarrow> (\<forall>n\<ge>1. undecided net n)"
    unfolding post_def using post_loop_returns[of 1 _ net True "[]"] post_loop_Some[of True net 1 "[]"]
    by (cases "post_loop True net 1 []") auto
  show "post True net \<noteq> Some (Transient, e)" using post_spooled[of net "(Transient, e)"] by auto
qed

theorem post_returns_witness:
  "post True \<lparr>nt_reply = \<lambda>_. Status 503, nt_cancelled = \<lambda>_. False\<rparr> = None \<and>
   post False \<lparr>nt_reply = \<lambda>_. Status 503, nt_cancelled = \<lambda>_. False\<rparr> \<noteq> None \<and>
   post True \<lparr>nt_reply = \<lambda>n. if n < 4 then Status 429 else Status 202, nt_cancelled = \<lambda>_. False\<rparr> \<noteq> None"
proof -
  let ?down = "\<lparr>nt_reply = \<lambda>_. Status 503, nt_cancelled = \<lambda>_. False\<rparr>"
  let ?up = "\<lparr>nt_reply = \<lambda>n. if n < 4 then Status 429 else Status 202, nt_cancelled = \<lambda>_. False\<rparr>"
  have a: "fst (attempt (Status 503)) = Transient" "fst (attempt (Status 202)) = Delivered" by code_simp+
  then have "\<forall>n\<ge>1. undecided ?down n" "\<not> undecided ?up 4" by simp_all
  moreover have "\<not> (\<forall>n\<ge>1. undecided ?up n)" using calculation(2) by (metis one_le_numeral)
  ultimately show ?thesis using post_returns[of ?down "[]"] post_returns[of ?up "[]"] by blast
qed

section \<open>The spool under a working disk\<close>

definition good_spool_io :: spool_io where
  "good_spool_io = \<lparr>si_append = good_io, si_sync = True, si_cp_write = True, si_cp_rename = True,
     si_remove = (\<lambda>_. True), si_dead_open = True, si_dead_write = None, si_dead_sync = True\<rparr>"

text \<open>The batches the next run would deliver.\<close>

definition spooled :: "batch_codec \<Rightarrow> spool \<Rightarrow> spooledBatch list" where
  "spooled c s = List.map_filter (\<lambda>(q, p). bc_dec c p) (wal_pending (sp_log s))"

definition batch_ok :: "batch_codec \<Rightarrow> spooledBatch \<Rightarrow> bool" where
  "batch_ok c b \<longleftrightarrow> (case bc_enc c b of None \<Rightarrow> False | Some p \<Rightarrow> length p \<le> maxRecordBytes \<and> bc_dec c p = Some b)"

lemma pending_numbers:
  assumes "wal_synced st" "(q, p) \<in> set (wal_pending st)"
  shows "0 < q \<and> q < wal_next st"
proof -
  obtain w d where st: "st = (w, d)" by fastforce
  have "wal_ok (w, d)" using assms st by (simp add: wal_synced_def)
  then obtain left lrss rss where inv: "wal_inv w d left lrss rss"
      and pe: "pending w d = filter (\<lambda>(q, _). q > w_checkpoint w) (concat rss)" by (rule wal_okE)
  have "segs_chain (left @ w_segments w) (lrss @ rss) (w_next_seq w)" using inv by (simp add: wal_inv_def)
  from segs_chain_less[OF this] pe assms(2) st show ?thesis
    by (fastforce simp: wal_pending_def wal_next_def)
qed

lemma wal_next_pos: "wal_synced st \<Longrightarrow> 0 < wal_next st"
  by (cases st) (auto simp: wal_synced_def wal_ok_def wal_inv_def wal_next_def)

lemma Add_good:
  assumes "wal_synced (sp_log s)" "wal_next (sp_log s) < 2 ^ 64" "batch_ok c b"
  obtains p where "Add c good_spool_io b s = (wal_next (sp_log s), True, s\<lparr>sp_log := wal_append (sp_log s) p\<rparr>)"
    "wal_room (sp_log s) p" "bc_dec c p = Some b"
proof -
  obtain p where p: "bc_enc c b = Some p" "length p \<le> maxRecordBytes" "bc_dec c p = Some b"
    using assms(3) by (auto simp: batch_ok_def split: option.split_asm)
  obtain w d where lg: "sp_log s = (w, d)" by fastforce
  have fit: "fits (w_next_seq w, p)" using p assms(2) lg by (simp add: fits_def wal_next_def)
  have "wal_ok (w, d)" using assms(1) lg by (simp add: wal_synced_def)
  from Append_good[OF this fit] obtain w' d' where "Append good_io w d p = (Inr (w_next_seq w), w', d')" by blast
  then have "Add c good_spool_io b s = (wal_next (sp_log s), True, s\<lparr>sp_log := wal_append (sp_log s) p\<rparr>)"
    using p lg by (simp add: Add_def good_spool_io_def wal_append_def wal_next_def)
  then show thesis using that p fit lg by (simp add: wal_room_def)
qed

lemma Ack_good: "snd (Ack_spool good_spool_io q s) = s\<lparr>sp_log := wal_ack (sp_log s) q\<rparr>"
  by (simp add: Ack_spool_def good_spool_io_def wal_ack_def split: prod.split)

lemma DeadLetter_good:
  "bc_dead c r = Some js \<Longrightarrow>
   DeadLetter c good_spool_io r s = (True, s\<lparr>sp_open := True, sp_dead := sp_dead s @ js @ [CHR 0x0A]\<rparr>)"
  by (simp add: DeadLetter_def good_spool_io_def Let_def)

text \<open>Acknowledging the newest number empties the log: the checkpoint is cumulative.\<close>

lemma ack_last:
  assumes "wal_synced st" "wal_room st p"
  shows "wal_pending (wal_ack (wal_append st p) (wal_next st)) = [] \<and> wal_synced (wal_ack (wal_append st p) (wal_next st))
    \<and> wal_next (wal_ack (wal_append st p) (wal_next st)) = Suc (wal_next st)"
proof -
  note a = wal_log.append_law[OF assms]
  then have "wal_next st < wal_next (wal_append st p)" by simp
  note k = wal_log.ack_law[OF conjunct1[OF a] this]
  have "filter (\<lambda>(q, _). wal_next st < q) (wal_pending st) = []"
    using pending_numbers[OF assms(1)] by (auto simp: filter_empty_conv dest: less_asym)
  then show ?thesis using a k by simp
qed

definition dead_text :: "batch_codec \<Rightarrow> deadLetterRecord list \<Rightarrow> string" where
  "dead_text c rs = concat (map (\<lambda>r. the (bc_dead c r) @ [CHR 0x0A]) rs)"

lemma deliver_good:
  assumes f: "fw_spool f = Some s" "wal_synced (sp_log s)" "wal_next (sp_log s) < 2 ^ 64"
    and b: "batch_ok c \<lparr>sb_id = dv_id v, sb_lines = ls\<rparr>" and io: "dv_io v = good_spool_io"
    and dead: "\<forall>r. bc_dead c r \<noteq> None" and d: "deliver c v ls f = Some (oc, g)"
  shows "\<exists>s' rs. g = f\<lparr>fw_spool := Some s'\<rparr> \<and> wal_synced (sp_log s') \<and>
    wal_next (sp_log s') = Suc (wal_next (sp_log s)) \<and>
    spooled c s' = (if oc = Abandoned then spooled c s @ [\<lparr>sb_id = dv_id v, sb_lines = ls\<rparr>] else []) \<and>
    sp_dead s' = sp_dead s @ dead_text c rs \<and> map dl_lines rs = (if oc = Permanent then [ls] else []) \<and> oc \<noteq> Transient"
proof -
  let ?b = "\<lparr>sb_id = dv_id v, sb_lines = ls\<rparr>" and ?n = "wal_next (sp_log s)"
  obtain p where add: "Add c good_spool_io ?b s = (?n, True, s\<lparr>sp_log := wal_append (sp_log s) p\<rparr>)"
    "wal_room (sp_log s) p" "bc_dec c p = Some ?b"
    using Add_good[OF f(2,3) b] by blast
  let ?s1 = "s\<lparr>sp_log := wal_append (sp_log s) p\<rparr>"
  obtain err where po: "post True (dv_net v) = Some (oc, err)"
    and g: "g = settle c good_spool_io (dv_now v) ?b ?n (oc, err) (f\<lparr>fw_spool := Some ?s1\<rparr>)"
    using d f(1) add(1) io by (auto simp: deliver_def)
  have nt: "oc \<noteq> Transient" using post_spooled[OF po] by simp
  note ap = wal_log.append_law[OF f(2) add(2)]
  note ak = ack_last[OF f(2) add(2)]
  have n: "0 < ?n" by (rule wal_next_pos[OF f(2)])
  have sp: "spooled c ?s1 = spooled c s @ [?b]"
    using ap add(3) by (simp add: spooled_def map_filter_def)
  show ?thesis
  proof (cases oc)
    case Delivered
    then have "g = f\<lparr>fw_spool := Some (?s1\<lparr>sp_log := wal_ack (sp_log ?s1) ?n\<rparr>)\<rparr>"
      unfolding g using n by (simp add: settle_def Ack_good)
    then show ?thesis using ak Delivered
      by (intro exI[of _ "?s1\<lparr>sp_log := wal_ack (sp_log ?s1) ?n\<rparr>"] exI[of _ "[]"])
        (simp add: spooled_def map_filter_simps dead_text_def)
  next
    case Permanent
    let ?r = "\<lparr>dl_at = dv_now v, dl_batch = dv_id v, dl_reason = err, dl_lines = ls\<rparr>"
    obtain js where js: "bc_dead c ?r = Some js" using dead by blast
    let ?s2 = "?s1\<lparr>sp_open := True, sp_dead := sp_dead s @ js @ [CHR 0x0A]\<rparr>"
    have "g = f\<lparr>fw_spool := Some (?s2\<lparr>sp_log := wal_ack (sp_log ?s1) ?n\<rparr>)\<rparr>"
      unfolding g using n js Permanent by (simp add: settle_def DeadLetter_good Ack_good Let_def)
    then show ?thesis using ak Permanent js
      by (intro exI[of _ "?s2\<lparr>sp_log := wal_ack (sp_log ?s1) ?n\<rparr>"] exI[of _ "[?r]"])
        (simp add: spooled_def map_filter_simps dead_text_def)
  next
    case Abandoned
    then have "g = f\<lparr>fw_spool := Some ?s1\<rparr>" unfolding g by (simp add: settle_def)
    then show ?thesis using ap sp Abandoned
      by (intro exI[of _ ?s1] exI[of _ "[]"]) (simp add: dead_text_def)
  qed (use nt in simp)
qed

section \<open>What becomes of the lines\<close>

text \<open>
  The batches still spooled after a run with the given outcomes, \<open>ps\<close> being spooled before: the
  abandoned ones since the last that was accepted or refused.
\<close>

fun unsettled :: "spooledBatch list \<Rightarrow> (string \<times> string list \<times> deliveryOutcome) list \<Rightarrow> spooledBatch list" where
  "unsettled ps [] = ps"
| "unsettled ps ((bid, ls, oc) # os) =
     unsettled (if oc = Abandoned then ps @ [\<lparr>sb_id = bid, sb_lines = ls\<rparr>] else []) os"

abbreviation refused :: "sent \<Rightarrow> string list list" where
  "refused out \<equiv> map fst (filter (\<lambda>(_, oc). oc = Permanent) out)"

text \<open>The assumptions of a run: every disk works, the batches can be encoded, numbers remain.\<close>

definition smooth :: "batch_codec \<Rightarrow> (send_event \<times> delivery) list \<Rightarrow> sent \<Rightarrow> bool" where
  "smooth c evs out \<longleftrightarrow> (\<forall>r. bc_dead c r \<noteq> None) \<and>
     (\<forall>(ev, v)\<in>set evs. dv_io v = good_spool_io \<and> (\<forall>(ls, oc)\<in>set out. batch_ok c \<lparr>sb_id = dv_id v, sb_lines = ls\<rparr>))"

definition spool_after :: "batch_codec \<Rightarrow> spool \<Rightarrow> sent \<Rightarrow> spool \<Rightarrow> bool" where
  "spool_after c s out s' \<longleftrightarrow> wal_synced (sp_log s') \<and> Transient \<notin> snd ` set out \<and>
     (\<exists>ids. length ids = length out \<and> spooled c s' = unsettled (spooled c s) (zip ids out)) \<and>
     (\<exists>rs. sp_dead s' = sp_dead s @ dead_text c rs \<and> map dl_lines rs = refused out)"

lemma dead_text_append [simp]: "dead_text c (rs @ rs') = dead_text c rs @ dead_text c rs'"
  by (simp add: dead_text_def)

lemma unsettled_append: "unsettled ps (xs @ ys) = unsettled (unsettled ps xs) ys"
  by (induction ps xs rule: unsettled.induct) simp_all

lemma spool_after_trans:
  assumes "spool_after c s out s'" "spool_after c s' out' s''"
  shows "spool_after c s (out @ out') s''"
proof -
  obtain ids rs where a: "length ids = length out" "spooled c s' = unsettled (spooled c s) (zip ids out)"
    "sp_dead s' = sp_dead s @ dead_text c rs" "map dl_lines rs = refused out" "Transient \<notin> snd ` set out"
    using assms(1) by (auto simp: spool_after_def)
  obtain ids' rs' where b: "length ids' = length out'" "spooled c s'' = unsettled (spooled c s') (zip ids' out')"
    "sp_dead s'' = sp_dead s' @ dead_text c rs'" "map dl_lines rs' = refused out'" "wal_synced (sp_log s'')" "Transient \<notin> snd ` set out'"
    using assms(2) by (auto simp: spool_after_def)
  have "spooled c s'' = unsettled (spooled c s) (zip (ids @ ids') (out @ out'))"
    using a(1,2) b(2) by (simp add: unsettled_append)
  moreover have "sp_dead s'' = sp_dead s @ dead_text c (rs @ rs')" using a(3) b(3) by simp
  moreover have "map dl_lines (rs @ rs') = refused (out @ out')" using a(4) b(4) by simp
  moreover have "length (ids @ ids') = length (out @ out')" using a(1) b(1) by simp
  moreover have "Transient \<notin> snd ` set (out @ out')" using a(5) b(6) by auto
  ultimately show ?thesis unfolding spool_after_def using b(5) by blast
qed

lemma flush_batch_good:
  assumes f: "fw_spool f = Some s" "wal_synced (sp_log s)" "wal_next (sp_log s) < 2 ^ 64"
    and sm: "smooth c [(ev, v)] out" and fl: "flush_batch c v batch f = Some (out, g)"
  shows "\<exists>s'. g = f\<lparr>fw_spool := Some s'\<rparr> \<and> spool_after c s out s' \<and>
    wal_next (sp_log s') \<le> Suc (wal_next (sp_log s)) \<and> concat (map fst out) = batch"
proof (cases "batch = []")
  case True
  have "g = f\<lparr>fw_spool := Some s\<rparr>" using True fl f(1) by (simp add: flush_batch_def)
  then show ?thesis using True fl f(2)
    by (intro exI[of _ s]) (auto simp: flush_batch_def spool_after_def dead_text_def)
next
  case False
  then obtain oc where d: "deliver c v batch f = Some (oc, g)" "out = [(batch, oc)]"
    using fl by (auto simp: flush_batch_def)
  have "batch_ok c \<lparr>sb_id = dv_id v, sb_lines = batch\<rparr>" "dv_io v = good_spool_io" "\<forall>r. bc_dead c r \<noteq> None"
    using sm d(2) by (auto simp: smooth_def)
  from deliver_good[OF f this d(1)] obtain s' rs where s': "g = f\<lparr>fw_spool := Some s'\<rparr>" "wal_synced (sp_log s')"
    "wal_next (sp_log s') = Suc (wal_next (sp_log s))"
    "spooled c s' = (if oc = Abandoned then spooled c s @ [\<lparr>sb_id = dv_id v, sb_lines = batch\<rparr>] else [])"
    "sp_dead s' = sp_dead s @ dead_text c rs" "map dl_lines rs = (if oc = Permanent then [batch] else [])" "oc \<noteq> Transient" by blast
  have "spooled c s' = unsettled (spooled c s) (zip [dv_id v] out)" using s'(4) d(2) by simp
  moreover have "map dl_lines rs = refused out" using s'(6) d(2) by simp
  moreover have "length [dv_id v] = length out" using d(2) by simp
  moreover have "Transient \<notin> snd ` set out" using s'(7) d(2) by simp
  ultimately have "spool_after c s out s'" unfolding spool_after_def using s'(2,5) by blast
  then show ?thesis using s'(1,3) d(2) by (intro exI[of _ s']) simp
qed

lemma smooth_append: "smooth c (evs @ evs') (out @ out') \<Longrightarrow> smooth c evs out \<and> smooth c evs' out'"
  by (fastforce simp: smooth_def)

lemma send_spool:
  assumes "send c evs batch f = Some (out, g)" "smooth c evs out"
    "fw_spool f = Some s" "wal_synced (sp_log s)" "wal_next (sp_log s) + length evs \<le> 2 ^ 64"
  shows "\<exists>s'. fw_spool g = Some s' \<and> spool_after c s out s'"
  using assms
proof (induction c evs batch f arbitrary: s out rule: send.induct)
  case (1 c batch f)
  then show ?case by (auto simp: spool_after_def dead_text_def)
next
  case (2 c ev v evs batch f)
  have n: "wal_next (sp_log s) < 2 ^ 64" using 2(8) by simp
  have flush_then: "\<exists>s'. fw_spool g = Some s' \<and> spool_after c s out s'"
    if fl: "flush_batch c v b f = Some (o1, f1)" and se: "send c evs [] f1 = Some (o2, g)" and o: "out = o1 @ o2"
      and ih: "\<And>out s. send c evs [] f1 = Some (out, g) \<Longrightarrow> smooth c evs out \<Longrightarrow> fw_spool f1 = Some s \<Longrightarrow>
        wal_synced (sp_log s) \<Longrightarrow> wal_next (sp_log s) + length evs \<le> 2 ^ 64 \<Longrightarrow>
        \<exists>s'. fw_spool g = Some s' \<and> spool_after c s out s'" for b o1 o2 f1
  proof -
    have sm: "smooth c [(ev, v)] o1" "smooth c evs o2" using smooth_append[of c "[(ev, v)]" evs o1 o2] 2(5) o by auto
    obtain s1 where s1: "f1 = f\<lparr>fw_spool := Some s1\<rparr>" "spool_after c s o1 s1" "wal_next (sp_log s1) \<le> Suc (wal_next (sp_log s))"
      using flush_batch_good[OF 2(6,7) n sm(1) fl] by blast
    have "wal_synced (sp_log s1)" using s1(2) by (simp add: spool_after_def)
    then obtain s' where "fw_spool g = Some s'" "spool_after c s1 o2 s'"
      using ih[OF se sm(2), of s1] s1(1,3) 2(8) by auto
    then show ?thesis using spool_after_trans[OF s1(2)] o by blast
  qed
  show ?case
  proof (cases ev)
    case Finish
    then show ?thesis using flush_batch_good[of f s c ev v out batch g] 2(4,5,6,7) n
      by (auto simp: smooth_def)
  next
    case Tick
    then obtain o1 f1 o2 where "flush_batch c v batch f = Some (o1, f1)" "send c evs [] f1 = Some (o2, g)" "out = o1 @ o2"
      using 2(4) by (auto split: option.split_asm prod.split_asm)
    then show ?thesis using flush_then 2(3)[OF Tick] by blast
  next
    case (Received line)
    show ?thesis
    proof (cases "int (length (batch @ [line])) \<ge> fo_batch (fw_opts f)")
      case True
      then obtain o1 f1 o2 where "flush_batch c v (batch @ [line]) f = Some (o1, f1)" "send c evs [] f1 = Some (o2, g)" "out = o1 @ o2"
        using 2(4) Received by (auto split: option.split_asm prod.split_asm)
      then show ?thesis using flush_then 2(1)[OF Received refl True] by blast
    next
      case False
      have "smooth c evs out" using 2(5) by (auto simp: smooth_def)
      moreover have "send c evs (batch @ [line]) f = Some (out, g)" using 2(4) Received False by simp
      ultimately show ?thesis using 2(2)[OF Received refl False, of out s] 2(6-8) by auto
    qed
  qed
qed

definition received :: "(send_event \<times> delivery) list \<Rightarrow> string list" where
  "received evs = concat (map (\<lambda>(ev, _). case ev of Received l \<Rightarrow> [l] | _ \<Rightarrow> []) evs)"

lemma received_simps [simp]: "received [] = []"
  "received ((ev, v) # evs) = (case ev of Received l \<Rightarrow> [l] | _ \<Rightarrow> []) @ received evs"
  by (simp_all add: received_def)

lemma flush_lines: "flush_batch c v batch f = Some (out, g) \<Longrightarrow> concat (map fst out) = batch"
  by (auto simp: flush_batch_def split: if_split_asm)

lemma send_lines:
  "send c (evs @ [(Finish, u)]) batch f = Some (out, g) \<Longrightarrow> Finish \<notin> fst ` set evs \<Longrightarrow>
   concat (map fst out) = batch @ received evs"
proof (induction evs arbitrary: batch f out)
  case Nil
  then show ?case by (simp add: flush_lines)
next
  case (Cons x evs)
  obtain ev v where x: "x = (ev, v)" by fastforce
  show ?case
  proof (cases ev)
    case Tick
    then obtain o1 f1 o2 where "flush_batch c v batch f = Some (o1, f1)" "send c (evs @ [(Finish, u)]) [] f1 = Some (o2, g)" "out = o1 @ o2"
      using Cons.prems(1) x by (auto split: option.split_asm prod.split_asm)
    then show ?thesis using Cons.IH[of "[]" f1 o2] Cons.prems(2) flush_lines[of c v batch f o1 f1] Tick x by simp
  next
    case (Received line)
    show ?thesis
    proof (cases "int (length (batch @ [line])) \<ge> fo_batch (fw_opts f)")
      case True
      then obtain o1 f1 o2 where "flush_batch c v (batch @ [line]) f = Some (o1, f1)" "send c (evs @ [(Finish, u)]) [] f1 = Some (o2, g)" "out = o1 @ o2"
        using Cons.prems(1) x Received by (auto split: option.split_asm prod.split_asm)
      then show ?thesis using Cons.IH[of "[]" f1 o2] Cons.prems(2) flush_lines[of c v "batch @ [line]" f o1 f1] Received x by simp
    next
      case False
      then show ?thesis using Cons.IH[of "batch @ [line]" f out] Cons.prems Received x by simp
    qed
  qed (use Cons.prems(2) x in simp)
qed

lemma unsettled_settled: "oc \<noteq> Abandoned \<Longrightarrow> unsettled ps (xs @ [(bid, ls, oc)]) = []"
  by (simp add: unsettled_append)

lemma unsettled_last: "unsettled ps (xs @ [(bid, ls, Abandoned)]) = unsettled ps xs @ [\<lparr>sb_id = bid, sb_lines = ls\<rparr>]"
  by (simp add: unsettled_append)

text \<open>C7. Every line a forwarder with a working spool receives is accounted for.  As long as the disk operations
  of the spool succeed, batches and dead letters can be encoded and no batch but the last is
  abandoned, then, whatever the network does, once the input ends the lines received are exactly those
  of the batches it formed, in order, and each batch was accepted by the server, is in the
  dead-letter file, or is in the spool for the next run.\<close>

theorem send_accounts:
  assumes run: "send c (evs @ [(Finish, u)]) [] f = Some (out, g)" "Finish \<notin> fst ` set evs"
    and sm: "smooth c (evs @ [(Finish, u)]) out"
    and f: "fw_spool f = Some s" "wal_synced (sp_log s)" "wal_next (sp_log s) + length evs < 2 ^ 64"
    and ab: "Abandoned \<notin> snd ` set (butlast out)"
  shows "concat (map fst out) = received evs \<and>
    (\<exists>s' rs. fw_spool g = Some s' \<and> sp_dead s' = sp_dead s @ dead_text c rs \<and>
      (\<forall>(ls, oc)\<in>set out. oc = Delivered \<or> oc = Permanent \<and> ls \<in> dl_lines ` set rs \<or>
         oc = Abandoned \<and> ls \<in> sb_lines ` set (spooled c s')))"
proof (intro conjI)
  show "concat (map fst out) = received evs" using send_lines[OF run] by simp
  obtain s' where s': "fw_spool g = Some s'" "spool_after c s out s'"
    using send_spool[OF run(1) sm f(1,2)] f(3) by auto
  then obtain ids rs where r: "length ids = length out" "spooled c s' = unsettled (spooled c s) (zip ids out)"
    "sp_dead s' = sp_dead s @ dead_text c rs" "map dl_lines rs = refused out" and tr: "Transient \<notin> snd ` set out"
    by (auto simp: spool_after_def)
  have "oc = Delivered \<or> oc = Permanent \<and> ls \<in> dl_lines ` set rs \<or> oc = Abandoned \<and> ls \<in> sb_lines ` set (spooled c s')"
    if m: "(ls, oc) \<in> set out" for ls oc
  proof (cases oc)
    case Permanent
    then have "ls \<in> set (refused out)" using m by force
    then show ?thesis using Permanent unfolding r(4)[symmetric] by simp
  next
    case Abandoned
    then have o: "out = butlast out @ [(ls, oc)]"
      using m ab by (cases out rule: rev_cases) force+
    obtain ids' i where i: "ids = ids' @ [i]" using r(1) o by (cases ids rule: rev_cases) auto
    then have "length ids' = length (butlast out)" using r(1) by simp
    then have "zip ids out = zip ids' (butlast out) @ [(i, ls, Abandoned)]" using o i Abandoned
      by (metis zip_append zip_Cons_Cons zip_Nil)
    then show ?thesis using r(2) Abandoned by (simp add: unsettled_last)
  next
    case Transient
    then show ?thesis using tr m by force
  qed simp
  then show "\<exists>s' rs. fw_spool g = Some s' \<and> sp_dead s' = sp_dead s @ dead_text c rs \<and>
      (\<forall>(ls, oc)\<in>set out. oc = Delivered \<or> oc = Permanent \<and> ls \<in> dl_lines ` set rs \<or>
         oc = Abandoned \<and> ls \<in> sb_lines ` set (spooled c s'))"
    using s'(1) r(3) by blast
qed

text \<open>A concrete codec, disk and network for the witnesses: fields separated by newlines.\<close>

definition line_codec :: batch_codec where
  "line_codec = \<lparr>bc_enc = (\<lambda>b. Some (map of_char (join [CHR 0x0A] (sb_id b # sb_lines b)))),
     bc_dec = (\<lambda>p. case split_char (CHR 0x0A) (map (\<lambda>x. char_of (unat x)) p) of
        [] \<Rightarrow> None | i # ls \<Rightarrow> Some \<lparr>sb_id = i, sb_lines = ls\<rparr>),
     bc_dead = (\<lambda>r. Some (join [CHR 0x20] (dl_batch r # dl_reason r # dl_lines r)))\<rparr>"

definition empty_spool :: spool where
  "empty_spool = \<lparr>sp_log = empty_log, sp_open = False, sp_dead = []\<rparr>"

definition one_line_forwarder :: forwarder where
  "one_line_forwarder = \<lparr>fw_opts = \<lparr>fo_batch = 1, fo_flush = second, fo_poll = second, fo_from_start = True,
     fo_backoff = second, fo_max_backoff = second\<rparr>, fw_spool = Some empty_spool\<rparr>"

definition replying :: "net_reply \<Rightarrow> delivery" where
  "replying r = \<lparr>dv_io = good_spool_io, dv_net = \<lparr>nt_reply = (\<lambda>_. r), nt_cancelled = (\<lambda>_. False)\<rparr>, dv_id = ''b'', dv_now = 0\<rparr>"

lemma post_first: "fst (attempt (nt_reply net 1)) \<noteq> Transient \<Longrightarrow>
    \<exists>e. post sp net = Some (fst (attempt (nt_reply net 1)), e)"
  unfolding post_def
  by (subst post_loop.simps; cases "attempt (nt_reply net 1)"; cases "fst (attempt (nt_reply net 1))"; simp)

lemma deliver_returns:
  "post (fw_spool f \<noteq> None) (dv_net v) = Some (oc, e) \<Longrightarrow> \<exists>g. deliver c v ls f = Some (oc, g) \<and> fw_opts g = fw_opts f \<and> (fw_spool g \<noteq> None \<longleftrightarrow> fw_spool f \<noteq> None)"
  by (cases oc) (auto simp: deliver_def settle_def Let_def split: option.split prod.split)

lemma line_codec_samples: "batch_ok line_codec \<lparr>sb_id = ''b'', sb_lines = [''x'']\<rparr>" "batch_ok line_codec \<lparr>sb_id = ''b'', sb_lines = [''y'']\<rparr>"
  by (simp_all add: batch_ok_def line_codec_def maxRecordBytes_def) code_simp+

lemma empty_spool_facts: "wal_synced (sp_log empty_spool)" "wal_next (sp_log empty_spool) = 1" "spooled c empty_spool = []"
  using empty_log_synced
  by (simp_all add: empty_spool_def wal_next_def spooled_def wal_pending_def pending_def empty_log_def map_filter_simps)

abbreviation two_lines :: "net_reply \<Rightarrow> net_reply \<Rightarrow> (send_event \<times> delivery) list" where
  "two_lines r r' \<equiv> [(Received ''x'', replying r), (Received ''y'', replying r')]"

lemma two_lines_run:
  assumes "fst (attempt r) \<noteq> Transient" "fst (attempt r') \<noteq> Transient"
  shows "\<exists>g. send line_codec (two_lines r r' @ [(Finish, replying r')]) [] one_line_forwarder
     = Some ([([''x''], fst (attempt r)), ([''y''], fst (attempt r'))], g)"
proof -
  have p: "\<exists>e. post sp (dv_net (replying k)) = Some (fst (attempt k), e)" if "fst (attempt k) \<noteq> Transient" for sp k
    using post_first[of "dv_net (replying k)" sp] that by (simp add: replying_def)
  have b: "fo_batch (fw_opts one_line_forwarder) = 1" by (simp add: one_line_forwarder_def)
  obtain e e' where e: "post (fw_spool one_line_forwarder \<noteq> None) (dv_net (replying r)) = Some (fst (attempt r), e)"
    using p[OF assms(1)] by blast
  obtain g where g: "deliver line_codec (replying r) [''x''] one_line_forwarder = Some (fst (attempt r), g)"
     "fw_opts g = fw_opts one_line_forwarder" using deliver_returns[OF e] by blast
  obtain e' where e': "post (fw_spool g \<noteq> None) (dv_net (replying r')) = Some (fst (attempt r'), e')"
    using p[OF assms(2)] by blast
  obtain h where "deliver line_codec (replying r') [''y''] g = Some (fst (attempt r'), h)"
    using deliver_returns[OF e'] by blast
  then show ?thesis using g b by (simp add: flush_batch_def)
qed

lemma two_lines_smooth: "smooth line_codec (two_lines r r' @ [(Finish, replying r')]) [([''x''], oc), ([''y''], oc')]"
  using line_codec_samples by (simp add: smooth_def replying_def) (simp add: line_codec_def)

theorem send_accounts_witness:
  "\<exists>g s'. send line_codec (two_lines (Status 202) (Status 400) @ [(Finish, replying (Status 400))]) [] one_line_forwarder
      = Some ([([''x''], Delivered), ([''y''], Permanent)], g) \<and> fw_spool g = Some s' \<and>
    (\<exists>rs. sp_dead s' = dead_text line_codec rs \<and> [''y''] \<in> dl_lines ` set rs)"
proof -
  have o: "fst (attempt (Status 202)) = Delivered" "fst (attempt (Status 400)) = Permanent" by code_simp+
  then obtain g where g: "send line_codec (two_lines (Status 202) (Status 400) @ [(Finish, replying (Status 400))]) [] one_line_forwarder
      = Some ([([''x''], Delivered), ([''y''], Permanent)], g)"
    using two_lines_run[of "Status 202" "Status 400"] by auto
  have "fw_spool one_line_forwarder = Some empty_spool" by (simp add: one_line_forwarder_def)
  from send_accounts[OF g _ two_lines_smooth this] empty_spool_facts
  obtain s' rs where "fw_spool g = Some s'" "sp_dead s' = sp_dead empty_spool @ dead_text line_codec rs" "[''y''] \<in> dl_lines ` set rs"
    by auto
  then show ?thesis using g by (auto simp: empty_spool_def)
qed

text \<open>C8. An abandoned batch is lost when the next one succeeds.  If the context ends while one batch is being
  posted, and the last batch, posted under its own deadline, is accepted, then acknowledging the
  last batch also removes the abandoned one from the spool: it was never accepted, it is not in
  the dead-letter file, and the next run has nothing to send.\<close>

theorem abandoned_batch_lost:
  assumes "send c evs [] f = Some ([(a, Abandoned), (b, Delivered)], g)"
    "smooth c evs [(a, Abandoned), (b, Delivered)]"
    "fw_spool f = Some s" "wal_synced (sp_log s)" "wal_next (sp_log s) + length evs \<le> 2 ^ 64"
  shows "\<exists>s'. fw_spool g = Some s' \<and> spooled c s' = [] \<and> sp_dead s' = sp_dead s"
proof -
  obtain s' where s': "fw_spool g = Some s'" "spool_after c s [(a, Abandoned), (b, Delivered)] s'"
    using send_spool[OF assms] by blast
  then obtain ids rs where r: "length ids = Suc (Suc 0)" "spooled c s' = unsettled (spooled c s) (zip ids [(a, Abandoned), (b, Delivered)])"
    "sp_dead s' = sp_dead s @ dead_text c rs" "rs = []" unfolding spool_after_def by auto
  obtain i j where "ids = [i, j]" using r(1) by (auto simp: length_Suc_conv)
  then show ?thesis using s'(1) r by (intro exI[of _ s']) (simp add: dead_text_def)
qed

theorem abandoned_batch_lost_witness:
  "\<exists>g s'. send line_codec (two_lines (NoReply ''context canceled'' True) (Status 200) @ [(Finish, replying (Status 200))]) [] one_line_forwarder
      = Some ([([''x''], Abandoned), ([''y''], Delivered)], g) \<and> fw_spool g = Some s' \<and>
    spooled line_codec s' = [] \<and> sp_dead s' = []"
proof -
  have o: "fst (attempt (NoReply ''context canceled'' True)) = Abandoned" "fst (attempt (Status 200)) = Delivered" by code_simp+
  then obtain g where g: "send line_codec (two_lines (NoReply ''context canceled'' True) (Status 200) @ [(Finish, replying (Status 200))]) [] one_line_forwarder
      = Some ([([''x''], Abandoned), ([''y''], Delivered)], g)"
    using two_lines_run[of "NoReply ''context canceled'' True" "Status 200"] by auto
  have "fw_spool one_line_forwarder = Some empty_spool" by (simp add: one_line_forwarder_def)
  from abandoned_batch_lost[OF g two_lines_smooth this] empty_spool_facts g show ?thesis
    by (auto simp: empty_spool_def)
qed

section \<open>Resuming after a restart\<close>

lemma pending_sorted:
  assumes "wal_synced st"
  shows "sorted_wrt (<) (map fst (wal_pending st))"
proof -
  obtain w d where st: "st = (w, d)" by fastforce
  have "wal_ok (w, d)" using assms st by (simp add: wal_synced_def)
  then obtain left lrss rss where inv: "wal_inv w d left lrss rss"
      and pe: "pending w d = filter (\<lambda>(q, _). q > w_checkpoint w) (concat rss)" by (rule wal_okE)
  have "segs_chain (left @ w_segments w) (lrss @ rss) (w_next_seq w)" using inv by (simp add: wal_inv_def)
  then have "sorted_wrt (<) (map fst (concat lrss @ concat rss))" using segs_chain_sorted by fastforce
  then have "sorted_wrt (<) (map fst (concat rss))" by (simp add: sorted_wrt_append)
  then show ?thesis using sorted_wrt_filter[of "(<)" "map fst (concat rss)"] pe st
    by (simp add: wal_pending_def sorted_wrt_map sorted_wrt_filter)
qed

lemma ack_first:
  assumes "wal_synced st" "wal_pending st = (q, p) # rs"
  shows "wal_synced (wal_ack st q) \<and> wal_pending (wal_ack st q) = rs"
proof -
  have "q < wal_next st" using pending_numbers[OF assms(1), of q p] assms(2) by simp
  note k = wal_log.ack_law[OF assms(1) this]
  have "\<forall>(q', p')\<in>set rs. q < q'" using pending_sorted[OF assms(1)] assms(2) by auto
  then have "filter (\<lambda>(q', _). q < q') (wal_pending st) = rs"
    unfolding assms(2) by (auto simp: filter_id_conv split: prod.split)
  then show ?thesis using k by simp
qed

lemma settle_good:
  assumes f: "fw_spool f = Some s" "wal_synced (sp_log s)" "wal_pending (sp_log s) = (q, p) # rs"
    and oc: "oc = Delivered \<or> oc = Permanent" and dead: "\<forall>r. bc_dead c r \<noteq> None"
  shows "\<exists>s' ds. fw_spool (settle c good_spool_io now b q (oc, e) f) = Some s' \<and> wal_synced (sp_log s') \<and>
    wal_pending (sp_log s') = rs \<and> sp_dead s' = sp_dead s @ dead_text c ds \<and>
    map dl_lines ds = (if oc = Permanent then [sb_lines b] else [])"
proof -
  have q: "0 < q" using pending_numbers[OF f(2), of q p] f(3) by simp
  note k = ack_first[OF f(2,3)]
  show ?thesis
  proof (cases "oc = Permanent")
    case False
    then have "oc = Delivered" using oc by simp
    then show ?thesis using q k f(1)
      by (intro exI[of _ "s\<lparr>sp_log := wal_ack (sp_log s) q\<rparr>"] exI[of _ "[]"]) (simp add: settle_def Ack_good dead_text_def)
  next
    case True
    let ?r = "\<lparr>dl_at = now, dl_batch = sb_id b, dl_reason = e, dl_lines = sb_lines b\<rparr>"
    obtain js where js: "bc_dead c ?r = Some js" using dead by blast
    show ?thesis using q k f(1) js True
      by (intro exI[of _ "s\<lparr>sp_open := True, sp_dead := sp_dead s @ js @ [CHR 0x0A], sp_log := wal_ack (sp_log s) q\<rparr>"] exI[of _ "[?r]"])
        (simp add: settle_def Ack_good DeadLetter_good Let_def dead_text_def)
  qed
qed

text \<open>
  A drain: the batches posted with their outcomes are a prefix of those spooled, in order, under
  their own IDs; each is settled at once, and the drain stops after one that is abandoned.
\<close>

definition drained_ok :: "batch_codec \<Rightarrow> spool \<Rightarrow> (spooledBatch \<times> deliveryOutcome) list \<Rightarrow> spool \<Rightarrow> bool" where
  "drained_ok c s res s' \<longleftrightarrow>
     map fst res = take (length res) (spooled c s) \<and>
     spooled c s' = drop (length (filter (\<lambda>(_, oc). oc \<noteq> Abandoned) res)) (spooled c s) \<and>
     (Abandoned \<notin> snd ` set (butlast res)) \<and>
     (length res < length (spooled c s) \<longrightarrow> res \<noteq> [] \<and> snd (last res) = Abandoned) \<and>
     (\<exists>ds. sp_dead s' = sp_dead s @ dead_text c ds \<and>
        map dl_lines ds = map (\<lambda>(b, _). sb_lines b) (filter (\<lambda>(_, oc). oc = Permanent) res))"

lemma spooled_Cons:
  "wal_pending (sp_log s) = (q, p) # rs \<Longrightarrow> wal_pending (sp_log s') = rs \<Longrightarrow> bc_dec c p = Some b \<Longrightarrow> spooled c s = b # spooled c s'"
  by (simp add: spooled_def map_filter_simps)

lemma drained_ok_Cons:
  assumes "drained_ok c s1 res s'" "spooled c s = b # spooled c s1" "oc \<noteq> Abandoned"
    "sp_dead s1 = sp_dead s @ dead_text c ds" "map dl_lines ds = (if oc = Permanent then [sb_lines b] else [])"
  shows "drained_ok c s ((b, oc) # res) s'"
proof -
  obtain ds' where ds': "sp_dead s' = sp_dead s1 @ dead_text c ds'"
     "map dl_lines ds' = map (\<lambda>(b, _). sb_lines b) (filter (\<lambda>(_, oc). oc = Permanent) res)"
    using assms(1) by (auto simp: drained_ok_def)
  have "sp_dead s' = sp_dead s @ dead_text c (ds @ ds')" using ds'(1) assms(4) by simp
  moreover have "map dl_lines (ds @ ds') = map (\<lambda>(b, _). sb_lines b) (filter (\<lambda>(_, oc). oc = Permanent) ((b, oc) # res))"
    using ds'(2) assms(5) by simp
  ultimately have "\<exists>d. sp_dead s' = sp_dead s @ dead_text c d \<and>
      map dl_lines d = map (\<lambda>(b, _). sb_lines b) (filter (\<lambda>(_, oc). oc = Permanent) ((b, oc) # res))" by blast
  then show ?thesis using assms(1-3) unfolding drained_ok_def by (cases res) auto
qed

lemma drain_replay:
  assumes "\<forall>(q, p)\<in>set rs. bc_dec c p \<noteq> None" "\<forall>q. dv_io (env q) = good_spool_io" "\<forall>r. bc_dead c r \<noteq> None"
    "fw_spool f = Some s" "wal_synced (sp_log s)" "wal_pending (sp_log s) = rs"
    "replay_visit (pending_visit c (drain_visit c env)) rs (acc, f) = r" "r \<noteq> Inl None"
  shows "\<exists>res g s'. (r = Inl (Some (acc @ res, g)) \<or> r = Inr (acc @ res, g)) \<and> fw_spool g = Some s' \<and> drained_ok c s res s'"
  using assms
proof (induction rs arbitrary: f s acc)
  case Nil
  have "spooled c s = []" using Nil(6) by (simp add: spooled_def map_filter_simps)
  then have "drained_ok c s [] s" by (simp add: drained_ok_def dead_text_def)
  then show ?case using Nil(4,7) by (intro exI[of _ "[]"] exI[of _ f] exI[of _ s]) simp
next
  case (Cons x rs)
  obtain q p where x: "x = (q, p)" by fastforce
  obtain b where b: "bc_dec c p = Some b" using Cons.prems(1) x by auto
  let ?v = "drain_visit c env q b (acc, f)"
  have r: "r = try_bind ?v (replay_visit (pending_visit c (drain_visit c env)) rs)"
  proof -
    have "pending_visit c (drain_visit c env) q p (acc, f) = ?v" using b by (simp add: pending_visit_def)
    then show ?thesis using Cons.prems(7) x by simp
  qed
  obtain oc e where po: "post True (dv_net (env q)) = Some (oc, e)"
    using r Cons.prems(4,8) by (cases "post True (dv_net (env q))") (auto simp: drain_visit_def)
  let ?g = "settle c good_spool_io (dv_now (env q)) b q (oc, e) f"
  have v: "?v = (if oc = Abandoned then Inl (Some (acc @ [(b, oc)], ?g)) else Inr (acc @ [(b, oc)], ?g))"
    using po Cons.prems(2,4) by (simp add: drain_visit_def Let_def)
  have pe: "wal_pending (sp_log s) = (q, p) # rs" using Cons.prems(6) x by simp
  have nt: "oc \<noteq> Transient" using post_spooled[OF po] by simp
  show ?case
  proof (cases "oc = Abandoned")
    case True
    have "?g = f" using True Cons.prems(4) by (simp add: settle_def)
    moreover have "\<exists>ys. spooled c s = b # ys" using pe b by (simp add: spooled_def map_filter_simps)
    then have "drained_ok c s [(b, oc)] s" using True by (auto simp: drained_ok_def dead_text_def)
    ultimately show ?thesis using r v True Cons.prems(4) by (intro exI[of _ "[(b, oc)]"] exI[of _ f] exI[of _ s]) simp
  next
    case False
    then have "oc = Delivered \<or> oc = Permanent" using nt by (cases oc) auto
    from settle_good[OF Cons.prems(4,5) pe this Cons.prems(3), of "dv_now (env q)" b e] obtain s1 ds where
      s1: "fw_spool ?g = Some s1" "wal_synced (sp_log s1)" "wal_pending (sp_log s1) = rs"
        "sp_dead s1 = sp_dead s @ dead_text c ds" "map dl_lines ds = (if oc = Permanent then [sb_lines b] else [])" by blast
    have "replay_visit (pending_visit c (drain_visit c env)) rs (acc @ [(b, oc)], ?g) = r" using r v False by simp
    from Cons.IH[OF _ Cons.prems(2,3) s1(1-3) this Cons.prems(8)] Cons.prems(1) obtain res g s' where
      h: "r = Inl (Some ((acc @ [(b, oc)]) @ res, g)) \<or> r = Inr ((acc @ [(b, oc)]) @ res, g)" "fw_spool g = Some s'" "drained_ok c s1 res s'"
      by auto
    have "drained_ok c s ((b, oc) # res) s'"
      by (rule drained_ok_Cons[OF h(3) spooled_Cons[OF pe s1(3) b] False s1(4,5)])
    then show ?thesis using h(1,2) by (intro exI[of _ "(b, oc) # res"] exI[of _ g] exI[of _ s']) simp
  qed
qed

text \<open>Resuming after a restart.  When draining the spool returns, what was posted is a prefix of the
  spooled batches, oldest first and under their original IDs; every batch that was settled has left
  the spool, refused ones are in the dead-letter file, and only the batch whose post was abandoned
  and those behind it remain.  If none was abandoned, everything was posted and the spool is empty.\<close>

theorem drainSpool_resumes:
  assumes "drainSpool c env f = Some (res, g)" "fw_spool f = Some s" "wal_synced (sp_log s)"
    "\<forall>(q, p)\<in>set (wal_pending (sp_log s)). bc_dec c p \<noteq> None"
    "\<forall>q. dv_io (env q) = good_spool_io" "\<forall>r. bc_dead c r \<noteq> None"
  shows "\<exists>s'. fw_spool g = Some s' \<and> drained_ok c s res s' \<and>
    (Abandoned \<notin> snd ` set res \<longrightarrow> map fst res = spooled c s \<and> spooled c s' = [])"
proof -
  let ?r = "replay_visit (pending_visit c (drain_visit c env)) (wal_pending (sp_log s)) ([], f)"
  have d: "drainSpool c env f = (case ?r of Inl r \<Rightarrow> r | Inr st \<Rightarrow> Some st)"
    using assms(2) by (simp add: drainSpool_def Pending_def Replay_def wal_pending_def)
  then have "?r \<noteq> Inl None" using assms(1) by auto
  from drain_replay[OF assms(4,5,6,2,3) refl refl this] obtain res' g' s' where
    h: "?r = Inl (Some ([] @ res', g')) \<or> ?r = Inr ([] @ res', g')" "fw_spool g' = Some s'" "drained_ok c s res' s'" by blast
  then have e: "res' = res" "g' = g" using d assms(1) by auto
  have "map fst res = spooled c s \<and> spooled c s' = []" if na: "Abandoned \<notin> snd ` set res"
  proof -
    have f: "filter (\<lambda>(_, oc). oc \<noteq> Abandoned) res = res" using na by (force simp: filter_id_conv)
    have "\<not> length res < length (spooled c s)" using h(3) na e
      by (metis drained_ok_def image_eqI last_in_set)
    then show ?thesis using h(3) e f by (simp add: drained_ok_def)
  qed
  then show ?thesis using h(2,3) e by blast
qed

lemma spool_one:
  "wal_synced (wal_append empty_log (map of_char ''b'' @ [10, of_char (CHR ''x'')])) \<and>
   wal_pending (wal_append empty_log (map of_char ''b'' @ [10, of_char (CHR ''x'')])) = [(1, map of_char ''b'' @ [10, of_char (CHR ''x'')])]"
proof -
  let ?p = "map of_char ''b'' @ [10, of_char (CHR ''x'')] :: byte list"
  have "wal_room empty_log ?p" by (simp add: wal_room_def fits_def empty_log_def maxRecordBytes_def)
  from wal_log.append_law[OF empty_log_synced this] show ?thesis
    by (simp add: wal_next_def wal_pending_def pending_def) (simp add: empty_log_def)
qed

theorem drainSpool_resumes_witness:
  "\<exists>f g s'. drainSpool line_codec (\<lambda>_. replying (Status 202)) f = Some ([(\<lparr>sb_id = ''b'', sb_lines = [''x'']\<rparr>, Delivered)], g) \<and>
     fw_spool g = Some s' \<and> spooled line_codec s' = []"
proof -
  let ?p = "map of_char ''b'' @ [10, of_char (CHR ''x'')] :: byte list" and ?b = "\<lparr>sb_id = ''b'', sb_lines = [''x'']\<rparr>"
  let ?s = "empty_spool\<lparr>sp_log := wal_append empty_log ?p\<rparr>"
  let ?f = "one_line_forwarder\<lparr>fw_spool := Some ?s\<rparr>" and ?env = "\<lambda>_ :: nat. replying (Status 202)"
  have dec: "bc_dec line_codec ?p = Some ?b" by (simp add: line_codec_def) code_simp
  have "fst (attempt (Status 202)) = Delivered" by code_simp
  then obtain e where po: "post True (dv_net (replying (Status 202))) = Some (Delivered, e)"
    using post_first[of "dv_net (replying (Status 202))" True] by (auto simp: replying_def)
  have pe: "pending (fst (wal_append empty_log ?p)) (snd (wal_append empty_log ?p)) = [(1, ?p)]"
    using spool_one by (simp add: wal_pending_def)
  obtain g where g: "drainSpool line_codec ?env ?f = Some ([(?b, Delivered)], g)"
    using po pe dec by (simp add: drainSpool_def Pending_def Replay_def pending_visit_def drain_visit_def)
  have "\<forall>(q, p)\<in>set (wal_pending (sp_log ?s)). bc_dec line_codec p \<noteq> None" using spool_one dec by simp
  moreover have "\<forall>q. dv_io (?env q) = good_spool_io" by (simp add: replying_def)
  moreover have "\<forall>r. bc_dead line_codec r \<noteq> None" by (simp add: line_codec_def)
  moreover have "fw_spool ?f = Some ?s" "wal_synced (sp_log ?s)" using spool_one by simp_all
  ultimately obtain s' where "fw_spool g = Some s'" "spooled line_codec s' = []"
    using drainSpool_resumes[OF g, of ?s] by auto
  then show ?thesis using g by blast
qed

section \<open>Tailing a growing file\<close>

abbreviation nl :: char where "nl \<equiv> CHR 0x0A"

text \<open>The lines of a text that are terminated, without their terminators, blank ones left out.\<close>

definition lines_of :: "string \<Rightarrow> string list" where
  "lines_of s = filter (\<lambda>l. l \<noteq> []) (map (trim_right line_end) (butlast (split_char nl s)))"

lemma split_char_app: "split_char c (a @ c # b) = split_char c a @ split_char c b"
proof (induction a)
  case (Cons x a)
  then show ?case by (cases "split_char c a") auto
qed simp

lemma trim_right_newline: "trim_right line_end (s @ [nl]) = trim_right line_end s"
  by (simp add: trim_right_def line_end_def)

lemma split_last:
  obtains a where "s = a @ last (split_char c s)" "a = [] \<or> last a = c"
proof (cases "c \<in> set s")
  case True
  then obtain x z where s: "s = x @ c # z" "c \<notin> set z" using split_list_last by metis
  then have "last (split_char c s) = z" by (simp add: split_char_app split_char_no_sep)
  then show thesis using that[of "x @ [c]"] s by simp
qed (use that[of "[]"] split_char_no_sep in simp)

lemma lines_of_append:
  assumes "a = [] \<or> last a = nl"
  shows "lines_of (a @ b) = lines_of a @ lines_of b"
proof (cases a rule: rev_cases)
  case (snoc x y)
  then have a: "a = x @ nl # []" using assms by simp
  have "butlast (split_char nl (a @ b)) = split_char nl x @ butlast (split_char nl b)"
    using a split_char_app[of nl x b] by (simp add: butlast_append)
  moreover have "butlast (split_char nl a) = split_char nl x" using a split_char_app[of nl x "[]"] by simp
  ultimately show ?thesis by (simp add: lines_of_def)
qed (simp add: lines_of_def)

lemma lines_of_part: "nl \<notin> set s \<Longrightarrow> lines_of s = []"
  by (simp add: lines_of_def split_char_no_sep)

lemma tail_read_lines: "tail_read s off = (lines_of s, off + (length s - length (last (split_char nl s))))"
proof (induction s off rule: tail_read.induct)
  case (1 s off)
  show ?case
  proof (cases "index_byte nl s")
    case None
    then have "nl \<notin> set s" by (simp add: index_byte_None)
    then show ?thesis using None by (subst tail_read.simps) (simp add: lines_of_part split_char_no_sep)
  next
    case (Some k)
    let ?r = "drop (Suc k) s"
    have k: "k < length s" "s ! k = nl" "nl \<notin> set (take k s)" using index_byte_Some[OF Some] by auto
    have s: "s = take k s @ nl # ?r" using k id_take_nth_drop[of k s] by simp
    have t: "trim_right line_end (take (Suc k) s) = trim_right line_end (take k s)"
      using k trim_right_newline[of "take k s"] by (simp add: take_Suc_conv_app_nth)
    have sp: "split_char nl s = take k s # split_char nl ?r" using split_char_append[OF k(3), of ?r] s by simp
    have "length (last (split_char nl ?r)) \<le> length ?r" using split_last[of ?r nl] by (metis le_add2 length_append)
    then show ?thesis using Some 1 k t by (subst tail_read.simps) (simp add: lines_of_def sp, arith)
  qed
qed

text \<open>A sequence of polls of one file, each with the size reported and the content then read.\<close>

fun polls :: "nat \<Rightarrow> (nat \<times> string) list \<Rightarrow> tail_state \<Rightarrow> string list \<times> tail_state" where
  "polls fid [] t = ([], t)"
| "polls fid ((sz, content) # ps) t =
     (let (ls, t1) = tail_poll (Some (fid, sz)) (Some content) t; (ls2, t2) = polls fid ps t1 in (ls @ ls2, t2))"

text \<open>A writer that only appends, possibly in the middle of a poll or of a line.\<close>

fun growing :: "string \<Rightarrow> (nat \<times> string) list \<Rightarrow> bool" where
  "growing c [] \<longleftrightarrow> True"
| "growing c ((sz, d) # ps) \<longleftrightarrow> prefix c d \<and> length c \<le> sz \<and> sz \<le> length d \<and> growing d ps"

definition tail_inv :: "nat \<Rightarrow> string \<Rightarrow> tail_state \<Rightarrow> bool" where
  "tail_inv fid c t \<longleftrightarrow> tl_known t = Some fid \<and> tl_offset t \<le> length c \<and>
     (take (tl_offset t) c = [] \<or> last (take (tl_offset t) c) = nl)"

lemma tail_poll_inv:
  assumes inv: "tail_inv fid c t" and g: "prefix c d" "length c \<le> sz" "sz \<le> length d"
    and p: "tail_poll (Some (fid, sz)) (Some d) t = (ls, t')"
  shows "tail_inv fid d t' \<and> lines_of (take (tl_offset t') d) = lines_of (take (tl_offset t) d) @ ls \<and>
    (sz = length d \<longrightarrow> lines_of (take (tl_offset t') d) = lines_of d)"
proof -
  let ?o = "tl_offset t"
  have o: "tl_known t = Some fid" "?o \<le> length c" "?o \<le> sz" "?o \<le> length d" using inv g by (auto simp: tail_inv_def)
  have td: "take ?o d = take ?o c" using g(1) o(2) by (auto simp: prefix_def)
  then have fin: "take ?o d = [] \<or> last (take ?o d) = nl" using inv by (simp add: tail_inv_def)
  show ?thesis
  proof (cases "sz = ?o")
    case True
    then have "ls = []" "t' = t" using p o by (cases t; auto simp: tail_poll_def)+
    then show ?thesis using True o fin by (auto simp: tail_inv_def)
  next
    case False
    let ?r = "drop ?o d"
    let ?n = "length ?r - length (last (split_char nl ?r))"
    obtain a where a: "?r = a @ last (split_char nl ?r)" "a = [] \<or> last a = nl" by (rule split_last)
    have n: "?n = length a" using arg_cong[OF a(1), of length] by simp
    have no: "nl \<notin> set (last (split_char nl ?r))" by (rule split_char_parts[of _ nl ?r]) simp
    have lr: "lines_of ?r = lines_of a"
      using lines_of_append[OF a(2), of "last (split_char nl ?r)"] a(1) lines_of_part[OF no] by simp
    have t': "t' = t\<lparr>tl_offset := ?o + length a\<rparr>" "ls = lines_of ?r"
      using p o False n by (cases t; simp add: tail_poll_def tail_read_lines Let_def)+
    have "take (length a) ?r = a" by (subst a(1)) simp
    then have tk: "take (?o + length a) d = take ?o d @ a" by (simp add: take_add)
    have le: "?o + length a \<le> length d" using n o(4) by simp
    have "take ?o d @ a = [] \<or> last (take ?o d @ a) = nl" using fin a(2) by (cases a rule: rev_cases) auto
    moreover have "lines_of (take ?o d @ a) = lines_of (take ?o d) @ ls"
      using lines_of_append[OF fin, of a] lr t'(2) by simp
    moreover have "lines_of d = lines_of (take ?o d) @ lines_of ?r"
      using lines_of_append[OF fin, of ?r] by simp
    ultimately show ?thesis using t' tk le o(1) by (simp add: tail_inv_def)
  qed
qed

lemma growing_prefix: "growing c ps \<Longrightarrow> ps \<noteq> [] \<Longrightarrow> prefix c (snd (last ps))"
proof (induction c ps rule: growing.induct)
  case (2 c sz d ps)
  then show ?case by (cases "ps = []") (auto intro: prefix_order.trans)
qed simp

lemma polls_lines:
  assumes "growing c ps" "tail_inv fid c t" "polls fid ps t = (ls, t')" "ps \<noteq> []" "last ps = (length d, d)"
  shows "lines_of (take (tl_offset t) c) @ ls = lines_of d"
  using assms
proof (induction ps arbitrary: c t ls)
  case (Cons x ps)
  obtain sz e where x: "x = (sz, e)" by fastforce
  obtain l1 t1 where p: "tail_poll (Some (fid, sz)) (Some e) t = (l1, t1)" by fastforce
  obtain l2 where q: "polls fid ps t1 = (l2, t')" "ls = l1 @ l2"
    using Cons.prems(3) x p by (auto split: prod.split_asm)
  have g: "prefix c e" "length c \<le> sz" "sz \<le> length e" "growing e ps" using Cons.prems(1) x by auto
  note i = tail_poll_inv[OF Cons.prems(2) g(1-3) p]
  have tc: "take (tl_offset t) e = take (tl_offset t) c"
    using g(1) Cons.prems(2) by (auto simp: prefix_def tail_inv_def)
  show ?case
  proof (cases "ps = []")
    case True
    then have ed: "e = d" "sz = length d" "l1 = ls" using Cons.prems(5) x q by simp_all
    have "lines_of (take (tl_offset t1) d) = lines_of (take (tl_offset t) c) @ ls"
      "lines_of (take (tl_offset t1) d) = lines_of d" using i unfolding ed tc[unfolded ed] by blast+
    then show ?thesis by argo
  next
    case False
    then show ?thesis using Cons.IH[OF g(4) conjunct1[OF i] q(1) False] Cons.prems(5) x q(2) i tc by simp
  qed
qed simp

text \<open>C9. Tailing loses, repeats and tears nothing.  Over any sequence of polls of a file that is only
  appended to (also while a poll is reading it, and in the middle of lines), the lines emitted from
  the start of the file until a poll that found it at rest are exactly its terminated non-blank
  lines, in order; a line without its newline is held back until it is complete.\<close>

theorem tail_exact:
  assumes "growing [] ps" "ps \<noteq> []" "last ps = (length d, d)"
    "polls fid ps (tail_start True (Some (fid, n))) = (ls, t)"
  shows "ls = lines_of d"
  using polls_lines[OF assms(1) _ assms(4,2,3)] by (simp add: tail_inv_def tail_start_def lines_of_def)

theorem tail_exact_witness:
  "fst (polls 7 [(3, ''ab'' @ [nl, CHR ''c'']), (6, ''ab'' @ [nl] @ ''cd'' @ [nl])] (tail_start True (Some (7, 0)))) = [''ab'', ''cd'']"
proof -
  let ?d = "''ab'' @ [nl] @ ''cd'' @ [nl]" and ?ps = "[(3, ''ab'' @ [nl, CHR ''c'']), (6, ''ab'' @ [nl] @ ''cd'' @ [nl])]"
  obtain ls t where p: "polls 7 ?ps (tail_start True (Some (7, 0))) = (ls, t)" by fastforce
  have "ls = lines_of ?d" by (rule tail_exact[OF _ _ _ p]) simp_all
  moreover have "lines_of ?d = [''ab'', ''cd'']" by code_simp
  ultimately show ?thesis using p by simp
qed

end
