(* ===== verification/Alert.thy ===== *)
theory Alert
  imports Query "HOL-Library.Multiset"
begin

text \<open>
  \<^verbatim>\<open>src/internal/alert\<close> and the alert tables of \<^verbatim>\<open>src/internal/store/sqlite/alerts.go\<close>:
  rules, their evaluation against the store, the scheduler's state machine and the notifications
  it sends.  The store's answers to a search or an aggregation, the replies of channels and the
  formatting of numbers and durations are parameters.
\<close>

section \<open>Rules\<close>

datatype cond_op = OpGT | OpGTE | OpLT | OpLTE | OpEQ | OpNE | OpOther string

record Condition =
  co_op :: cond_op
  co_value :: f64

definition Match :: "Condition \<Rightarrow> f64 \<Rightarrow> bool" where
  "Match c v =
     (case co_op c of
        OpGT \<Rightarrow> f64_lt (co_value c) v
      | OpGTE \<Rightarrow> f64_le (co_value c) v
      | OpLT \<Rightarrow> f64_lt v (co_value c)
      | OpLTE \<Rightarrow> f64_le v (co_value c)
      | OpEQ \<Rightarrow> f64_eq v (co_value c)
      | OpNE \<Rightarrow> \<not> f64_eq v (co_value c)
      | OpOther _ \<Rightarrow> False)"

datatype rule_state = StateOK | StateFiring | StateUnknown | StateOther string

definition MinInterval :: duration where "MinInterval = 10 * second"
definition MinWindow :: duration where "MinWindow = 10 * second"
definition MaxWindow :: duration where "MaxWindow = 30 * 24 * hour"

type_synonym severity = string

definition SeverityCritical :: severity where "SeverityCritical = ''critical''"
definition SeverityError :: severity where "SeverityError = ''error''"
definition SeverityWarning :: severity where "SeverityWarning = ''warning''"
definition SeverityInfo :: severity where "SeverityInfo = ''info''"
definition SeverityDebug :: severity where "SeverityDebug = ''debug''"
definition DefaultSeverity :: severity where "DefaultSeverity = SeverityWarning"

definition severity_Valid :: "severity \<Rightarrow> bool" where
  "severity_Valid s = (s \<in> {SeverityCritical, SeverityError, SeverityWarning, SeverityInfo, SeverityDebug})"

lemmas severity_defs = SeverityCritical_def SeverityError_def SeverityWarning_def SeverityInfo_def
  SeverityDebug_def DefaultSeverity_def

record Rule =
  ru_id :: string
  ru_name :: string
  ru_query :: string
  ru_window :: duration
  ru_interval :: duration
  ru_cond :: Condition
  ru_severity :: severity
  ru_channels :: "string list"
  ru_enabled :: bool
  ru_state :: rule_state
  ru_state_from :: time
  ru_last_eval :: time
  ru_last_value :: f64
  ru_last_error :: string
  ru_created :: time
  ru_updated :: time

datatype alert_error =
    NameRequired | QueryRequired | BadCondOp | BadSeverity | IntervalTooShort | WindowOutOfRange
  | WindowBelowInterval | ChannelNameRequired | BadChannelType | BadChannelURL | TokenRequired | TokenMasked
  | BadQuery query_error | StoreFailed | NoMeasure | AlertNotFound

text \<open>\<^verbatim>\<open>Validate\<close> also fills in the severity, before the later checks.\<close>

definition Validate_rule :: "Rule \<Rightarrow> alert_error option \<times> Rule" where
  "Validate_rule r0 =
     (if trim_space (ru_name r0) = [] then (Some NameRequired, r0)
      else if trim_space (ru_query r0) = [] then (Some QueryRequired, r0)
      else case co_op (ru_cond r0) of
          OpOther _ \<Rightarrow> (Some BadCondOp, r0)
        | _ \<Rightarrow>
            (let r = (if ru_severity r0 = [] then r0\<lparr>ru_severity := DefaultSeverity\<rparr> else r0)
             in if \<not> severity_Valid (ru_severity r) then (Some BadSeverity, r)
                else if ru_interval r < MinInterval then (Some IntervalTooShort, r)
                else if ru_window r < MinWindow \<or> ru_window r > MaxWindow then (Some WindowOutOfRange, r)
                else if ru_window r < ru_interval r then (Some WindowBelowInterval, r)
                else (None, r)))"

section \<open>Channels\<close>

datatype channel_type = ChannelWebhook | ChannelSlack | ChannelOmniNotify | ChannelOther string

text \<open>Eight times the bullet U+2022 in UTF-8.\<close>

definition TokenMask :: string where
  "TokenMask = concat (replicate 8 [CHR 0xE2, CHR 0x80, CHR 0xA2])"

record Channel =
  ch_id :: string
  ch_name :: string
  ch_type :: channel_type
  ch_url :: string
  ch_token :: string
  ch_created :: time

definition Validate_channel :: "Channel \<Rightarrow> alert_error option" where
  "Validate_channel c =
     (if trim_space (ch_name c) = [] then Some ChannelNameRequired
      else case ch_type c of
          ChannelOther _ \<Rightarrow> Some BadChannelType
        | _ \<Rightarrow>
            (if \<not> prefix ''http://'' (ch_url c) \<and> \<not> prefix ''https://'' (ch_url c) then Some BadChannelURL
             else if ch_type c = ChannelOmniNotify \<and> trim_space (ch_token c) = [] then Some TokenRequired
             else if ch_token c = TokenMask then Some TokenMasked
             else None))"

definition Masked :: "Channel \<Rightarrow> Channel" where
  "Masked c = (if ch_token c \<noteq> [] then c\<lparr>ch_token := TokenMask\<rparr> else c)"

section \<open>Evaluation\<close>

record alert_lib =
  al_go :: golib
  al_fmt_g :: "f64 \<Rightarrow> string"
  al_format_float :: "f64 \<Rightarrow> string"
  al_duration :: "duration \<Rightarrow> string"
  al_rfc3339nano :: "time \<Rightarrow> string"

record GroupHit =
  gh_labels :: "(string \<times> string) list"
  gh_value :: f64

record Evaluation =
  evn_at :: time
  evn_value :: f64
  evn_firing :: bool
  evn_groups :: "GroupHit list"

record AggResult =
  ag_columns :: "string list"
  ag_rows :: "any list list"
  ag_group_columns :: nat

text \<open>What the store answers: the total and whether it is capped, or a table; \<open>None\<close> is an error.\<close>

record Runner =
  rn_search :: "query \<Rightarrow> (int \<times> bool) option"
  rn_aggregate :: "query \<Rightarrow> AggResult option"

definition moreExtreme :: "cond_op \<Rightarrow> f64 \<Rightarrow> f64 \<Rightarrow> bool" where
  "moreExtreme opr a b =
     (case opr of
        OpGT \<Rightarrow> f64_lt b a | OpGTE \<Rightarrow> f64_lt b a | OpNE \<Rightarrow> f64_lt b a
      | OpLT \<Rightarrow> f64_lt a b | OpLTE \<Rightarrow> f64_lt a b
      | _ \<Rightarrow> False)"

definition labelsFor :: "golib \<Rightarrow> string list \<Rightarrow> any list \<Rightarrow> nat \<Rightarrow> (string \<times> string) list" where
  "labelsFor lib cols row groupCols =
     foldl (\<lambda>m (k, v). AList.update k (lib_fmt_v lib v) m) [] (take groupCols (zip cols row))"

definition toFloat :: "any \<Rightarrow> f64 option" where
  "toFloat v = (case v of AInt n \<Rightarrow> Some (f64_of_int n) | AFloat x \<Rightarrow> Some x | _ \<Rightarrow> None)"

definition evaluateCount :: "Runner \<Rightarrow> Rule \<Rightarrow> query \<Rightarrow> time \<Rightarrow> alert_error + Evaluation" where
  "evaluateCount rn rule q0 now =
     (case rn_search rn (q0\<lparr>q_limit := 1\<rparr>) of
        None \<Rightarrow> Inl StoreFailed
      | Some (tot, capped) \<Rightarrow>
          (let v = f64_of_int tot
           in Inr \<lparr>evn_at = now, evn_value = v, evn_firing = Match (ru_cond rule) v, evn_groups = []\<rparr>))"

text \<open>One row of the result: \<open>seen\<close> tells whether a measure was seen before.\<close>

definition eval_row :: "golib \<Rightarrow> Condition \<Rightarrow> AggResult \<Rightarrow> Evaluation \<times> bool \<Rightarrow> any list \<Rightarrow> Evaluation \<times> bool" where
  "eval_row lib cond res st row =
     (if ag_group_columns res \<ge> length row then st
      else case toFloat (row ! ag_group_columns res) of
          None \<Rightarrow> st
        | Some v \<Rightarrow>
            (let (ev, seen) = st;
                 ev1 = (if \<not> seen \<or> moreExtreme (co_op cond) v (evn_value ev) then ev\<lparr>evn_value := v\<rparr> else ev);
                 seen1 = True;
                 ev2 = (if Match cond v
                        then ev1\<lparr>evn_firing := True,
                                 evn_groups := evn_groups ev1 @ [\<lparr>gh_labels = labelsFor lib (ag_columns res) row (ag_group_columns res), gh_value = v\<rparr>]\<rparr>
                        else ev1)
             in (ev2, seen1)))"

definition evaluateAggregation :: "golib \<Rightarrow> Runner \<Rightarrow> Rule \<Rightarrow> query \<Rightarrow> time \<Rightarrow> alert_error + Evaluation" where
  "evaluateAggregation lib rn rule q now =
     (case rn_aggregate rn q of
        None \<Rightarrow> Inl StoreFailed
      | Some res \<Rightarrow>
          if ag_group_columns res \<ge> length (ag_columns res) then Inl NoMeasure
          else (let (ev, seen) = foldl (eval_row lib (ru_cond rule) res)
                       (\<lparr>evn_at = now, evn_value = 0, evn_firing = False, evn_groups = []\<rparr>, False) (ag_rows res)
                in Inr (if \<not> seen then ev\<lparr>evn_value := 0, evn_firing := Match (ru_cond rule) 0\<rparr> else ev)))"

definition query_params :: "string \<Rightarrow> params" where
  "query_params q = \<lparr>pa_q = q, pa_from = [], pa_to = [], pa_last = [], pa_limit = [], pa_order = [], pa_interval = [], pa_after = []\<rparr>"

definition Evaluate :: "golib \<Rightarrow> Runner \<Rightarrow> Rule \<Rightarrow> time \<Rightarrow> alert_error + Evaluation" where
  "Evaluate lib rn rule now =
     (case Build lib (query_params (ru_query rule)) now of
        Inl e \<Rightarrow> Inl (BadQuery e)
      | Inr q0 \<Rightarrow>
          (let q = Query_Normalize (q0\<lparr>q_from := now + i64 (- ru_window rule), q_to := now\<rparr>)
           in if q_agg q \<noteq> None then evaluateAggregation lib rn rule q now else evaluateCount rn rule q now))"

section \<open>The scheduler\<close>

definition tickInterval :: duration where "tickInterval = 5 * second"

record Notification =
  no_rule :: string
  no_rule_id :: string
  no_state :: rule_state
  no_severity :: severity
  no_test :: bool
  no_value :: f64
  no_condition :: string
  no_query :: string
  no_window :: string
  no_at :: time
  no_groups :: "GroupHit list"

fun cond_symbol :: "cond_op \<Rightarrow> string" where
  "cond_symbol OpGT = ''>''"
| "cond_symbol OpGTE = ''>=''"
| "cond_symbol OpLT = ''<''"
| "cond_symbol OpLTE = ''<=''"
| "cond_symbol OpEQ = ''==''"
| "cond_symbol OpNE = ''!=''"
| "cond_symbol (OpOther _) = []"

definition cond_String :: "alert_lib \<Rightarrow> Condition \<Rightarrow> string" where
  "cond_String lib c = cond_symbol (co_op c) @ '' '' @ al_fmt_g lib (co_value c)"

text \<open>\<^verbatim>\<open>due\<close> checks the rule's slot and claims it.\<close>

definition due :: "Rule \<Rightarrow> time \<Rightarrow> (string \<rightharpoonup> time) \<Rightarrow> bool \<times> (string \<rightharpoonup> time)" where
  "due r now nxt =
     (if (case nxt (ru_id r) of Some at \<Rightarrow> now < at | None \<Rightarrow> False) then (False, nxt)
      else (True, nxt(ru_id r \<mapsto> now + ru_interval r)))"

text \<open>The state of the rule after an evaluation, and the notification the transition calls for.\<close>

definition transition :: "alert_error + Evaluation \<Rightarrow> time \<Rightarrow> (alert_error \<Rightarrow> string) \<Rightarrow> Rule \<Rightarrow> Rule" where
  "transition res now show_error rule0 =
     (let rule = rule0\<lparr>ru_last_eval := now\<rparr>
      in case res of
           Inl e \<Rightarrow> rule\<lparr>ru_state := StateUnknown, ru_last_error := show_error e\<rparr>
         | Inr ev \<Rightarrow>
             (let r1 = rule\<lparr>ru_last_error := [], ru_last_value := evn_value ev,
                        ru_state := (if evn_firing ev then StateFiring else StateOK)\<rparr>
              in if ru_state r1 \<noteq> ru_state rule0 then r1\<lparr>ru_state_from := now\<rparr> else r1))"

definition notify_for :: "alert_lib \<Rightarrow> alert_error + Evaluation \<Rightarrow> time \<Rightarrow> rule_state \<Rightarrow> Rule \<Rightarrow> Notification option" where
  "notify_for lib res now prev rule =
     (case res of
        Inl e \<Rightarrow> None
      | Inr ev \<Rightarrow>
          if \<not> (ru_state rule = StateFiring \<and> prev \<noteq> StateFiring) \<and> \<not> (ru_state rule = StateOK \<and> prev = StateFiring)
          then None
          else Some \<lparr>no_rule = ru_name rule, no_rule_id = ru_id rule, no_state = ru_state rule,
             no_severity = (if ru_severity rule = [] then DefaultSeverity else ru_severity rule), no_test = False,
             no_value = evn_value ev, no_condition = cond_String lib (ru_cond rule), no_query = ru_query rule,
             no_window = al_duration lib (ru_window rule), no_at = now, no_groups = evn_groups ev\<rparr>)"

text \<open>\<^verbatim>\<open>dispatch\<close>: the channels the notification is sent to, whatever becomes of each attempt.\<close>

definition dispatch :: "Rule \<Rightarrow> (string \<rightharpoonup> Channel) \<Rightarrow> Notification \<Rightarrow> (Channel \<times> Notification) list" where
  "dispatch rule channels note = List.map_filter (\<lambda>i. map_option (\<lambda>ch. (ch, note)) (channels i)) (ru_channels rule)"

definition evaluateAndNotify ::
  "alert_lib \<Rightarrow> (alert_error \<Rightarrow> string) \<Rightarrow> Runner \<Rightarrow> Rule \<Rightarrow> (string \<rightharpoonup> Channel) \<Rightarrow> time \<Rightarrow> Rule \<times> (Channel \<times> Notification) list" where
  "evaluateAndNotify lib show_error rn rule channels now =
     (let res = Evaluate (al_go lib) rn rule now; rule' = transition res now show_error rule
      in (rule', case notify_for lib res now (ru_state rule) rule' of
            None \<Rightarrow> [] | Some note \<Rightarrow> dispatch rule' channels note))"

section \<open>The alert tables\<close>

type_synonym rules = "(string \<times> Rule) list"

definition GetRule :: "rules \<Rightarrow> string \<Rightarrow> Rule option" where
  "GetRule t i = map_of t i"

text \<open>What \<^verbatim>\<open>scanRule\<close> reads back from a row of whole seconds and nanosecond counts.\<close>

definition scanRule :: "Rule \<Rightarrow> Rule" where
  "scanRule r = r\<lparr>ru_severity := (if ru_severity r = [] then DefaultSeverity else ru_severity r),
     ru_window := go_quot (ru_window r) second * second, ru_interval := go_quot (ru_interval r) second * second\<rparr>"

text \<open>
  \<^verbatim>\<open>PutRule\<close> with its \<^verbatim>\<open>INSERT ... ON CONFLICT(id) DO UPDATE\<close>: an existing row keeps the columns
  the scheduler owns.  \<open>fresh\<close> is the ID minted for a new rule.
\<close>

definition upsert_rule :: "Rule \<Rightarrow> rules \<Rightarrow> rules" where
  "upsert_rule r t =
     (case map_of t (ru_id r) of
        None \<Rightarrow> t @ [(ru_id r, scanRule r)]
      | Some old \<Rightarrow> AList.update (ru_id r)
          (scanRule (old\<lparr>ru_name := ru_name r, ru_query := ru_query r, ru_window := ru_window r,
             ru_interval := ru_interval r, ru_cond := ru_cond r, ru_severity := ru_severity r,
             ru_channels := ru_channels r, ru_enabled := ru_enabled r, ru_updated := ru_updated r\<rparr>)) t)"

definition PutRule :: "time \<Rightarrow> string \<Rightarrow> Rule \<Rightarrow> rules \<Rightarrow> Rule \<times> rules" where
  "PutRule now fresh r0 t =
     (let r1 = (if ru_id r0 = [] then r0\<lparr>ru_id := fresh, ru_created := now,
                     ru_state := (if ru_state r0 = StateOther [] then StateUnknown else ru_state r0)\<rparr>
                else case GetRule t (ru_id r0) of
                    Some old \<Rightarrow> r0\<lparr>ru_created := ru_created old, ru_state := ru_state old, ru_state_from := ru_state_from old,
                        ru_last_eval := ru_last_eval old, ru_last_value := ru_last_value old, ru_last_error := ru_last_error old\<rparr>
                  | None \<Rightarrow> r0);
          r2 = r1\<lparr>ru_updated := now, ru_state := (if ru_state r1 = StateOther [] then StateUnknown else ru_state r1)\<rparr>
      in (r2, upsert_rule r2 t))"

text \<open>The fields the scheduler owns, copied from one rule onto another.\<close>

definition with_state_of :: "Rule \<Rightarrow> Rule \<Rightarrow> Rule" where
  "with_state_of r old = old\<lparr>ru_state := ru_state r, ru_state_from := ru_state_from r,
     ru_last_eval := ru_last_eval r, ru_last_value := ru_last_value r, ru_last_error := ru_last_error r\<rparr>"

definition SaveRuleState :: "Rule \<Rightarrow> rules \<Rightarrow> rules" where
  "SaveRuleState r t = map (\<lambda>(i, old). (i, if i = ru_id r then with_state_of r old else old)) t"

definition DeleteRule :: "string \<Rightarrow> rules \<Rightarrow> alert_error + rules" where
  "DeleteRule i t = (if map_of t i = None then Inl AlertNotFound else Inr (filter (\<lambda>(j, _). j \<noteq> i) t))"

definition PutChannel :: "time \<Rightarrow> string \<Rightarrow> Channel \<Rightarrow> (string \<times> Channel) list \<Rightarrow> Channel \<times> (string \<times> Channel) list" where
  "PutChannel now fresh c0 t =
     (let c = (if ch_id c0 = [] then c0\<lparr>ch_id := fresh, ch_created := now\<rparr> else c0)
      in (c, case map_of t (ch_id c) of
               None \<Rightarrow> t @ [(ch_id c, c)]
             | Some old \<Rightarrow> AList.update (ch_id c) (c\<lparr>ch_created := ch_created old\<rparr>) t))"

definition DeleteChannel :: "string \<Rightarrow> (string \<times> Channel) list \<Rightarrow> alert_error + (string \<times> Channel) list" where
  "DeleteChannel i t = (if map_of t i = None then Inl AlertNotFound else Inr (filter (\<lambda>(j, _). j \<noteq> i) t))"

text \<open>
  \<^verbatim>\<open>RunDue\<close>: the due rules of the table are evaluated in order against the world as it is at their
  turn, and their state saved unless \<open>save_ok\<close> says the write fails.  The rules are listed, and the
  channels read, once at the start.
\<close>

fun run_rules ::
  "alert_lib \<Rightarrow> (alert_error \<Rightarrow> string) \<Rightarrow> (string \<Rightarrow> Runner) \<Rightarrow> (string \<Rightarrow> bool) \<Rightarrow> (string \<rightharpoonup> Channel) \<Rightarrow> time
   \<Rightarrow> Rule list \<Rightarrow> rules \<times> (string \<rightharpoonup> time) \<Rightarrow> (rules \<times> (string \<rightharpoonup> time)) \<times> (Channel \<times> Notification) list" where
  "run_rules lib show_error rn save_ok channels now [] s = (s, [])"
| "run_rules lib show_error rn save_ok channels now (rule # rs) (t, nxt) =
     (if \<not> ru_enabled rule then run_rules lib show_error rn save_ok channels now rs (t, nxt)
      else case due rule now nxt of
          (False, nxt') \<Rightarrow> run_rules lib show_error rn save_ok channels now rs (t, nxt')
        | (True, nxt') \<Rightarrow>
            (let (rule', sent) = evaluateAndNotify lib show_error (rn (ru_id rule)) rule channels now;
                 t' = (if save_ok (ru_id rule) then SaveRuleState rule' t else t);
                 (s, sent') = run_rules lib show_error rn save_ok channels now rs (t', nxt')
             in (s, sent @ sent')))"

definition RunDue ::
  "alert_lib \<Rightarrow> (alert_error \<Rightarrow> string) \<Rightarrow> (string \<Rightarrow> Runner) \<Rightarrow> (string \<Rightarrow> bool) \<Rightarrow> (string \<times> Channel) list \<Rightarrow> time
   \<Rightarrow> rules \<times> (string \<rightharpoonup> time) \<Rightarrow> (rules \<times> (string \<rightharpoonup> time)) \<times> (Channel \<times> Notification) list" where
  "RunDue lib show_error rn save_ok chans now s =
     run_rules lib show_error rn save_ok (map_of chans) now (map snd (fst s)) s"

section \<open>Notifications\<close>

text \<open>\<^verbatim>\<open>sortStrings\<close> moves element \<open>j\<close> to the left while it is smaller than its neighbour.\<close>

fun sift :: "string list \<Rightarrow> nat \<Rightarrow> string list" where
  "sift s 0 = s"
| "sift s (Suc j) = (if s ! Suc j < s ! j then sift (s[Suc j := s ! j, j := s ! Suc j]) j else s)"

definition sortStrings :: "string list \<Rightarrow> string list" where
  "sortStrings s = foldl sift s [1..<length s]"

definition Label :: "GroupHit \<Rightarrow> string" where
  "Label g = (if gh_labels g = [] then []
     else join '' '' (sortStrings (map (\<lambda>(k, v). k @ ''='' @ v) (gh_labels g))))"

definition bell :: string where "bell = [CHR 0xF0, CHR 0x9F, CHR 0x94, CHR 0x94]"
definition red_circle :: string where "red_circle = [CHR 0xF0, CHR 0x9F, CHR 0x94, CHR 0xB4]"
definition check_mark :: string where "check_mark = [CHR 0xE2, CHR 0x9C, CHR 0x85]"
definition em_dash :: string where "em_dash = [CHR 0xE2, CHR 0x80, CHR 0x94]"
definition ellipsis :: string where "ellipsis = [CHR 0xE2, CHR 0x80, CHR 0xA6]"
definition bullet :: string where "bullet = [CHR 0xE2, CHR 0x80, CHR 0xA2]"
definition lf :: string where "lf = [CHR 0x0A]"

definition group_lines :: "alert_lib \<Rightarrow> GroupHit list \<Rightarrow> string" where
  "group_lines lib gs =
     join lf (map (\<lambda>g. ''  '' @ bullet @ '' '' @ Label g @ '': '' @ al_fmt_g lib (gh_value g)) (take 5 gs))
     @ (if length gs > 5 then lf @ ellipsis @ ''and '' @ show_nat (length gs - 5) @ '' more'' else [])"

definition Text :: "alert_lib \<Rightarrow> Notification \<Rightarrow> string" where
  "Text lib n =
     (if no_test n then bell @ '' TEST: ''
      else if no_state n = StateFiring then red_circle @ '' FIRING: ''
      else check_mark @ '' RESOLVED: '')
     @ no_rule n @ '' '' @ em_dash @ '' '' @ al_fmt_g lib (no_value n) @ '' '' @ no_condition n @ '' over '' @ no_window n
     @ (if no_groups n = [] then [] else lf @ group_lines lib (no_groups n))
     @ lf @ ''query: '' @ no_query n"

record omniNotifyEvent =
  on_event_id :: string
  on_type :: string
  on_source :: string
  on_status :: string
  on_severity :: string
  on_title :: string
  on_summary :: string
  on_description :: string
  on_labels :: "(string \<times> string) list"
  on_annotations :: "(string \<times> string) list"
  on_timestamp :: time

definition omniNotifySource :: string where "omniNotifySource = ''omni-logging''"

definition toOmniNotify :: "alert_lib \<Rightarrow> Notification \<Rightarrow> omniNotifyEvent" where
  "toOmniNotify lib note =
     \<lparr>on_event_id = (if no_test note then ''test-'' @ al_rfc3339nano lib (no_at note) else no_rule_id note),
      on_type = ''alert'', on_source = omniNotifySource,
      on_status = (if no_test note then [] else if no_state note = StateFiring then ''firing'' else ''resolved''),
      on_severity = (if no_severity note = [] then DefaultSeverity else no_severity note),
      on_title = no_rule note,
      on_summary = al_fmt_g lib (no_value note) @ '' '' @ no_condition note @ '' over '' @ no_window note,
      on_description = Text lib note,
      on_labels = [(''rule_id'', no_rule_id note), (''rule'', no_rule note)],
      on_annotations = [(''query'', no_query note), (''condition'', no_condition note), (''window'', no_window note),
         (''value'', al_format_float lib (no_value note))]
         @ (if no_groups note = [] then []
            else [(''groups'', show_nat (length (no_groups note))), (''top_group'', Label (hd (no_groups note)))]),
      on_timestamp = no_at note\<rparr>"

definition omniNotifyEventsPath :: string where "omniNotifyEventsPath = ''/api/v1/events''"

definition omniNotifyEventsURL :: "string \<Rightarrow> string" where
  "omniNotifyEventsURL raw =
     (let trimmed = trim_right ''/'' raw
      in if suffix omniNotifyEventsPath trimmed then trimmed else trimmed @ omniNotifyEventsPath)"

text \<open>What \<^verbatim>\<open>Send\<close> posts: the address, the body before its JSON encoding, and the bearer token.\<close>

datatype body = SlackText string | OmniEvent omniNotifyEvent | Payload Notification

definition Send_request :: "alert_lib \<Rightarrow> Channel \<Rightarrow> Notification \<Rightarrow> string \<times> body \<times> string option" where
  "Send_request lib ch note =
     (let (u, b) = (case ch_type ch of
            ChannelSlack \<Rightarrow> (ch_url ch, SlackText (Text lib note))
          | ChannelOmniNotify \<Rightarrow> (omniNotifyEventsURL (ch_url ch), OmniEvent (toOmniNotify lib note))
          | _ \<Rightarrow> (ch_url ch, Payload note))
      in (u, b, if ch_token ch \<noteq> [] then Some (''Bearer '' @ ch_token ch) else None))"

text \<open>Its result: \<open>encodes\<close> says whether the body has a JSON encoding, \<open>reply\<close> is the status or \<open>None\<close>.\<close>

definition Send_result :: "bool \<Rightarrow> int option \<Rightarrow> bool" where
  "Send_result encodes reply =
     (encodes \<and> (case reply of None \<Rightarrow> False | Some status \<Rightarrow> go_quot status 100 = 2))"

section \<open>The count a search reports\<close>

definition MaxExactCount :: int where "MaxExactCount = 50000"

text \<open>\<^verbatim>\<open>count\<close>: the statement counts at most one match past the cap.\<close>

definition capped_count :: "int \<Rightarrow> int \<times> bool" where
  "capped_count matches =
     (let n = min matches (MaxExactCount + 1) in if n > MaxExactCount then (MaxExactCount, True) else (n, False))"

section \<open>Counts as doubles\<close>

lemma bit_length_bounds: "0 < n \<Longrightarrow> 0 < bit_length n \<and> 2 ^ (bit_length n - 1) \<le> n \<and> n < 2 ^ bit_length n"
proof (induction n rule: bit_length.induct)
  case (1 n)
  show ?case
  proof (cases "n div 2 = 0")
    case True
    then have "n = 1" using 1(2) by auto
    then show ?thesis by (simp add: bit_length.simps)
  next
    case False
    then have ih: "0 < bit_length (n div 2)" "2 ^ (bit_length (n div 2) - 1) \<le> n div 2" "n div 2 < 2 ^ bit_length (n div 2)"
      using 1 by auto
    have b: "bit_length n = Suc (bit_length (n div 2))" using 1(2) by (subst bit_length.simps) simp
    obtain k where k: "bit_length (n div 2) = Suc k" using ih(1) by (cases "bit_length (n div 2)") auto
    show ?thesis using ih(2,3) unfolding b k by auto
  qed
qed

lemma bit_length_mono: "0 < m \<Longrightarrow> m \<le> n \<Longrightarrow> bit_length m \<le> bit_length n"
proof (rule ccontr)
  assume h: "0 < m" "m \<le> n" "\<not> bit_length m \<le> bit_length n"
  then have "(2 :: nat) ^ bit_length n \<le> 2 ^ (bit_length m - 1)" by (intro power_increasing) auto
  also have "\<dots> \<le> m" using bit_length_bounds[of m] h by simp
  also have "m \<le> n" by (rule h)
  also have "n < 2 ^ bit_length n" using bit_length_bounds[of n] h by simp
  finally show False by simp
qed

lemma bit_length_53: "0 < n \<Longrightarrow> n < 2 ^ 53 \<Longrightarrow> bit_length n \<le> 53"
proof -
  assume n: "0 < n" "n < 2 ^ 53"
  have "(2 :: nat) ^ (bit_length n - 1) < 2 ^ 53"
    using bit_length_bounds[OF n(1)] n(2) by (meson le_less_trans)
  then have "bit_length n - 1 < 53" by (rule power_less_imp_less_exp[rotated]) simp
  then show ?thesis by simp
qed

lemma unat_f64: "x < 2 ^ 64 \<Longrightarrow> unat (of_nat x :: f64) = x"
  by (simp add: unat_of_nat take_bit_eq_mod)

lemma f64_key_of_nat:
  assumes "n < 2 ^ 53"
  shows "f64_key (f64_of_nat n) = (if n = 0 then 0 else int ((bit_length n + 1021) * 2 ^ 52 + n * 2 ^ (53 - bit_length n)))
    \<and> \<not> f64_is_nan (f64_of_nat n)"
proof (cases "n = 0")
  case False
  let ?b = "bit_length n"
  have b: "0 < ?b" "2 ^ (?b - 1) \<le> n" "n < 2 ^ ?b" using bit_length_bounds[of n] False by auto
  have le: "?b \<le> 53" using bit_length_53 False assms by simp
  have "n * 2 ^ (53 - ?b) < 2 ^ ?b * 2 ^ (53 - ?b)" using b(3) by simp
  also have "\<dots> = 2 ^ 53" using le by (simp add: power_add[symmetric])
  finally have m: "n * 2 ^ (53 - ?b) < 2 ^ 53" .
  let ?v = "(?b + 1021) * 2 ^ 52 + n * 2 ^ (53 - ?b)"
  have v: "?v < 1076 * 2 ^ 52" using le m by simp
  then have u: "unat (of_nat ?v :: f64) = ?v" by (intro unat_f64) simp
  have "f64_mag (of_nat ?v) = ?v" "\<not> f64_neg (of_nat ?v)" unfolding f64_mag_def f64_neg_def u using v by auto
  moreover have "f64_of_nat n = of_nat ?v" using le False by (simp add: f64_of_nat_def Let_def)
  ultimately show ?thesis using v False by (simp add: f64_key_def f64_is_nan_def)
qed (simp add: f64_of_nat_def f64_key_def f64_mag_def f64_is_nan_def)

lemma f64_of_nat_mono:
  assumes "m \<le> n" "n < 2 ^ 53"
  shows "f64_le (f64_of_nat m) (f64_of_nat n)"
proof -
  have k: "f64_key (f64_of_nat m) \<le> f64_key (f64_of_nat n)"
  proof (cases "m = 0")
    case False
    let ?a = "bit_length m" and ?b = "bit_length n"
    have ab: "?a \<le> ?b" using bit_length_mono[of m n] False assms(1) by simp
    have a: "0 < ?a" "m < 2 ^ ?a" and b: "2 ^ (?b - 1) \<le> n" using bit_length_bounds[of m] bit_length_bounds[of n] False assms(1) by auto
    have "(?a + 1021) * 2 ^ 52 + m * 2 ^ (53 - ?a) \<le> (?b + 1021) * 2 ^ 52 + n * 2 ^ (53 - ?b)"
    proof (cases "?a = ?b")
      case True
      then show ?thesis using assms(1) by simp
    next
      case ne: False
      have le: "?b \<le> 53" using bit_length_53[of n] False assms by simp
      have "m * 2 ^ (53 - ?a) \<le> 2 ^ ?a * 2 ^ (53 - ?a)" using a(2) by simp
      also have "\<dots> = 2 ^ 53" using ab le by (simp add: power_add[symmetric])
      finally have "(?a + 1021) * 2 ^ 52 + m * 2 ^ (53 - ?a) \<le> (?a + 1023) * 2 ^ 52" by simp
      also have "\<dots> \<le> (?b + 1022) * 2 ^ 52" using ab ne by simp
      also have "\<dots> = (?b + 1021) * 2 ^ 52 + 2 ^ (?b - 1) * 2 ^ (53 - ?b)"
        using ab a(1) le by (simp add: power_add[symmetric])
      also have "\<dots> \<le> (?b + 1021) * 2 ^ 52 + n * 2 ^ (53 - ?b)" using b by simp
      finally show ?thesis .
    qed
    moreover have "f64_key (f64_of_nat m) = int ((?a + 1021) * 2 ^ 52 + m * 2 ^ (53 - ?a))"
      "f64_key (f64_of_nat n) = int ((?b + 1021) * 2 ^ 52 + n * 2 ^ (53 - ?b))"
      using f64_key_of_nat[of m] f64_key_of_nat[of n] assms False by (simp_all del: of_nat_add of_nat_mult)
    ultimately show ?thesis by (simp only: of_nat_le_iff)
  qed (use f64_key_of_nat[of n] assms in \<open>simp add: f64_of_nat_def f64_key_def f64_mag_def\<close>)
  then show ?thesis using f64_key_of_nat[of m] f64_key_of_nat[of n] assms by (simp add: f64_le_def)
qed

section \<open>Properties of evaluation\<close>

text \<open>The measures of a result, row by row, and the rows that have one.\<close>

definition measure_of :: "AggResult \<Rightarrow> any list \<Rightarrow> f64 option" where
  "measure_of res row = (if ag_group_columns res \<ge> length row then None else toFloat (row ! ag_group_columns res))"

definition measures :: "AggResult \<Rightarrow> f64 list" where
  "measures res = List.map_filter (measure_of res) (ag_rows res)"

definition hits :: "golib \<Rightarrow> Condition \<Rightarrow> AggResult \<Rightarrow> any list list \<Rightarrow> GroupHit list" where
  "hits lib cond res rows = List.map_filter (\<lambda>row. case measure_of res row of
      None \<Rightarrow> None
    | Some v \<Rightarrow> if Match cond v then Some \<lparr>gh_labels = labelsFor lib (ag_columns res) row (ag_group_columns res), gh_value = v\<rparr>
                else None) rows"

lemma eval_row_None: "measure_of res row = None \<Longrightarrow> eval_row lib cond res st row = st"
  by (auto simp: measure_of_def eval_row_def split: if_split_asm)

lemma eval_row_Some:
  "measure_of res row = Some v \<Longrightarrow> eval_row lib cond res (ev, seen) row =
     (let ev1 = (if \<not> seen \<or> moreExtreme (co_op cond) v (evn_value ev) then ev\<lparr>evn_value := v\<rparr> else ev)
      in (if Match cond v then ev1\<lparr>evn_firing := True, evn_groups := evn_groups ev1 @
            [\<lparr>gh_labels = labelsFor lib (ag_columns res) row (ag_group_columns res), gh_value = v\<rparr>]\<rparr> else ev1, True))"
  by (auto simp: measure_of_def eval_row_def Let_def split: if_split_asm)

lemma eval_rows:
  "foldl (eval_row lib cond res) (ev, seen) rows = (ev', seen') \<Longrightarrow>
   seen' = (seen \<or> List.map_filter (measure_of res) rows \<noteq> []) \<and>
   evn_firing ev' = (evn_firing ev \<or> (\<exists>v\<in>set (List.map_filter (measure_of res) rows). Match cond v)) \<and>
   evn_groups ev' = evn_groups ev @ hits lib cond res rows"
proof (induction rows arbitrary: ev seen)
  case Nil
  then show ?case by (simp add: hits_def map_filter_simps)
next
  case (Cons row rows)
  show ?case
  proof (cases "measure_of res row")
    case None
    then show ?thesis using Cons by (simp add: eval_row_None hits_def map_filter_simps)
  next
    case (Some v)
    obtain ev1 where e: "eval_row lib cond res (ev, seen) row = (ev1, True)" by (simp add: eval_row_Some[OF Some] Let_def)
    have "evn_firing ev1 = (evn_firing ev \<or> Match cond v)" "evn_groups ev1 = evn_groups ev @ hits lib cond res [row]"
      using e Some by (auto simp: eval_row_Some[OF Some] Let_def hits_def map_filter_simps split: if_split_asm)
    moreover have "hits lib cond res (row # rows) = hits lib cond res [row] @ hits lib cond res rows"
      by (simp add: hits_def map_filter_def)
    ultimately show ?thesis using Cons.IH[of ev1 True] Cons.prems e Some by (auto simp: map_filter_simps)
  qed
qed

text \<open>\<open>a\<close> is at least as extreme as \<open>b\<close> in the direction of the condition (upwards for \<open>OpNE\<close>).\<close>

definition beyond :: "cond_op \<Rightarrow> f64 \<Rightarrow> f64 \<Rightarrow> bool" where
  "beyond opr a b = (if opr \<in> {OpGT, OpGTE, OpNE} then f64_le b a else f64_le a b)"

abbreviation ranked :: "cond_op \<Rightarrow> bool" where
  "ranked opr \<equiv> opr \<in> {OpGT, OpGTE, OpLT, OpLTE, OpNE}"

abbreviation directed :: "cond_op \<Rightarrow> bool" where
  "directed opr \<equiv> opr \<in> {OpGT, OpGTE, OpLT, OpLTE}"

lemma beyond_refl: "\<not> f64_is_nan a \<Longrightarrow> beyond opr a a"
  by (simp add: beyond_def f64_le_def)

lemma beyond_trans: "beyond opr a b \<Longrightarrow> beyond opr b c \<Longrightarrow> beyond opr a c"
  by (auto simp: beyond_def intro: f64_le_trans split: if_split_asm)

lemma beyond_cases:
  "ranked opr \<Longrightarrow> \<not> f64_is_nan a \<Longrightarrow> \<not> f64_is_nan b \<Longrightarrow> if moreExtreme opr a b then beyond opr a b else beyond opr b a"
  by (cases opr) (auto simp: beyond_def moreExtreme_def f64_le_def f64_lt_def)

lemma Match_beyond: "directed (co_op c) \<Longrightarrow> beyond (co_op c) a b \<Longrightarrow> Match c b \<Longrightarrow> Match c a"
  by (auto simp: beyond_def Match_def f64_le_def f64_lt_def)

lemma eval_value:
  assumes "ranked (co_op cond)"
  shows "foldl (eval_row lib cond res) (ev, seen) rows = (ev', seen') \<Longrightarrow>
    \<forall>v\<in>set (List.map_filter (measure_of res) rows). \<not> f64_is_nan v \<Longrightarrow> seen \<longrightarrow> \<not> f64_is_nan (evn_value ev) \<Longrightarrow> seen' \<Longrightarrow>
    \<not> f64_is_nan (evn_value ev') \<and> (evn_value ev' \<in> set (List.map_filter (measure_of res) rows) \<or> seen \<and> evn_value ev' = evn_value ev) \<and>
    (\<forall>v\<in>set (List.map_filter (measure_of res) rows). beyond (co_op cond) (evn_value ev') v) \<and>
    (seen \<longrightarrow> beyond (co_op cond) (evn_value ev') (evn_value ev))"
proof (induction rows arbitrary: ev seen)
  case Nil
  then show ?case by (simp add: map_filter_simps beyond_refl)
next
  case (Cons row rows)
  show ?case
  proof (cases "measure_of res row")
    case None
    then show ?thesis using Cons by (simp add: eval_row_None map_filter_simps)
  next
    case (Some v)
    have v: "\<not> f64_is_nan v" using Cons.prems(2) Some by (simp add: map_filter_simps)
    obtain ev1 where e: "eval_row lib cond res (ev, seen) row = (ev1, True)"
      "evn_value ev1 = (if \<not> seen \<or> moreExtreme (co_op cond) v (evn_value ev) then v else evn_value ev)"
      by (simp add: eval_row_Some[OF Some] Let_def)
    have n1: "\<not> f64_is_nan (evn_value ev1)" using e(2) v Cons.prems(3) by auto
    have b1: "beyond (co_op cond) (evn_value ev1) v" "seen \<Longrightarrow> beyond (co_op cond) (evn_value ev1) (evn_value ev)"
      using e(2) v Cons.prems(3) beyond_cases[OF assms v, of "evn_value ev"] beyond_refl[OF v] beyond_refl[of "evn_value ev"]
      by (auto split: if_split_asm)
    have "foldl (eval_row lib cond res) (ev1, True) rows = (ev', seen')" using Cons.prems(1) e(1) by simp
    note ih = Cons.IH[OF this _ _ Cons.prems(4)]
    have "\<forall>v\<in>set (List.map_filter (measure_of res) rows). \<not> f64_is_nan v" using Cons.prems(2) Some by (simp add: map_filter_simps)
    note ih = ih[OF this] n1
    have "beyond (co_op cond) (evn_value ev') (evn_value ev1)" using ih by simp
    then have "beyond (co_op cond) (evn_value ev') v" "seen \<Longrightarrow> beyond (co_op cond) (evn_value ev') (evn_value ev)"
      using b1 beyond_trans by blast+
    moreover have "evn_value ev' = evn_value ev1 \<Longrightarrow> evn_value ev' = v \<or> seen \<and> evn_value ev' = evn_value ev"
      using e(2) by (auto split: if_split_asm)
    ultimately show ?thesis using ih Some by (auto simp: map_filter_simps)
  qed
qed

text \<open>C11. Evaluating an aggregation.  The alert fires exactly if some group's measure meets the condition (an
  empty result counting as zero), and it reports exactly the groups that do, in order.  For every
  condition but equality, and measures none of which is a NaN, the one value it reports is one of the
  measures and the worst of them: the largest for >, >= and !=, the smallest for < and <= (zero for an empty
  result); for the four orderings that value alone decides whether the alert fires.\<close>

theorem evaluation_exact:
  assumes "rn_aggregate rn q = Some res" "evaluateAggregation lib rn rule q now = Inr ev"
  shows "evn_groups ev = hits lib (ru_cond rule) res (ag_rows res) \<and>
    evn_firing ev = (if measures res = [] then Match (ru_cond rule) 0 else \<exists>v\<in>set (measures res). Match (ru_cond rule) v) \<and>
    (ranked (co_op (ru_cond rule)) \<and> (\<forall>v\<in>set (measures res). \<not> f64_is_nan v) \<longrightarrow>
      (if measures res = [] then evn_value ev = 0
       else evn_value ev \<in> set (measures res) \<and>
         (\<forall>v\<in>set (measures res). if co_op (ru_cond rule) \<in> {OpGT, OpGTE, OpNE} then f64_le v (evn_value ev) else f64_le (evn_value ev) v)) \<and>
      (directed (co_op (ru_cond rule)) \<longrightarrow> evn_firing ev = Match (ru_cond rule) (evn_value ev)))"
proof -
  let ?c = "ru_cond rule" and ?e0 = "\<lparr>evn_at = now, evn_value = 0, evn_firing = False, evn_groups = []\<rparr>"
  obtain ev1 seen where f: "foldl (eval_row lib ?c res) (?e0, False) (ag_rows res) = (ev1, seen)" by fastforce
  have ev: "ev = (if \<not> seen then ev1\<lparr>evn_value := 0, evn_firing := Match ?c 0\<rparr> else ev1)"
    using assms f by (simp add: evaluateAggregation_def split: if_split_asm)
  have r: "seen = (measures res \<noteq> [])" "evn_firing ev1 = (\<exists>v\<in>set (measures res). Match ?c v)"
    "evn_groups ev1 = hits lib ?c res (ag_rows res)"
    using eval_rows[OF f] by (simp_all add: measures_def)
  have "(if measures res = [] then evn_value ev = 0
       else evn_value ev \<in> set (measures res) \<and> (\<forall>v\<in>set (measures res). beyond (co_op ?c) (evn_value ev) v)) \<and>
      (directed (co_op ?c) \<longrightarrow> evn_firing ev = Match ?c (evn_value ev))"
    if d: "ranked (co_op ?c)" and nn: "\<forall>v\<in>set (measures res). \<not> f64_is_nan v"
  proof (cases seen)
    case True
    from eval_value[OF d f _ _ True] nn have "evn_value ev1 \<in> set (measures res)"
      "\<forall>v\<in>set (measures res). beyond (co_op ?c) (evn_value ev1) v" by (simp_all add: measures_def)
    then show ?thesis using ev True r(1,2) Match_beyond[of ?c] by auto
  qed (use ev r(1) in simp)
  then show ?thesis using ev r unfolding beyond_def by auto
qed


definition sample_rule :: Rule where
  "sample_rule = \<lparr>ru_id = ''r1'', ru_name = ''errors'', ru_query = ''level=error'', ru_window = 60 * second, ru_interval = 60 * second,
     ru_cond = \<lparr>co_op = OpGT, co_value = 0x40F0000000000000\<rparr>, ru_severity = [], ru_channels = [''c1''], ru_enabled = True,
     ru_state = StateOK, ru_state_from = zero_time, ru_last_eval = zero_time, ru_last_value = 0, ru_last_error = [],
     ru_created = zero_time, ru_updated = zero_time\<rparr>"

definition sample_result :: AggResult where
  "sample_result = \<lparr>ag_columns = [''service'', ''count''], ag_rows = [[AStr ''a'', AFloat 0x40F8000000000000], [AStr ''b'', ANil]], ag_group_columns = 1\<rparr>"

theorem evaluation_exact_witness:
  "\<forall>q now. \<exists>ev. evaluateAggregation ascii_lib \<lparr>rn_search = \<lambda>_. None, rn_aggregate = \<lambda>_. Some sample_result\<rparr> sample_rule q now = Inr ev \<and>
     evn_firing ev \<and> length (evn_groups ev) = 1"
proof (intro allI)
  fix q now
  let ?rn = "\<lparr>rn_search = \<lambda>_. None, rn_aggregate = \<lambda>_. Some sample_result\<rparr>"
  obtain ev where ev: "evaluateAggregation ascii_lib ?rn sample_rule q now = Inr ev"
    by (cases "evaluateAggregation ascii_lib ?rn sample_rule q now")
      (auto simp: evaluateAggregation_def sample_result_def case_prod_beta)
  have ms: "measures sample_result = [0x40F8000000000000]"
    by (simp add: measures_def measure_of_def sample_result_def toFloat_def map_filter_simps)
  have m: "Match (ru_cond sample_rule) 0x40F8000000000000"
    by (simp add: Match_def sample_rule_def f64_defs)
  have "length (hits ascii_lib (ru_cond sample_rule) sample_result (ag_rows sample_result)) = 1"
    using m by (simp add: hits_def measure_of_def sample_result_def toFloat_def map_filter_simps)
  then show "\<exists>ev. evaluateAggregation ascii_lib ?rn sample_rule q now = Inr ev \<and> evn_firing ev \<and> length (evn_groups ev) = 1"
    using evaluation_exact[of ?rn q sample_result ascii_lib sample_rule now ev] ev ms m by simp
qed

lemma Query_Normalize_agg: "q_agg (Query_Normalize q) = map_option Agg_Normalize (q_agg q)"
  by (simp add: Query_Normalize_def Let_def)

text \<open>C12. A count threshold at or above the cap never fires.  The store stops counting at 50,000 matches and says so; the
  evaluation takes the capped number for the count, so a rule "more than N events" with N of at
  least 50,000 does not fire, however many events match.\<close>

theorem capped_threshold_never_fires:
  assumes "rn_search rn = (\<lambda>q. Some (capped_count (matches q)))" "\<And>q. 0 \<le> matches q"
    "\<And>q. Build lib (query_params (ru_query rule)) now = Inr q \<Longrightarrow> q_agg q = None"
    "co_op (ru_cond rule) = OpGT" "f64_le (f64_of_int MaxExactCount) (co_value (ru_cond rule))"
    "Evaluate lib rn rule now = Inr ev"
  shows "\<not> evn_firing ev"
proof -
  obtain q0 where q0: "Build lib (query_params (ru_query rule)) now = Inr q0"
    using assms(6) by (auto simp: Evaluate_def split: sum.split_asm)
  have "q_agg q0 = None" by (rule assms(3)[OF q0])
  then have na: "q_agg (Query_Normalize (q0\<lparr>q_from := now + i64 (- ru_window rule), q_to := now\<rparr>)) = None"
    by (simp add: Query_Normalize_agg)
  obtain q where ev: "evn_firing ev = Match (ru_cond rule) (f64_of_int (fst (capped_count (matches q))))"
    using assms(1,6) q0 na
    by (simp add: Evaluate_def evaluateCount_def Let_def case_prod_beta) (metis Evaluation.select_convs(3))
  let ?n = "fst (capped_count (matches q))"
  have n: "0 \<le> ?n" "?n \<le> MaxExactCount" using assms(2)[of q] by (auto simp: capped_count_def Let_def MaxExactCount_def)
  then have "f64_le (f64_of_int ?n) (f64_of_int MaxExactCount)"
    using f64_of_nat_mono[of "nat ?n" "nat MaxExactCount"] by (simp add: f64_of_int_def MaxExactCount_def)
  then show ?thesis using assms(4,5) ev by (auto simp: Match_def f64_le_def f64_lt_def)
qed

theorem capped_threshold_never_fires_witness:
  "\<exists>ev. Evaluate ascii_lib \<lparr>rn_search = \<lambda>_. Some (capped_count 1000000), rn_aggregate = \<lambda>_. None\<rparr> sample_rule 0 = Inr ev \<and> \<not> evn_firing ev"
proof -
  let ?rn = "\<lparr>rn_search = \<lambda>_. Some (capped_count 1000000), rn_aggregate = \<lambda>_. None\<rparr>"
  have "case Build ascii_lib (query_params (ru_query sample_rule)) 0 of Inl e \<Rightarrow> False | Inr q \<Rightarrow> q_agg q = None" by code_simp
  then have b: "\<exists>q. Build ascii_lib (query_params (ru_query sample_rule)) 0 = Inr q \<and> q_agg q = None"
    by (auto split: sum.split_asm)
  then obtain ev where ev: "Evaluate ascii_lib ?rn sample_rule 0 = Inr ev"
    by (auto simp: Evaluate_def evaluateCount_def Query_Normalize_agg Let_def case_prod_beta)
  have "f64_le (f64_of_int MaxExactCount) (co_value (ru_cond sample_rule))"
    by (simp add: sample_rule_def MaxExactCount_def float_defs)
  then show ?thesis
    using capped_threshold_never_fires[of ?rn "\<lambda>_. 1000000" ascii_lib sample_rule 0 ev] b ev
    by (auto simp: sample_rule_def)
qed

section \<open>Properties of the scheduler\<close>

text \<open>A rule over successive evaluations, each saved before the next: the notifications sent.\<close>

fun rule_run :: "alert_lib \<Rightarrow> (alert_error \<Rightarrow> string) \<Rightarrow> ((alert_error + Evaluation) \<times> time) list \<Rightarrow> Rule \<Rightarrow> Notification list" where
  "rule_run lib se [] r = []"
| "rule_run lib se ((res, now) # rs) r =
     (let r' = transition res now se r
      in (case notify_for lib res now (ru_state r) r' of None \<Rightarrow> [] | Some n \<Rightarrow> [n]) @ rule_run lib se rs r')"

fun alternating :: "bool \<Rightarrow> rule_state list \<Rightarrow> bool" where
  "alternating firing [] \<longleftrightarrow> True"
| "alternating firing (s # ss) \<longleftrightarrow> s = (if firing then StateOK else StateFiring) \<and> alternating (\<not> firing) ss"

lemma transition_state:
  "ru_state (transition (Inr ev) now se r) = (if evn_firing ev then StateFiring else StateOK)"
  "ru_state (transition (Inl e) now se r) = StateUnknown"
  by (simp_all add: transition_def Let_def)

lemma notify_for_state:
  "map_option no_state (notify_for lib (Inr ev) now prev r) =
     (if (ru_state r = StateFiring) \<noteq> (prev = StateFiring) \<and> ru_state r \<in> {StateFiring, StateOK} then Some (ru_state r) else None)"
  "notify_for lib (Inl e) now prev r = None"
  by (auto simp: notify_for_def)

lemma notes_of_step:
  "map no_state (case notify_for lib res now prev r of None \<Rightarrow> [] | Some n \<Rightarrow> [n])
   = (case map_option no_state (notify_for lib res now prev r) of None \<Rightarrow> [] | Some s \<Rightarrow> [s])"
  by (cases "notify_for lib res now prev r") simp_all

text \<open>C10. Notifications alternate.  As long as evaluations do not fail, a rule's notifications are a firing, a
  resolution, a firing and so on, starting with whichever its saved state calls for, and at most
  one per evaluation: nothing is repeated while a state lasts.\<close>

theorem notifications_alternate:
  assumes "\<forall>(res, now)\<in>set rs. \<not> isl res"
  shows "alternating (ru_state r = StateFiring) (map no_state (rule_run lib se rs r)) \<and>
    length (rule_run lib se rs r) \<le> length rs"
  using assms
proof (induction rs arbitrary: r)
  case (Cons x rs)
  obtain ev now where x: "x = (Inr ev, now)" using Cons.prems by (cases x; cases "fst x") auto
  let ?r = "transition (Inr ev) now se r"
  have ih: "alternating (evn_firing ev) (map no_state (rule_run lib se rs ?r))" "length (rule_run lib se rs ?r) \<le> length rs"
    using Cons.IH[of ?r] Cons.prems by (auto simp: transition_state split: if_split_asm)
  have "length (case notify_for lib (Inr ev) now (ru_state r) ?r of None \<Rightarrow> [] | Some n \<Rightarrow> [n]) \<le> 1"
    by (simp split: option.split)
  then show ?case using ih unfolding x rule_run.simps Let_def map_append notes_of_step
    by (auto simp: notify_for_state transition_state)
qed simp

definition plain_lib :: alert_lib where
  "plain_lib = \<lparr>al_go = ascii_lib, al_fmt_g = (\<lambda>x. show_int (f64_to_i64 x)), al_format_float = (\<lambda>x. show_int (f64_to_i64 x)),
     al_duration = show_int, al_rfc3339nano = show_int\<rparr>"

definition outcome :: "bool \<Rightarrow> alert_error + Evaluation" where
  "outcome f = Inr \<lparr>evn_at = 0, evn_value = 0, evn_firing = f, evn_groups = []\<rparr>"

theorem notifications_alternate_witness:
  "alternating False (map no_state (rule_run plain_lib (\<lambda>_. ''timeout'')
     [(outcome True, 1), (outcome True, 2), (outcome False, 3), (outcome False, 4), (outcome True, 5)] sample_rule))"
  using notifications_alternate[of "[(outcome True, 1), (outcome True, 2), (outcome False, 3), (outcome False, 4), (outcome True, 5)]" sample_rule plain_lib "\<lambda>_. ''timeout''"]
  by (simp add: outcome_def sample_rule_def)

text \<open>C19. An error hides the end of an incident.  If an evaluation fails while a rule is firing, the incident's
  resolution is never sent once the rule is evaluated again and is fine, and if it is still firing
  its start is announced a second time.  The receiver is told of a firing that no message ends.\<close>

theorem resolution_lost_after_error:
  assumes "ru_state r \<noteq> StateFiring" "evn_firing fire" "\<not> evn_firing fine"
  shows "map no_state (rule_run lib se [(Inr fire, t1), (Inl e, t2), (Inr fine, t3)] r) = [StateFiring] \<and>
    map no_state (rule_run lib se [(Inr fire, t1), (Inl e, t2), (Inr fire, t3)] r) = [StateFiring, StateFiring]"
  using assms unfolding rule_run.simps Let_def map_append notes_of_step
  by (simp add: notify_for_state transition_state)

theorem resolution_lost_after_error_witness:
  "map no_state (rule_run plain_lib (\<lambda>_. ''timeout'')
     [(outcome True, 60), (Inl StoreFailed, 120), (outcome False, 180)] sample_rule) = [StateFiring]"
  using resolution_lost_after_error[of sample_rule "projr (outcome True)" "projr (outcome False)" plain_lib "\<lambda>_. ''timeout''" 60 StoreFailed 120 180]
  by (simp add: outcome_def sample_rule_def)

text \<open>A rule's evaluations are an interval apart.\<close>

lemma due_spacing:
  assumes "due r t nxt = (True, nxt')" "due r u nxt' = (b, nxt'')"
  shows "b \<longleftrightarrow> t + ru_interval r \<le> u"
  using assms by (auto simp: due_def split: if_split_asm)

lemma update_column_other: "k \<notin> fst ` set t \<Longrightarrow> map (\<lambda>(i, x). (i, if i = k then v else x)) t = t"
  by (induction t) auto

text \<open>Saving an evaluation and editing a rule do not interfere.  For a rule that exists, writing the state the
  scheduler computed and writing an edit of its definition give the same table in either order:
  neither loses what the other wrote.\<close>

theorem edit_and_save_commute:
  assumes "map_of t (ru_id e) \<noteq> None" "distinct (map fst t)"
  shows "SaveRuleState s (upsert_rule e t) = upsert_rule e (SaveRuleState s t)"
proof -
  obtain old where old: "map_of t (ru_id e) = Some old" using assms(1) by blast
  let ?edit = "\<lambda>x. scanRule (x\<lparr>ru_name := ru_name e, ru_query := ru_query e, ru_window := ru_window e,
             ru_interval := ru_interval e, ru_cond := ru_cond e, ru_severity := ru_severity e,
             ru_channels := ru_channels e, ru_enabled := ru_enabled e, ru_updated := ru_updated e\<rparr>)"
  have up: "AList.update k v t' = map (\<lambda>(i, x). (i, if i = k then v else x)) t'"
    if "k \<in> fst ` set t'" "distinct (map fst t')" for k v and t' :: rules
    using that by (induction t') (auto simp: update_column_other)
  have m: "map_of (SaveRuleState s t) (ru_id e) = Some (if ru_id e = ru_id s then with_state_of s old else old)"
    using old by (induction t) (auto simp: SaveRuleState_def)
  have d: "distinct (map fst (SaveRuleState s t))" "fst ` set (SaveRuleState s t) = fst ` set t"
    using assms(2) by (auto simp: SaveRuleState_def comp_def case_prod_beta image_image)
  have k: "ru_id e \<in> fst ` set t" using old by (metis fst_conv image_eqI map_of_SomeD)
  have c: "with_state_of s (?edit x) = ?edit (with_state_of s x)" for x
    by (simp add: scanRule_def with_state_of_def)
  have "upsert_rule e t = map (\<lambda>(i, x). (i, if i = ru_id e then ?edit old else x)) t"
    unfolding upsert_rule_def old option.case by (rule up[OF k assms(2)])
  moreover have "upsert_rule e (SaveRuleState s t) =
      map (\<lambda>(i, x). (i, if i = ru_id e then ?edit (if ru_id e = ru_id s then with_state_of s old else old) else x)) (SaveRuleState s t)"
    unfolding upsert_rule_def m option.case by (rule up) (use k d in auto)
  ultimately show ?thesis
    by (simp add: SaveRuleState_def comp_def case_prod_beta c)
qed

theorem edit_and_save_commute_witness:
  "SaveRuleState (sample_rule\<lparr>ru_state := StateFiring\<rparr>) (upsert_rule (sample_rule\<lparr>ru_name := ''renamed''\<rparr>) [(''r1'', sample_rule)])
   = upsert_rule (sample_rule\<lparr>ru_name := ''renamed''\<rparr>) (SaveRuleState (sample_rule\<lparr>ru_state := StateFiring\<rparr>) [(''r1'', sample_rule)])"
  by (rule edit_and_save_commute) (simp_all add: sample_rule_def)

section \<open>Properties of notifications\<close>

text \<open>What Omni-Notify's fingerprint is computed from, according to the comment on \<^verbatim>\<open>omniNotifyEvent\<close>.\<close>

definition fingerprint_input :: "omniNotifyEvent \<Rightarrow> string \<times> string \<times> string \<times> (string \<times> string) list" where
  "fingerprint_input e = (on_type e, on_source e, on_event_id e, sort_key fst (on_labels e))"

text \<open>Renaming a firing rule orphans its incident.  A resolution has the fingerprint of the firing it ends if and
  only if the rule still has the name it had: the name is one of the labels, although the event ID
  was made the rule's ID so that a rule renamed while firing still resolves the event it opened.\<close>

theorem rename_changes_fingerprint:
  assumes "\<not> no_test fired" "\<not> no_test resolved" "no_rule_id fired = no_rule_id resolved"
  shows "fingerprint_input (toOmniNotify lib fired) = fingerprint_input (toOmniNotify lib resolved)
    \<longleftrightarrow> no_rule fired = no_rule resolved"
  using assms by (auto simp: fingerprint_input_def toOmniNotify_def)

definition sample_note :: Notification where
  "sample_note = \<lparr>no_rule = ''errors'', no_rule_id = ''r1'', no_state = StateFiring, no_severity = [], no_test = False, no_value = 0,
     no_condition = [], no_query = [], no_window = [], no_at = 0, no_groups = []\<rparr>"

theorem rename_changes_fingerprint_witness:
  "fingerprint_input (toOmniNotify plain_lib sample_note)
   \<noteq> fingerprint_input (toOmniNotify plain_lib (sample_note\<lparr>no_state := StateOK, no_rule := ''errors (prod)''\<rparr>))"
  using rename_changes_fingerprint[of sample_note "sample_note\<lparr>no_state := StateOK, no_rule := ''errors (prod)''\<rparr>" plain_lib]
  by (simp add: sample_note_def)

text \<open>Two probes have different fingerprints if the time format distinguishes their instants.\<close>

lemma probes_differ:
  "no_test a \<Longrightarrow> no_test b \<Longrightarrow> al_rfc3339nano lib (no_at a) \<noteq> al_rfc3339nano lib (no_at b) \<Longrightarrow>
   fingerprint_input (toOmniNotify lib a) \<noteq> fingerprint_input (toOmniNotify lib b)"
  by (simp add: fingerprint_input_def toOmniNotify_def)

lemma masked_is_refused: "ch_token c \<noteq> [] \<Longrightarrow> Validate_channel (Masked c) \<noteq> None"
  by (auto simp: Validate_channel_def Masked_def split: channel_type.split)

text \<open>The insertion sort sorts.\<close>

lemma sorted_unique: "sorted xs \<Longrightarrow> sorted ys \<Longrightarrow> mset xs = mset ys \<Longrightarrow> xs = (ys :: string list)"
  using properties_for_sort by metis

lemma sift_insort: "sorted xs \<Longrightarrow> sift (xs @ y # zs) (length xs) = insort y xs @ zs"
proof (induction xs arbitrary: zs rule: rev_induct)
  case (snoc w ws)
  have ws: "sorted ws" using snoc.prems by (simp add: sorted_append)
  have n: "((ws @ [w]) @ y # zs) ! Suc (length ws) = y" "((ws @ [w]) @ y # zs) ! length ws = w" by (simp_all add: nth_append)
  show ?case
  proof (cases "y < w")
    case True
    have "((ws @ [w]) @ y # zs)[Suc (length ws) := w, length ws := y] = ws @ y # w # zs"
      by (simp add: list_update_append)
    then have "sift ((ws @ [w]) @ y # zs) (length (ws @ [w])) = insort y ws @ w # zs"
      using snoc.IH[OF ws, of "w # zs"] True n by simp
    moreover have "insort y (ws @ [w]) = insort y ws @ [w]"
      using snoc.prems True by (intro sorted_unique) (auto simp: sorted_append sorted_insort set_insort_key)
    ultimately show ?thesis by simp
  next
    case False
    have "insort y (ws @ [w]) = ws @ [w, y]"
      using snoc.prems False by (intro sorted_unique) (auto simp: sorted_append sorted_insort intro: order_trans)
    then show ?thesis using False n by simp
  qed
qed simp

lemma sort_snoc: "sort (xs @ [x]) = insort x (sort (xs :: string list))"
  by (intro sorted_unique) (simp_all add: sorted_insort)

lemma sortStrings_sort: "sortStrings s = sort s"
proof -
  have "n \<le> length s \<Longrightarrow> 1 \<le> n \<Longrightarrow> foldl sift s [1..<n] = sort (take n s) @ drop n s" for n
  proof (induction n)
    case (Suc n)
    show ?case
    proof (cases "n = 0")
      case True
      then show ?thesis using Suc.prems by (cases s) simp_all
    next
      case False
      then have ih: "foldl sift s [1..<n] = sort (take n s) @ s ! n # drop (Suc n) s"
        using Suc by (simp add: Cons_nth_drop_Suc)
      have l: "length (sort (take n s)) = n" using Suc.prems by simp
      have "foldl sift s [1..<Suc n] = sift (sort (take n s) @ s ! n # drop (Suc n) s) (length (sort (take n s)))"
        using False ih l by simp
      also have "\<dots> = insort (s ! n) (sort (take n s)) @ drop (Suc n) s" by (rule sift_insort) simp
      also have "\<dots> = sort (take (Suc n) s) @ drop (Suc n) s"
        using Suc.prems by (simp add: take_Suc_conv_app_nth sort_snoc)
      finally show ?thesis .
    qed
  qed simp
  from this[of "length s"] show ?thesis by (cases s) (simp_all add: sortStrings_def)
qed

text \<open>Labels do not depend on map iteration.  A group's label is the same whatever order its labels are
  visited in, because the insertion sort is a sort.\<close>

theorem Label_order_independent:
  assumes "mset (gh_labels g) = mset (gh_labels h)"
  shows "Label g = Label h"
proof -
  have "sort (map f (gh_labels g)) = sort (map f (gh_labels h))" for f :: "string \<times> string \<Rightarrow> string"
    using assms by (metis mset_map sorted_sort sorted_unique mset_sort)
  moreover have "gh_labels g = [] \<longleftrightarrow> gh_labels h = []" using assms by (metis mset_zero_iff)
  ultimately show ?thesis by (simp add: Label_def sortStrings_sort)
qed

theorem Label_order_independent_witness:
  "Label \<lparr>gh_labels = [(''service'', ''api''), (''host'', ''h1'')], gh_value = 0\<rparr> = ''host=h1 service=api'' \<and>
   Label \<lparr>gh_labels = [(''host'', ''h1''), (''service'', ''api'')], gh_value = 0\<rparr> = ''host=h1 service=api''"
proof -
  have "Label \<lparr>gh_labels = [(''service'', ''api''), (''host'', ''h1'')], gh_value = 0\<rparr> = ''host=h1 service=api''" by code_simp
  then show ?thesis
    using Label_order_independent[of "\<lparr>gh_labels = [(''service'', ''api''), (''host'', ''h1'')], gh_value = 0\<rparr>"
      "\<lparr>gh_labels = [(''host'', ''h1''), (''service'', ''api'')], gh_value = 0\<rparr>"] by simp
qed

end
