(* ===== verification/Hub.thy ===== *)
theory Hub
  imports Matcher
begin

text \<open>
  \<^verbatim>\<open>src/internal/tail\<close>: the live-tail hub and the server-sent-events handler.  A subscriber is
  its query, the buffer of its channel and its counters, kept under an ID; \<open>su_open\<close> holds while it
  is in the hub's table, which is as long as its channel is open.  \<open>su_got\<close> is what its reader has
  taken off the channel.  Readers run between any two deliveries: how much a reader takes is an
  argument.  The handler is a function from what its \<^verbatim>\<open>select\<close> receives to what it writes.
\<close>

section \<open>The hub\<close>

definition DefaultMaxDrops :: int where "DefaultMaxDrops = 10000"

record Subscriber =
  su_q :: query
  su_cap :: nat
  su_buf :: "logevent list"
  su_dropped :: int
  su_evicted :: bool
  su_open :: bool
  su_got :: "logevent list"

record Hub =
  hb_subs :: "(nat \<times> Subscriber) list"
  hb_max :: int
  hb_dropped :: int
  hb_evicted :: int

definition NewHubLimit :: "int \<Rightarrow> Hub" where
  "NewHubLimit maxDrops = \<lparr>hb_subs = [], hb_max = maxDrops, hb_dropped = 0, hb_evicted = 0\<rparr>"

definition NewHub :: Hub where
  "NewHub = NewHubLimit DefaultMaxDrops"

definition new_subscriber :: "query \<Rightarrow> int \<Rightarrow> Subscriber" where
  "new_subscriber q buffer = \<lparr>su_q = q, su_cap = nat (if buffer < 1 then 1 else buffer), su_buf = [],
     su_dropped = 0, su_evicted = False, su_open = True, su_got = []\<rparr>"

text \<open>\<open>i\<close> is a fresh ID.\<close>

definition Subscribe :: "nat \<Rightarrow> query \<Rightarrow> int \<Rightarrow> Hub \<Rightarrow> Hub" where
  "Subscribe i q buffer h = h\<lparr>hb_subs := hb_subs h @ [(i, new_subscriber q buffer)]\<rparr>"

text \<open>An update of one subscriber.\<close>

definition on_sub :: "nat \<Rightarrow> (Subscriber \<Rightarrow> Subscriber) \<Rightarrow> Hub \<Rightarrow> Hub" where
  "on_sub i f h = h\<lparr>hb_subs := map (\<lambda>(j, s). (j, if j = i then f s else s)) (hb_subs h)\<rparr>"

definition Close_sub :: "nat \<Rightarrow> Hub \<Rightarrow> Hub" where
  "Close_sub i h = on_sub i (\<lambda>s. if su_open s then s\<lparr>su_open := False\<rparr> else s) h"

definition receive :: "nat \<Rightarrow> Subscriber \<Rightarrow> Subscriber" where
  "receive k s = s\<lparr>su_got := su_got s @ take k (su_buf s), su_buf := drop k (su_buf s)\<rparr>"

text \<open>
  One event offered to one subscriber, after its reader has taken \<open>k\<close> events: the subscriber, how
  many drops were added, and whether it is now to be evicted.
\<close>

definition offer :: "golib \<Rightarrow> int \<Rightarrow> nat \<Rightarrow> logevent \<Rightarrow> Subscriber \<Rightarrow> Subscriber \<times> int \<times> bool" where
  "offer lib maxDrops k e s0 =
     (let s = receive k s0
      in if \<not> Matches lib (su_q s) e then (s, 0, False)
         else if length (su_buf s) < su_cap s then (s\<lparr>su_buf := su_buf s @ [e]\<rparr>, 0, False)
         else (let d = su_dropped s + 1
               in (s\<lparr>su_dropped := d\<rparr>, 1, maxDrops > 0 \<and> d = maxDrops)))"

fun offer_all :: "golib \<Rightarrow> int \<Rightarrow> (nat \<times> logevent) list \<Rightarrow> Subscriber \<Rightarrow> Subscriber \<times> int \<times> bool" where
  "offer_all lib maxDrops [] s = (s, 0, False)"
| "offer_all lib maxDrops ((k, e) # es) s =
     (case offer lib maxDrops k e s of
        (s1, n1, ev1) \<Rightarrow> (case offer_all lib maxDrops es s1 of (s2, n2, ev2) \<Rightarrow> (s2, n1 + n2, ev1 \<or> ev2)))"

definition evict :: "Subscriber \<Rightarrow> Subscriber \<times> int" where
  "evict s = (if su_open s then (s\<lparr>su_evicted := True, su_open := False\<rparr>, 1) else (s, 0))"

text \<open>
  \<^verbatim>\<open>Publish\<close>: every registered subscriber is offered every event, then the slow ones are evicted.
  \<open>takes i\<close> says what subscriber \<open>i\<close>'s reader takes before each offer.
\<close>

definition publish_to :: "golib \<Rightarrow> int \<Rightarrow> (nat \<times> logevent) list \<Rightarrow> Subscriber \<Rightarrow> Subscriber \<times> int \<times> int" where
  "publish_to lib maxDrops es s =
     (if \<not> su_open s then (s, 0, 0)
      else case offer_all lib maxDrops es s of
             (s1, n, toEvict) \<Rightarrow> (if toEvict then (case evict s1 of (s2, k) \<Rightarrow> (s2, n, k)) else (s1, n, 0)))"

definition Publish :: "golib \<Rightarrow> (nat \<Rightarrow> nat list) \<Rightarrow> logevent list \<Rightarrow> Hub \<Rightarrow> Hub" where
  "Publish lib takes events h =
     (let res = map (\<lambda>(i, s). (i, publish_to lib (hb_max h) (zip (takes i @ replicate (length events) 0) events) s)) (hb_subs h)
      in h\<lparr>hb_subs := map (\<lambda>(i, s, _). (i, s)) res,
           hb_dropped := hb_dropped h + sum_list (map (\<lambda>(_, _, n, _). n) res),
           hb_evicted := hb_evicted h + sum_list (map (\<lambda>(_, _, _, k). k) res)\<rparr>)"

definition SubscriberCount :: "Hub \<Rightarrow> nat" where
  "SubscriberCount h = length (filter (\<lambda>(_, s). su_open s) (hb_subs h))"

section \<open>Runs\<close>

datatype hub_op =
    OpSubscribe nat query int | OpClose nat | OpPublish "nat \<Rightarrow> nat list" "logevent list" | OpReceive nat nat

fun hub_do :: "golib \<Rightarrow> hub_op \<Rightarrow> Hub \<Rightarrow> Hub" where
  "hub_do lib (OpSubscribe i q buffer) h = Subscribe i q buffer h"
| "hub_do lib (OpClose i) h = Close_sub i h"
| "hub_do lib (OpPublish takes events) h = Publish lib takes events h"
| "hub_do lib (OpReceive i k) h = on_sub i (receive k) h"

text \<open>Subscriber IDs are not reused.\<close>

fun op_ok :: "hub_op \<Rightarrow> Hub \<Rightarrow> bool" where
  "op_ok (OpSubscribe i q buffer) h \<longleftrightarrow> i \<notin> fst ` set (hb_subs h)"
| "op_ok _ h \<longleftrightarrow> True"

inductive hub_reach :: "golib \<Rightarrow> int \<Rightarrow> Hub \<Rightarrow> bool" for lib maxDrops where
  reach_new: "hub_reach lib maxDrops (NewHubLimit maxDrops)"
| reach_do: "hub_reach lib maxDrops h \<Longrightarrow> op_ok a h \<Longrightarrow> hub_reach lib maxDrops (hub_do lib a h)"

section \<open>The event stream\<close>

definition heartbeatInterval :: duration where "heartbeatInterval = 20 * second"
definition DefaultBackfillLimit :: int where "DefaultBackfillLimit = 50"

datatype sse_out = Comment string | Frame string string

text \<open>What becomes of writing an event: its JSON data is written, it has none, or the connection is gone.\<close>

datatype write_result = Written string | Unencodable | WriteFailed

definition writeEvent :: "(logevent \<Rightarrow> write_result) \<Rightarrow> logevent \<Rightarrow> sse_out list \<times> bool" where
  "writeEvent wr e =
     (case wr e of
        Unencodable \<Rightarrow> ([], True)
      | WriteFailed \<Rightarrow> ([], False)
      | Written data \<Rightarrow> ([Frame (ev_id e) data], True))"

text \<open>
  The replay of the history, oldest first: what is written, the IDs replayed, and whether the
  stream goes on.
\<close>

fun replay_history :: "(logevent \<Rightarrow> write_result) \<Rightarrow> string \<Rightarrow> logevent list \<Rightarrow> string set \<Rightarrow> sse_out list \<times> string set \<times> bool" where
  "replay_history wr lastSeen [] replayed = ([], replayed, True)"
| "replay_history wr lastSeen (e # es) replayed =
     (if lastSeen \<noteq> [] \<and> ev_id e \<le> lastSeen then replay_history wr lastSeen es (insert (ev_id e) replayed)
      else case writeEvent wr e of
             (out, False) \<Rightarrow> (out, replayed, False)
           | (out, True) \<Rightarrow>
               (case replay_history wr lastSeen es (insert (ev_id e) replayed) of (out2, r, go) \<Rightarrow> (out @ out2, r, go)))"

text \<open>What the \<^verbatim>\<open>select\<close> of the live loop receives.\<close>

datatype live_event = ContextDone | ClosingFired | HeartbeatTick | ChannelEvent logevent | ChannelClosed bool

fun live_loop :: "(logevent \<Rightarrow> write_result) \<Rightarrow> live_event list \<Rightarrow> string set \<Rightarrow> sse_out list" where
  "live_loop wr [] replayed = []"
| "live_loop wr (ContextDone # ls) replayed = []"
| "live_loop wr (ClosingFired # ls) replayed = [Comment ''server shutting down'']"
| "live_loop wr (HeartbeatTick # ls) replayed = Comment ''ping'' # live_loop wr ls replayed"
| "live_loop wr (ChannelClosed evicted # ls) replayed =
     (if evicted then [Comment ''evicted (slow consumer; reconnecting)''] else [])"
| "live_loop wr (ChannelEvent e # ls) replayed =
     (if ev_id e \<in> replayed then live_loop wr ls (replayed - {ev_id e})
      else case writeEvent wr e of (out, go) \<Rightarrow> out @ (if go then live_loop wr ls replayed else []))"

text \<open>
  The query of a stream: built from the parameters, then stripped of its time bounds.  A build
  error is answered with 400.
\<close>

definition stream_query :: "golib \<Rightarrow> time \<Rightarrow> params \<Rightarrow> query_error + query" where
  "stream_query lib now p = try_bind (Build lib p now) (\<lambda>q. Inr (q\<lparr>q_from := zero_time, q_to := zero_time\<rparr>))"

text \<open>
  The stream.  \<open>backfill\<close> is \<open>None\<close> without a history source, \<open>Some None\<close> if it fails, and the
  newest-first events otherwise.
\<close>

definition sse_stream :: "(logevent \<Rightarrow> write_result) \<Rightarrow> string \<Rightarrow> logevent list option option \<Rightarrow> live_event list \<Rightarrow> sse_out list" where
  "sse_stream wr lastSeen backfill live =
     Comment ''connected'' #
     (case backfill of
        None \<Rightarrow> live_loop wr live {}
      | Some None \<Rightarrow> Comment ''history unavailable'' # live_loop wr live {}
      | Some (Some events) \<Rightarrow>
          (case replay_history wr lastSeen (rev events) {} of
             (out, replayed, go) \<Rightarrow>
               out @ (if \<not> go then []
                      else (if events \<noteq> [] then [Comment ''end of history''] else []) @ live_loop wr live replayed)))"

section \<open>Accounting\<close>

text \<open>\<open>acct s L\<close>: \<open>L\<close> is what was meant for the subscriber, and all of it is accounted for.\<close>

definition acct :: "Subscriber \<Rightarrow> logevent list \<Rightarrow> bool" where
  "acct s L \<longleftrightarrow> subseq (su_got s @ su_buf s) L
     \<and> int (length (su_got s) + length (su_buf s)) + su_dropped s = int (length L)"

definition sub_ok :: "int \<Rightarrow> Subscriber \<Rightarrow> bool" where
  "sub_ok maxDrops s \<longleftrightarrow> 1 \<le> su_cap s \<and> length (su_buf s) \<le> su_cap s \<and> 0 \<le> su_dropped s
     \<and> (su_evicted s \<longrightarrow> \<not> su_open s \<and> 0 < maxDrops \<and> maxDrops \<le> su_dropped s)
     \<and> (su_open s \<and> 0 < maxDrops \<longrightarrow> su_dropped s < maxDrops)"

lemma receive_simps [simp]:
  "su_q (receive k s) = su_q s" "su_cap (receive k s) = su_cap s" "su_dropped (receive k s) = su_dropped s"
  "su_evicted (receive k s) = su_evicted s" "su_open (receive k s) = su_open s"
  "su_got (receive k s) @ su_buf (receive k s) = su_got s @ su_buf s"
  by (simp_all add: receive_def)

lemma receive_length [simp]:
  "length (su_got (receive k s)) + length (su_buf (receive k s)) = length (su_got s) + length (su_buf s)"
  by (simp add: receive_def)

lemma receive_buf: "length (su_buf (receive k s)) \<le> length (su_buf s)"
  by (simp add: receive_def)

lemma acct_receive [simp]: "acct (receive k s) L = acct s L"
  by (simp add: acct_def del: of_nat_add)

lemma sub_ok_receive: "sub_ok m s \<Longrightarrow> sub_ok m (receive k s)"
  using receive_buf[of k s] by (auto simp: sub_ok_def)

text \<open>What an offer does to the counters.\<close>

lemma offer_accounts:
  assumes "offer lib m k e s = (s1, n, ev)" "acct s L"
  shows "acct s1 (L @ filter (Matches lib (su_q s)) [e])"
proof -
  obtain r where r: "r = receive k s" "acct r L" "su_q r = su_q s" using assms(2) by simp
  then have "subseq ((su_got r @ su_buf r) @ [e]) (L @ [e])"
    unfolding acct_def by (blast intro: list_emb_append_mono)
  moreover have "subseq (su_got r @ su_buf r) (L @ [e])"
    using r(2) unfolding acct_def by (blast intro: subseq_rev_drop_many)
  ultimately show ?thesis
    using assms(1)[unfolded offer_def, folded r(1)] r(2,3)
    by (auto simp: acct_def Let_def split: if_splits)
qed

lemma offer_counts:
  assumes "offer lib m k e s = (s1, n, ev)" "length (su_buf s) \<le> su_cap s"
  shows "su_q s1 = su_q s" "su_cap s1 = su_cap s" "su_open s1 = su_open s" "su_evicted s1 = su_evicted s"
    "su_dropped s1 = su_dropped s + n" "0 \<le> n" "length (su_buf s1) \<le> su_cap s"
    "ev \<longleftrightarrow> 0 < m \<and> su_dropped s < m \<and> m \<le> su_dropped s1"
  using assms receive_buf[of k s] by (auto simp: offer_def Let_def split: if_splits)

lemma offer_all_accounts:
  "offer_all lib m es s = (s1, n, ev) \<Longrightarrow> length (su_buf s) \<le> su_cap s \<Longrightarrow> acct s L \<Longrightarrow>
     acct s1 (L @ filter (Matches lib (su_q s)) (map snd es))"
proof (induction es arbitrary: s L n ev)
  case (Cons x es)
  obtain k e where x: "x = (k, e)" by (cases x)
  obtain t n1 e1 where o: "offer lib m k e s = (t, n1, e1)" by (cases "offer lib m k e s")
  obtain n2 e2 where oa: "offer_all lib m es t = (s1, n2, e2)"
    using Cons.prems(1) o x by (auto split: prod.splits)
  have "acct s1 ((L @ filter (Matches lib (su_q s)) [e]) @ filter (Matches lib (su_q t)) (map snd es))"
    using Cons.IH[OF oa _ offer_accounts[OF o Cons.prems(3)]] offer_counts[OF o Cons.prems(2)] by simp
  then show ?case using offer_counts(1)[OF o Cons.prems(2)] x by (simp split: if_splits)
qed simp

lemma offer_all_counts:
  "offer_all lib m es s = (s1, n, ev) \<Longrightarrow> length (su_buf s) \<le> su_cap s \<Longrightarrow>
     su_q s1 = su_q s \<and> su_cap s1 = su_cap s \<and> su_open s1 = su_open s \<and> su_evicted s1 = su_evicted s
     \<and> su_dropped s1 = su_dropped s + n \<and> 0 \<le> n \<and> length (su_buf s1) \<le> su_cap s
     \<and> (ev \<longleftrightarrow> 0 < m \<and> su_dropped s < m \<and> m \<le> su_dropped s1)"
proof (induction es arbitrary: s n ev)
  case (Cons x es)
  obtain k e where x: "x = (k, e)" by (cases x)
  obtain t n1 e1 where o: "offer lib m k e s = (t, n1, e1)" by (cases "offer lib m k e s")
  obtain n2 e2 where oa: "offer_all lib m es t = (s1, n2, e2)" "n = n1 + n2" "ev \<longleftrightarrow> e1 \<or> e2"
    using Cons.prems(1) o x by (auto split: prod.splits)
  show ?case using Cons.IH[OF oa(1)] offer_counts[OF o Cons.prems(2)] oa by auto
qed auto

lemma publish_to_counts:
  assumes "publish_to lib m es s = (s2, n, k)" "sub_ok m s"
  shows "sub_ok m s2" "su_dropped s2 = su_dropped s + n"
    "of_bool (su_evicted s2) = of_bool (su_evicted s) + k" "su_q s2 = su_q s"
    "su_open s \<Longrightarrow> \<not> su_open s2 \<longleftrightarrow> 0 < m \<and> m \<le> su_dropped s2"
proof -
  obtain s1 n1 ev where o: "offer_all lib m es s = (s1, n1, ev)" by (cases "offer_all lib m es s")
  have l: "length (su_buf s) \<le> su_cap s" using assms(2) by (simp add: sub_ok_def)
  note c = offer_all_counts[OF o l]
  show "sub_ok m s2" "su_dropped s2 = su_dropped s + n"
    "of_bool (su_evicted s2) = of_bool (su_evicted s) + k" "su_q s2 = su_q s"
    "su_open s \<Longrightarrow> \<not> su_open s2 \<longleftrightarrow> 0 < m \<and> m \<le> su_dropped s2"
    using assms c by (auto simp: publish_to_def o evict_def sub_ok_def split: if_splits)
qed

lemma publish_to_accounts:
  assumes "publish_to lib m es s = (s2, n, k)" "sub_ok m s" "acct s L"
  shows "acct s2 (L @ (if su_open s then filter (Matches lib (su_q s)) (map snd es) else []))"
proof -
  obtain s1 n1 ev where o: "offer_all lib m es s = (s1, n1, ev)" by (cases "offer_all lib m es s")
  have l: "length (su_buf s) \<le> su_cap s" using assms(2) by (simp add: sub_ok_def)
  show ?thesis
    using assms(1,3) offer_all_accounts[OF o l assms(3)]
    by (auto simp: publish_to_def o evict_def acct_def split: if_splits)
qed

lemma map_of_keyed:
  "map_of (map (\<lambda>(k, v). (k, f k v)) xs) i = map_option (f i) (map_of xs i)"
  by (induction xs) auto

definition takes_of :: "(nat \<Rightarrow> nat list) \<Rightarrow> nat \<Rightarrow> logevent list \<Rightarrow> (nat \<times> logevent) list" where
  "takes_of takes i events = zip (takes i @ replicate (length events) 0) events"

lemma takes_of_snd [simp]: "map snd (takes_of takes i events) = events"
  by (simp add: takes_of_def map_snd_zip_take)

lemma Publish_subs:
  "hb_subs (Publish lib takes events h) =
     map (\<lambda>(i, s). (i, fst (publish_to lib (hb_max h) (takes_of takes i events) s))) (hb_subs h)"
  by (simp add: Publish_def Let_def case_prod_unfold takes_of_def)

definition evicted_in :: "Hub \<Rightarrow> int" where
  "evicted_in h = sum_list (map (\<lambda>(_, s). of_bool (su_evicted s)) (hb_subs h))"

definition hub_ok :: "int \<Rightarrow> Hub \<Rightarrow> bool" where
  "hub_ok m h \<longleftrightarrow> hb_max h = m \<and> distinct (map fst (hb_subs h)) \<and> (\<forall>(i, s) \<in> set (hb_subs h). sub_ok m s)
     \<and> hb_dropped h = sum_list (map (\<lambda>(_, s). su_dropped s) (hb_subs h)) \<and> hb_evicted h = evicted_in h"

text \<open>An update that keeps a subscriber's counters keeps the hub's.\<close>

lemma on_sub_ok:
  assumes "hub_ok m h" and f: "\<And>s. sub_ok m s \<Longrightarrow> sub_ok m (f s)"
    "\<And>s. su_dropped (f s) = su_dropped s" "\<And>s. su_evicted (f s) = su_evicted s"
  shows "hub_ok m (on_sub i f h)"
  using assms(1) f(1)
  by (auto simp: hub_ok_def on_sub_def evicted_in_def case_prod_unfold comp_def f(2,3) if_distrib[of su_dropped]
      if_distrib[of su_evicted] cong: if_cong)

lemma Publish_ok:
  assumes "hub_ok m h" shows "hub_ok m (Publish lib takes events h)"
proof -
  let ?p = "\<lambda>i s. publish_to lib m (takes_of takes i events) s"
  have m: "hb_max h = m" and ok: "\<And>i s. (i, s) \<in> set (hb_subs h) \<Longrightarrow> sub_ok m s"
    using assms by (auto simp: hub_ok_def)
  have s: "hb_subs (Publish lib takes events h) = map (\<lambda>(i, s). (i, fst (?p i s))) (hb_subs h)"
    by (simp add: Publish_subs m)
  have c: "sub_ok m (fst (?p i s)) \<and> su_dropped (fst (?p i s)) = su_dropped s + fst (snd (?p i s))
      \<and> of_bool (su_evicted (fst (?p i s))) = of_bool (su_evicted s) + snd (snd (?p i s))"
    if "(i, s) \<in> set (hb_subs h)" for i s
    using publish_to_counts[OF _ ok[OF that]] by (cases "?p i s") auto
  have d: "sum_list (map (\<lambda>(_, s). su_dropped s) (hb_subs (Publish lib takes events h)))
      = sum_list (map (\<lambda>(_, s). su_dropped s) (hb_subs h)) + sum_list (map (\<lambda>(i, s). fst (snd (?p i s))) (hb_subs h))"
    unfolding s map_map sum_list_addf[symmetric] by (rule arg_cong[where f = sum_list], rule map_cong) (auto dest!: c)
  have e: "evicted_in (Publish lib takes events h)
      = evicted_in h + sum_list (map (\<lambda>(i, s). snd (snd (?p i s))) (hb_subs h))"
    unfolding evicted_in_def s map_map sum_list_addf[symmetric]
    by (rule arg_cong[where f = sum_list], rule map_cong) (auto dest!: c)
  have "hb_dropped (Publish lib takes events h) = hb_dropped h + sum_list (map (\<lambda>(i, s). fst (snd (?p i s))) (hb_subs h))"
    "hb_evicted (Publish lib takes events h) = hb_evicted h + sum_list (map (\<lambda>(i, s). snd (snd (?p i s))) (hb_subs h))"
    "hb_max (Publish lib takes events h) = m"
    by (simp_all add: Publish_def Let_def comp_def case_prod_unfold takes_of_def m)
  then show ?thesis
    using assms d e c unfolding hub_ok_def by (auto simp: s comp_def case_prod_unfold)
qed

lemma hub_do_ok:
  assumes "hub_ok m h" "op_ok a h" shows "hub_ok m (hub_do lib a h)"
proof (cases a)
  case (OpSubscribe i q buffer)
  then show ?thesis using assms
    by (auto simp: hub_ok_def Subscribe_def new_subscriber_def sub_ok_def evicted_in_def)
next
  case (OpClose i)
  then show ?thesis using assms by (auto simp: Close_sub_def sub_ok_def intro!: on_sub_ok split: if_splits)
next
  case (OpReceive i k)
  then show ?thesis using assms by (auto intro!: on_sub_ok sub_ok_receive)
qed (use assms Publish_ok in auto)

lemma NewHub_ok: "hub_ok m (NewHubLimit m)"
  by (simp add: hub_ok_def NewHubLimit_def evicted_in_def)

text \<open>
  In every reachable state of the hub, with any number of subscribers coming, going, reading and
  stalling: no channel holds more than its capacity, the two totals are exactly the sums over the
  subscribers, an evicted subscriber is closed and has reached the threshold, and with a threshold
  no open subscriber has reached it.
\<close>

theorem hub_invariant:
  assumes "hub_reach lib maxDrops h"
  shows "hb_dropped h = sum_list (map (\<lambda>(_, s). su_dropped s) (hb_subs h))
    \<and> hb_evicted h = sum_list (map (\<lambda>(_, s). of_bool (su_evicted s)) (hb_subs h))
    \<and> (case map_of (hb_subs h) i of
         None \<Rightarrow> True
       | Some s \<Rightarrow> length (su_buf s) \<le> su_cap s
           \<and> (if su_evicted s then \<not> su_open s \<and> 0 < maxDrops \<and> maxDrops \<le> su_dropped s
              else su_open s \<and> 0 < maxDrops \<longrightarrow> su_dropped s < maxDrops))"
proof -
  have "hub_ok maxDrops h"
    using assms by induction (auto intro: NewHub_ok hub_do_ok)
  then show ?thesis
    by (auto simp: hub_ok_def sub_ok_def evicted_in_def split: option.splits dest!: map_of_SomeD)
qed

text \<open>The events meant for subscriber \<open>i\<close> in a run: those it matches, published while it is open.\<close>

fun heard :: "golib \<Rightarrow> nat \<Rightarrow> hub_op list \<Rightarrow> Hub \<Rightarrow> logevent list" where
  "heard lib i [] h = []"
| "heard lib i (OpPublish takes events # ops) h =
     (case map_of (hb_subs h) i of
        None \<Rightarrow> []
      | Some s \<Rightarrow> if su_open s then filter (Matches lib (su_q s)) events else [])
     @ heard lib i ops (hub_do lib (OpPublish takes events) h)"
| "heard lib i (a # ops) h = heard lib i ops (hub_do lib a h)"

fun ops_ok :: "golib \<Rightarrow> hub_op list \<Rightarrow> Hub \<Rightarrow> bool" where
  "ops_ok lib [] h \<longleftrightarrow> True"
| "ops_ok lib (a # ops) h \<longleftrightarrow> op_ok a h \<and> ops_ok lib ops (hub_do lib a h)"

definition hub_run :: "golib \<Rightarrow> hub_op list \<Rightarrow> Hub \<Rightarrow> Hub" where
  "hub_run lib ops h = fold (hub_do lib) ops h"

definition heard1 :: "golib \<Rightarrow> nat \<Rightarrow> hub_op \<Rightarrow> Hub \<Rightarrow> logevent list" where
  "heard1 lib i a h = (case a of
     OpPublish takes events \<Rightarrow>
       (case map_of (hb_subs h) i of
          None \<Rightarrow> []
        | Some s \<Rightarrow> if su_open s then filter (Matches lib (su_q s)) events else [])
   | _ \<Rightarrow> [])"

lemma heard_Cons: "heard lib i (a # ops) h = heard1 lib i a h @ heard lib i ops (hub_do lib a h)"
  by (cases a) (auto simp: heard1_def split: option.splits)

definition tracks :: "Hub \<Rightarrow> nat \<Rightarrow> logevent list \<Rightarrow> bool" where
  "tracks h i L \<longleftrightarrow> (case map_of (hb_subs h) i of None \<Rightarrow> L = [] | Some s \<Rightarrow> acct s L)"

lemma tracks_do:
  assumes "hub_ok m h" "op_ok a h" "tracks h i L"
  shows "tracks (hub_do lib a h) i (L @ heard1 lib i a h)"
proof (cases a)
  case (OpSubscribe j q buffer)
  have "map_of (hb_subs h) j = None" using assms(2) OpSubscribe by (auto simp: map_of_eq_None_iff)
  then show ?thesis using assms(3) OpSubscribe
    by (auto simp: tracks_def heard1_def Subscribe_def map_add_def new_subscriber_def acct_def split: option.splits)
next
  case (OpClose j)
  then show ?thesis using assms(3)
    by (auto simp: tracks_def heard1_def Close_sub_def on_sub_def map_of_keyed acct_def split: option.splits)
next
  case (OpReceive j k)
  then show ?thesis using assms(3)
    by (auto simp: tracks_def heard1_def on_sub_def map_of_keyed split: option.splits)
next
  case (OpPublish takes events)
  show ?thesis
  proof (cases "map_of (hb_subs h) i")
    case None
    then show ?thesis using assms(3) OpPublish by (auto simp: tracks_def heard1_def Publish_subs map_of_keyed)
  next
    case (Some s)
    then have s: "sub_ok m s" "acct s L" "hb_max h = m"
      using assms(1,3) by (auto simp: hub_ok_def tracks_def dest!: map_of_SomeD)
    obtain s2 n k where p: "publish_to lib m (takes_of takes i events) s = (s2, n, k)"
      by (cases "publish_to lib m (takes_of takes i events) s")
    show ?thesis using Some OpPublish s publish_to_accounts[OF p s(1,2)]
      by (auto simp: tracks_def heard1_def Publish_subs map_of_keyed p)
  qed
qed

lemma tracks_run:
  "hub_ok m h \<Longrightarrow> ops_ok lib ops h \<Longrightarrow> tracks h i L \<Longrightarrow>
     tracks (hub_run lib ops h) i (L @ heard lib i ops h)"
proof (induction ops arbitrary: h L)
  case (Cons a ops)
  have "tracks (hub_run lib ops (hub_do lib a h)) i ((L @ heard1 lib i a h) @ heard lib i ops (hub_do lib a h))"
    by (rule Cons.IH) (use Cons.prems hub_do_ok tracks_do in auto)
  then show ?case by (simp add: heard_Cons hub_run_def)
qed (simp add: hub_run_def)

text \<open>C17. Live tail loses nothing silently and invents nothing: after any run, what a subscriber has
  received and what waits in its channel are, in order, events it matches that were published while
  it was open, and together with its drop counter they account for every one of these; a
  subscriber that dropped nothing has them all.
\<close>

theorem hub_accounts:
  assumes "ops_ok lib ops (NewHubLimit maxDrops)"
    and "map_of (hb_subs (hub_run lib ops (NewHubLimit maxDrops))) i = Some s"
  shows "let meant = heard lib i ops (NewHubLimit maxDrops); seen = su_got s @ su_buf s
    in subseq seen meant \<and> int (length seen) + su_dropped s = int (length meant)
     \<and> (su_dropped s = 0 \<longrightarrow> seen = meant)"
proof -
  have "tracks (NewHubLimit maxDrops) i []" by (simp add: tracks_def NewHubLimit_def)
  from tracks_run[OF NewHub_ok assms(1) this]
  have "acct s (heard lib i ops (NewHubLimit maxDrops))"
    using assms(2) by (simp add: tracks_def)
  then show ?thesis
    by (auto simp: acct_def Let_def intro: subseq_same_length)
qed

section \<open>What a stream sends\<close>

text \<open>The events a list becomes on the wire, a connection gone included: frames up to the first failure.\<close>

fun send_all :: "(logevent \<Rightarrow> write_result) \<Rightarrow> logevent list \<Rightarrow> sse_out list \<times> bool" where
  "send_all wr [] = ([], True)"
| "send_all wr (e # es) =
     (case writeEvent wr e of
        (out, False) \<Rightarrow> (out, False)
      | (out, True) \<Rightarrow> (case send_all wr es of (out2, go) \<Rightarrow> (out @ out2, go)))"

fun is_frame :: "sse_out \<Rightarrow> bool" where
  "is_frame (Frame _ _) \<longleftrightarrow> True"
| "is_frame (Comment _) \<longleftrightarrow> False"

fun live_events :: "live_event list \<Rightarrow> logevent list" where
  "live_events [] = []"
| "live_events (ChannelEvent e # ls) = e # live_events ls"
| "live_events (HeartbeatTick # ls) = live_events ls"
| "live_events (_ # ls) = []"

lemma send_all_append:
  "send_all wr (xs @ ys) =
     (case send_all wr xs of (out, False) \<Rightarrow> (out, False)
      | (out, True) \<Rightarrow> (case send_all wr ys of (out2, go) \<Rightarrow> (out @ out2, go)))"
  by (induction xs) (auto split: prod.splits bool.splits)

lemma writeEvent_frames: "filter is_frame (fst (writeEvent wr e)) = fst (writeEvent wr e)"
  by (simp add: writeEvent_def split: write_result.splits)

lemma send_all_frames: "filter is_frame (fst (send_all wr es)) = fst (send_all wr es)"
proof (induction es)
  case (Cons e es)
  then show ?case using writeEvent_frames[of wr e]
    by (cases "writeEvent wr e"; cases "send_all wr es"; auto split: bool.splits)
qed simp

lemma replay_history_sends:
  "replay_history wr ls es R = (out, R', go) \<Longrightarrow>
     send_all wr (filter (\<lambda>e. ls = [] \<or> \<not> ev_id e \<le> ls) es) = (out, go) \<and> (go \<longrightarrow> R' = R \<union> ev_id ` set es)"
proof (induction es arbitrary: R out R' go)
  case (Cons e es)
  show ?case
  proof (cases "ls \<noteq> [] \<and> ev_id e \<le> ls")
    case True
    then have r: "replay_history wr ls es (insert (ev_id e) R) = (out, R', go)" using Cons.prems by simp
    show ?thesis using True Cons.IH[OF r] by auto
  next
    case False
    obtain o1 g1 where w: "writeEvent wr e = (o1, g1)" by (cases "writeEvent wr e")
    obtain o2 R2 g2 where r: "replay_history wr ls es (insert (ev_id e) R) = (o2, R2, g2)"
      by (cases "replay_history wr ls es (insert (ev_id e) R)")
    show ?thesis using False Cons.prems Cons.IH[OF r] w r by (auto split: bool.splits)
  qed
qed simp

lemma live_loop_sends:
  "distinct (map ev_id (live_events ls)) \<Longrightarrow>
     filter is_frame (live_loop wr ls R) = fst (send_all wr (filter (\<lambda>e. ev_id e \<notin> R) (live_events ls)))"
proof (induction wr ls R rule: live_loop.induct)
  case (6 wr e ls R)
  have sub: "filter (\<lambda>x. ev_id x \<notin> R - {ev_id e}) (live_events ls) = filter (\<lambda>x. ev_id x \<notin> R) (live_events ls)"
    using "6.prems" by (intro filter_cong) (auto simp: image_iff)
  obtain o1 g1 where w: "writeEvent wr e = (o1, g1)" by (cases "writeEvent wr e")
  show ?case using 6 w sub writeEvent_frames[of wr e]
    by (auto split: prod.splits bool.splits)
qed auto

text \<open>C18. The event stream: for history and live events with IDs of their own, the frames written are,
  one after the other until a write fails, the history newer than the last event the client has
  seen, oldest first, and then the live events, in the order they arrived, that were not in the
  history.  So nothing is sent twice, and what is left out of the two sources are the events of the
  history whose ID is not greater than the last one the client reports.
\<close>

theorem stream_sends_once:
  assumes "distinct (map ev_id (live_events live))"
  shows "filter is_frame (sse_stream wr lastSeen (Some (Some events)) live) =
    fst (send_all wr
      (filter (\<lambda>e. lastSeen = [] \<or> \<not> ev_id e \<le> lastSeen) (rev events)
       @ filter (\<lambda>e. ev_id e \<notin> ev_id ` set events) (live_events live)))"
proof -
  obtain out R go where r: "replay_history wr lastSeen (rev events) {} = (out, R, go)"
    by (cases "replay_history wr lastSeen (rev events) {}")
  note s = replay_history_sends[OF r]
  have f: "filter is_frame out = out" using send_all_frames s by (metis fst_conv)
  show ?thesis
    using s f live_loop_sends[OF assms, of wr R]
    by (auto simp: sse_stream_def r send_all_append split: prod.splits bool.splits)
qed

section \<open>Examples\<close>

definition any_query :: query where
  "any_query = \<lparr>q_terms = [], q_filters = [], q_time = empty_timespec,
     q_from = zero_time, q_to = zero_time, q_limit = 100, q_order = OrderNewest, q_interval = 0,
     q_after_ts = zero_time, q_after_id = [], q_agg = None\<rparr>"

definition event_a :: logevent where "event_a = empty_event\<lparr>ev_id := ''01A''\<rparr>"
definition event_b :: logevent where "event_b = empty_event\<lparr>ev_id := ''01B''\<rparr>"

text \<open>A subscriber with room for one event that reads only after two were published.\<close>

definition slow_reader :: "hub_op list" where
  "slow_reader = [OpSubscribe 0 any_query 0, OpPublish (\<lambda>_. []) [event_a, event_b], OpReceive 0 5,
     OpPublish (\<lambda>_. []) [event_b]]"

lemma any_query_matches [simp]: "Matches lib any_query e"
  by (simp add: Matches_def any_query_def is_zero_def)

lemmas hub_steps = Subscribe_def new_subscriber_def Publish_def on_sub_def receive_def publish_to_def offer_def evict_def

lemma slow_reader_ends:
  "map_of (hb_subs (hub_run ascii_lib slow_reader (NewHubLimit 2))) 0 =
     Some \<lparr>su_q = any_query, su_cap = 1, su_buf = [event_b], su_dropped = 1, su_evicted = False,
       su_open = True, su_got = [event_a]\<rparr>"
  by (simp add: hub_run_def slow_reader_def NewHubLimit_def hub_steps Let_def)

theorem hub_accounts_witness:
  "subseq [event_a, event_b] (heard ascii_lib 0 slow_reader (NewHubLimit 2))
    \<and> length (heard ascii_lib 0 slow_reader (NewHubLimit 2)) = 3"
  using hub_accounts[OF _ slow_reader_ends]
  by (auto simp: Let_def slow_reader_def NewHubLimit_def Subscribe_def)

theorem hub_invariant_witness:
  "let h = hub_run ascii_lib slow_reader (NewHubLimit 2)
   in hb_dropped h = sum_list (map (\<lambda>(_, s). su_dropped s) (hb_subs h))"
proof -
  have "hub_reach ascii_lib 2 (hub_run ascii_lib slow_reader (NewHubLimit 2))"
    unfolding hub_run_def slow_reader_def fold_simps comp_apply
    by (intro reach_do reach_new) (simp_all add: NewHubLimit_def)
  from hub_invariant[OF this] show ?thesis by (simp add: Let_def)
qed

theorem stream_sends_once_witness:
  "filter is_frame (sse_stream (\<lambda>e. Written (ev_message e)) [] (Some (Some [event_a]))
      [ChannelEvent event_a, HeartbeatTick, ChannelEvent event_b, ContextDone]) =
     [Frame ''01A'' [], Frame ''01B'' []]"
  using stream_sends_once[of "[ChannelEvent event_a, HeartbeatTick, ChannelEvent event_b, ContextDone]"
      "\<lambda>e. Written (ev_message e)" "[]" "[event_a]"]
  by (simp add: event_a_def event_b_def empty_event_def writeEvent_def)

end
