(* ===== verification/Search.thy ===== *)
theory Search
  imports Store Matcher Alert "HOL-Library.Product_Lexorder"
begin

text \<open>
  \<^verbatim>\<open>src/internal/store/sqlite/search.go\<close> and \<^verbatim>\<open>aggregate.go\<close>: the statements the store
  builds for a query, with their bound arguments, and what it makes of the rows.  The rows themselves
  are SQLite's answer, a parameter; \<open>Paging\<close> reads the text of a search for what it asks.
\<close>

section \<open>Conditions\<close>

datatype sqlarg = SqlText string | SqlInt int | SqlReal f64

record whereClause =
  w_conds :: "string list"
  w_args :: "sqlarg list"
  w_needFTS :: bool

definition sqlStr :: "whereClause \<Rightarrow> string" where
  "sqlStr w = (if w_conds w = [] then [] else ''WHERE '' @ join '' AND '' (w_conds w))"

definition columnFor :: "field \<Rightarrow> string" where
  "columnFor f = (case f of
     FieldLevel \<Rightarrow> ''logs.level'' | FieldService \<Rightarrow> ''logs.service'' | FieldSource \<Rightarrow> ''logs.source''
   | FieldMessage \<Rightarrow> ''logs.message'' | FieldRaw \<Rightarrow> ''logs.raw'' | _ \<Rightarrow> [])"

definition quote_char :: char where "quote_char = CHR 0x22"
definition backslash :: char where "backslash = CHR 0x5C"
definition apostrophe :: char where "apostrophe = CHR 0x27"

definition isBoolLiteral :: "string \<Rightarrow> bool" where
  "isBoolLiteral v \<longleftrightarrow> equal_fold v ''true'' \<or> equal_fold v ''false''"

definition jsonPath :: "string \<Rightarrow> string" where
  "jsonPath key = ''$.'' @ [quote_char] @ replace_char quote_char [quote_char, quote_char] key @ [quote_char]"

definition attrBoolCond :: "string \<Rightarrow> string \<Rightarrow> string \<times> sqlarg list" where
  "attrBoolCond path value =
     (let want = (if equal_fold value ''true'' then ''true'' else ''false'')
      in (''(json_type(logs.attributes, ?) = ? OR lower(CAST(json_extract(logs.attributes, ?) AS TEXT)) = ?)'',
          [SqlText path, SqlText want, SqlText path, SqlText want]))"

definition compareSym :: "op \<Rightarrow> string" where
  "compareSym opr = (case opr of OpGt \<Rightarrow> ''>'' | OpGte \<Rightarrow> ''>='' | OpLt \<Rightarrow> ''<'' | OpLte \<Rightarrow> ''<='' | _ \<Rightarrow> ''='')"

definition like_rune :: "string \<Rightarrow> string" where
  "like_rune r = (if r = ''*'' then ''%'' else if r \<in> {''%'', ''_'', [backslash]} then backslash # r else r)"

definition globToLike :: "string \<Rightarrow> string" where
  "globToLike glob = concat (map like_rune (runes glob))"

definition textExpr :: "filter_t \<Rightarrow> string \<times> sqlarg list" where
  "textExpr f =
     (if f_field f = FieldAttr then (''CAST(json_extract(logs.attributes, ?) AS TEXT)'', [SqlText (jsonPath (f_attr f))])
      else (columnFor (f_field f), []))"

definition filterCond :: "golib \<Rightarrow> filter_t \<Rightarrow> string \<times> sqlarg list" where
  "filterCond lib f =
     (let isAttr = (f_field f = FieldAttr);
          path = (if isAttr then jsonPath (f_attr f) else []);
          col = columnFor (f_field f);
          (e, a) = textExpr f
      in case f_op f of
           OpEq \<Rightarrow>
             if isAttr \<and> isBoolLiteral (f_value f) then attrBoolCond path (f_value f)
             else (e @ '' = ?'', a @ [SqlText (f_norm f (f_value f))])
         | OpNeq \<Rightarrow>
             if isAttr then
               (if isBoolLiteral (f_value f) then
                  (case attrBoolCond path (f_value f) of (cond, args) \<Rightarrow>
                     (''(json_extract(logs.attributes, ?) IS NULL OR NOT '' @ cond @ '')'', SqlText path # args))
                else (''(json_extract(logs.attributes, ?) IS NULL OR CAST(json_extract(logs.attributes, ?) AS TEXT) != ?)'',
                      [SqlText path, SqlText path, SqlText (f_value f)]))
             else (col @ '' != ?'', [SqlText (f_norm f (f_value f))])
         | OpIn \<Rightarrow>
             (e @ '' IN ('' @ trim_suffix '','' (concat (replicate (length (f_values f)) ''?,'')) @ '')'',
              a @ map (\<lambda>v. SqlText (f_norm f v)) (f_values f))
         | OpExists \<Rightarrow>
             if isAttr then (''json_extract(logs.attributes, ?) IS NOT NULL'', [SqlText path])
             else (''('' @ col @ '' IS NOT NULL AND '' @ col @ '' != '' @ [apostrophe, apostrophe] @ '')'', [])
         | OpLike \<Rightarrow>
             (e @ '' LIKE ? ESCAPE '' @ [apostrophe, backslash, apostrophe], a @ [SqlText (globToLike (f_value f))])
         | OpRegex \<Rightarrow> (e @ '' REGEXP ?'', a @ [SqlText (f_value f)])
         | _ \<Rightarrow>
             (let sym = compareSym (f_op f)
              in if f_op f \<in> {OpGt, OpGte, OpLt, OpLte} then
                   (case lib_parse_float lib (f_value f) of
                      (n, True) \<Rightarrow>
                        if isAttr then (''CAST(json_extract(logs.attributes, ?) AS REAL) '' @ sym @ '' ?'', [SqlText path, SqlReal n])
                        else (''CAST('' @ col @ '' AS REAL) '' @ sym @ '' ?'', [SqlReal n])
                    | (n, False) \<Rightarrow> (e @ '' '' @ sym @ '' ?'', a @ [SqlText (f_norm f (f_value f))]))
                 else ([], [])))"

definition ftsMatchExpr :: "string list \<Rightarrow> string" where
  "ftsMatchExpr terms =
     join '' AND '' (map (\<lambda>t. [quote_char] @ replace_char quote_char [quote_char, quote_char] t @ [quote_char] @ ''*'') terms)"

text \<open>One condition and its arguments, added to a clause.\<close>

definition add_cond :: "string \<Rightarrow> sqlarg list \<Rightarrow> whereClause \<Rightarrow> whereClause" where
  "add_cond c as w = w\<lparr>w_conds := w_conds w @ [c], w_args := w_args w @ as\<rparr>"

definition where_filter :: "golib \<Rightarrow> whereClause \<Rightarrow> filter_t \<Rightarrow> whereClause" where
  "where_filter lib w f = (case filterCond lib f of (cond, fargs) \<Rightarrow> if cond = [] then w else add_cond cond fargs w)"

definition buildWhere :: "golib \<Rightarrow> query \<Rightarrow> whereClause" where
  "buildWhere lib q =
     (let w0 = \<lparr>w_conds = [], w_args = [], w_needFTS = False\<rparr>;
          w1 = (if q_terms q \<noteq> [] then (add_cond ''logs_fts MATCH ?'' [SqlText (ftsMatchExpr (q_terms q))] w0)\<lparr>w_needFTS := True\<rparr> else w0);
          w2 = (if \<not> is_zero (q_from q) then add_cond ''logs.ts >= ?'' [SqlInt (i64 (q_from q))] w1 else w1);
          w3 = (if \<not> is_zero (q_to q) then add_cond ''logs.ts <= ?'' [SqlInt (i64 (q_to q))] w2 else w2)
      in foldl (where_filter lib) w3 (q_filters q))"

definition keysetCond :: "query \<Rightarrow> string \<times> sqlarg list" where
  "keysetCond q =
     (if q_after_id q = [] then ([], [])
      else let ts = i64 (q_after_ts q)
           in if q_order q = OrderOldest then
                (''(logs.ts > ? OR (logs.ts = ? AND logs.id > ?))'', [SqlInt ts, SqlInt ts, SqlText (q_after_id q)])
              else (''(logs.ts < ? OR (logs.ts = ? AND logs.id < ?))'', [SqlInt ts, SqlInt ts, SqlText (q_after_id q)]))"

section \<open>Statements\<close>

type_synonym stmt = "string \<times> sqlarg list"

definition fromClause :: "bool \<Rightarrow> string" where
  "fromClause needFTS = (if needFTS then ''FROM logs JOIN logs_fts ON logs_fts.rowid = logs.rowid'' else ''FROM logs'')"

definition with_keyset :: "query \<Rightarrow> whereClause \<Rightarrow> whereClause" where
  "with_keyset q w = (case keysetCond q of (cond, cargs) \<Rightarrow> if cond \<noteq> [] then add_cond cond cargs w else w)"

definition order_word :: "query \<Rightarrow> string" where
  "order_word q = (if q_order q = OrderOldest then ''ASC'' else ''DESC'')"

definition select_columns :: string where
  "select_columns = ''SELECT logs.id, logs.ts, logs.received_at, logs.source, logs.service, logs.level, logs.message, logs.attributes, logs.raw ''"

definition streamSQL :: "golib \<Rightarrow> query \<Rightarrow> stmt" where
  "streamSQL lib q =
     (let w = with_keyset q (buildWhere lib q)
      in (select_columns @ fromClause (w_needFTS w) @ '' '' @ sqlStr w @ '' ORDER BY logs.ts '' @ order_word q
            @ '', logs.id '' @ order_word q, w_args w))"

definition searchSQL :: "golib \<Rightarrow> query \<Rightarrow> stmt" where
  "searchSQL lib q =
     (let w = with_keyset q (buildWhere lib q)
      in (select_columns @ fromClause (w_needFTS w) @ '' '' @ sqlStr w @ '' ORDER BY logs.ts '' @ order_word q
            @ '', logs.id '' @ order_word q @ '' LIMIT ?'', w_args w @ [SqlInt (q_limit q)]))"

definition countSQL :: "golib \<Rightarrow> query \<Rightarrow> stmt" where
  "countSQL lib q =
     (let w = buildWhere lib q
      in (''SELECT COUNT(*) FROM (SELECT 1 '' @ fromClause (w_needFTS w) @ '' '' @ sqlStr w @ '' LIMIT ?)'',
          w_args w @ [SqlInt (MaxExactCount + 1)]))"

definition histogramSQL :: "golib \<Rightarrow> query \<Rightarrow> int \<Rightarrow> stmt" where
  "histogramSQL lib q bucketNanos =
     (let w = buildWhere lib q
      in (''SELECT (logs.ts / '' @ show_int bucketNanos @ '') * '' @ show_int bucketNanos @ '' AS bucket, COUNT(*) ''
            @ fromClause (w_needFTS w) @ '' '' @ sqlStr w @ '' GROUP BY bucket ORDER BY bucket ASC'', w_args w))"

definition facetSQL :: "golib \<Rightarrow> query \<Rightarrow> string \<Rightarrow> stmt" where
  "facetSQL lib q col =
     (let w = buildWhere lib q
      in (''SELECT logs.'' @ col @ '' AS v, COUNT(*) AS c '' @ fromClause (w_needFTS w) @ '' '' @ sqlStr w
            @ '' GROUP BY v ORDER BY c DESC LIMIT 20'', w_args w))"

section \<open>Aggregations\<close>

definition refExpr :: "fieldref \<Rightarrow> stmt" where
  "refExpr r =
     (if r_field r = FieldAttr then (''CAST(json_extract(logs.attributes, ?) AS TEXT)'', [SqlText (jsonPath (r_attr r))])
      else if columnFor (r_field r) \<noteq> [] then (columnFor (r_field r), [])
      else (''NULL'', []))"

definition numericRefExpr :: "fieldref \<Rightarrow> stmt" where
  "numericRefExpr r =
     (if r_field r = FieldAttr then (''CAST(json_extract(logs.attributes, ?) AS REAL)'', [SqlText (jsonPath (r_attr r))])
      else if columnFor (r_field r) \<noteq> [] then (''CAST('' @ columnFor (r_field r) @ '' AS REAL)'', [])
      else (''NULL'', []))"

definition aggSelect :: "aggexpr \<Rightarrow> stmt" where
  "aggSelect e = (case x_func e of
       FuncCount \<Rightarrow> (''COUNT(*)'', [])
     | FuncDistinct \<Rightarrow> (case refExpr (x_ref e) of (expr, args) \<Rightarrow> (''COUNT(DISTINCT '' @ expr @ '')'', args))
     | FuncSum \<Rightarrow> (case numericRefExpr (x_ref e) of (expr, args) \<Rightarrow> (''SUM('' @ expr @ '')'', args))
     | FuncAvg \<Rightarrow> (case numericRefExpr (x_ref e) of (expr, args) \<Rightarrow> (''AVG('' @ expr @ '')'', args))
     | FuncMin \<Rightarrow> (case numericRefExpr (x_ref e) of (expr, args) \<Rightarrow> (''MIN('' @ expr @ '')'', args))
     | FuncMax \<Rightarrow> (case numericRefExpr (x_ref e) of (expr, args) \<Rightarrow> (''MAX('' @ expr @ '')'', args)))"

definition orderClause :: "aggregation \<Rightarrow> string" where
  "orderClause a = (case a_kind a of KindTimechart \<Rightarrow> ''bucket ASC'' | KindRare \<Rightarrow> ''m0 ASC'' | _ \<Rightarrow> ''m0 DESC'')"

text \<open>The entries of the select list: the bucket, the groups, the measures.\<close>

definition bucket_select :: "aggregation \<Rightarrow> stmt list" where
  "bucket_select a =
     (if a_kind a = KindTimechart then
        [(''(logs.ts / '' @ show_int (a_span a) @ '') * '' @ show_int (a_span a) @ '' AS bucket'', [])] else [])"

definition group_selects :: "aggregation \<Rightarrow> stmt list" where
  "group_selects a = map (\<lambda>(i, g). case refExpr g of (expr, args) \<Rightarrow> (expr @ '' AS g'' @ show_nat i, args))
     (zip [0..<length (a_group_by a)] (a_group_by a))"

definition measure_selects :: "aggregation \<Rightarrow> stmt list" where
  "measure_selects a = map (\<lambda>(i, e). case aggSelect e of (expr, args) \<Rightarrow> (expr @ '' AS m'' @ show_nat i, args))
     (zip [0..<length (a_exprs a)] (a_exprs a))"

definition group_names :: "aggregation \<Rightarrow> string list" where
  "group_names a = (if a_kind a = KindTimechart then [''bucket''] else [])
     @ map (\<lambda>i. ''g'' @ show_nat i) [0..<length (a_group_by a)]"

definition aggregateSQL :: "golib \<Rightarrow> query \<Rightarrow> aggregation \<Rightarrow> stmt" where
  "aggregateSQL lib q a =
     (let selects = bucket_select a @ group_selects a @ measure_selects a;
          groups = group_names a;
          w = buildWhere lib q
      in (''SELECT '' @ join '', '' (map fst selects) @ '' '' @ fromClause (w_needFTS w) @ '' '' @ sqlStr w
            @ (if groups \<noteq> [] then '' GROUP BY '' @ join '', '' groups else [])
            @ '' ORDER BY '' @ orderClause a @ '' LIMIT ?'',
          concat (map snd selects) @ w_args w @ [SqlInt (a_limit a + 1)]))"

section \<open>Reading the answers\<close>

text \<open>A value of a result row, and the values of a table handed to the caller.\<close>

datatype cell = CNull | CInt int | CReal f64 | CText string | CBytes string | CTime time

text \<open>
  The read pool.  A query fails, or its rows arrive and then \<^verbatim>\<open>rows.Err()\<close> is nil or not.  An
  event row is a log row; a count is the row of one number.  \<open>sr_attributes\<close> is \<^verbatim>\<open>json.Unmarshal\<close>
  into the attributes.
\<close>

record sql_reader =
  sr_events :: "string \<Rightarrow> sqlarg list \<Rightarrow> (logrow list \<times> bool) option"
  sr_count :: "string \<Rightarrow> sqlarg list \<Rightarrow> int option"
  sr_buckets :: "string \<Rightarrow> sqlarg list \<Rightarrow> ((int \<times> int) list \<times> bool) option"
  sr_facets :: "string \<Rightarrow> sqlarg list \<Rightarrow> ((string option \<times> int) list \<times> bool) option"
  sr_table :: "string \<Rightarrow> sqlarg list \<Rightarrow> (cell list list \<times> bool) option"
  sr_attributes :: "string \<Rightarrow> (string \<times> any) list"

datatype search_error = SearchQuery | RowsFailed | CountQuery | StreamQuery | HistogramQuery | FacetQuery string
  | NoAggregation | AggregateQuery

record SearchResult =
  sv_events :: "logevent list"
  sv_count :: nat
  sv_total :: int
  sv_capped :: bool
  sv_next :: string

definition scanEvent :: "sql_reader \<Rightarrow> logrow \<Rightarrow> logevent" where
  "scanEvent sr r = \<lparr>ev_id = r_id r, ev_timestamp = r_ts r, ev_received = r_received r, ev_source = r_source r,
     ev_service = r_service r, ev_level = r_level r, ev_message = r_message r,
     ev_attrs = (if r_attributes r \<noteq> [] \<and> r_attributes r \<noteq> ''{}'' then sr_attributes sr (r_attributes r) else []),
     ev_raw = r_raw r\<rparr>"

definition db_count :: "golib \<Rightarrow> sql_reader \<Rightarrow> query \<Rightarrow> search_error + int \<times> bool" where
  "db_count lib sr q =
     (case countSQL lib q of (sql, args) \<Rightarrow>
        (case sr_count sr sql args of
           None \<Rightarrow> Inl CountQuery
         | Some n \<Rightarrow> Inr (if n > MaxExactCount then (MaxExactCount, True) else (n, False))))"

definition next_cursor :: "query \<Rightarrow> logevent list \<Rightarrow> string" where
  "next_cursor q events =
     (if int (length events) = q_limit q \<and> events \<noteq> []
      then EncodeCursor (ev_timestamp (last events)) (ev_id (last events)) else [])"

definition Search :: "golib \<Rightarrow> sql_reader \<Rightarrow> query \<Rightarrow> search_error + SearchResult" where
  "Search lib sr q0 =
     (let q = Query_Normalize q0; (sql, args) = searchSQL lib q
      in case sr_events sr sql args of
           None \<Rightarrow> Inl SearchQuery
         | Some (rows, ok) \<Rightarrow>
             if \<not> ok then Inl RowsFailed
             else (let events = map (scanEvent sr) rows
                   in try_bind (db_count lib sr q) (\<lambda>(total, capped).
                        Inr \<lparr>sv_events = events, sv_count = length events, sv_total = total,
                              sv_capped = capped, sv_next = next_cursor q events\<rparr>)))"

text \<open>\<^verbatim>\<open>Stream\<close>: what was handed to the callback before it or the rows failed, and whether all is well.\<close>

fun stream_rows :: "(logevent \<Rightarrow> bool) \<Rightarrow> logevent list \<Rightarrow> logevent list \<times> bool" where
  "stream_rows fn [] = ([], True)"
| "stream_rows fn (e # es) =
     (if \<not> fn e then ([e], False) else (case stream_rows fn es of (sent, ok) \<Rightarrow> (e # sent, ok)))"

definition Stream_events :: "golib \<Rightarrow> sql_reader \<Rightarrow> (logevent \<Rightarrow> bool) \<Rightarrow> query \<Rightarrow> logevent list \<times> bool" where
  "Stream_events lib sr fn q0 =
     (let q = Query_Normalize q0; (sql, args) = streamSQL lib q
      in case sr_events sr sql args of
           None \<Rightarrow> ([], False)
         | Some (rows, rows_ok) \<Rightarrow>
             (case stream_rows fn (map (scanEvent sr) rows) of (sent, ok) \<Rightarrow> (sent, ok \<and> rows_ok)))"

record StatsResult =
  st_histogram :: "(time \<times> int) list"
  st_facets :: "(string \<times> (string \<times> int) list) list"
  st_total :: int

definition facet :: "golib \<Rightarrow> sql_reader \<Rightarrow> query \<Rightarrow> string \<Rightarrow> search_error + (string \<times> int) list" where
  "facet lib sr q col =
     (case facetSQL lib q col of (sql, args) \<Rightarrow>
        (case sr_facets sr sql args of
           None \<Rightarrow> Inl (FacetQuery col)
         | Some (rows, ok) \<Rightarrow>
             if ok then Inr (map (\<lambda>(v, c). (case v of None \<Rightarrow> [] | Some s \<Rightarrow> s, c)) rows) else Inl RowsFailed))"

definition Stats :: "golib \<Rightarrow> sql_reader \<Rightarrow> query \<Rightarrow> search_error + StatsResult" where
  "Stats lib sr q0 =
     (let q = Query_Normalize q0;
          interval = (if q_interval q \<le> 0 then minute else q_interval q);
          (sql, args) = histogramSQL lib q interval
      in case sr_buckets sr sql args of
           None \<Rightarrow> Inl HistogramQuery
         | Some (rows, ok) \<Rightarrow>
             if \<not> ok then Inl RowsFailed
             else try_bind (facet lib sr q ''level'') (\<lambda>levels.
                  try_bind (facet lib sr q ''service'') (\<lambda>services.
                    Inr \<lparr>st_histogram = rows, st_facets = [(''level'', levels), (''service'', services)],
                          st_total = foldl (\<lambda>t (b, c). i64 (t + c)) 0 rows\<rparr>)))"

record Table =
  tb_columns :: "string list"
  tb_rows :: "cell list list"
  tb_group_columns :: nat
  tb_truncated :: bool

definition scanAggRow :: "aggregation \<Rightarrow> cell list \<Rightarrow> cell list" where
  "scanAggRow a raw = map (\<lambda>(i, v).
     if i = (0::nat) \<and> a_kind a = KindTimechart then (case v of CInt ns \<Rightarrow> CTime ns | _ \<Rightarrow> v)
     else (case v of CNull \<Rightarrow> CText [] | CBytes s \<Rightarrow> CText s | _ \<Rightarrow> v)) (zip [0..<length raw] raw)"

text \<open>Rows are taken until the limit; one more row, and the table is truncated.\<close>

fun agg_rows :: "aggregation \<Rightarrow> cell list list \<Rightarrow> cell list list \<Rightarrow> cell list list \<times> bool" where
  "agg_rows a [] acc = (acc, False)"
| "agg_rows a (r # rs) acc =
     (if int (length acc) \<ge> a_limit a then (acc, True) else agg_rows a rs (acc @ [scanAggRow a r]))"

definition Aggregate :: "golib \<Rightarrow> sql_reader \<Rightarrow> query \<Rightarrow> search_error + Table" where
  "Aggregate lib sr q0 =
     (case q_agg q0 of
        None \<Rightarrow> Inl NoAggregation
      | Some _ \<Rightarrow>
          (let q = Query_Normalize q0; a = the (q_agg q); (sql, args) = aggregateSQL lib q a
           in case sr_table sr sql args of
                None \<Rightarrow> Inl AggregateQuery
              | Some (rows, ok) \<Rightarrow>
                  (case agg_rows a rows [] of
                     (out, truncated) \<Rightarrow>
                       if \<not> truncated \<and> \<not> ok then Inl RowsFailed
                       else Inr \<lparr>tb_columns = Columns a, tb_rows = out,
                              tb_group_columns = length (a_group_by a) + (if a_kind a = KindTimechart then 1 else 0),
                              tb_truncated = truncated\<rparr>)))"

section \<open>Placeholders\<close>

text \<open>Positional binding: the \<open>n\<close>-th \<^verbatim>\<open>?\<close> of the text gets the \<open>n\<close>-th argument, and there are as many.\<close>

fun bind_args :: "string \<Rightarrow> sqlarg list \<Rightarrow> (char + sqlarg) list option" where
  "bind_args [] [] = Some []"
| "bind_args [] (a # as) = None"
| "bind_args (c # s) as =
     (if c = CHR ''?'' then (case as of [] \<Rightarrow> None | a # as' \<Rightarrow> map_option ((#) (Inr a)) (bind_args s as'))
      else map_option ((#) (Inl c)) (bind_args s as))"

definition holes :: "string \<Rightarrow> nat" where
  "holes s = length (filter ((=) (CHR ''?'')) s)"

lemma holes_simps [simp]:
  "holes [] = 0" "holes (c # s) = (if c = CHR ''?'' then Suc (holes s) else holes s)"
  "holes (s @ t) = holes s + holes t"
  by (auto simp: holes_def)

lemma holes_concat: "holes (concat ss) = sum_list (map holes ss)"
  by (induction ss) auto

lemma holes_join: "holes sep = 0 \<Longrightarrow> holes (join sep ss) = sum_list (map holes ss)"
  by (induction sep ss rule: join.induct) auto

lemma holes_zero: "CHR ''?'' \<notin> set s \<Longrightarrow> holes s = 0"
  by (induction s) auto

lemma bind_args_iff: "bind_args s as \<noteq> None \<longleftrightarrow> holes s = length as"
  by (induction s as rule: bind_args.induct) (auto split: list.split)

lemma bind_args_append:
  "bind_args s as = Some b \<Longrightarrow> bind_args (s @ t) (as @ cs) = map_option ((@) b) (bind_args t cs)"
  by (cases "bind_args t cs"; induction s as arbitrary: b rule: bind_args.induct)
     (auto split: list.splits if_splits)

lemma bind_args_lit: "holes s = 0 \<Longrightarrow> bind_args s [] = Some (map Inl s)"
  by (induction s) (auto split: if_splits)

lemma holes_digits [simp]: "holes (show_nat n) = 0" "holes (show_int i) = 0"
proof -
  have d: "CHR ''?'' \<notin> set (show_nat n)" for n
  proof
    assume "CHR ''?'' \<in> set (show_nat n)"
    then have "is_digit (CHR ''?'')" using show_nat_digits by (auto simp: list_all_iff)
    then show False by (simp add: is_digit_def)
  qed
  then show "holes (show_nat n) = 0" by (rule holes_zero)
  show "holes (show_int i) = 0" using holes_zero[OF d] by (simp add: show_int_def)
qed

text \<open>\<open>balanced st\<close>: a piece of a statement that brings an argument for each of its placeholders.\<close>

definition balanced :: "stmt \<Rightarrow> bool" where
  "balanced st \<longleftrightarrow> holes (fst st) = length (snd st)"

lemma holes_columnFor [simp]: "holes (columnFor f) = 0"
  by (simp add: columnFor_def split: field.split)

lemma holes_compareSym [simp]: "holes (compareSym opr) = 0"
  by (simp add: compareSym_def split: op.split)

lemma holes_order_word [simp]: "holes (order_word q) = 0"
  by (simp add: order_word_def)

lemma holes_fromClause [simp]: "holes (fromClause b) = 0"
  by (simp add: fromClause_def)

lemma sql_chars [simp]: "apostrophe \<noteq> CHR ''?''" "backslash \<noteq> CHR ''?''"
  by (simp_all add: apostrophe_def backslash_def)

lemma concat_replicate_snoc: "concat (replicate (Suc n) ''?,'') = concat (replicate n ''?,'') @ ''?,''"
  by (simp flip: replicate_append_same)

lemma holes_marks [simp]: "holes (trim_suffix '','' (concat (replicate n ''?,''))) = n"
proof (cases n)
  case (Suc k)
  have "trim_suffix '','' (concat (replicate k ''?,'') @ ''?,'') = concat (replicate k ''?,'') @ ''?''"
    using suffixI[of "concat (replicate k ''?,'') @ ''?,''" "concat (replicate k ''?,'') @ ''?''" "'',''"]
    by (simp add: trim_suffix_def)
  then show ?thesis using Suc by (simp only: concat_replicate_snoc) (simp add: holes_concat sum_list_replicate)
qed (simp add: trim_suffix_def)

lemma balanced_filterCond: "balanced (filterCond lib f)"
  by (cases "f_op f") (auto simp: balanced_def filterCond_def textExpr_def attrBoolCond_def Let_def split: prod.splits bool.splits)

lemma balanced_keyset: "balanced (keysetCond q)"
  by (simp add: balanced_def keysetCond_def Let_def)

definition clause_ok :: "whereClause \<Rightarrow> bool" where
  "clause_ok w \<longleftrightarrow> sum_list (map holes (w_conds w)) = length (w_args w)"

lemma clause_ok_add: "clause_ok w \<Longrightarrow> balanced (c, as) \<Longrightarrow> clause_ok (add_cond c as w)"
  by (simp add: clause_ok_def balanced_def add_cond_def)

lemma clause_ok_filters: "clause_ok w \<Longrightarrow> clause_ok (foldl (where_filter lib) w fs)"
proof (induction fs arbitrary: w)
  case (Cons f fs)
  have "clause_ok (where_filter lib w f)"
    using Cons.prems balanced_filterCond[of lib f]
    by (auto simp: where_filter_def split: prod.splits intro: clause_ok_add)
  then show ?case using Cons.IH by simp
qed simp

lemma clause_ok_fts [simp]: "clause_ok (w\<lparr>w_needFTS := b\<rparr>) = clause_ok w"
  by (simp add: clause_ok_def)

lemma clause_ok_buildWhere: "clause_ok (buildWhere lib q)"
proof -
  have "clause_ok \<lparr>w_conds = [], w_args = [], w_needFTS = False\<rparr>" by (simp add: clause_ok_def)
  then show ?thesis unfolding buildWhere_def Let_def
    by (intro clause_ok_filters) (auto intro!: clause_ok_add simp: balanced_def)
qed

lemma clause_ok_keyset: "clause_ok w \<Longrightarrow> clause_ok (with_keyset q w)"
  using balanced_keyset[of q] by (auto simp: with_keyset_def split: prod.splits intro: clause_ok_add)

lemma holes_sqlStr: "clause_ok w \<Longrightarrow> holes (sqlStr w) = length (w_args w)"
  by (auto simp: sqlStr_def clause_ok_def holes_join)

lemma balanced_statements:
  "balanced (searchSQL lib q)" "balanced (streamSQL lib q)" "balanced (countSQL lib q)"
  "balanced (histogramSQL lib q n)" "CHR ''?'' \<notin> set col \<Longrightarrow> balanced (facetSQL lib q col)"
  by (simp_all add: balanced_def searchSQL_def streamSQL_def countSQL_def histogramSQL_def facetSQL_def Let_def
      holes_sqlStr clause_ok_keyset clause_ok_buildWhere select_columns_def holes_zero)

lemma balanced_refs: "balanced (refExpr r)" "balanced (numericRefExpr r)" "balanced (aggSelect e)"
  by (auto simp: balanced_def refExpr_def numericRefExpr_def aggSelect_def split: aggfunc.split)

lemma balanced_alias: "balanced st \<Longrightarrow> holes s = 0 \<Longrightarrow> balanced (case st of (expr, args) \<Rightarrow> (expr @ s, args))"
  by (cases st) (auto simp: balanced_def)

lemma balanced_selects:
  "st \<in> set (bucket_select a @ group_selects a @ measure_selects a) \<Longrightarrow> balanced st"
  by (auto simp: bucket_select_def group_selects_def measure_selects_def balanced_refs
      simp del: split_paired_All intro!: balanced_alias split: if_splits) (simp add: balanced_def)

lemma holes_group_names: "s \<in> set (group_names a) \<Longrightarrow> holes s = 0"
  by (auto simp: group_names_def split: if_splits)

lemma holes_groups [simp]: "holes (join '', '' (group_names a)) = 0"
  by (simp add: holes_join) (simp add: holes_group_names)

lemma holes_orderClause [simp]: "holes (orderClause a) = 0"
  by (simp add: orderClause_def split: aggkind.split)

lemma balanced_list: "(\<And>st. st \<in> set sts \<Longrightarrow> balanced st) \<Longrightarrow> sum_list (map holes (map fst sts)) = length (concat (map snd sts))"
  by (induction sts) (auto simp: balanced_def)

lemma balanced_aggregate: "balanced (aggregateSQL lib q a)"
  using balanced_list[of "bucket_select a @ group_selects a @ measure_selects a", OF balanced_selects]
  by (simp add: balanced_def aggregateSQL_def Let_def holes_join holes_sqlStr clause_ok_buildWhere length_concat del: map_append)

text \<open>C16. Every statement the store builds is well formed for positional binding: whatever the query,
  its text has exactly as many placeholders as there are arguments.
\<close>

theorem statements_bind:
  "list_all (\<lambda>(sql, args). bind_args sql args \<noteq> None)
     [searchSQL lib q, streamSQL lib q, countSQL lib q, histogramSQL lib q n,
      facetSQL lib q ''level'', facetSQL lib q ''service'', aggregateSQL lib q a]"
  using balanced_statements(1-3)[of lib q] balanced_statements(4)[of lib q n]
    balanced_statements(5)[of "''level''" lib q] balanced_statements(5)[of "''service''" lib q] balanced_aggregate[of lib q a]
  by (simp add: bind_args_iff[symmetric] balanced_def case_prod_beta del: not_None_eq)

text \<open>A piece of a statement with its arguments in their places, and a list of such pieces.\<close>

definition bound :: "stmt \<Rightarrow> (char + sqlarg) list" where
  "bound st = the (bind_args (fst st) (snd st))"

fun bound_list :: "string \<Rightarrow> stmt list \<Rightarrow> (char + sqlarg) list" where
  "bound_list sep [] = []"
| "bound_list sep [st] = bound st"
| "bound_list sep (st # st' # sts) = bound st @ map Inl sep @ bound_list sep (st' # sts)"

lemma bound_Some: "balanced st \<Longrightarrow> bind_args (fst st) (snd st) = Some (bound st)"
  using bind_args_iff[of "fst st" "snd st"] by (auto simp: bound_def balanced_def)

lemma bind_args_lit_append: "holes s = 0 \<Longrightarrow> bind_args (s @ t) cs = map_option ((@) (map Inl s)) (bind_args t cs)"
  using bind_args_append[OF bind_args_lit, of s t cs] by simp

lemma bind_args_piece: "balanced st \<Longrightarrow> bind_args (fst st @ t) (snd st @ cs) = map_option ((@) (bound st)) (bind_args t cs)"
  using bind_args_append[OF bound_Some] by blast

lemma bind_args_list:
  "(\<And>st. st \<in> set sts \<Longrightarrow> balanced st) \<Longrightarrow> holes sep = 0 \<Longrightarrow>
     bind_args (join sep (map fst sts) @ t) (concat (map snd sts) @ cs) =
       map_option ((@) (bound_list sep sts)) (bind_args t cs)"
proof (induction sep sts rule: bound_list.induct)
  case (1 sep)
  then show ?case by (cases "bind_args t cs") auto
next
  case (2 sep st)
  then show ?case by (simp add: bind_args_piece)
next
  case (3 sep st st' sts)
  then show ?case by (simp add: bind_args_piece bind_args_lit_append option.map_comp comp_def)
qed

text \<open>
  In an aggregation the arguments stand where they belong, although they are collected from
  three places: with the placeholders filled in, the statement is the select list with each entry's
  own JSON path, then the conditions with theirs, and last the limit, one more than the rows wanted.
\<close>

theorem aggregate_binds_in_order:
  "(case aggregateSQL lib q a of (sql, args) \<Rightarrow> bind_args sql args) =
     (let w = buildWhere lib q in Some
       (map Inl ''SELECT '' @ bound_list '', '' (bucket_select a @ group_selects a @ measure_selects a)
        @ map Inl ('' '' @ fromClause (w_needFTS w) @ '' '') @ bound (sqlStr w, w_args w)
        @ map Inl ((if group_names a \<noteq> [] then '' GROUP BY '' @ join '', '' (group_names a) else [])
                   @ '' ORDER BY '' @ orderClause a @ '' LIMIT '')
        @ [Inr (SqlInt (a_limit a + 1))]))"
proof -
  define w where "w = buildWhere lib q"
  define sels where "sels = bucket_select a @ group_selects a @ measure_selects a"
  define mid where "mid = '' '' @ fromClause (w_needFTS w) @ '' ''"
  define tl where "tl = (if group_names a \<noteq> [] then '' GROUP BY '' @ join '', '' (group_names a) else []) @ '' ORDER BY '' @ orderClause a @ '' LIMIT ''"
  define lim where "lim = [SqlInt (a_limit a + 1)]"
  have b: "balanced (sqlStr w, w_args w)"
    by (simp add: balanced_def w_def holes_sqlStr clause_ok_buildWhere)
  have s: "st \<in> set sels \<Longrightarrow> balanced st" for st
    unfolding sels_def by (rule balanced_selects)
  have h: "holes ''SELECT '' = 0" "holes mid = 0" "holes tl = 0" by (simp_all add: mid_def tl_def)
  have "aggregateSQL lib q a = (''SELECT '' @ join '', '' (map fst sels) @ mid @ sqlStr w @ tl @ ''?'', concat (map snd sels) @ w_args w @ lim)"
    by (simp add: aggregateSQL_def Let_def w_def tl_def mid_def sels_def lim_def)
  moreover have "bind_args ''?'' lim = Some [Inr (SqlInt (a_limit a + 1))]" by (simp add: lim_def)
  then have "bind_args (tl @ ''?'') lim = Some (map Inl tl @ [Inr (SqlInt (a_limit a + 1))])"
    using bind_args_lit_append[OF h(3)] by simp
  then have "bind_args (sqlStr w @ tl @ ''?'') (w_args w @ lim) = Some (bound (sqlStr w, w_args w) @ map Inl tl @ [Inr (SqlInt (a_limit a + 1))])"
    using bind_args_piece[OF b, of "tl @ ''?''" lim] by simp
  then have "bind_args (mid @ sqlStr w @ tl @ ''?'') (w_args w @ lim)
      = Some (map Inl mid @ bound (sqlStr w, w_args w) @ map Inl tl @ [Inr (SqlInt (a_limit a + 1))])"
    using bind_args_lit_append[OF h(2)] by simp
  then have "bind_args (join '', '' (map fst sels) @ mid @ sqlStr w @ tl @ ''?'') (concat (map snd sels) @ w_args w @ lim)
      = Some (bound_list '', '' sels @ map Inl mid @ bound (sqlStr w, w_args w) @ map Inl tl @ [Inr (SqlInt (a_limit a + 1))])"
    using bind_args_list[OF s, where sep = "'', ''"] by simp
  then have "bind_args (''SELECT '' @ join '', '' (map fst sels) @ mid @ sqlStr w @ tl @ ''?'') (concat (map snd sels) @ w_args w @ lim)
      = Some (map Inl ''SELECT '' @ bound_list '', '' sels @ map Inl mid @ bound (sqlStr w, w_args w) @ map Inl tl @ [Inr (SqlInt (a_limit a + 1))])"
    using bind_args_lit_append[OF h(1)] by simp
  ultimately show ?thesis by (simp only: prod.case Let_def w_def tl_def mid_def sels_def)
qed

section \<open>No user text in a statement\<close>

text \<open>What of a filter, and of a query, a statement may depend on: choices, never text.\<close>

definition filter_shape :: "golib \<Rightarrow> filter_t \<Rightarrow> field \<times> op \<times> nat \<times> bool \<times> bool" where
  "filter_shape lib f = (f_field f, f_op f, length (f_values f), isBoolLiteral (f_value f), snd (lib_parse_float lib (f_value f)))"

definition query_shape :: "golib \<Rightarrow> query \<Rightarrow> bool \<times> bool \<times> bool \<times> (field \<times> op \<times> nat \<times> bool \<times> bool) list \<times> bool \<times> bool" where
  "query_shape lib q = (q_terms q = [], is_zero (q_from q), is_zero (q_to q), map (filter_shape lib) (q_filters q),
     q_after_id q = [], q_order q = OrderOldest)"

definition agg_shape :: "aggregation \<Rightarrow> aggkind \<times> duration \<times> field list \<times> (aggfunc \<times> field) list" where
  "agg_shape a = (a_kind a, a_span a, map r_field (a_group_by a), map (\<lambda>e. (x_func e, r_field (x_ref e))) (a_exprs a))"

lemma filterCond_text:
  "filter_shape lib f = filter_shape lib' g \<Longrightarrow> fst (filterCond lib f) = fst (filterCond lib' g)"
  by (auto simp: filter_shape_def filterCond_def textExpr_def attrBoolCond_def Let_def
      split: prod.splits bool.splits op.splits)

lemma where_filter_conds:
  "w_conds (foldl (where_filter lib) w fs) = w_conds w @ filter (\<lambda>c. c \<noteq> []) (map (\<lambda>f. fst (filterCond lib f)) fs)
   \<and> w_needFTS (foldl (where_filter lib) w fs) = w_needFTS w"
  by (induction fs arbitrary: w) (auto simp: where_filter_def add_cond_def split: prod.splits)

lemma map_determined:
  "map f xs = map g ys \<Longrightarrow> (\<And>x y. f x = g y \<Longrightarrow> h x = k y) \<Longrightarrow> map h xs = map k ys"
proof (induction xs arbitrary: ys)
  case (Cons x xs)
  then show ?case by (cases ys) auto
qed simp

lemma buildWhere_text:
  assumes "query_shape lib q = query_shape lib' p"
  shows "w_conds (buildWhere lib q) = w_conds (buildWhere lib' p) \<and> w_needFTS (buildWhere lib q) = w_needFTS (buildWhere lib' p)"
proof -
  have "map (filter_shape lib) (q_filters q) = map (filter_shape lib') (q_filters p)"
    using assms by (simp add: query_shape_def)
  then have "map (\<lambda>f. fst (filterCond lib f)) (q_filters q) = map (\<lambda>f. fst (filterCond lib' f)) (q_filters p)"
    by (rule map_determined) (rule filterCond_text)
  then show ?thesis
    using assms by (auto simp: buildWhere_def Let_def where_filter_conds add_cond_def query_shape_def)
qed

lemma sqlStr_text: "w_conds w = w_conds v \<Longrightarrow> sqlStr w = sqlStr v"
  by (simp add: sqlStr_def)

lemma with_keyset_text:
  assumes "query_shape lib q = query_shape lib' p"
  shows "w_conds (with_keyset q (buildWhere lib q)) = w_conds (with_keyset p (buildWhere lib' p))
    \<and> w_needFTS (with_keyset q (buildWhere lib q)) = w_needFTS (with_keyset p (buildWhere lib' p))"
  using buildWhere_text[OF assms] assms
  by (auto simp: with_keyset_def keysetCond_def add_cond_def query_shape_def Let_def)

lemma selects_text:
  assumes "agg_shape a = agg_shape b"
  shows "map fst (bucket_select a @ group_selects a @ measure_selects a) = map fst (bucket_select b @ group_selects b @ measure_selects b)
    \<and> group_names a = group_names b \<and> orderClause a = orderClause b"
proof -
  have s: "a_kind a = a_kind b" "a_span a = a_span b" "map r_field (a_group_by a) = map r_field (a_group_by b)"
    "map (\<lambda>e. (x_func e, r_field (x_ref e))) (a_exprs a) = map (\<lambda>e. (x_func e, r_field (x_ref e))) (a_exprs b)"
    using assms by (simp_all add: agg_shape_def)
  have l: "length (a_group_by a) = length (a_group_by b)" "length (a_exprs a) = length (a_exprs b)"
    using s(3,4) by (metis length_map)+
  have g: "map (\<lambda>g. fst (refExpr g)) (a_group_by a) = map (\<lambda>g. fst (refExpr g)) (a_group_by b)"
    by (rule map_determined[OF s(3)]) (simp add: refExpr_def)
  have m: "map (\<lambda>e. fst (aggSelect e)) (a_exprs a) = map (\<lambda>e. fst (aggSelect e)) (a_exprs b)"
    by (rule map_determined[OF s(4)]) (auto simp: aggSelect_def numericRefExpr_def refExpr_def split: aggfunc.split prod.splits if_splits)
  have "map fst (group_selects c) = map (\<lambda>(i, t). t @ '' AS g'' @ show_nat i)
      (zip [0..<length (a_group_by c)] (map (\<lambda>g. fst (refExpr g)) (a_group_by c)))" for c
    by (simp add: group_selects_def zip_map2 case_prod_unfold)
  then have "map fst (group_selects a) = map fst (group_selects b)" by (simp only: g l)
  moreover have "map fst (measure_selects c) = map (\<lambda>(i, t). t @ '' AS m'' @ show_nat i)
      (zip [0..<length (a_exprs c)] (map (\<lambda>e. fst (aggSelect e)) (a_exprs c)))" for c
    by (simp add: measure_selects_def zip_map2 case_prod_unfold)
  then have "map fst (measure_selects a) = map fst (measure_selects b)" by (simp only: m l)
  ultimately show ?thesis
    using s l by (simp add: bucket_select_def group_names_def orderClause_def)
qed

text \<open>C14. No statement carries user input.  Two queries with the same shape - the same kinds of filter
  on the same fields, the same bounds present or absent - have the same SQL text, whatever their
  terms, values, attribute keys, times, cursors and limits are; all of these are arguments only.
  This holds for every statement of the search path.
\<close>

theorem statement_text_fixed:
  assumes "query_shape lib q = query_shape lib p" and "agg_shape a = agg_shape b"
  shows "fst (searchSQL lib q) = fst (searchSQL lib p) \<and> fst (streamSQL lib q) = fst (streamSQL lib p)
    \<and> fst (countSQL lib q) = fst (countSQL lib p) \<and> fst (histogramSQL lib q n) = fst (histogramSQL lib p n)
    \<and> fst (facetSQL lib q col) = fst (facetSQL lib p col)
    \<and> fst (aggregateSQL lib q a) = fst (aggregateSQL lib p b)"
proof -
  note w = buildWhere_text[OF assms(1)] and k = with_keyset_text[OF assms(1)]
  have s: "sqlStr (buildWhere lib q) = sqlStr (buildWhere lib p)"
    "sqlStr (with_keyset q (buildWhere lib q)) = sqlStr (with_keyset p (buildWhere lib p))"
    using w k by (auto intro: sqlStr_text)
  have o: "order_word q = order_word p" using assms(1) by (simp add: order_word_def query_shape_def)
  have agg: "fst (aggregateSQL lib q a) = fst (aggregateSQL lib p b)"
    unfolding aggregateSQL_def Let_def fst_conv
    by (simp only: selects_text[OF assms(2)] s w)
  show ?thesis
    by (simp add: searchSQL_def streamSQL_def countSQL_def histogramSQL_def facetSQL_def Let_def s o w k agg)
qed

definition service_query :: "string \<Rightarrow> query" where
  "service_query v = \<lparr>q_terms = [], q_filters = [\<lparr>f_field = FieldService, f_attr = [], f_op = OpEq, f_value = v, f_values = []\<rparr>],
     q_time = empty_timespec, q_from = zero_time, q_to = zero_time, q_limit = 2, q_order = OrderOldest, q_interval = 0,
     q_after_ts = zero_time, q_after_id = [], q_agg = None\<rparr>"

theorem statement_text_fixed_witness:
  "fst (searchSQL ascii_lib (service_query (''x'' @ [apostrophe] @ '' OR 1=1; --''))) = fst (searchSQL ascii_lib (service_query ''api''))"
proof -
  have "query_shape ascii_lib (service_query (''x'' @ [apostrophe] @ '' OR 1=1; --'')) = query_shape ascii_lib (service_query ''api'')"
    by code_simp
  from conjunct1[OF statement_text_fixed[OF this refl]] show ?thesis .
qed

section \<open>Histogram buckets\<close>

text \<open>
  What SQLite computes for the bucket expression \<^verbatim>\<open>(logs.ts / n) * n\<close> of \<open>histogramSQL\<close> and of a
  timechart: integer division truncates towards zero.
\<close>

definition bucket_of :: "int \<Rightarrow> int \<Rightarrow> int" where
  "bucket_of n ts = go_quot ts n * n"

text \<open>
  A histogram bucket holds the events of its interval from its start on, as \<^verbatim>\<open>store.Bucket\<close>
  says, for instants from 1970 on.  Before that, the bucket's start is the end of its interval, and
  the bucket at 0 holds two intervals: all events less than one bucket away from the epoch.
\<close>

theorem bucket_placement:
  assumes "0 < n"
  shows "(0 \<le> ts \<longrightarrow> bucket_of n ts \<le> ts \<and> ts < bucket_of n ts + n)
    \<and> (ts < 0 \<longrightarrow> bucket_of n ts - n < ts \<and> ts \<le> bucket_of n ts)
    \<and> (bucket_of n ts = 0 \<longleftrightarrow> \<bar>ts\<bar> < n)"
proof -
  have pos: "bucket_of n t \<le> t \<and> t < bucket_of n t + n \<and> (bucket_of n t = 0 \<longleftrightarrow> t < n)" if "0 \<le> t" for t
  proof -
    have "bucket_of n t = t - t mod n"
      using that assms by (simp add: bucket_of_def go_quot_nonneg minus_mod_eq_div_mult)
    then show ?thesis using that assms pos_mod_bound[of n t] pos_mod_sign[of n t]
      by (metis add.commute add_less_cancel_left diff_add_cancel diff_ge_0_iff_ge eq_iff_diff_eq_0 le_add_same_cancel2
          less_add_same_cancel1 mod_pos_pos_trivial not_less zmod_le_nonneg_dividend)
  qed
  have neg: "bucket_of n (- t) = - bucket_of n t" for t
    by (simp add: bucket_of_def go_quot_def)
  show ?thesis
    using pos[of ts] pos[of "- ts"] neg[of "- ts"] by (cases "0 \<le> ts") auto
qed

theorem bucket_placement_witness: "bucket_of 60000000000 (- 30000000000) = 0 \<and> bucket_of 60000000000 30000000000 = 0"
  using bucket_placement[of 60000000000 "- 30000000000"] bucket_placement[of 60000000000 30000000000] by simp

definition api_query :: query where "api_query = service_query ''api''"

definition no_rows_reader :: sql_reader where
  "no_rows_reader = \<lparr>sr_events = (\<lambda>_ _. Some ([], True)), sr_count = (\<lambda>_ _. Some 0), sr_buckets = (\<lambda>_ _. None),
     sr_facets = (\<lambda>_ _. None), sr_table = (\<lambda>_ _. None), sr_attributes = (\<lambda>_. [])\<rparr>"

section \<open>Glob patterns\<close>

text \<open>
  \<^verbatim>\<open>LIKE ... ESCAPE '\'\<close> as SQLite documents it, on bytes: \<^verbatim>\<open>%\<close> is any sequence, \<^verbatim>\<open>_\<close>
  one character, an escaped character itself, letters match in either ASCII case.
\<close>

fun like_match :: "string \<Rightarrow> string \<Rightarrow> bool" where
  "like_match [] s \<longleftrightarrow> s = []"
| "like_match (c # p) s \<longleftrightarrow>
     (if c = CHR ''%'' then list_ex (\<lambda>k. like_match p (drop k s)) [0..<Suc (length s)]
      else if c = CHR ''_'' then s \<noteq> [] \<and> like_match p (drop (max 1 (rune_width s)) s)
      else if c = backslash then
        (case p of [] \<Rightarrow> False
         | d # p' \<Rightarrow> (case s of [] \<Rightarrow> False | x # xs \<Rightarrow> lower_char x = lower_char d \<and> like_match p' xs))
      else (case s of [] \<Rightarrow> False | x # xs \<Rightarrow> lower_char x = lower_char c \<and> like_match p xs))"

text \<open>A glob: \<^verbatim>\<open>*\<close> is any sequence and everything else is itself.\<close>

fun glob_spec :: "string \<Rightarrow> string \<Rightarrow> bool" where
  "glob_spec [] s \<longleftrightarrow> s = []"
| "glob_spec (c # g) s \<longleftrightarrow>
     (if c = CHR ''*'' then list_ex (\<lambda>k. glob_spec g (drop k s)) [0..<Suc (length s)]
      else (case s of [] \<Rightarrow> False | x # xs \<Rightarrow> lower_char x = lower_char c \<and> glob_spec g xs))"

definition like_byte :: "char \<Rightarrow> string" where
  "like_byte c = (if c = CHR ''*'' then ''%'' else if c \<in> {CHR ''%'', CHR ''_'', backslash} then [backslash, c] else [c])"

lemma like_rune_bytes: "r \<in> set (runes s) \<Longrightarrow> like_rune r = concat (map like_byte r)"
proof -
  assume "r \<in> set (runes s)"
  then consider c where "r = [c]" | "\<forall>c\<in>set r. 128 \<le> (of_char c :: nat)"
    using runes_high by blast
  then show ?thesis
  proof cases
    case 1
    then show ?thesis by (auto simp: like_rune_def like_byte_def)
  next
    case 2
    have "like_byte c = [c]" if "c \<in> set r" for c
      using 2 that by (auto simp: like_byte_def backslash_def)
    then have "concat (map like_byte r) = r" by (induction r) auto
    moreover have "like_rune r = r"
      using 2 by (auto simp: like_rune_def backslash_def)
    ultimately show ?thesis by simp
  qed
qed

lemma globToLike_bytes: "globToLike g = concat (map like_byte (concat (runes g)))"
proof -
  have "concat (map like_rune rs) = concat (map like_byte (concat rs))" if "set rs \<subseteq> set (runes g)" for rs
    using that by (induction rs) (auto simp: like_rune_bytes)
  then show ?thesis by (simp add: globToLike_def)
qed

text \<open>
  The LIKE pattern built for a glob means the glob: it matches a text exactly if the glob does,
  with every \<^verbatim>\<open>%\<close>, \<^verbatim>\<open>_\<close> and backslash of the glob standing for itself.  (Bytes of the glob that
  are not UTF-8 stand for U+FFFD.)
\<close>

theorem globToLike_means_glob:
  "like_match (globToLike g) s \<longleftrightarrow> glob_spec (concat (runes g)) s"
proof -
  have "like_match (concat (map like_byte g)) s \<longleftrightarrow> glob_spec g s" for g
  proof (induction g arbitrary: s)
    case (Cons c g)
    consider "c = CHR ''*''" | "c \<noteq> CHR ''*''" "c \<in> {CHR ''%'', CHR ''_'', backslash}"
      | "c \<noteq> CHR ''*''" "c \<notin> {CHR ''%'', CHR ''_'', backslash}" by blast
    then show ?case
    proof cases
      case 1
      then show ?thesis using Cons.IH by (simp add: like_byte_def)
    next
      case 2
      then have "like_byte c = [backslash, c]" by (simp add: like_byte_def)
      then show ?thesis using 2 Cons.IH by (simp add: backslash_def split: list.split)
    next
      case 3
      then have "like_byte c = [c]" by (simp add: like_byte_def)
      then show ?thesis using 3 Cons.IH by (simp split: list.split)
    qed
  qed simp
  then show ?thesis by (simp add: globToLike_bytes)
qed

section \<open>Search and live tail\<close>












section \<open>Tables\<close>

lemma agg_rows_take:
  "length acc \<le> nat (a_limit a) \<Longrightarrow> agg_rows a rows acc =
     (acc @ map (scanAggRow a) (take (nat (a_limit a) - length acc) rows), nat (a_limit a) < length acc + length rows)"
proof (induction rows arbitrary: acc)
  case (Cons r rs)
  show ?case
  proof (cases "int (length acc) \<ge> a_limit a")
    case True
    then have "nat (a_limit a) = length acc" using Cons.prems by linarith
    then show ?thesis using True by simp
  next
    case False
    then have "length acc < nat (a_limit a)" by linarith
    then have "nat (a_limit a) - length acc = Suc (nat (a_limit a) - length (acc @ [scanAggRow a r]))"
      "length (acc @ [scanAggRow a r]) \<le> nat (a_limit a)" by simp_all
    then show ?thesis using False Cons.IH[of "acc @ [scanAggRow a r]"] by simp
  qed
qed simp

text \<open>
  An aggregation's table is what its limit promises: the first groups, at most the limit, and it is
  marked as truncated exactly if there was another group.  The limit is between 1 and 1000 after
  normalisation, and one more row than that is asked for.
\<close>

theorem aggregate_truncates:
  assumes "q_agg q = Some a0" and "a = Agg_Normalize a0"
    and "(case aggregateSQL lib (Query_Normalize q) a of (sql, args) \<Rightarrow> sr_table sr sql args) = Some (rows, True)"
  shows "1 \<le> a_limit a \<and> a_limit a \<le> MaxGroups
    \<and> last (snd (aggregateSQL lib (Query_Normalize q) a)) = SqlInt (a_limit a + 1)
    \<and> (\<exists>t. Aggregate lib sr q = Inr t \<and> tb_rows t = map (scanAggRow a) (take (nat (a_limit a)) rows)
         \<and> (tb_truncated t \<longleftrightarrow> a_limit a < int (length rows)))"
proof -
  have l: "1 \<le> a_limit a \<and> a_limit a \<le> MaxGroups"
    by (auto simp: assms(2) Agg_Normalize_def Let_def MaxGroups_def)
  have n: "q_agg (Query_Normalize q) = Some a" by (simp add: Query_Normalize_agg assms(1,2))
  have r: "agg_rows a rows [] = (map (scanAggRow a) (take (nat (a_limit a)) rows), nat (a_limit a) < length rows)"
    using agg_rows_take[of "[]" a rows] by simp
  have "last (snd (aggregateSQL lib (Query_Normalize q) a)) = SqlInt (a_limit a + 1)"
    by (simp add: aggregateSQL_def Let_def)
  moreover have "\<exists>t. Aggregate lib sr q = Inr t \<and> tb_rows t = map (scanAggRow a) (take (nat (a_limit a)) rows)
      \<and> (tb_truncated t \<longleftrightarrow> a_limit a < int (length rows))"
    using assms(1,3) l by (auto simp: Aggregate_def n r case_prod_beta)
  ultimately show ?thesis using l by blast
qed

definition top_agg :: aggregation where
  "top_agg = \<lparr>a_kind = KindTop, a_exprs = [\<lparr>x_func = FuncCount, x_ref = no_ref, x_alias = ''count''\<rparr>],
     a_group_by = [\<lparr>r_field = FieldService, r_attr = [], r_name = ''service''\<rparr>], a_span = 0, a_limit = 1\<rparr>"

theorem aggregate_truncates_witness:
  "\<exists>t. Aggregate ascii_lib (no_rows_reader\<lparr>sr_table := \<lambda>_ _. Some ([[CText ''a'', CInt 3], [CNull, CInt 1]], True)\<rparr>)
     (api_query\<lparr>q_agg := Some top_agg\<rparr>) = Inr t \<and> tb_rows t = [[CText ''a'', CInt 3]] \<and> tb_truncated t"
proof -
  have "Agg_Normalize top_agg = top_agg" by (simp add: Agg_Normalize_def top_agg_def MaxGroups_def)
  then show ?thesis
    using aggregate_truncates[of "api_query\<lparr>q_agg := Some top_agg\<rparr>" top_agg "Agg_Normalize top_agg"
        "no_rows_reader\<lparr>sr_table := \<lambda>_ _. Some ([[CText ''a'', CInt 3], [CNull, CInt 1]], True)\<rparr>" ascii_lib]
    by (simp add: case_prod_beta) (simp add: top_agg_def scanAggRow_def)
qed

end
