(* ===== verification/Otlp.thy ===== *)
theory Otlp
  imports Model
begin

text \<open>
  \<^verbatim>\<open>src/internal/otlp\<close>, the decoders of the OpenTelemetry receivers: the protobuf reader
  (\<^verbatim>\<open>protowire.go\<close>), the decoding of a logs request and its mapping onto events
  (\<^verbatim>\<open>logs.go\<close>), the same from JSON (\<^verbatim>\<open>json.go\<close>), and the two writers of
  \<^verbatim>\<open>grpc.go\<close>.  A reader is the bytes it has left.  \<^verbatim>\<open>json.Unmarshal\<close> into the request
  structs and the formatting of a float are parameters.  An encoder (\<open>enc_request\<close>) states what a
  client sends; the lemmas show that the decoders invert it and that they always end.
\<close>

section \<open>Protobuf wire format\<close>

text \<open>\<open>Stuck\<close> stands for a reader that does not advance; it never occurs.\<close>

datatype otlp_error = TruncatedVarint | VarintOverflow | InvalidField nat | PastEnd | Truncated64 | Truncated32
  | UnsupportedWire nat | TooDeep | ValueTooDeep | BadJSON | Stuck

definition wireVarint :: nat where "wireVarint = 0"
definition wireI64 :: nat where "wireI64 = 1"
definition wireBytes :: nat where "wireBytes = 2"
definition wireI32 :: nat where "wireI32 = 5"
definition maxNestingDepth :: nat where "maxNestingDepth = 16"

lemmas wire_defs [simp] = wireVarint_def wireI64_def wireBytes_def wireI32_def

fun varint_from :: "nat \<Rightarrow> 64 word \<Rightarrow> string \<Rightarrow> otlp_error + 64 word \<times> string" where
  "varint_from shift v [] = Inl TruncatedVarint"
| "varint_from shift v (c # b) =
     (let v' = or v (push_bit shift (word_of_nat (of_char c mod 128)))
      in if (of_char c :: nat) < 128 then Inr (v', b)
         else if shift + 7 > 63 then Inl VarintOverflow
         else varint_from (shift + 7) v' b)"

definition varint :: "string \<Rightarrow> otlp_error + 64 word \<times> string" where
  "varint b = varint_from 0 0 b"

definition tag :: "string \<Rightarrow> otlp_error + nat \<times> nat \<times> string" where
  "tag b = try_bind (varint b) (\<lambda>(v, r).
     let field = unat (drop_bit 3 v); wire = unat (and v 7)
     in if field = 0 then Inl (InvalidField field) else Inr (field, wire, r))"

definition bytes :: "string \<Rightarrow> otlp_error + string \<times> string" where
  "bytes b = try_bind (varint b) (\<lambda>(n, r).
     if unat n > length r then Inl PastEnd else Inr (take (unat n) r, drop (unat n) r))"

definition le_word :: "string \<Rightarrow> 64 word" where
  "le_word s = foldr (\<lambda>c w. or (push_bit 8 w) (word_of_nat (of_char c))) s 0"

definition fixed64 :: "string \<Rightarrow> otlp_error + 64 word \<times> string" where
  "fixed64 b = (if length b < 8 then Inl Truncated64 else Inr (le_word (take 8 b), drop 8 b))"

definition fixed32 :: "string \<Rightarrow> otlp_error + 64 word \<times> string" where
  "fixed32 b = (if length b < 4 then Inl Truncated32 else Inr (le_word (take 4 b), drop 4 b))"

definition skip_field :: "nat \<Rightarrow> string \<Rightarrow> otlp_error + string" where
  "skip_field wire b =
     (if wire = wireVarint then try_bind (varint b) (\<lambda>(_, r). Inr r)
      else if wire = wireI64 then try_bind (fixed64 b) (\<lambda>(_, r). Inr r)
      else if wire = wireBytes then try_bind (bytes b) (\<lambda>(_, r). Inr r)
      else if wire = wireI32 then try_bind (fixed32 b) (\<lambda>(_, r). Inr r)
      else Inl (UnsupportedWire wire))"

text \<open>
  The loop every decoder runs: read a tag, let the decoder deal with the field, go on with what is
  left.  A step returns from the decoder (\<open>Inl\<close>) or goes on (\<open>Inr\<close>).
\<close>

function walk :: "(otlp_error \<Rightarrow> 'r) \<Rightarrow> (nat \<Rightarrow> nat \<Rightarrow> string \<Rightarrow> 's \<Rightarrow> 'r + 's \<times> string) \<Rightarrow> 's \<Rightarrow> string \<Rightarrow> 'r + 's" where
  "walk bad step s b =
     (if b = [] then Inr s
      else case tag b of
        Inl e \<Rightarrow> Inl (bad e)
      | Inr (field, wire, r) \<Rightarrow>
          (case step field wire r s of
             Inl res \<Rightarrow> Inl res
           | Inr (s', r') \<Rightarrow> if length r' < length b then walk bad step s' r' else Inl (bad Stuck)))"
  by pat_completeness auto
termination
  by (relation "measure (\<lambda>(_, _, _, b). length b)") auto

declare walk.simps [simp del]

section \<open>Values\<close>

definition hex_encode :: "string \<Rightarrow> string" where
  "hex_encode s = concat (map (\<lambda>c. [''0123456789abcdef'' ! (of_char c div 16), ''0123456789abcdef'' ! (of_char c mod 16)]) s)"

record otlp_lib =
  ol_go :: golib
  ol_format_float :: "f64 \<Rightarrow> string"

definition valueToString :: "otlp_lib \<Rightarrow> any \<Rightarrow> string" where
  "valueToString lib v = (case v of
     ANil \<Rightarrow> [] | AStr s \<Rightarrow> s | ABool b \<Rightarrow> (if b then ''true'' else ''false'') | AInt n \<Rightarrow> show_int n
   | AFloat f \<Rightarrow> ol_format_float lib f | _ \<Rightarrow> lib_fmt_v (ol_go lib) v)"

text \<open>A field that is not dealt with.\<close>

definition skip_step :: "(otlp_error \<Rightarrow> 'r) \<Rightarrow> nat \<Rightarrow> string \<Rightarrow> 's \<Rightarrow> 'r + 's \<times> string" where
  "skip_step bad wire r s = (case skip_field wire r of Inl e \<Rightarrow> Inl (bad e) | Inr r' \<Rightarrow> Inr (s, r'))"

text \<open>A length-delimited field handed to \<open>f\<close>.\<close>

definition bytes_step :: "(otlp_error \<Rightarrow> 'r) \<Rightarrow> (string \<Rightarrow> 'r + 's) \<Rightarrow> string \<Rightarrow> 'r + 's \<times> string" where
  "bytes_step bad f r = (case bytes r of
     Inl e \<Rightarrow> Inl (bad e)
   | Inr (p, r') \<Rightarrow> (case f p of Inl res \<Rightarrow> Inl res | Inr s \<Rightarrow> Inr (s, r')))"

text \<open>The decoders below take the decoder of nested values as an argument.\<close>

definition key_value :: "(string \<Rightarrow> otlp_error + any) \<Rightarrow> nat \<Rightarrow> string \<Rightarrow> otlp_error + string \<times> any" where
  "key_value dec depth b =
     (if depth > maxNestingDepth then Inl TooDeep
      else walk id (\<lambda>field wire r (k, v).
             if wire \<noteq> wireBytes then skip_step id wire r (k, v)
             else bytes_step id (\<lambda>p.
               if field = 1 then Inr (p, v)
               else if field = 2 then try_bind (dec p) (\<lambda>v'. Inr (k, v'))
               else Inr (k, v)) r) ([], ANil) b)"

text \<open>The slice starts as nil and is made by the first append.\<close>

definition array_values :: "(string \<Rightarrow> otlp_error + any) \<Rightarrow> string \<Rightarrow> otlp_error + any" where
  "array_values dec b =
     try_bind (walk id (\<lambda>field wire r vs.
        if field \<noteq> 1 \<or> wire \<noteq> wireBytes then skip_step id wire r vs
        else bytes_step id (\<lambda>p. try_bind (dec p) (\<lambda>v. Inr (vs @ [v]))) r) [] b)
       (\<lambda>vs. Inr (if vs = [] then ANilList else AList vs))"

definition put_key :: "string \<times> any \<Rightarrow> (string \<times> any) list \<Rightarrow> (string \<times> any) list" where
  "put_key kv m = (if fst kv \<noteq> [] then AList.update (fst kv) (snd kv) m else m)"

definition kvlist_values :: "(string \<Rightarrow> otlp_error + string \<times> any) \<Rightarrow> string \<Rightarrow> otlp_error + any" where
  "kvlist_values deckv b =
     try_bind (walk id (\<lambda>field wire r m.
        if field \<noteq> 1 \<or> wire \<noteq> wireBytes then skip_step id wire r m
        else bytes_step id (\<lambda>p. try_bind (deckv p) (\<lambda>kv. Inr (put_key kv m))) r) [] b) (\<lambda>m. Inr (AMap m))"

text \<open>The first known field of a value is the value; its result ends the loop.\<close>

function decodeAnyValue :: "string \<Rightarrow> nat \<Rightarrow> otlp_error + any" where
  "decodeAnyValue b depth =
     (if depth > maxNestingDepth then Inl ValueTooDeep
      else case walk Inl (\<lambda>field wire r (_ :: unit).
               if field = 1 \<and> wire = wireBytes then Inl (try_bind (bytes r) (\<lambda>(v, _). Inr (AStr v)))
               else if field = 2 \<and> wire = wireVarint then Inl (try_bind (varint r) (\<lambda>(v, _). Inr (ABool (v \<noteq> 0))))
               else if field = 3 \<and> wire = wireVarint then Inl (try_bind (varint r) (\<lambda>(v, _). Inr (AInt (sint v))))
               else if field = 4 \<and> wire = wireI64 then Inl (try_bind (fixed64 r) (\<lambda>(v, _). Inr (AFloat v)))
               else if field = 7 \<and> wire = wireBytes then Inl (try_bind (bytes r) (\<lambda>(v, _). Inr (AStr (hex_encode v))))
               else if field = 5 \<and> wire = wireBytes then
                 Inl (try_bind (bytes r) (\<lambda>(v, _). array_values (\<lambda>p. decodeAnyValue p (depth + 2)) v))
               else if field = 6 \<and> wire = wireBytes then
                 Inl (try_bind (bytes r) (\<lambda>(v, _).
                   kvlist_values (\<lambda>p. key_value (\<lambda>p. decodeAnyValue p (depth + 3)) (depth + 2) p) v))
               else skip_step Inl wire r ()) () b of
             Inl res \<Rightarrow> res
           | Inr _ \<Rightarrow> Inr ANil)"
  by pat_completeness auto
termination
  by (relation "measure (\<lambda>(_, depth). maxNestingDepth + 1 - depth)") auto

declare decodeAnyValue.simps [simp del]

definition decodeKeyValue :: "string \<Rightarrow> nat \<Rightarrow> otlp_error + string \<times> any" where
  "decodeKeyValue b depth = key_value (\<lambda>p. decodeAnyValue p (depth + 1)) depth b"

definition decodeArrayValue :: "string \<Rightarrow> nat \<Rightarrow> otlp_error + any" where
  "decodeArrayValue b depth = array_values (\<lambda>p. decodeAnyValue p (depth + 1)) b"

definition decodeKvlist :: "string \<Rightarrow> nat \<Rightarrow> otlp_error + any" where
  "decodeKvlist b depth = kvlist_values (\<lambda>p. decodeKeyValue p (depth + 1)) b"

section \<open>Records\<close>

definition resourceServiceKeys :: "string list" where
  "resourceServiceKeys = [''service.name'', ''service_name'', ''k8s.deployment.name'', ''k8s.container.name'']"

definition resourceHostKeys :: "string list" where
  "resourceHostKeys = [''host.name'', ''host'', ''k8s.pod.name'', ''k8s.node.name'']"

fun firstAttr :: "otlp_lib \<Rightarrow> (string \<times> any) list \<Rightarrow> string list \<Rightarrow> string" where
  "firstAttr lib attrs [] = []"
| "firstAttr lib attrs (k # ks) =
     (case map_of attrs k of
        Some v \<Rightarrow> if valueToString lib v \<noteq> [] then valueToString lib v else firstAttr lib attrs ks
      | None \<Rightarrow> firstAttr lib attrs ks)"

definition severityToLevel :: "64 word \<Rightarrow> string \<Rightarrow> level" where
  "severityToLevel number txt =
     (if number = 0 then (if txt \<noteq> [] then ParseLevel txt else LevelInfo)
      else if number \<le> 4 then LevelDebug
      else if number \<le> 8 then LevelDebug
      else if number \<le> 12 then LevelInfo
      else if number \<le> 16 then LevelWarn
      else if number \<le> 20 then LevelError
      else LevelFatal)"

text \<open>What a record has besides its message and attributes.\<close>

record record_fields =
  rf_time :: "64 word"
  rf_observed :: "64 word"
  rf_severity :: "64 word"
  rf_text :: string

definition finishEvent :: "otlp_lib \<Rightarrow> (string \<times> any) list \<Rightarrow> string \<Rightarrow> record_fields \<Rightarrow> time \<Rightarrow> byte list \<Rightarrow> logevent \<Rightarrow> logevent" where
  "finishEvent lib resourceAttrs scopeName rf now rnd e0 =
     (let attrs = foldl (\<lambda>m (k, v). if map_of m k = None then m @ [(k, v)] else m) (ev_attrs e0) resourceAttrs;
          svc = firstAttr lib resourceAttrs resourceServiceKeys;
          e1 = e0\<lparr>ev_attrs := attrs,
                  ev_service := (if svc = [] \<and> scopeName \<noteq> [] then scopeName else svc),
                  ev_source := firstAttr lib resourceAttrs resourceHostKeys,
                  ev_level := severityToLevel (rf_severity rf) (rf_text rf)\<rparr>;
          e2 = (if rf_time rf > 0 then e1\<lparr>ev_timestamp := sint (rf_time rf)\<rparr>
                else if rf_observed rf > 0 then e1\<lparr>ev_timestamp := sint (rf_observed rf)\<rparr> else e1);
          e3 = (if rf_observed rf > 0 then e2\<lparr>ev_received := sint (rf_observed rf)\<rparr> else e2)
      in Normalize now rnd e3)"

definition record_step :: "otlp_lib \<Rightarrow> nat \<Rightarrow> nat \<Rightarrow> nat \<Rightarrow> string \<Rightarrow> logevent \<times> record_fields \<Rightarrow>
    otlp_error + (logevent \<times> record_fields) \<times> string" where
  "record_step lib depth field wire r = (\<lambda>(e, rf).
     if field = 1 \<and> wire = wireI64 then try_bind (fixed64 r) (\<lambda>(v, r'). Inr ((e, rf\<lparr>rf_time := v\<rparr>), r'))
     else if field = 11 \<and> wire = wireI64 then try_bind (fixed64 r) (\<lambda>(v, r'). Inr ((e, rf\<lparr>rf_observed := v\<rparr>), r'))
     else if field = 2 \<and> wire = wireVarint then try_bind (varint r) (\<lambda>(v, r'). Inr ((e, rf\<lparr>rf_severity := v\<rparr>), r'))
     else if field = 3 \<and> wire = wireBytes then bytes_step id (\<lambda>p. Inr (e, rf\<lparr>rf_text := p\<rparr>)) r
     else if field = 5 \<and> wire = wireBytes then
       bytes_step id (\<lambda>p. try_bind (decodeAnyValue p (depth + 1)) (\<lambda>body. Inr (e\<lparr>ev_message := valueToString lib body\<rparr>, rf))) r
     else if field = 6 \<and> wire = wireBytes then
       bytes_step id (\<lambda>p. try_bind (decodeKeyValue p (depth + 1)) (\<lambda>kv. Inr (e\<lparr>ev_attrs := put_key kv (ev_attrs e)\<rparr>, rf))) r
     else if field = 9 \<and> wire = wireBytes then
       bytes_step id (\<lambda>p. Inr (if p \<noteq> [] then e\<lparr>ev_attrs := AList.update ''trace_id'' (AStr (hex_encode p)) (ev_attrs e)\<rparr> else e, rf)) r
     else if field = 10 \<and> wire = wireBytes then
       bytes_step id (\<lambda>p. Inr (if p \<noteq> [] then e\<lparr>ev_attrs := AList.update ''span_id'' (AStr (hex_encode p)) (ev_attrs e)\<rparr> else e, rf)) r
     else skip_step id wire r (e, rf))"

definition no_fields :: record_fields where
  "no_fields = \<lparr>rf_time = 0, rf_observed = 0, rf_severity = 0, rf_text = []\<rparr>"

definition decodeLogRecord :: "otlp_lib \<Rightarrow> string \<Rightarrow> (string \<times> any) list \<Rightarrow> string \<Rightarrow> time \<Rightarrow> byte list \<Rightarrow> nat \<Rightarrow> otlp_error + logevent" where
  "decodeLogRecord lib b resourceAttrs scopeName now rnd depth =
     try_bind (walk id (record_step lib depth) (empty_event, no_fields) b)
       (\<lambda>(e, rf). Inr (finishEvent lib resourceAttrs scopeName rf now rnd e))"

definition decodeScopeName :: "string \<Rightarrow> string" where
  "decodeScopeName b =
     (case walk (\<lambda>_. []) (\<lambda>field wire r (_ :: unit).
         if field = 1 \<and> wire = wireBytes then Inl (case bytes r of Inl _ \<Rightarrow> [] | Inr (v, _) \<Rightarrow> v)
         else skip_step (\<lambda>_. []) wire r ()) () b of
        Inl s \<Rightarrow> s | Inr _ \<Rightarrow> [])"

text \<open>The records of a list one after the other; \<open>rnd i\<close> is what the random source gives the \<open>i\<close>-th ID.\<close>

fun decode_records :: "(string \<Rightarrow> byte list \<Rightarrow> otlp_error + logevent) \<Rightarrow> (nat \<Rightarrow> byte list) \<Rightarrow> string list \<Rightarrow> nat \<Rightarrow> otlp_error + logevent list" where
  "decode_records dec rnd [] i = Inr []"
| "decode_records dec rnd (b # bs) i =
     try_bind (dec b (rnd i)) (\<lambda>e. try_bind (decode_records dec rnd bs (Suc i)) (\<lambda>es. Inr (e # es)))"

definition decodeScopeLogs :: "otlp_lib \<Rightarrow> string \<Rightarrow> (string \<times> any) list \<Rightarrow> time \<Rightarrow> (nat \<Rightarrow> byte list) \<Rightarrow> nat \<Rightarrow> nat \<Rightarrow> otlp_error + logevent list" where
  "decodeScopeLogs lib b resourceAttrs now rnd i depth =
     (if depth > maxNestingDepth then Inl TooDeep
      else try_bind (walk id (\<lambda>field wire r (scopeName, records).
             if wire \<noteq> wireBytes then skip_step id wire r (scopeName, records)
             else bytes_step id (\<lambda>p.
               if field = 1 then Inr (decodeScopeName p, records)
               else if field = 2 then Inr (scopeName, records @ [p])
               else Inr (scopeName, records)) r) ([], []) b)
        (\<lambda>(scopeName, records).
           decode_records (\<lambda>p ent. decodeLogRecord lib p resourceAttrs scopeName now ent (depth + 1)) rnd records i))"

definition decodeResource :: "string \<Rightarrow> (string \<times> any) list \<Rightarrow> nat \<Rightarrow> otlp_error + (string \<times> any) list" where
  "decodeResource b attrs depth =
     (if depth > maxNestingDepth then Inl TooDeep
      else walk id (\<lambda>field wire r m.
        if field \<noteq> 1 \<or> wire \<noteq> wireBytes then skip_step id wire r m
        else bytes_step id (\<lambda>p. try_bind (decodeKeyValue p (depth + 1)) (\<lambda>kv. Inr (put_key kv m))) r) attrs b)"

fun decode_scopes :: "(string \<Rightarrow> nat \<Rightarrow> otlp_error + logevent list) \<Rightarrow> string list \<Rightarrow> nat \<Rightarrow> otlp_error + logevent list" where
  "decode_scopes dec [] i = Inr []"
| "decode_scopes dec (b # bs) i =
     try_bind (dec b i) (\<lambda>es. try_bind (decode_scopes dec bs (i + length es)) (\<lambda>fs. Inr (es @ fs)))"

definition decodeResourceLogs :: "otlp_lib \<Rightarrow> string \<Rightarrow> time \<Rightarrow> (nat \<Rightarrow> byte list) \<Rightarrow> nat \<Rightarrow> nat \<Rightarrow> otlp_error + logevent list" where
  "decodeResourceLogs lib b now rnd i depth =
     (if depth > maxNestingDepth then Inl TooDeep
      else try_bind (walk id (\<lambda>field wire r (attrs, scopes).
             if wire \<noteq> wireBytes then skip_step id wire r (attrs, scopes)
             else bytes_step id (\<lambda>p.
               if field = 1 then try_bind (decodeResource p attrs (depth + 1)) (\<lambda>attrs'. Inr (attrs', scopes))
               else if field = 2 then Inr (attrs, scopes @ [p])
               else Inr (attrs, scopes)) r) ([], []) b)
        (\<lambda>(attrs, scopes). decode_scopes (\<lambda>p j. decodeScopeLogs lib p attrs now rnd j (depth + 1)) scopes i))"

definition DecodeProtobuf :: "otlp_lib \<Rightarrow> string \<Rightarrow> time \<Rightarrow> (nat \<Rightarrow> byte list) \<Rightarrow> otlp_error + logevent list" where
  "DecodeProtobuf lib b now rnd =
     walk id (\<lambda>field wire r out.
       if field \<noteq> 1 \<or> wire \<noteq> wireBytes then skip_step id wire r out
       else bytes_step id (\<lambda>p. try_bind (decodeResourceLogs lib p now rnd (length out) 0) (\<lambda>es. Inr (out @ es))) r) [] b"

section \<open>JSON\<close>

text \<open>
  The request structs.  A 64-bit field is whatever JSON value was there (numbers are floats), a
  pointer is an option; the two spellings of a field are two fields.
\<close>

datatype jsonAnyValue = JAny (j_string: "string option") (j_bool: "bool option") (j_int: any) (j_double: "f64 option")
  (j_bytes: "string option") (j_array: "jsonAnyValue list option") (j_kvlist: "(string \<times> jsonAnyValue) list option")

record jsonLogRecord =
  jr_time :: any
  jr_time_snake :: any
  jr_observed :: any
  jr_observed_snake :: any
  jr_severity :: any
  jr_severity_snake :: any
  jr_text :: string
  jr_text_snake :: string
  jr_body :: jsonAnyValue
  jr_attributes :: "(string \<times> jsonAnyValue) list"
  jr_trace :: string
  jr_trace_snake :: string
  jr_span :: string
  jr_span_snake :: string

record jsonScopeLogs =
  js_scope :: string
  js_records :: "jsonLogRecord list"
  js_records_snake :: "jsonLogRecord list"

record jsonResourceLogs =
  jl_attributes :: "(string \<times> jsonAnyValue) list"
  jl_scopes :: "jsonScopeLogs list"
  jl_scopes_snake :: "jsonScopeLogs list"

record jsonLogsData =
  jd_resources :: "jsonResourceLogs list"
  jd_resources_snake :: "jsonResourceLogs list"

text \<open>\<^verbatim>\<open>strconv.ParseUint\<close> and \<^verbatim>\<open>ParseInt\<close> return the nearest bound when the number is out of range, and 0 for other errors.\<close>

definition parse_uint_clamped :: "string \<Rightarrow> 64 word" where
  "parse_uint_clamped s =
     (if s = [] \<or> \<not> list_all is_digit s then 0
      else if digits_val s \<ge> 2 ^ 64 then - 1 else word_of_nat (digits_val s))"

definition parse_int_clamped :: "string \<Rightarrow> int" where
  "parse_int_clamped s =
     (let neg = (case s of c # _ \<Rightarrow> c = CHR ''-'' | [] \<Rightarrow> False);
          ds = (case s of c # cs \<Rightarrow> if c = CHR ''-'' \<or> c = CHR ''+'' then cs else s | [] \<Rightarrow> []);
          n = int (digits_val ds)
      in if ds = [] \<or> \<not> list_all is_digit ds then 0
         else if neg then (if n > 2 ^ 63 then - (2 ^ 63) else - n)
         else (if n \<ge> 2 ^ 63 then 2 ^ 63 - 1 else n))"

definition f64_to_u64 :: "f64 \<Rightarrow> 64 word" where
  "f64_to_u64 w = (if f64_exp w < 2047 \<and> f64_trunc_abs w < 2 ^ 64 then word_of_nat (f64_trunc_abs w) else 2 ^ 63)"

definition anyToUint64 :: "any \<Rightarrow> 64 word" where
  "anyToUint64 v = (case v of
     AStr s \<Rightarrow> parse_uint_clamped s
   | AFloat f \<Rightarrow> if f64_lt f 0 then 0 else f64_to_u64 f
   | _ \<Rightarrow> 0)"

definition anyToInt :: "any \<Rightarrow> int" where
  "anyToInt v = (case v of AStr s \<Rightarrow> parse_int_clamped s | AFloat f \<Rightarrow> f64_to_i64 f | _ \<Rightarrow> 0)"

fun json_decode :: "jsonAnyValue \<Rightarrow> any" where
  "json_decode (JAny s b i d by a kv) =
     (case s of Some x \<Rightarrow> AStr x
      | None \<Rightarrow> (case b of Some x \<Rightarrow> ABool x
      | None \<Rightarrow> (if i \<noteq> ANil then AInt (anyToInt i)
      else (case d of Some x \<Rightarrow> AFloat x
      | None \<Rightarrow> (case by of Some x \<Rightarrow> AStr x
      | None \<Rightarrow> (case a of Some xs \<Rightarrow> AList (map json_decode xs)
      | None \<Rightarrow> (case kv of Some kvs \<Rightarrow> AMap (foldl (\<lambda>m e. put_key e m) [] (map (\<lambda>(k, x). (k, json_decode x)) kvs))
      | None \<Rightarrow> ANil)))))))"

definition first_str :: "string \<Rightarrow> string \<Rightarrow> string" where
  "first_str a b = (if a \<noteq> [] then a else b)"

definition firstNonNil :: "any \<Rightarrow> any \<Rightarrow> any" where
  "firstNonNil a b = (if a \<noteq> ANil then a else b)"

definition pickSlice :: "'a list \<Rightarrow> 'a list \<Rightarrow> 'a list" where
  "pickSlice a b = (if a \<noteq> [] then a else b)"

definition put_keys :: "(string \<times> jsonAnyValue) list \<Rightarrow> (string \<times> any) list" where
  "put_keys kvs = foldl (\<lambda>m (k, x). put_key (k, json_decode x) m) [] kvs"

definition jsonRecordToEvent :: "otlp_lib \<Rightarrow> jsonLogRecord \<Rightarrow> (string \<times> any) list \<Rightarrow> string \<Rightarrow> time \<Rightarrow> byte list \<Rightarrow> logevent" where
  "jsonRecordToEvent lib rec resourceAttrs scopeName now rnd =
     (let a0 = put_keys (jr_attributes rec);
          tr = first_str (jr_trace rec) (jr_trace_snake rec);
          a1 = (if tr \<noteq> [] then AList.update ''trace_id'' (AStr tr) a0 else a0);
          sp = first_str (jr_span rec) (jr_span_snake rec);
          a2 = (if sp \<noteq> [] then AList.update ''span_id'' (AStr sp) a1 else a1)
      in finishEvent lib resourceAttrs scopeName
           \<lparr>rf_time = anyToUint64 (firstNonNil (jr_time rec) (jr_time_snake rec)),
            rf_observed = anyToUint64 (firstNonNil (jr_observed rec) (jr_observed_snake rec)),
            rf_severity = anyToUint64 (firstNonNil (jr_severity rec) (jr_severity_snake rec)),
            rf_text = first_str (jr_text rec) (jr_text_snake rec)\<rparr> now rnd
           (empty_event\<lparr>ev_message := valueToString lib (json_decode (jr_body rec)), ev_attrs := a2\<rparr>))"

definition json_events :: "jsonLogsData \<Rightarrow> (jsonLogRecord \<times> (string \<times> any) list \<times> string) list" where
  "json_events d = concat (map (\<lambda>rl.
     (let attrs = put_keys (jl_attributes rl)
      in concat (map (\<lambda>sl. map (\<lambda>rec. (rec, attrs, js_scope sl)) (pickSlice (js_records sl) (js_records_snake sl)))
           (pickSlice (jl_scopes rl) (jl_scopes_snake rl)))))
     (pickSlice (jd_resources d) (jd_resources_snake d)))"

text \<open>\<open>um\<close> is \<^verbatim>\<open>json.Unmarshal\<close> into the request.\<close>

definition DecodeJSON :: "otlp_lib \<Rightarrow> (string \<Rightarrow> jsonLogsData option) \<Rightarrow> string \<Rightarrow> time \<Rightarrow> (nat \<Rightarrow> byte list) \<Rightarrow> otlp_error + logevent list" where
  "DecodeJSON lib um b now rnd =
     (case um b of
        None \<Rightarrow> Inl BadJSON
      | Some d \<Rightarrow> Inr (map (\<lambda>(i, rec, attrs, scope). jsonRecordToEvent lib rec attrs scope now (rnd i)) (enumerate 0 (json_events d))))"

section \<open>Writing protobuf\<close>

text \<open>\<^verbatim>\<open>appendVarint\<close> and \<^verbatim>\<open>appendTag\<close> of \<^verbatim>\<open>grpc.go\<close>.\<close>

function appendVarint :: "string \<Rightarrow> 64 word \<Rightarrow> string" where
  "appendVarint b v =
     (if v \<ge> 0x80 then appendVarint (b @ [char_of (or (unat v mod 256) 0x80)]) (drop_bit 7 v)
      else b @ [char_of (unat v)])"
  by pat_completeness auto
termination
proof (relation "measure (\<lambda>(_, v). unat v)")
  fix v :: "64 word"
  assume "0x80 \<le> v"
  then have "0 < unat v" by (simp add: word_le_nat_alt)
  then show "((b, drop_bit 7 v), (b', v)) \<in> measure (\<lambda>(_, v). unat v)" for b b' :: string
    by (simp only: unat_drop_bit_eq in_measure prod.case) (simp add: drop_bit_eq_div)
qed simp

declare appendVarint.simps [simp del]

definition appendTag :: "string \<Rightarrow> nat \<Rightarrow> nat \<Rightarrow> string" where
  "appendTag b field wire = appendVarint b (or (push_bit 3 (word_of_nat field)) (word_of_nat wire))"

section \<open>Varints\<close>

fun enc_varint :: "nat \<Rightarrow> string" where
  "enc_varint n = (if n < 128 then [char_of n] else char_of (n mod 128 + 128) # enc_varint (n div 128))"

declare enc_varint.simps [simp del]

lemma or_push_bit_add: "a < 2 ^ s \<Longrightarrow> or a (push_bit s y) = a + y * 2 ^ s" for a y :: nat
proof -
  assume a: "a < 2 ^ s"
  then have "take_bit s a = a" "drop_bit s a = 0" by (simp_all add: take_bit_nat_eq_self_iff drop_bit_eq_div)
  moreover have "drop_bit s (push_bit s y) = y" by (simp add: push_bit_eq_mult drop_bit_eq_div)
  ultimately have "take_bit s (or a (push_bit s y)) = a" "drop_bit s (or a (push_bit s y)) = y"
    by (simp_all add: take_bit_or take_bit_push_bit drop_bit_or)
  then show ?thesis
    using bits_ident[of s "or a (push_bit s y)"] by (simp add: push_bit_eq_mult)
qed

lemma unat_small: "n < 2 ^ 64 \<Longrightarrow> unat (word_of_nat n :: 64 word) = n"
  by (simp add: unsigned_of_nat take_bit_nat_eq_self)

lemma drop_small: "n < 2 ^ 64 \<Longrightarrow> drop_bit k (word_of_nat n :: 64 word) = word_of_nat (n div 2 ^ k)"
proof -
  assume n: "n < 2 ^ 64"
  have "unat (drop_bit k (word_of_nat n :: 64 word)) = n div 2 ^ k"
    using n by (simp only: unat_drop_bit_eq unat_small) (simp add: drop_bit_eq_div)
  moreover have "n div 2 ^ k < 2 ^ 64" using n by (rule le_less_trans[OF div_le_dividend])
  ultimately show ?thesis by (simp only: word_unat_eq_iff unat_small)
qed

lemma or_128: "m < 256 \<Longrightarrow> or m 128 = m mod 128 + (128 :: nat)"
proof -
  assume m: "m < 256"
  have k: "or k 128 = k + (128 :: nat)" if "k < 128" for k
    using or_push_bit_add[of k 7 1] that by (simp add: push_bit_eq_mult)
  show ?thesis
  proof (cases "m < 128")
    case True
    then show ?thesis using k by simp
  next
    case False
    have o: "or (m - 128) 128 = m" using k[of "m - 128"] m False by simp
    have "or (or (m - 128) 128) 128 = or (m - 128) (128 :: nat)" by (simp only: or.assoc or.idem)
    then have "or m 128 = m" unfolding o .
    then show ?thesis using m False by (simp add: le_mod_geq)
  qed
qed

lemma appendVarint_enc: "n < 2 ^ 64 \<Longrightarrow> appendVarint b (word_of_nat n) = b @ enc_varint n"
proof (induction n arbitrary: b rule: enc_varint.induct)
  case (1 n)
  show ?case
  proof (cases "n < 128")
    case True
    then show ?thesis using 1(2) by (subst appendVarint.simps, subst enc_varint.simps) (simp add: word_le_nat_alt unat_small)
  next
    case False
    have "appendVarint b (word_of_nat n) = appendVarint (b @ [char_of (n mod 128 + 128)]) (word_of_nat (n div 128))"
      using 1(2) False by (subst appendVarint.simps) (simp add: word_le_nat_alt unat_small drop_small or_128 mod_mod_cancel)
    also have "\<dots> = (b @ [char_of (n mod 128 + 128)]) @ enc_varint (n div 128)"
      using 1 False by simp
    finally show ?thesis using False by (simp add: enc_varint.simps[of n])
  qed
qed

lemma varint_from_enc:
  "a < 2 ^ s \<Longrightarrow> n * 2 ^ s < 2 ^ 64 \<Longrightarrow> s \<le> 63 \<Longrightarrow>
     varint_from s (word_of_nat a) (enc_varint n @ r) = Inr (word_of_nat (a + n * 2 ^ s), r)"
proof (induction n arbitrary: a s rule: enc_varint.induct)
  case (1 n)
  have step: "or (word_of_nat a) (push_bit s (word_of_nat y)) = (word_of_nat (a + y * 2 ^ s) :: 64 word)" for y
    using or_push_bit_add[OF 1(2), of y] by (metis of_nat_or_eq push_bit_of_nat)
  show ?case
  proof (cases "n < 128")
    case True
    then show ?thesis by (subst enc_varint.simps) (simp add: step)
  next
    case False
    have "2 ^ 7 * 2 ^ s \<le> n * 2 ^ s" using False by simp
    also have "\<dots> < 2 ^ 64" by (rule 1(3))
    finally have "2 ^ (s + 7) < (2 :: nat) ^ 64" by (simp add: power_add mult.commute)
    then have s7: "s + 7 < 64" by (rule power_less_imp_less_exp[rotated]) simp
    have n: "n mod 128 * 2 ^ s + n div 128 * 2 ^ (s + 7) = n * 2 ^ s"
    proof -
      have "n * 2 ^ s = (n div 128 * 128 + n mod 128) * 2 ^ s" by (simp only: div_mult_mod_eq)
      then show ?thesis by (simp only: power_add distrib_right) simp
    qed
    have "varint_from s (word_of_nat a) (enc_varint n @ r)
        = varint_from (s + 7) (word_of_nat (a + n mod 128 * 2 ^ s)) (enc_varint (n div 128) @ r)"
      using False s7 by (subst enc_varint.simps) (simp add: step Let_def)
    also have "\<dots> = Inr (word_of_nat (a + n mod 128 * 2 ^ s + n div 128 * 2 ^ (s + 7)), r)"
    proof (rule 1(1)[OF False])
      have "n mod 128 * 2 ^ s \<le> 127 * 2 ^ s" by simp
      moreover have "(2 :: nat) ^ (s + 7) = 128 * 2 ^ s" by (simp add: power_add)
      ultimately show "a + n mod 128 * 2 ^ s < 2 ^ (s + 7)" using 1(2) by linarith
      show "n div 128 * 2 ^ (s + 7) < 2 ^ 64" using n 1(3) by linarith
      show "s + 7 \<le> 63" using s7 by simp
    qed
    finally show ?thesis using n by (simp add: add.assoc)
  qed
qed

lemma varint_enc: "n < 2 ^ 64 \<Longrightarrow> varint (enc_varint n @ r) = Inr (word_of_nat n, r)"
  using varint_from_enc[of 0 0 n r] by (simp add: varint_def)

section \<open>An encoder\<close>

definition enc_tag :: "nat \<Rightarrow> nat \<Rightarrow> string" where
  "enc_tag field wire = enc_varint (field * 8 + wire)"

definition enc_bytes :: "nat \<Rightarrow> string \<Rightarrow> string" where
  "enc_bytes field p = enc_tag field 2 @ enc_varint (length p) @ p"

definition enc_uint :: "nat \<Rightarrow> 64 word \<Rightarrow> string" where
  "enc_uint field v = enc_tag field 0 @ enc_varint (unat v)"

fun le_bytes :: "nat \<Rightarrow> nat \<Rightarrow> string" where
  "le_bytes 0 n = []"
| "le_bytes (Suc k) n = char_of (n mod 256) # le_bytes k (n div 256)"

definition enc_fixed64 :: "nat \<Rightarrow> 64 word \<Rightarrow> string" where
  "enc_fixed64 field v = enc_tag field 1 @ le_bytes 8 (unat v)"

lemma enc_varint_ne [simp]: "enc_varint n \<noteq> []"
  by (subst enc_varint.simps) simp

lemma enc_tag_ne [simp]: "enc_tag f w \<noteq> []"
  by (simp add: enc_tag_def)

lemma appendTag_enc: "field < 2 ^ 61 \<Longrightarrow> wire < 8 \<Longrightarrow> appendTag b field wire = b @ enc_tag field wire"
proof -
  assume a: "field < 2 ^ 61" "wire < 8"
  have "or (push_bit 3 (word_of_nat field)) (word_of_nat wire) = (word_of_nat (or wire (push_bit 3 field)) :: 64 word)"
    by (metis of_nat_or_eq or.commute push_bit_of_nat)
  also have "or wire (push_bit 3 field) = field * 8 + wire"
    using or_push_bit_add[of wire 3 field] a by simp
  finally have "appendTag b field wire = appendVarint b (word_of_nat (field * 8 + wire))" by (simp only: appendTag_def)
  moreover have "field * 8 + wire < 2 ^ 64" using a by simp
  ultimately show ?thesis by (simp only: enc_tag_def appendVarint_enc)
qed

lemma tag_enc:
  assumes "0 < field" "field < 2 ^ 61" "wire < 8"
  shows "tag (enc_tag field wire @ r) = Inr (field, wire, r)"
proof -
  let ?n = "field * 8 + wire"
  have n: "?n < 2 ^ 64" using assms by simp
  have "unat (drop_bit 3 (word_of_nat ?n :: 64 word)) = field"
    using n assms by (simp only: unat_drop_bit_eq unat_small) (simp add: drop_bit_eq_div)
  moreover have "unat (and (word_of_nat ?n) (7 :: 64 word)) = wire"
  proof -
    have "and (word_of_nat ?n) (7 :: 64 word) = take_bit 3 (word_of_nat ?n)"
      by (simp add: take_bit_eq_mask mask_eq_exp_minus_1)
    moreover have "unat (take_bit 3 (word_of_nat ?n :: 64 word)) = take_bit 3 ?n"
      using n by (simp only: unsigned_take_bit_eq unat_small)
    ultimately show ?thesis using assms by (simp add: take_bit_eq_mod)
  qed
  ultimately show ?thesis
    using varint_enc[OF n] assms by (simp add: tag_def enc_tag_def Let_def)
qed

lemma bytes_enc: "length p < 2 ^ 64 \<Longrightarrow> bytes (enc_varint (length p) @ p @ r) = Inr (p, r)"
  by (simp add: bytes_def varint_enc unat_small)

lemma length_le_bytes [simp]: "length (le_bytes k n) = k"
  by (induction k arbitrary: n) auto

lemma le_word_bytes: "k \<le> 8 \<Longrightarrow> n < 256 ^ k \<Longrightarrow> le_word (le_bytes k n) = word_of_nat n"
proof (induction k arbitrary: n)
  case (Suc k)
  have "n div 256 < 256 ^ k" using Suc.prems(2) by (simp add: less_mult_imp_div_less mult.commute)
  then have "le_word (le_bytes k (n div 256)) = word_of_nat (n div 256)" using Suc by simp
  moreover have "or (push_bit 8 (word_of_nat (n div 256))) (word_of_nat (n mod 256))
      = (word_of_nat (or (n mod 256) (push_bit 8 (n div 256))) :: 64 word)"
    by (metis of_nat_or_eq or.commute push_bit_of_nat)
  moreover have "or (n mod 256) (push_bit 8 (n div 256)) = n"
    using or_push_bit_add[of "n mod 256" 8 "n div 256"] by simp
  ultimately show ?case by (simp add: le_word_def)
qed (simp add: le_word_def)

lemma fixed64_enc: "fixed64 (le_bytes 8 (unat v) @ r) = Inr (v, r)"
  using le_word_bytes[of 8 "unat v"] unsigned_less[of v] by (simp add: fixed64_def)

lemma unsigned_varint: "varint (enc_varint (unat v) @ r) = Inr (v, r)" for v :: "64 word"
  using varint_enc[of "unat v" r] unsigned_less[of v] by simp

text \<open>The loop over a message, one field at a time.\<close>

lemma walk_Nil [simp]: "walk bad step s [] = Inr s"
  by (simp add: walk.simps)

lemma walk_go:
  assumes "0 < field" "field < 2 ^ 61" "wire < 8" "step field wire r s = Inr (s', r')" "length r' \<le> length r"
  shows "walk bad step s (enc_tag field wire @ r) = walk bad step s' r'"
proof -
  have "length r' < length (enc_tag field wire @ r)" using assms(5) by (simp add: le_less_trans length_greater_0_conv)
  then show ?thesis
    using assms by (subst walk.simps) (simp add: tag_enc)
qed

lemma walk_stop:
  assumes "0 < field" "field < 2 ^ 61" "wire < 8" "step field wire r s = Inl res"
  shows "walk bad step s (enc_tag field wire @ r) = Inl res"
  using assms by (subst walk.simps) (simp add: tag_enc)

lemma walk_bytes:
  assumes "0 < field" "field < 2 ^ 61" "length p < 2 ^ 64"
    and "step field 2 (enc_varint (length p) @ p @ r) s = Inr (s', r)"
  shows "walk bad step s (enc_bytes field p @ r) = walk bad step s' r"
  unfolding enc_bytes_def using walk_go[of field 2 step _ s s' r] assms by simp

lemma bytes_step_enc:
  "length p < 2 ^ 64 \<Longrightarrow> bytes_step bad f (enc_varint (length p) @ p @ r)
     = (case f p of Inl res \<Rightarrow> Inl res | Inr s \<Rightarrow> Inr (s, r))"
  by (simp add: bytes_step_def bytes_enc)

lemma bytes_enc_end: "length p < 2 ^ 64 \<Longrightarrow> bytes (enc_varint (length p) @ p) = Inr (p, [])"
  using bytes_enc[of p "[]"] by simp

lemma bytes_step_end:
  "length p < 2 ^ 64 \<Longrightarrow> bytes_step bad f (enc_varint (length p) @ p) = (case f p of Inl res \<Rightarrow> Inl res | Inr s \<Rightarrow> Inr (s, []))"
  by (simp add: bytes_step_def bytes_enc_end)

lemma foldl_snoc [simp]: "foldl (\<lambda>ys x. ys @ [x]) as xs = as @ xs"
  by (induction xs arbitrary: as) auto

lemma length_enc_bytes: "length p < length (enc_bytes field p)"
  by (simp add: enc_bytes_def)

text \<open>A list of length-delimited fields with one number, folded by the decoder's step.\<close>

lemma walk_repeated:
  assumes "0 < field" "field < 2 ^ 61"
    and "\<And>x s r. x \<in> set xs \<Longrightarrow> length (f x) < 2 ^ 64 \<and> step field 2 (enc_varint (length (f x)) @ f x @ r) s = Inr (g s x, r)"
  shows "walk bad step s (concat (map (\<lambda>x. enc_bytes field (f x)) xs) @ r) = walk bad step (foldl g s xs) r"
  using assms(3)
proof (induction xs arbitrary: s)
  case (Cons x xs)
  have "walk bad step s (enc_bytes field (f x) @ concat (map (\<lambda>x. enc_bytes field (f x)) xs) @ r)
      = walk bad step (g s x) (concat (map (\<lambda>x. enc_bytes field (f x)) xs) @ r)"
    by (rule walk_bytes[OF assms(1,2)]) (use Cons.prems in auto)
  then show ?case using Cons by simp
qed simp

fun enc_any :: "any \<Rightarrow> string" where
  "enc_any ANil = []"
| "enc_any (AStr s) = enc_bytes 1 s"
| "enc_any (ABool b) = enc_uint 2 (if b then 1 else 0)"
| "enc_any (AInt n) = enc_uint 3 (word_of_int n)"
| "enc_any (AFloat f) = enc_fixed64 4 f"
| "enc_any ANilList = enc_bytes 5 []"
| "enc_any (AList xs) = enc_bytes 5 (concat (map (\<lambda>x. enc_bytes 1 (enc_any x)) xs))"
| "enc_any (AMap m) = enc_bytes 6 (concat (map (\<lambda>(k, x). enc_bytes 1 (enc_bytes 1 k @ enc_bytes 2 (enc_any x))) m))"

definition enc_kv :: "string \<times> any \<Rightarrow> string" where
  "enc_kv kv = enc_bytes 1 (fst kv) @ enc_bytes 2 (enc_any (snd kv))"

text \<open>
  A value that OTLP has, and whose nesting from \<open>depth\<close> on is within the limit.  The empty array is
  \<open>ANilList\<close>.  Values that are byte strings are left out: they are decoded to their hex digits.
\<close>

fun value_fits :: "nat \<Rightarrow> any \<Rightarrow> bool" where
  "value_fits depth (AInt n) \<longleftrightarrow> depth \<le> maxNestingDepth \<and> i64_range n"
| "value_fits depth (AList xs) \<longleftrightarrow> depth \<le> maxNestingDepth \<and> xs \<noteq> [] \<and> (\<forall>x \<in> set xs. value_fits (depth + 2) x)"
| "value_fits depth (AMap m) \<longleftrightarrow> depth \<le> maxNestingDepth \<and> distinct (map fst m)
     \<and> (\<forall>kv \<in> set m. fst kv \<noteq> [] \<and> value_fits (depth + 3) (snd kv))"
| "value_fits depth v \<longleftrightarrow> depth \<le> maxNestingDepth"

lemma value_fits_depth: "value_fits d v \<Longrightarrow> d \<le> maxNestingDepth"
  by (cases v) auto

lemma member_length: "x \<in> set xs \<Longrightarrow> length (f x) \<le> length (concat (map f xs))"
  by (induction xs) auto

lemma key_value_enc:
  assumes "depth \<le> maxNestingDepth" "length (enc_kv kv) < 2 ^ 64" "dec (enc_any (snd kv)) = Inr (snd kv)"
  shows "key_value dec depth (enc_kv kv) = Inr kv"
proof -
  obtain k v where kv: "kv = (k, v)" by (cases kv)
  have l: "length k < 2 ^ 64" "length (enc_any v) < 2 ^ 64"
    using assms(2) length_enc_bytes[of k 1] length_enc_bytes[of "enc_any v" 2] by (simp_all add: enc_kv_def kv)
  let ?step = "\<lambda>field wire r (k, v). if wire \<noteq> wireBytes then skip_step id wire r (k, v)
             else bytes_step id (\<lambda>p. if field = 1 then Inr (p, v) else if field = 2 then try_bind (dec p) (\<lambda>v'. Inr (k, v')) else Inr (k, v)) r"
  have "walk id ?step ([], ANil) (enc_bytes 1 k @ enc_bytes 2 (enc_any v)) = walk id ?step (k, ANil) (enc_bytes 2 (enc_any v))"
    using walk_bytes[of 1 k ?step "enc_bytes 2 (enc_any v)" "([], ANil)" "(k, ANil)" id] l by (simp add: bytes_step_enc)
  also have "\<dots> = walk id ?step (k, v) []"
    using walk_bytes[of 2 "enc_any v" ?step "[]" "(k, ANil)" "(k, v)" id] assms(3) l by (simp add: bytes_step_end kv)
  finally show ?thesis using assms(1) by (simp add: key_value_def enc_kv_def kv)
qed

lemma put_key_foldl:
  "distinct (map fst (m @ kvs)) \<Longrightarrow> (\<And>kv. kv \<in> set kvs \<Longrightarrow> fst kv \<noteq> []) \<Longrightarrow> foldl (\<lambda>m kv. put_key kv m) m kvs = m @ kvs"
proof (induction kvs arbitrary: m)
  case (Cons kv kvs)
  have "AList.update (fst kv) (snd kv) m = m @ [kv]"
    using Cons.prems(1) update_new[of "fst kv" m "snd kv"] by auto
  then show ?case using Cons by (simp add: put_key_def)
qed simp

definition any_step :: "nat \<Rightarrow> nat \<Rightarrow> nat \<Rightarrow> string \<Rightarrow> unit \<Rightarrow> (otlp_error + any) + unit \<times> string" where
  "any_step depth field wire r u =
     (if field = 1 \<and> wire = wireBytes then Inl (try_bind (bytes r) (\<lambda>(v, _). Inr (AStr v)))
      else if field = 2 \<and> wire = wireVarint then Inl (try_bind (varint r) (\<lambda>(v, _). Inr (ABool (v \<noteq> 0))))
      else if field = 3 \<and> wire = wireVarint then Inl (try_bind (varint r) (\<lambda>(v, _). Inr (AInt (sint v))))
      else if field = 4 \<and> wire = wireI64 then Inl (try_bind (fixed64 r) (\<lambda>(v, _). Inr (AFloat v)))
      else if field = 7 \<and> wire = wireBytes then Inl (try_bind (bytes r) (\<lambda>(v, _). Inr (AStr (hex_encode v))))
      else if field = 5 \<and> wire = wireBytes then Inl (try_bind (bytes r) (\<lambda>(v, _). decodeArrayValue v (depth + 1)))
      else if field = 6 \<and> wire = wireBytes then Inl (try_bind (bytes r) (\<lambda>(v, _). decodeKvlist v (depth + 1)))
      else skip_step Inl wire r ())"

lemma decodeAnyValue_walk:
  "decodeAnyValue b depth =
     (if depth > maxNestingDepth then Inl ValueTooDeep
      else case walk Inl (any_step depth) () b of Inl res \<Rightarrow> res | Inr _ \<Rightarrow> Inr ANil)"
proof -
  have "(\<lambda>field wire r (_ :: unit).
               if field = 1 \<and> wire = wireBytes then Inl (try_bind (bytes r) (\<lambda>(v, _). Inr (AStr v)))
               else if field = 2 \<and> wire = wireVarint then Inl (try_bind (varint r) (\<lambda>(v, _). Inr (ABool (v \<noteq> 0))))
               else if field = 3 \<and> wire = wireVarint then Inl (try_bind (varint r) (\<lambda>(v, _). Inr (AInt (sint v))))
               else if field = 4 \<and> wire = wireI64 then Inl (try_bind (fixed64 r) (\<lambda>(v, _). Inr (AFloat v)))
               else if field = 7 \<and> wire = wireBytes then Inl (try_bind (bytes r) (\<lambda>(v, _). Inr (AStr (hex_encode v))))
               else if field = 5 \<and> wire = wireBytes then
                 Inl (try_bind (bytes r) (\<lambda>(v, _). array_values (\<lambda>p. decodeAnyValue p (depth + 2)) v))
               else if field = 6 \<and> wire = wireBytes then
                 Inl (try_bind (bytes r) (\<lambda>(v, _).
                   kvlist_values (\<lambda>p. key_value (\<lambda>p. decodeAnyValue p (depth + 3)) (depth + 2) p) v))
               else skip_step Inl wire r ()) = any_step depth"
    by (intro ext) (simp add: any_step_def decodeArrayValue_def decodeKvlist_def decodeKeyValue_def eval_nat_numeral)
  then show ?thesis by (subst decodeAnyValue.simps) simp
qed

lemma decodeAny_stop:
  assumes "depth \<le> maxNestingDepth" "0 < field" "field < 2 ^ 61" "wire < 8" "any_step depth field wire r () = Inl res"
  shows "decodeAnyValue (enc_tag field wire @ r) depth = res"
  using assms walk_stop[of field wire "any_step depth" r "()" res Inl] by (simp add: decodeAnyValue_walk)

lemma length_enc_field: "length p < 2 ^ 64" if "length (enc_bytes field p) < 2 ^ 64"
  using that length_enc_bytes[of p field] by simp

lemma array_values_enc:
  assumes "length (concat (map (\<lambda>x. enc_bytes 1 (enc_any x)) xs)) < 2 ^ 64" "\<And>x. x \<in> set xs \<Longrightarrow> dec (enc_any x) = Inr x"
    and "xs \<noteq> []"
  shows "array_values dec (concat (map (\<lambda>x. enc_bytes 1 (enc_any x)) xs)) = Inr (AList xs)"
proof -
  let ?step = "\<lambda>field wire r vs. if field \<noteq> 1 \<or> wire \<noteq> wireBytes then skip_step id wire r vs
        else bytes_step id (\<lambda>p. try_bind (dec p) (\<lambda>v. Inr (vs @ [v]))) r"
  have l: "length (enc_any x) < 2 ^ 64" if "x \<in> set xs" for x
    using member_length[OF that, of "\<lambda>x. enc_bytes 1 (enc_any x)"] assms(1) length_enc_bytes[of "enc_any x" 1] by linarith
  have "walk id ?step [] (concat (map (\<lambda>x. enc_bytes 1 (enc_any x)) xs) @ []) = walk id ?step (foldl (\<lambda>vs x. vs @ [x]) [] xs) []"
    by (rule walk_repeated) (use l assms(2) in \<open>auto simp: bytes_step_enc\<close>)
  then show ?thesis using assms(3) by (simp add: array_values_def)
qed

lemma kvlist_values_enc:
  assumes "length (concat (map (\<lambda>kv. enc_bytes 1 (enc_kv kv)) m)) < 2 ^ 64" "\<And>kv. kv \<in> set m \<Longrightarrow> dec (enc_kv kv) = Inr kv"
    and "distinct (map fst m)" "\<And>kv. kv \<in> set m \<Longrightarrow> fst kv \<noteq> []"
  shows "kvlist_values dec (concat (map (\<lambda>kv. enc_bytes 1 (enc_kv kv)) m)) = Inr (AMap m)"
proof -
  let ?step = "\<lambda>field wire r m. if field \<noteq> 1 \<or> wire \<noteq> wireBytes then skip_step id wire r m
        else bytes_step id (\<lambda>p. try_bind (dec p) (\<lambda>kv. Inr (put_key kv m))) r"
  have l: "length (enc_kv x) < 2 ^ 64" if "x \<in> set m" for x
    using member_length[OF that, of "\<lambda>x. enc_bytes 1 (enc_kv x)"] assms(1) length_enc_bytes[of "enc_kv x" 1] by linarith
  have "walk id ?step [] (concat (map (\<lambda>kv. enc_bytes 1 (enc_kv kv)) m) @ []) = walk id ?step (foldl (\<lambda>m kv. put_key kv m) [] m) []"
    by (rule walk_repeated) (use l assms(2) in \<open>auto simp: bytes_step_enc\<close>)
  then show ?thesis using put_key_foldl[of "[]" m] assms(3,4) by (simp add: kvlist_values_def)
qed

lemma enc_any_map: "enc_any (AMap m) = enc_bytes 6 (concat (map (\<lambda>kv. enc_bytes 1 (enc_kv kv)) m))"
  by (simp add: enc_kv_def case_prod_beta')

lemma enc_any_fits: "value_fits depth v \<Longrightarrow> length (enc_any v) < 2 ^ 64 \<Longrightarrow> decodeAnyValue (enc_any v) depth = Inr v"
proof (induction v arbitrary: depth rule: any.induct)
  case ANil
  then show ?case by (simp add: decodeAnyValue_walk)
next
  case (AStr s)
  then show ?case
    using length_enc_field[of 1 s] unfolding enc_any.simps enc_bytes_def
    by (intro decodeAny_stop) (simp_all add: any_step_def bytes_enc_end enc_bytes_def)
next
  case (ABool b)
  then show ?case unfolding enc_any.simps enc_uint_def
    using unsigned_varint[of "if b then 1 else 0" "[]"]
    by (intro decodeAny_stop) (simp_all add: any_step_def split: if_splits)
next
  case (AInt n)
  have "sint (word_of_int n :: 64 word) = n"
    using AInt(1) by (simp add: signed_of_int signed_take_bit_int_eq_self i64_range_def)
  then show ?case using AInt unfolding enc_any.simps enc_uint_def
    using unsigned_varint[of "word_of_int n" "[]"]
    by (intro decodeAny_stop) (simp_all add: any_step_def)
next
  case (AFloat f)
  then show ?case unfolding enc_any.simps enc_fixed64_def
    using fixed64_enc[of f "[]"] by (intro decodeAny_stop) (simp_all add: any_step_def)
next
  case ANilList
  then show ?case unfolding enc_any.simps enc_bytes_def
    using bytes_enc_end[of "[]"]
    by (intro decodeAny_stop) (simp_all add: any_step_def decodeArrayValue_def array_values_def)
next
  case (AList xs)
  let ?p = "concat (map (\<lambda>x. enc_bytes 1 (enc_any x)) xs)"
  have l: "length ?p < 2 ^ 64" using AList.prems(2) length_enc_field[of 5 ?p] by simp
  have "decodeAnyValue (enc_any x) (depth + 2) = Inr x" if "x \<in> set xs" for x
    using AList.IH[OF that] AList.prems(1) that member_length[OF that, of "\<lambda>x. enc_bytes 1 (enc_any x)"] l
      length_enc_bytes[of "enc_any x" 1] by (simp add: le_less_trans)
  then have "decodeArrayValue ?p (depth + 1) = Inr (AList xs)"
    unfolding decodeArrayValue_def using AList.prems(1) by (intro array_values_enc[OF l]) simp_all
  then show ?case using AList.prems(1) l bytes_enc_end[OF l] unfolding enc_any.simps enc_bytes_def[of 5]
    by (intro decodeAny_stop) (simp_all add: any_step_def)
next
  case (AMap m)
  let ?p = "concat (map (\<lambda>kv. enc_bytes 1 (enc_kv kv)) m)"
  have l: "length ?p < 2 ^ 64" using AMap.prems(2) length_enc_field[of 6 ?p] by (simp only: enc_any_map)
  have f: "depth \<le> maxNestingDepth" "distinct (map fst m)" "\<And>kv. kv \<in> set m \<Longrightarrow> fst kv \<noteq> [] \<and> value_fits (depth + 3) (snd kv)"
    using AMap.prems(1) by auto
  have "decodeKeyValue (enc_kv kv) (depth + 2) = Inr kv" if kv: "kv \<in> set m" for kv
  proof -
    have k: "length (enc_kv kv) < 2 ^ 64"
      using member_length[OF kv, of "\<lambda>x. enc_bytes 1 (enc_kv x)"] l length_enc_bytes[of "enc_kv kv" 1] by linarith
    then have "length (enc_any (snd kv)) < 2 ^ 64"
      using length_enc_bytes[of "enc_any (snd kv)" 2] by (simp add: enc_kv_def)
    then have "decodeAnyValue (enc_any (snd kv)) (depth + 3) = Inr (snd kv)"
      using AMap.IH[OF kv, of "snd kv"] f(3)[OF kv] by (cases kv) simp
    moreover have "depth + 2 \<le> maxNestingDepth" using f(3)[OF kv] value_fits_depth by fastforce
    moreover have "depth + 2 + 1 = depth + 3" by simp
    ultimately show ?thesis unfolding decodeKeyValue_def by (intro key_value_enc k) (simp_all only:)
  qed
  then have "decodeKvlist ?p (depth + 1) = Inr (AMap m)"
    unfolding decodeKvlist_def using f by (intro kvlist_values_enc[OF l]) auto
  then show ?case using f(1) l bytes_enc_end[OF l] unfolding enc_any_map enc_bytes_def[of 6]
    by (intro decodeAny_stop) (simp_all add: any_step_def)
qed

section \<open>Requests\<close>

text \<open>A logs request as OTLP defines it, independent of the encoding.\<close>

record otel_record =
  or_time :: "64 word"
  or_observed :: "64 word"
  or_severity :: "64 word"
  or_text :: string
  or_body :: any
  or_attrs :: "(string \<times> any) list"
  or_trace :: string
  or_span :: string

type_synonym otel_scope = "string \<times> otel_record list"
type_synonym otel_resource = "(string \<times> any) list \<times> otel_scope list"

definition enc_record :: "otel_record \<Rightarrow> string" where
  "enc_record r = enc_fixed64 1 (or_time r) @ enc_fixed64 11 (or_observed r) @ enc_uint 2 (or_severity r)
     @ enc_bytes 3 (or_text r) @ enc_bytes 5 (enc_any (or_body r))
     @ concat (map (\<lambda>kv. enc_bytes 6 (enc_kv kv)) (or_attrs r)) @ enc_bytes 9 (or_trace r) @ enc_bytes 10 (or_span r)"

definition enc_scope :: "otel_scope \<Rightarrow> string" where
  "enc_scope s = enc_bytes 1 (enc_bytes 1 (fst s)) @ concat (map (\<lambda>r. enc_bytes 2 (enc_record r)) (snd s))"

definition enc_attrs :: "(string \<times> any) list \<Rightarrow> string" where
  "enc_attrs m = concat (map (\<lambda>kv. enc_bytes 1 (enc_kv kv)) m)"

definition enc_resource :: "otel_resource \<Rightarrow> string" where
  "enc_resource r = enc_bytes 1 (enc_attrs (fst r)) @ concat (map (\<lambda>s. enc_bytes 2 (enc_scope s)) (snd r))"

definition enc_request :: "otel_resource list \<Rightarrow> string" where
  "enc_request rs = concat (map (\<lambda>r. enc_bytes 1 (enc_resource r)) rs)"

text \<open>Well-formed attributes at a depth of the message, and a well-formed request.\<close>

definition attrs_ok :: "nat \<Rightarrow> (string \<times> any) list \<Rightarrow> bool" where
  "attrs_ok depth m \<longleftrightarrow> distinct (map fst m) \<and> (\<forall>kv \<in> set m. fst kv \<noteq> [] \<and> value_fits depth (snd kv))"

definition record_ok :: "otel_record \<Rightarrow> bool" where
  "record_ok r \<longleftrightarrow> attrs_ok 4 (or_attrs r) \<and> value_fits 3 (or_body r)"

definition request_ok :: "otel_resource list \<Rightarrow> bool" where
  "request_ok rs \<longleftrightarrow> length (enc_request rs) < 2 ^ 64
     \<and> (\<forall>r \<in> set rs. attrs_ok 3 (fst r) \<and> (\<forall>s \<in> set (snd r). \<forall>rec \<in> set (snd s). record_ok rec))"

text \<open>The event of a record.\<close>

definition with_ids :: "string \<Rightarrow> string \<Rightarrow> (string \<times> any) list \<Rightarrow> (string \<times> any) list" where
  "with_ids tr sp m =
     (let m1 = (if tr \<noteq> [] then AList.update ''trace_id'' (AStr (hex_encode tr)) m else m)
      in if sp \<noteq> [] then AList.update ''span_id'' (AStr (hex_encode sp)) m1 else m1)"

definition record_event :: "otlp_lib \<Rightarrow> time \<Rightarrow> otel_record \<Rightarrow> (string \<times> any) list \<Rightarrow> string \<Rightarrow> byte list \<Rightarrow> logevent" where
  "record_event lib now r attrs scope ent =
     finishEvent lib attrs scope
       \<lparr>rf_time = or_time r, rf_observed = or_observed r, rf_severity = or_severity r, rf_text = or_text r\<rparr> now ent
       (empty_event\<lparr>ev_message := valueToString lib (or_body r),
          ev_attrs := with_ids (or_trace r) (or_span r) (or_attrs r)\<rparr>)"

definition request_records :: "otel_resource list \<Rightarrow> (otel_record \<times> (string \<times> any) list \<times> string) list" where
  "request_records rs = concat (map (\<lambda>r. concat (map (\<lambda>s. map (\<lambda>rec. (rec, fst r, fst s)) (snd s)) (snd r))) rs)"

definition request_events :: "otlp_lib \<Rightarrow> time \<Rightarrow> (nat \<Rightarrow> byte list) \<Rightarrow> nat \<Rightarrow> (otel_record \<times> (string \<times> any) list \<times> string) list \<Rightarrow> logevent list" where
  "request_events lib now rnd i recs = map (\<lambda>(j, rec, attrs, scope). record_event lib now rec attrs scope (rnd j)) (enumerate i recs)"

lemma request_events_append:
  "request_events lib now rnd i (xs @ ys) = request_events lib now rnd i xs @ request_events lib now rnd (i + length xs) ys"
  by (simp add: request_events_def enumerate_append_eq)

lemma request_events_simps [simp]:
  "request_events lib now rnd i [] = []"
  "request_events lib now rnd i (x # xs) = (case x of (rec, attrs, scope) \<Rightarrow> record_event lib now rec attrs scope (rnd i)) # request_events lib now rnd (Suc i) xs"
  "length (request_events lib now rnd i zs) = length zs"
  by (simp_all add: request_events_def case_prod_unfold)

section \<open>Decoding what was encoded\<close>

lemma walk_fixed:
  assumes "0 < field" "field < 2 ^ 61" "step field 1 (le_bytes 8 (unat v) @ r) s = Inr (s', r)"
  shows "walk bad step s (enc_fixed64 field v @ r) = walk bad step s' r"
  unfolding enc_fixed64_def using walk_go[of field 1 step "le_bytes 8 (unat v) @ r" s s' r] assms by simp

lemma walk_uint:
  assumes "0 < field" "field < 2 ^ 61" "step field 0 (enc_varint (unat v) @ r) s = Inr (s', r)"
  shows "walk bad step s (enc_uint field v @ r) = walk bad step s' r"
  unfolding enc_uint_def using walk_go[of field 0 step "enc_varint (unat v) @ r" s s' r] assms by simp

lemma decodeKeyValue_enc:
  assumes "depth \<le> maxNestingDepth" "length (enc_kv kv) < 2 ^ 64" "value_fits (depth + 1) (snd kv)"
  shows "decodeKeyValue (enc_kv kv) depth = Inr kv"
proof -
  have "length (enc_any (snd kv)) < 2 ^ 64"
    using assms(2) length_enc_bytes[of "enc_any (snd kv)" 2] by (simp add: enc_kv_def)
  then show ?thesis unfolding decodeKeyValue_def
    by (intro key_value_enc assms(1,2) enc_any_fits assms(3))
qed

lemma member_enc:
  assumes "x \<in> set xs" "length (concat (map (\<lambda>x. enc_bytes field (f x)) xs)) < 2 ^ 64"
  shows "length (f x) < 2 ^ 64"
  using member_length[OF assms(1), of "\<lambda>x. enc_bytes field (f x)"] assms(2) length_enc_bytes[of "f x" field] by linarith

lemma put_key_fold_attrs:
  "foldl (\<lambda>(e, rf) kv. (e\<lparr>ev_attrs := put_key kv (ev_attrs e)\<rparr>, rf)) (e, rf) kvs
     = (e\<lparr>ev_attrs := foldl (\<lambda>m kv. put_key kv m) (ev_attrs e) kvs\<rparr>, rf)"
  by (induction kvs arbitrary: e) auto

lemma decodeLogRecord_enc:
  assumes "record_ok r" "length (enc_record r) < 2 ^ 64"
  shows "decodeLogRecord lib (enc_record r) attrs scope now ent 2 = Inr (record_event lib now r attrs scope ent)"
proof -
  let ?w = "walk id (record_step lib 2)"
  let ?at = "concat (map (\<lambda>kv. enc_bytes 6 (enc_kv kv)) (or_attrs r))"
  have l: "length (or_text r) < 2 ^ 64" "length (enc_any (or_body r)) < 2 ^ 64" "length ?at < 2 ^ 64"
    "length (or_trace r) < 2 ^ 64" "length (or_span r) < 2 ^ 64"
    using assms(2) length_enc_bytes[of "or_text r" 3] length_enc_bytes[of "enc_any (or_body r)" 5]
      length_enc_bytes[of "or_trace r" 9] length_enc_bytes[of "or_span r" 10] by (simp_all add: enc_record_def)
  have kv: "length (enc_kv x) < 2 ^ 64 \<and> decodeKeyValue (enc_kv x) 3 = Inr x" if "x \<in> set (or_attrs r)" for x
  proof -
    have "length (enc_kv x) < 2 ^ 64" by (rule member_enc[OF that l(3)])
    moreover have "value_fits 4 (snd x)" using assms(1) that by (simp add: record_ok_def attrs_ok_def)
    ultimately show ?thesis using decodeKeyValue_enc[of 3 x] by (simp add: maxNestingDepth_def)
  qed
  have body: "decodeAnyValue (enc_any (or_body r)) 3 = Inr (or_body r)"
    using assms(1) by (intro enc_any_fits l(2)) (simp add: record_ok_def)
  let ?rf = "\<lparr>rf_time = or_time r, rf_observed = or_observed r, rf_severity = or_severity r, rf_text = or_text r\<rparr>"
  let ?e1 = "empty_event\<lparr>ev_message := valueToString lib (or_body r)\<rparr>"
  have m: "foldl (\<lambda>m kv. put_key kv m) [] (or_attrs r) = or_attrs r"
    using put_key_foldl[of "[]" "or_attrs r"] assms(1) by (simp add: record_ok_def attrs_ok_def)
  have "?w (empty_event, no_fields) (enc_record r)
      = ?w (empty_event, ?rf) (enc_bytes 5 (enc_any (or_body r)) @ ?at @ enc_bytes 9 (or_trace r) @ enc_bytes 10 (or_span r))"
    unfolding enc_record_def
    apply (subst walk_fixed[where s' = "(empty_event, no_fields\<lparr>rf_time := or_time r\<rparr>)"])
       apply (simp_all add: record_step_def fixed64_enc)
    apply (subst walk_fixed[where s' = "(empty_event, no_fields\<lparr>rf_time := or_time r, rf_observed := or_observed r\<rparr>)"])
       apply (simp_all add: record_step_def fixed64_enc)
    apply (subst walk_uint[where s' = "(empty_event, no_fields\<lparr>rf_time := or_time r, rf_observed := or_observed r, rf_severity := or_severity r\<rparr>)"])
       apply (simp_all add: record_step_def unsigned_varint)
    apply (subst walk_bytes[where s' = "(empty_event, ?rf)"])
    using l(1) by (simp_all add: record_step_def bytes_step_enc no_fields_def)
  also have "\<dots> = ?w (?e1, ?rf) (?at @ enc_bytes 9 (or_trace r) @ enc_bytes 10 (or_span r))"
    by (rule walk_bytes) (use l(2) body in \<open>simp_all add: record_step_def bytes_step_enc\<close>)
  also have "\<dots> = ?w (foldl (\<lambda>(e, rf) kv. (e\<lparr>ev_attrs := put_key kv (ev_attrs e)\<rparr>, rf)) (?e1, ?rf) (or_attrs r))
      (enc_bytes 9 (or_trace r) @ enc_bytes 10 (or_span r))"
    by (rule walk_repeated) (use kv in \<open>auto simp: record_step_def bytes_step_enc\<close>)
  also have "\<dots> = ?w (?e1\<lparr>ev_attrs := or_attrs r\<rparr>, ?rf) (enc_bytes 9 (or_trace r) @ enc_bytes 10 (or_span r))"
    using m by (simp add: put_key_fold_attrs empty_event_def)
  also have "\<dots> = ?w (?e1\<lparr>ev_attrs := with_ids (or_trace r) [] (or_attrs r)\<rparr>, ?rf) (enc_bytes 10 (or_span r))"
    by (rule walk_bytes) (use l(4) in \<open>simp_all add: record_step_def bytes_step_enc with_ids_def\<close>)
  also have "\<dots> = ?w (?e1\<lparr>ev_attrs := with_ids (or_trace r) (or_span r) (or_attrs r)\<rparr>, ?rf) []"
    using walk_bytes[of 10 "or_span r" "record_step lib 2" "[]" "(?e1\<lparr>ev_attrs := with_ids (or_trace r) [] (or_attrs r)\<rparr>, ?rf)"
        "(?e1\<lparr>ev_attrs := with_ids (or_trace r) (or_span r) (or_attrs r)\<rparr>, ?rf)" id] l(5)
    by (simp add: record_step_def bytes_step_end with_ids_def Let_def)
  finally show ?thesis by (simp add: decodeLogRecord_def record_event_def)
qed

lemma decode_records_enc:
  assumes "\<And>r ent. r \<in> set recs \<Longrightarrow> dec (f r) ent = Inr (g r ent)"
  shows "decode_records dec rnd (map f recs) i = Inr (map (\<lambda>(j, r). g r (rnd j)) (enumerate i recs))"
  using assms by (induction recs arbitrary: i) auto

lemma decodeScopeName_enc: "length n < 2 ^ 64 \<Longrightarrow> decodeScopeName (enc_bytes 1 n) = n"
  unfolding decodeScopeName_def enc_bytes_def
  by (subst walk_stop[where res = n]) (simp_all add: bytes_enc_end)

lemma decodeScopeLogs_enc:
  assumes "\<And>r. r \<in> set (snd s) \<Longrightarrow> record_ok r" "length (enc_scope s) < 2 ^ 64"
  shows "decodeScopeLogs lib (enc_scope s) attrs now rnd i 1 =
    Inr (request_events lib now rnd i (map (\<lambda>rec. (rec, attrs, fst s)) (snd s)))"
proof -
  let ?step = "\<lambda>field wire r (scopeName, records). if wire \<noteq> wireBytes then skip_step id wire r (scopeName, records)
             else bytes_step id (\<lambda>p. if field = 1 then Inr (decodeScopeName p, records)
               else if field = 2 then Inr (scopeName, records @ [p]) else Inr (scopeName, records)) r"
  let ?recs = "concat (map (\<lambda>r. enc_bytes 2 (enc_record r)) (snd s))"
  have l: "length (enc_bytes 1 (fst s)) < 2 ^ 64" "length ?recs < 2 ^ 64"
    using assms(2) length_enc_bytes[of "enc_bytes 1 (fst s)" 1] by (simp_all add: enc_scope_def)
  have n: "length (fst s) < 2 ^ 64" using l(1) length_enc_bytes[of "fst s" 1] by simp
  have lr: "length (enc_record r) < 2 ^ 64" if "r \<in> set (snd s)" for r
    by (rule member_enc[OF that l(2)])
  have f: "foldl (\<lambda>(sn, rs) r. (sn, rs @ [enc_record r])) (x, ys) xs = (x, ys @ map enc_record xs)" for x :: string and ys xs
    by (induction xs arbitrary: ys) auto
  have "walk id ?step ([], []) (enc_scope s) = walk id ?step (fst s, []) ?recs"
    unfolding enc_scope_def
    by (rule walk_bytes) (use l n in \<open>simp_all add: bytes_step_enc decodeScopeName_enc[unfolded One_nat_def]\<close>)
  also have "\<dots> = walk id ?step (foldl (\<lambda>(sn, rs) r. (sn, rs @ [enc_record r])) (fst s, []) (snd s)) []"
    using walk_repeated[of 2 "snd s" enc_record ?step "\<lambda>(sn, rs) r. (sn, rs @ [enc_record r])" id "(fst s, [])" "[]"] lr
    by (simp add: bytes_step_enc case_prod_unfold)
  finally have w: "walk id ?step ([], []) (enc_scope s) = Inr (fst s, map enc_record (snd s))" by (simp add: f)
  have "decode_records (\<lambda>p ent. decodeLogRecord lib p attrs (fst s) now ent (1 + 1)) rnd (map enc_record (snd s)) i
      = Inr (map (\<lambda>(j, r). record_event lib now r attrs (fst s) (rnd j)) (enumerate i (snd s)))"
    by (rule decode_records_enc) (use decodeLogRecord_enc assms(1) lr in \<open>simp add: numeral_2_eq_2[symmetric]\<close>)
  moreover have "map (\<lambda>(j, r). record_event lib now r attrs (fst s) (rnd j)) (enumerate i (snd s))
      = request_events lib now rnd i (map (\<lambda>rec. (rec, attrs, fst s)) (snd s))"
    by (simp add: request_events_def enumerate_map_upt enumerate_eq_zip zip_map2 case_prod_unfold comp_def)
  ultimately show ?thesis
    unfolding decodeScopeLogs_def using w by (simp add: maxNestingDepth_def)
qed

lemma decodeResource_enc:
  assumes "attrs_ok 3 m" "length (enc_attrs m) < 2 ^ 64"
  shows "decodeResource (enc_attrs m) [] 1 = Inr m"
proof -
  let ?step = "\<lambda>field wire r m. if field \<noteq> 1 \<or> wire \<noteq> wireBytes then skip_step id wire r m
        else bytes_step id (\<lambda>p. try_bind (decodeKeyValue p (1 + 1)) (\<lambda>kv. Inr (put_key kv m))) r"
  have kv: "length (enc_kv x) < 2 ^ 64 \<and> decodeKeyValue (enc_kv x) 2 = Inr x" if "x \<in> set m" for x
  proof -
    have "length (enc_kv x) < 2 ^ 64" using member_enc[OF that, of 1 enc_kv] assms(2) by (simp add: enc_attrs_def)
    moreover have "value_fits 3 (snd x)" using assms(1) that by (simp add: attrs_ok_def)
    ultimately show ?thesis using decodeKeyValue_enc[of 2 x] by (simp add: maxNestingDepth_def)
  qed
  have "walk id ?step [] (enc_attrs m @ []) = walk id ?step (foldl (\<lambda>m kv. put_key kv m) [] m) []"
    unfolding enc_attrs_def
    by (rule walk_repeated) (use kv in \<open>auto simp: bytes_step_enc numeral_2_eq_2[symmetric]\<close>)
  moreover have "foldl (\<lambda>m kv. put_key kv m) [] m = m"
    using put_key_foldl[of "[]" m] assms(1) by (simp add: attrs_ok_def)
  ultimately show ?thesis unfolding decodeResource_def by (simp add: maxNestingDepth_def)
qed

lemma decode_scopes_enc:
  assumes "\<And>s j. s \<in> set ss \<Longrightarrow> dec (f s) j = Inr (request_events lib now rnd j (g s))"
  shows "decode_scopes dec (map f ss) i = Inr (request_events lib now rnd i (concat (map g ss)))"
  using assms by (induction ss arbitrary: i) (auto simp: request_events_append)

lemma decodeResourceLogs_enc:
  assumes "attrs_ok 3 (fst r)" "\<And>s rec. s \<in> set (snd r) \<Longrightarrow> rec \<in> set (snd s) \<Longrightarrow> record_ok rec" "length (enc_resource r) < 2 ^ 64"
  shows "decodeResourceLogs lib (enc_resource r) now rnd i 0 =
    Inr (request_events lib now rnd i (concat (map (\<lambda>s. map (\<lambda>rec. (rec, fst r, fst s)) (snd s)) (snd r))))"
proof -
  let ?step = "\<lambda>field wire b (attrs, scopes). if wire \<noteq> wireBytes then skip_step id wire b (attrs, scopes)
             else bytes_step id (\<lambda>p.
               if field = 1 then try_bind (decodeResource p attrs (0 + 1)) (\<lambda>attrs'. Inr (attrs', scopes))
               else if field = 2 then Inr (attrs, scopes @ [p])
               else Inr (attrs, scopes)) b"
  let ?scs = "concat (map (\<lambda>s. enc_bytes 2 (enc_scope s)) (snd r))"
  have l: "length (enc_attrs (fst r)) < 2 ^ 64" "length ?scs < 2 ^ 64"
    using assms(3) length_enc_bytes[of "enc_attrs (fst r)" 1] by (simp_all add: enc_resource_def)
  have ls: "length (enc_scope s) < 2 ^ 64" if "s \<in> set (snd r)" for s
    by (rule member_enc[OF that l(2)])
  have f: "foldl (\<lambda>(sn, rs) r. (sn, rs @ [enc_scope r])) (x, ys) xs = (x, ys @ map enc_scope xs)"
    for x :: "(string \<times> any) list" and ys xs
    by (induction xs arbitrary: ys) auto
  have "walk id ?step ([], []) (enc_resource r) = walk id ?step (fst r, []) ?scs"
    unfolding enc_resource_def
    by (rule walk_bytes) (use l decodeResource_enc[OF assms(1) l(1)] in \<open>simp_all add: bytes_step_enc\<close>)
  also have "\<dots> = walk id ?step (foldl (\<lambda>(sn, rs) r. (sn, rs @ [enc_scope r])) (fst r, []) (snd r)) []"
    using walk_repeated[of 2 "snd r" enc_scope ?step "\<lambda>(sn, rs) r. (sn, rs @ [enc_scope r])" id "(fst r, [])" "[]"] ls
    by (simp add: bytes_step_enc case_prod_unfold)
  finally have w: "walk id ?step ([], []) (enc_resource r) = Inr (fst r, map enc_scope (snd r))" by (simp add: f)
  have "decode_scopes (\<lambda>p j. decodeScopeLogs lib p (fst r) now rnd j (0 + 1)) (map enc_scope (snd r)) i
      = Inr (request_events lib now rnd i (concat (map (\<lambda>s. map (\<lambda>rec. (rec, fst r, fst s)) (snd s)) (snd r))))"
    by (rule decode_scopes_enc) (use decodeScopeLogs_enc assms(2) ls in simp)
  then show ?thesis
    unfolding decodeResourceLogs_def using w by simp
qed

lemma request_events_fold:
  "foldl (\<lambda>out r. out @ request_events lib now rnd (length out) (h r)) (request_events lib now rnd 0 xs) rs
     = request_events lib now rnd 0 (xs @ concat (map h rs))"
proof (induction rs arbitrary: xs)
  case (Cons r rs)
  have "request_events lib now rnd 0 xs @ request_events lib now rnd (length xs) (h r) = request_events lib now rnd 0 (xs @ h r)"
    by (simp add: request_events_append)
  then show ?case using Cons[of "xs @ h r"] by simp
qed simp

lemma DecodeProtobuf_enc:
  assumes "request_ok rs"
  shows "DecodeProtobuf lib (enc_request rs) now rnd = Inr (request_events lib now rnd 0 (request_records rs))"
proof -
  let ?step = "\<lambda>field wire r out. if field \<noteq> 1 \<or> wire \<noteq> wireBytes then skip_step id wire r out
       else bytes_step id (\<lambda>p. try_bind (decodeResourceLogs lib p now rnd (length out) 0) (\<lambda>es. Inr (out @ es))) r"
  let ?recs = "\<lambda>r. concat (map (\<lambda>s. map (\<lambda>rec. (rec, fst r, fst s)) (snd s)) (snd r))"
  let ?g = "\<lambda>out r. out @ request_events lib now rnd (length out) (?recs r)"
  have l: "length (enc_resource r) < 2 ^ 64" if "r \<in> set rs" for r
    using member_enc[OF that, of 1 enc_resource] assms by (simp add: request_ok_def enc_request_def)
  have "walk id ?step [] (enc_request rs @ []) = walk id ?step (foldl ?g [] rs) []"
    unfolding enc_request_def
  proof (rule walk_repeated)
    fix r b and out :: "logevent list" assume r: "r \<in> set rs"
    have "decodeResourceLogs lib (enc_resource r) now rnd (length out) 0 = Inr (request_events lib now rnd (length out) (?recs r))"
      using assms r by (intro decodeResourceLogs_enc l) (auto simp: request_ok_def)
    then show "length (enc_resource r) < 2 ^ 64 \<and> ?step 1 2 (enc_varint (length (enc_resource r)) @ enc_resource r @ b) out = Inr (?g out r, b)"
      using l[OF r] by (simp add: bytes_step_enc)
  qed simp_all
  moreover have "foldl ?g [] rs = request_events lib now rnd 0 (request_records rs)"
    using request_events_fold[of lib now rnd ?recs "[]" rs] by (simp add: request_records_def)
  ultimately show ?thesis by (simp add: DecodeProtobuf_def)
qed

section \<open>The JSON encoding\<close>

definition json_none :: jsonAnyValue where
  "json_none = JAny None None ANil None None None None"

text \<open>The JSON form of a value: 64-bit integers as strings, as the encoding has them.\<close>

fun json_any :: "any \<Rightarrow> jsonAnyValue" where
  "json_any ANil = json_none"
| "json_any (AStr s) = JAny (Some s) None ANil None None None None"
| "json_any (ABool b) = JAny None (Some b) ANil None None None None"
| "json_any (AInt n) = JAny None None (AStr (show_int n)) None None None None"
| "json_any (AFloat f) = JAny None None ANil (Some f) None None None"
| "json_any ANilList = JAny None None ANil None None (Some []) None"
| "json_any (AList xs) = JAny None None ANil None None (Some (map json_any xs)) None"
| "json_any (AMap m) = JAny None None ANil None None None (Some (map (\<lambda>(k, x). (k, json_any x)) m))"

definition json_attrs :: "(string \<times> any) list \<Rightarrow> (string \<times> jsonAnyValue) list" where
  "json_attrs m = map (\<lambda>(k, x). (k, json_any x)) m"

definition json_u64 :: "64 word \<Rightarrow> any" where
  "json_u64 w = AStr (show_nat (unat w))"

definition json_record :: "otel_record \<Rightarrow> jsonLogRecord" where
  "json_record r = \<lparr>jr_time = json_u64 (or_time r), jr_time_snake = ANil, jr_observed = json_u64 (or_observed r),
     jr_observed_snake = ANil, jr_severity = AFloat (f64_of_nat (unat (or_severity r))), jr_severity_snake = ANil,
     jr_text = or_text r, jr_text_snake = [], jr_body = json_any (or_body r), jr_attributes = json_attrs (or_attrs r),
     jr_trace = hex_encode (or_trace r), jr_trace_snake = [], jr_span = hex_encode (or_span r), jr_span_snake = []\<rparr>"

definition json_request :: "otel_resource list \<Rightarrow> jsonLogsData" where
  "json_request rs = \<lparr>jd_resources = map (\<lambda>r. \<lparr>jl_attributes = json_attrs (fst r),
       jl_scopes = map (\<lambda>s. \<lparr>js_scope = fst s, js_records = map json_record (snd s), js_records_snake = []\<rparr>) (snd r),
       jl_scopes_snake = []\<rparr>) rs, jd_resources_snake = []\<rparr>"

lemma parse_uint_clamped_show: "n < 2 ^ 64 \<Longrightarrow> parse_uint_clamped (show_nat n) = word_of_nat n"
  by (simp add: parse_uint_clamped_def show_nat_digits)

lemma parse_int_clamped_show: "i64_range n \<Longrightarrow> parse_int_clamped (show_int n) = n"
proof -
  assume r: "i64_range n"
  obtain c cs where c: "show_nat (nat n) = c # cs" "is_digit c" using show_nat_hd by blast
  then have "c \<noteq> CHR ''-''" "c \<noteq> CHR ''+''" by (auto simp: is_digit_def)
  moreover have "list_all is_digit (c # cs)" "digits_val (c # cs) = nat n"
    using show_nat_digits[of "nat n"] digits_val_show_nat[of "nat n"] c(1) by simp_all
  ultimately show ?thesis
    using r show_nat_digits[of "nat (- n)"] c by (simp add: parse_int_clamped_def show_int_def i64_range_def Let_def) arith
qed

text \<open>
  What the JSON decoder makes of a value: the empty array is a slice of its own, not nil.  (Byte strings
  would differ as well, base64 here and hex there.)
\<close>

fun arrays_made :: "any \<Rightarrow> any" where
  "arrays_made ANilList = AList []"
| "arrays_made (AList xs) = AList (map arrays_made xs)"
| "arrays_made (AMap m) = AMap (map (\<lambda>(k, x). (k, arrays_made x)) m)"
| "arrays_made v = v"

lemma json_decode_any: "value_fits depth v \<Longrightarrow> json_decode (json_any v) = arrays_made v"
proof (induction v arbitrary: depth rule: any.induct)
  case (AInt n)
  then show ?case by (simp add: anyToInt_def parse_int_clamped_show)
next
  case (AList xs)
  then have "map (\<lambda>x. json_decode (json_any x)) xs = map arrays_made xs" by auto
  then show ?case by (simp add: comp_def)
next
  case (AMap m)
  let ?m = "map (\<lambda>(k, x). (k, arrays_made x)) m"
  have "(fst kv, json_decode (json_any (snd kv))) = (fst kv, arrays_made (snd kv))" if "kv \<in> set m" for kv
    using AMap.IH[OF that, of "snd kv"] AMap.prems that by (cases kv) fastforce
  then have "map (\<lambda>kv. (fst kv, json_decode (json_any (snd kv)))) m = ?m" by (auto simp: case_prod_unfold)
  then have "json_decode (json_any (AMap m)) = AMap (foldl (\<lambda>m kv. put_key kv m) [] ?m)"
    by (simp add: comp_def case_prod_unfold del: map_eq_conv)
  moreover have "distinct (map fst ([] @ ?m))" "\<And>kv. kv \<in> set ?m \<Longrightarrow> fst kv \<noteq> []"
    using AMap.prems by (auto simp: comp_def case_prod_unfold)
  ultimately show ?case using put_key_foldl[of "[]" ?m] by simp
qed (simp_all add: json_none_def)

definition attrs_made :: "(string \<times> any) list \<Rightarrow> (string \<times> any) list" where
  "attrs_made m = map (\<lambda>(k, x). (k, arrays_made x)) m"

lemma put_keys_attrs: "attrs_ok depth m \<Longrightarrow> put_keys (json_attrs m) = attrs_made m"
proof -
  assume ok: "attrs_ok depth m"
  have "foldl (\<lambda>m (k, x). put_key (k, json_decode x) m) a (json_attrs xs) = foldl (\<lambda>m kv. put_key kv m) a (attrs_made xs)"
    if "\<forall>kv \<in> set xs. value_fits depth (snd kv)" for a xs
    using that by (induction xs arbitrary: a) (auto simp: json_attrs_def json_decode_any attrs_made_def)
  moreover have "distinct (map fst ([] @ attrs_made m))" "\<And>kv. kv \<in> set (attrs_made m) \<Longrightarrow> fst kv \<noteq> []"
    using ok by (auto simp: attrs_ok_def attrs_made_def comp_def case_prod_unfold)
  ultimately show ?thesis
    using ok put_key_foldl[of "[]" "attrs_made m"] by (simp add: put_keys_def attrs_ok_def)
qed

text \<open>The request as the JSON decoder has it.\<close>

definition record_made :: "otel_record \<Rightarrow> otel_record" where
  "record_made r = r\<lparr>or_body := arrays_made (or_body r), or_attrs := attrs_made (or_attrs r)\<rparr>"

definition request_made :: "otel_resource list \<Rightarrow> otel_resource list" where
  "request_made rs = map (\<lambda>(attrs, scopes). (attrs_made attrs, map (\<lambda>(n, recs). (n, map record_made recs)) scopes)) rs"

lemma hex_encode_Nil [simp]: "hex_encode s = [] \<longleftrightarrow> s = []"
  by (cases s) (simp_all add: hex_encode_def)

lemma severity_numbers:
  "anyToUint64 (AFloat (f64_of_nat 0)) = 0" "anyToUint64 (AFloat (f64_of_nat 1)) = 1" "anyToUint64 (AFloat (f64_of_nat 2)) = 2"
  "anyToUint64 (AFloat (f64_of_nat 3)) = 3" "anyToUint64 (AFloat (f64_of_nat 4)) = 4" "anyToUint64 (AFloat (f64_of_nat 5)) = 5"
  "anyToUint64 (AFloat (f64_of_nat 6)) = 6" "anyToUint64 (AFloat (f64_of_nat 7)) = 7" "anyToUint64 (AFloat (f64_of_nat 8)) = 8"
  "anyToUint64 (AFloat (f64_of_nat 9)) = 9" "anyToUint64 (AFloat (f64_of_nat 10)) = 10" "anyToUint64 (AFloat (f64_of_nat 11)) = 11"
  "anyToUint64 (AFloat (f64_of_nat 12)) = 12" "anyToUint64 (AFloat (f64_of_nat 13)) = 13" "anyToUint64 (AFloat (f64_of_nat 14)) = 14"
  "anyToUint64 (AFloat (f64_of_nat 15)) = 15" "anyToUint64 (AFloat (f64_of_nat 16)) = 16" "anyToUint64 (AFloat (f64_of_nat 17)) = 17"
  "anyToUint64 (AFloat (f64_of_nat 18)) = 18" "anyToUint64 (AFloat (f64_of_nat 19)) = 19" "anyToUint64 (AFloat (f64_of_nat 20)) = 20"
  "anyToUint64 (AFloat (f64_of_nat 21)) = 21" "anyToUint64 (AFloat (f64_of_nat 22)) = 22" "anyToUint64 (AFloat (f64_of_nat 23)) = 23"
  "anyToUint64 (AFloat (f64_of_nat 24)) = 24"
  by (simp_all add: anyToUint64_def f64_to_u64_def float_defs)

lemma small_severity: "n \<le> 24 \<Longrightarrow> anyToUint64 (AFloat (f64_of_nat n)) = word_of_nat n"
proof -
  assume "n \<le> 24"
  then have "n \<in> {0, 1, 2, 3, 4, 5, 6, 7, 8, 9, 10, 11, 12, 13, 14, 15, 16, 17, 18, 19, 20, 21, 22, 23, 24}"
    unfolding insert_iff empty_iff by presburger
  then show ?thesis using severity_numbers by (elim insertE emptyE) simp_all
qed

lemma jsonRecordToEvent_enc:
  assumes "record_ok r" "unat (or_severity r) \<le> 24"
  shows "jsonRecordToEvent lib (json_record r) attrs scope now ent = record_event lib now (record_made r) attrs scope ent"
proof -
  have u: "anyToUint64 (json_u64 w) = w" "json_u64 w \<noteq> ANil" for w
    using parse_uint_clamped_show[of "unat w"] unsigned_less[of w] by (simp_all add: anyToUint64_def json_u64_def)
  have s: "anyToUint64 (AFloat (f64_of_nat (unat (or_severity r)))) = or_severity r"
    using small_severity[OF assms(2)] by simp
  have b: "json_decode (json_any (or_body r)) = arrays_made (or_body r)" using assms(1) json_decode_any by (auto simp: record_ok_def)
  have a: "put_keys (json_attrs (or_attrs r)) = attrs_made (or_attrs r)" using assms(1) put_keys_attrs by (auto simp: record_ok_def)
  show ?thesis
    by (simp add: jsonRecordToEvent_def json_record_def record_event_def record_made_def with_ids_def first_str_def
        firstNonNil_def u s b a Let_def)
qed

lemma json_events_request:
  assumes "\<And>r. r \<in> set rs \<Longrightarrow> attrs_ok 3 (fst r)"
  shows "json_events (json_request rs) = map (\<lambda>(rec, attrs, scope). (json_record rec, attrs_made attrs, scope)) (request_records rs)"
proof -
  have p: "pickSlice xs [] = xs" for xs :: "'a list" by (simp add: pickSlice_def)
  have "map (\<lambda>r. concat (map (\<lambda>s. map (\<lambda>rec. (json_record rec, put_keys (json_attrs (fst r)), fst s)) (snd s)) (snd r))) rs
      = map (\<lambda>r. concat (map (\<lambda>s. map (\<lambda>rec. (json_record rec, attrs_made (fst r), fst s)) (snd s)) (snd r))) rs"
    by (rule map_cong) (simp_all add: put_keys_attrs[OF assms])
  then show ?thesis
    by (simp add: json_events_def json_request_def request_records_def p comp_def map_concat case_prod_unfold Let_def del: map_eq_conv)
qed

lemma request_records_made:
  "request_records (request_made rs) = map (\<lambda>(rec, attrs, scope). (record_made rec, attrs_made attrs, scope)) (request_records rs)"
  by (simp add: request_records_def request_made_def comp_def map_concat case_prod_unfold)

lemma DecodeJSON_enc:
  assumes "request_ok rs" "\<And>r s rec. r \<in> set rs \<Longrightarrow> s \<in> set (snd r) \<Longrightarrow> rec \<in> set (snd s) \<Longrightarrow> unat (or_severity rec) \<le> 24"
    and "um b = Some (json_request rs)"
  shows "DecodeJSON lib um b now rnd = Inr (request_events lib now rnd 0 (request_records (request_made rs)))"
proof -
  have e: "json_events (json_request rs) = map (\<lambda>(rec, attrs, scope). (json_record rec, attrs_made attrs, scope)) (request_records rs)"
    using assms(1) by (intro json_events_request) (auto simp: request_ok_def)
  have "jsonRecordToEvent lib (json_record rec) attrs' scope now ent = record_event lib now (record_made rec) attrs' scope ent"
    if "(rec, attrs, scope) \<in> set (request_records rs)" for rec attrs attrs' scope ent
    using that assms(1,2) by (intro jsonRecordToEvent_enc) (auto simp: request_records_def request_ok_def)
  then have "map (\<lambda>(i, rec, attrs, scope). jsonRecordToEvent lib rec attrs scope now (rnd i))
        (enumerate i (map (\<lambda>(rec, attrs, scope). (json_record rec, attrs_made attrs, scope)) xs))
      = request_events lib now rnd i (map (\<lambda>(rec, attrs, scope). (record_made rec, attrs_made attrs, scope)) xs)"
    if "set xs \<subseteq> set (request_records rs)" for i xs
    using that by (induction xs arbitrary: i) auto
  then show ?thesis using assms(3) by (simp add: DecodeJSON_def e request_records_made)
qed

section \<open>Properties of the decoders\<close>

text \<open>C21. A request in the protobuf encoding decodes to its records' events: every record of every scope
  of every resource, in order, with the message, attributes, identifiers, severity and times it was
  sent with, the resource's attributes and service on it, and one ID each.  The request is any whose
  values OTLP has (integers of 64 bits, maps with distinct non-empty keys; byte strings left out) and
  that nests no deeper than the limit.
\<close>

theorem protobuf_roundtrip:
  assumes "request_ok rs"
  shows "DecodeProtobuf lib (enc_request rs) now rnd = Inr (request_events lib now rnd 0 (request_records rs))"
  using assms by (rule DecodeProtobuf_enc)

text \<open>C22. The two encodings of a request mean the same but for empty arrays.  A request of values that
  both can carry (byte strings left out: they are hex digits from protobuf and base64 from JSON) and
  with the severity numbers the protocol has, up to 24, gives through the JSON decoder the events of its records
  with every empty array a slice of its own where protobuf leaves nil; so a request without empty
  arrays gives exactly the same events both ways.  \<^verbatim>\<open>json.Unmarshal\<close> is assumed to read the text as the request.
\<close>

theorem encodings_agree:
  assumes "request_ok rs"
    and "\<And>r s rec. r \<in> set rs \<Longrightarrow> s \<in> set (snd r) \<Longrightarrow> rec \<in> set (snd s) \<Longrightarrow> unat (or_severity rec) \<le> 24"
    and "um b = Some (json_request rs)"
  shows "DecodeJSON lib um b now rnd = Inr (request_events lib now rnd 0 (request_records (request_made rs)))
    \<and> (request_made rs = rs \<longrightarrow> DecodeJSON lib um b now rnd = DecodeProtobuf lib (enc_request rs) now rnd)"
proof -
  have "DecodeJSON lib um b now rnd = Inr (request_events lib now rnd 0 (request_records (request_made rs)))"
    by (rule DecodeJSON_enc[where rs = rs]) (use assms in blast)+
  then show ?thesis by (simp add: DecodeProtobuf_enc[OF assms(1)])
qed

definition sample_record :: otel_record where
  "sample_record = \<lparr>or_time = 1700000000000000000, or_observed = 0, or_severity = 17, or_text = ''ERROR'',
     or_body = AStr ''timeout'', or_attrs = [(''http.status'', AInt 504)], or_trace = [CHR 0xAB], or_span = []\<rparr>"

definition sample_request :: "otel_resource list" where
  "sample_request = [([(''service.name'', AStr ''api'')], [(''scope'', [sample_record])])]"

definition sample_otlp :: otlp_lib where
  "sample_otlp = \<lparr>ol_go = ascii_lib, ol_format_float = (\<lambda>f. show_int (f64_to_i64 f))\<rparr>"

lemma sample_request_length: "length (enc_request sample_request) < 200"
  by (simp add: sample_request_def sample_record_def enc_request_def enc_resource_def enc_attrs_def enc_scope_def
      enc_record_def enc_kv_def enc_bytes_def enc_fixed64_def enc_uint_def enc_tag_def enc_varint.simps)

lemma sample_request_ok: "request_ok sample_request"
  using sample_request_length by (simp add: request_ok_def) (simp add: sample_request_def sample_record_def
      record_ok_def attrs_ok_def maxNestingDepth_def i64_range_def)

theorem protobuf_roundtrip_witness:
  "\<forall>now rnd. DecodeProtobuf sample_otlp (enc_request sample_request) now rnd
     = Inr [record_event sample_otlp now sample_record [(''service.name'', AStr ''api'')] ''scope'' (rnd 0)]"
  using protobuf_roundtrip[OF sample_request_ok, of sample_otlp]
  by (simp add: request_records_def sample_request_def)

theorem encodings_agree_witness:
  "\<forall>now rnd. DecodeJSON sample_otlp (\<lambda>_. Some (json_request sample_request)) [] now rnd
     = DecodeProtobuf sample_otlp (enc_request sample_request) now rnd"
proof -
  have "request_made sample_request = sample_request"
    by (simp add: sample_request_def sample_record_def request_made_def record_made_def attrs_made_def)
  moreover have "unat (or_severity rec) \<le> 24" if "r \<in> set sample_request" "s \<in> set (snd r)" "rec \<in> set (snd s)" for r s rec
    using that by (auto simp: sample_request_def sample_record_def)
  ultimately show ?thesis
    using encodings_agree[OF sample_request_ok, of "\<lambda>_. Some (json_request sample_request)" "[]" sample_otlp] by blast
qed

text \<open>Readers advance.\<close>

lemma varint_from_shrinks: "varint_from s v b = Inr (w, r) \<Longrightarrow> length r < length b"
  by (induction s v b rule: varint_from.induct) (auto simp: Let_def split: if_split_asm)

lemma varint_shrinks: "varint b = Inr (w, r) \<Longrightarrow> length r < length b"
  unfolding varint_def by (rule varint_from_shrinks)

lemma tag_shrinks: "tag b = Inr (field, wire, r) \<Longrightarrow> length r < length b"
  by (auto simp: tag_def try_bind_def Let_def dest: varint_shrinks split: sum.split_asm if_split_asm)

lemma bytes_shrinks: "bytes b = Inr (p, r) \<Longrightarrow> length r < length b \<and> length p < length b"
  using varint_shrinks[of b] by (auto simp: bytes_def try_bind_def split: sum.split_asm if_split_asm)

lemma fixed64_shrinks: "fixed64 b = Inr (v, r) \<Longrightarrow> length r \<le> length b"
  by (auto simp: fixed64_def split: if_split_asm)

lemma skip_shrinks: "skip_field wire b = Inr r \<Longrightarrow> length r \<le> length b"
  by (auto simp: skip_field_def try_bind_def fixed32_def fixed64_def
      dest!: varint_shrinks bytes_shrinks split: sum.split_asm if_split_asm)

lemma readers_not_stuck:
  "varint_from s v b \<noteq> Inl Stuck" "tag b \<noteq> Inl Stuck" "bytes b \<noteq> Inl Stuck" "fixed64 b \<noteq> Inl Stuck" "skip_field wire b \<noteq> Inl Stuck"
proof -
  show v: "varint_from s v b \<noteq> Inl Stuck" for s v b
    by (induction s v b rule: varint_from.induct) (auto simp: Let_def)
  then show "tag b \<noteq> Inl Stuck" "bytes b \<noteq> Inl Stuck" "fixed64 b \<noteq> Inl Stuck" "skip_field wire b \<noteq> Inl Stuck"
    by (auto simp: tag_def bytes_def fixed64_def fixed32_def skip_field_def varint_def try_bind_def Let_def split: sum.split)
qed

text \<open>A step that gives back no more than it got, and never the stuck result, keeps the loop from getting stuck.\<close>

definition advances :: "'r \<Rightarrow> (nat \<Rightarrow> nat \<Rightarrow> string \<Rightarrow> 's \<Rightarrow> 'r + 's \<times> string) \<Rightarrow> bool" where
  "advances stuck step \<longleftrightarrow> (\<forall>field wire r s. step field wire r s \<noteq> Inl stuck
     \<and> (\<forall>s' r'. step field wire r s = Inr (s', r') \<longrightarrow> length r' \<le> length r))"

lemma walk_not_stuck:
  assumes "advances (bad Stuck) step" "\<And>e. bad e = bad Stuck \<Longrightarrow> e = Stuck"
  shows "walk bad step s b \<noteq> Inl (bad Stuck)"
proof (induction "length b" arbitrary: s b rule: less_induct)
  case less
  show ?case
  proof (cases "b = [] \<or> isl (tag b)")
    case True
    then show ?thesis using readers_not_stuck(2)[of b] assms(2)
      by (subst walk.simps) (auto split: sum.split)
  next
    case False
    then obtain field wire r where t: "tag b = Inr (field, wire, r)" by (cases "tag b") auto
    have a: "step field wire r s \<noteq> Inl (bad Stuck)" using assms(1) by (simp add: advances_def)
    have "length r' < length b" if "step field wire r s = Inr (s', r')" for s' r'
    proof -
      have "length r' \<le> length r" using assms(1) that by (simp add: advances_def)
      then show ?thesis using tag_shrinks[OF t] by simp
    qed
    then show ?thesis using False t a less by (subst walk.simps) (auto split: sum.split)
  qed
qed

lemma skip_step_advances:
  "skip_step id wire r s \<noteq> Inl Stuck" "skip_step id wire r s = Inr (s', r') \<Longrightarrow> length r' \<le> length r"
  "skip_step Inl wire r s \<noteq> Inl (Inl Stuck)" "skip_step Inl wire r s = Inr (s', r') \<Longrightarrow> length r' \<le> length r"
  using readers_not_stuck(5)[of wire r] by (auto simp: skip_step_def dest: skip_shrinks split: sum.split_asm)

lemma bytes_step_advances:
  "(\<And>p. f p \<noteq> Inl Stuck) \<Longrightarrow> bytes_step id f r \<noteq> Inl Stuck"
  "bytes_step id f r = Inr (s', r') \<Longrightarrow> length r' \<le> length r"
  using readers_not_stuck(3)[of r] by (auto simp: bytes_step_def dest!: bytes_shrinks split: sum.split_asm prod.split_asm)

lemmas advance_rules = skip_step_advances(1,3) bytes_step_advances(1)
lemmas shrink_rules = skip_step_advances(2,4) bytes_step_advances(2)

lemma walk_id_not_stuck:
  assumes "\<And>field wire r s. step field wire r s \<noteq> Inl Stuck"
    and "\<And>field wire r s s' r'. step field wire r s = Inr (s', r') \<Longrightarrow> length r' \<le> length r"
  shows "walk id step s b \<noteq> Inl Stuck"
  using walk_not_stuck[of id step s b] assms by (simp add: advances_def)

text \<open>A message whose fields are either skipped or handed on.\<close>

lemma walk_fields_not_stuck:
  assumes "\<And>field s p. f field s p \<noteq> Inl Stuck"
  shows "walk id (\<lambda>field wire r s. if P field wire then skip_step id wire r s else bytes_step id (f field s) r) s b \<noteq> Inl Stuck"
  by (rule walk_id_not_stuck)
    (auto intro!: advance_rules assms dest: shrink_rules split: if_split_asm)

lemma key_value_not_stuck:
  assumes "\<And>p. dec p \<noteq> Inl Stuck" shows "key_value dec depth b \<noteq> Inl Stuck"
proof -
  have "walk id (\<lambda>field wire r s. if wire \<noteq> wireBytes then skip_step id wire r s
      else bytes_step id (\<lambda>p. if field = 1 then Inr (p, snd s)
               else if field = 2 then try_bind (dec p) (\<lambda>v'. Inr (fst s, v')) else Inr s) r) ([], ANil) b \<noteq> Inl Stuck"
    by (rule walk_fields_not_stuck) (use assms in \<open>auto simp: try_bind_def split: sum.split\<close>)
  then show ?thesis by (simp add: key_value_def case_prod_unfold cong: if_cong)
qed

lemma array_values_not_stuck:
  assumes "\<And>p. dec p \<noteq> Inl Stuck" shows "array_values dec b \<noteq> Inl Stuck"
proof -
  have "walk id (\<lambda>field wire r vs. if field \<noteq> 1 \<or> wire \<noteq> wireBytes then skip_step id wire r vs
        else bytes_step id (\<lambda>p. try_bind (dec p) (\<lambda>v. Inr (vs @ [v]))) r) [] b \<noteq> Inl Stuck"
    by (rule walk_fields_not_stuck) (use assms in \<open>auto simp: try_bind_def split: sum.split\<close>)
  then show ?thesis by (auto simp: array_values_def try_bind_def split: sum.split)
qed

lemma kvlist_values_not_stuck:
  assumes "\<And>p. dec p \<noteq> Inl Stuck" shows "kvlist_values dec b \<noteq> Inl Stuck"
proof -
  have "walk id (\<lambda>field wire r m. if field \<noteq> 1 \<or> wire \<noteq> wireBytes then skip_step id wire r m
        else bytes_step id (\<lambda>p. try_bind (dec p) (\<lambda>kv. Inr (put_key kv m))) r) [] b \<noteq> Inl Stuck"
    by (rule walk_fields_not_stuck) (use assms in \<open>auto simp: try_bind_def split: sum.split\<close>)
  then show ?thesis by (auto simp: kvlist_values_def try_bind_def split: sum.split)
qed

lemma decodeAnyValue_not_stuck: "decodeAnyValue b depth \<noteq> Inl Stuck"
proof (induction "maxNestingDepth + 1 - depth" arbitrary: b depth rule: less_induct)
  case less
  show ?case
  proof (cases "depth > maxNestingDepth")
    case False
    have a: "decodeAnyValue p (depth + 2) \<noteq> Inl Stuck" "decodeAnyValue p (depth + 3) \<noteq> Inl Stuck" for p
      using False by (intro less; simp)+
    have n: "decodeArrayValue v (depth + 1) \<noteq> Inl Stuck" "decodeKvlist v (depth + 1) \<noteq> Inl Stuck" for v
      using a unfolding decodeArrayValue_def decodeKvlist_def decodeKeyValue_def
      by (auto intro!: array_values_not_stuck kvlist_values_not_stuck key_value_not_stuck simp: numeral_eq_Suc)
    have "any_step depth field wire r u \<noteq> Inl (Inl Stuck)" for field wire r u
      unfolding any_step_def by (simp add: skip_step_advances(3) n[simplified] readers_not_stuck varint_def try_bind_Inl split: prod.split)
    moreover have "length r' \<le> length r" if "any_step depth field wire r u = Inr (s', r')" for field wire r u s' r'
      using that by (auto simp: any_step_def split: if_split_asm dest: skip_step_advances(4))
    ultimately have "advances (Inl Stuck) (any_step depth)" by (simp add: advances_def)
    then have "walk Inl (any_step depth) () b \<noteq> Inl (Inl Stuck)" by (rule walk_not_stuck) simp
    then show ?thesis using False by (auto simp: decodeAnyValue_walk split: sum.split)
  qed (simp add: decodeAnyValue_walk)
qed

lemma decodeKeyValue_not_stuck: "decodeKeyValue b depth \<noteq> Inl Stuck"
  unfolding decodeKeyValue_def by (rule key_value_not_stuck) (rule decodeAnyValue_not_stuck)

lemma decodeLogRecord_not_stuck: "decodeLogRecord lib b attrs scope now ent depth \<noteq> Inl Stuck"
proof -
  have "walk id (record_step lib depth) (empty_event, no_fields) b \<noteq> Inl Stuck"
  proof (rule walk_id_not_stuck)
    fix field wire r and s :: "logevent \<times> record_fields"
    have bs: "bytes_step id f r \<noteq> Inl Stuck" if "\<And>p. f p \<noteq> Inl Stuck" for f :: "string \<Rightarrow> otlp_error + logevent \<times> record_fields"
      using bytes_step_advances(1)[OF that] .
    show "record_step lib depth field wire r s \<noteq> Inl Stuck"
      using skip_step_advances(1)[of wire r s] readers_not_stuck(1)[of 0 0 r] readers_not_stuck(4)[of r]
      by (cases s) (auto simp: record_step_def try_bind_Inl decodeAnyValue_not_stuck decodeKeyValue_not_stuck varint_def
          split: if_split_asm elim!: notE[OF bs, rotated])
  next
    fix field wire r s s' r'
    assume "record_step lib depth field wire r s = Inr (s', r')"
    then show "length r' \<le> length r"
      by (cases s) (auto simp: record_step_def try_bind_def split: if_split_asm sum.split_asm
          dest: shrink_rules fixed64_shrinks varint_shrinks)
  qed
  then show ?thesis by (auto simp: decodeLogRecord_def try_bind_Inl)
qed

lemma decode_records_not_stuck:
  "(\<And>b ent. dec b ent \<noteq> Inl Stuck) \<Longrightarrow> decode_records dec rnd bs i \<noteq> Inl Stuck"
  by (induction bs arbitrary: i) (auto simp: try_bind_Inl)

lemma decodeScopeLogs_not_stuck: "decodeScopeLogs lib b attrs now rnd i depth \<noteq> Inl Stuck"
proof -
  have "walk id (\<lambda>field wire r s. if wire \<noteq> wireBytes then skip_step id wire r s
             else bytes_step id (\<lambda>p.
               if field = 1 then Inr (decodeScopeName p, snd s)
               else if field = 2 then Inr (fst s, snd s @ [p])
               else Inr s) r) ([], []) b \<noteq> Inl Stuck"
    by (rule walk_fields_not_stuck) simp
  moreover have "decode_records (\<lambda>p ent. decodeLogRecord lib p attrs sn now ent (depth + 1)) rnd recs i \<noteq> Inl Stuck" for sn recs
    by (rule decode_records_not_stuck) (rule decodeLogRecord_not_stuck)
  ultimately show ?thesis
    by (auto simp: decodeScopeLogs_def try_bind_Inl case_prod_unfold cong: if_cong)
qed

lemma decodeResource_not_stuck: "decodeResource b attrs depth \<noteq> Inl Stuck"
proof -
  have "walk id (\<lambda>field wire r m. if field \<noteq> 1 \<or> wire \<noteq> wireBytes then skip_step id wire r m
        else bytes_step id (\<lambda>p. try_bind (decodeKeyValue p (depth + 1)) (\<lambda>kv. Inr (put_key kv m))) r) attrs b \<noteq> Inl Stuck"
    by (rule walk_fields_not_stuck) (simp add: try_bind_Inl decodeKeyValue_not_stuck del: One_nat_def add_Suc_right Suc_eq_plus1)
  then show ?thesis by (simp add: decodeResource_def)
qed

lemma decode_scopes_not_stuck: "(\<And>b i. dec b i \<noteq> Inl Stuck) \<Longrightarrow> decode_scopes dec bs i \<noteq> Inl Stuck"
  by (induction bs arbitrary: i) (auto simp: try_bind_Inl)

lemma decodeResourceLogs_not_stuck: "decodeResourceLogs lib b now rnd i depth \<noteq> Inl Stuck"
proof -
  have "walk id (\<lambda>field wire r s. if wire \<noteq> wireBytes then skip_step id wire r s
             else bytes_step id (\<lambda>p.
               if field = 1 then try_bind (decodeResource p (fst s) (depth + 1)) (\<lambda>attrs'. Inr (attrs', snd s))
               else if field = 2 then Inr (fst s, snd s @ [p])
               else Inr s) r) ([], []) b \<noteq> Inl Stuck"
    by (rule walk_fields_not_stuck) (simp add: try_bind_Inl decodeResource_not_stuck)
  moreover have "decode_scopes (\<lambda>p j. decodeScopeLogs lib p attrs now rnd j (depth + 1)) ss i \<noteq> Inl Stuck" for attrs ss
    by (rule decode_scopes_not_stuck) (rule decodeScopeLogs_not_stuck)
  ultimately show ?thesis
    by (auto simp: decodeResourceLogs_def try_bind_Inl case_prod_unfold cong: if_cong)
qed

text \<open>C23. Decoding ends, on any bytes: every turn of every loop takes something off the message, so no
  decoder is ever stuck, and nested values are given up at a depth of 16 whatever the message says.
\<close>

theorem decoding_ends:
  "DecodeProtobuf lib b now rnd \<noteq> Inl Stuck \<and> (maxNestingDepth < depth \<longrightarrow> decodeAnyValue b depth = Inl ValueTooDeep)"
proof -
  have "DecodeProtobuf lib b now rnd \<noteq> Inl Stuck"
    unfolding DecodeProtobuf_def
    by (rule walk_fields_not_stuck) (simp add: try_bind_Inl decodeResourceLogs_not_stuck)
  then show ?thesis by (simp add: decodeAnyValue_walk)
qed

theorem decoding_ends_witness: "DecodeProtobuf sample_otlp [CHR 0xFF] 0 (\<lambda>_. []) \<noteq> Inl Stuck \<and> decodeAnyValue [] 17 = Inl ValueTooDeep"
  using decoding_ends[of sample_otlp "[CHR 0xFF]" 0 "\<lambda>_. []" 17] decoding_ends[of sample_otlp "[]" 0 "\<lambda>_. []" 17]
  by (simp add: maxNestingDepth_def)

text \<open>A varint of ten bytes loses the bits of its last byte beyond the 64th: not every overflow is reported.\<close>

lemma varint_overflow_unreported:
  "varint [CHR 0xFF, CHR 0xFF, CHR 0xFF, CHR 0xFF, CHR 0xFF, CHR 0xFF, CHR 0xFF, CHR 0xFF, CHR 0xFF, CHR 0x7F]
   = varint [CHR 0xFF, CHR 0xFF, CHR 0xFF, CHR 0xFF, CHR 0xFF, CHR 0xFF, CHR 0xFF, CHR 0xFF, CHR 0xFF, CHR 0x01]"
  by (simp add: varint_def Let_def)

end
