(* ===== verification/OtlpServe.thy ===== *)
theory OtlpServe
  imports Otlp
begin

text \<open>
  \<^verbatim>\<open>src/internal/otlp/handler.go\<close> and \<^verbatim>\<open>grpc.go\<close>: the two front ends of the OTLP receiver.
  A request is what of it the code looks at; its body is the bytes the client sends and whether
  they end cleanly.  gzip is a parameter.  The sink is a step of a state.
\<close>

section \<open>HTTP\<close>

definition maxBodyBytes :: nat where "maxBodyBytes = 32 * 2 ^ 20"

text \<open>
  Reading a gzip stream to its end, or up to a limit: of the bytes of the source, whether these end
  without an error, and the limit.  \<open>None\<close> if there is no gzip header; otherwise the bytes read and how
  reading ended: at the limit or a clean end (behind a complete stream, with nothing but complete ones
  after it), at a fault of the stream, or at the error of the source.
\<close>

datatype gz_end = GzEOF | GzCorrupt | GzSource

type_synonym gunzip = "string \<Rightarrow> bool \<Rightarrow> nat \<Rightarrow> (string \<times> gz_end) option"
type_synonym 'k sink = "'k \<Rightarrow> logevent \<Rightarrow> bool \<times> 'k"

datatype otlp_read_error = BodyTooLarge | InvalidGzip | BodyUnreadable

text \<open>
  \<^verbatim>\<open>MaxBytesReader\<close> lets \<open>maxBodyBytes\<close> through and then fails; the limit on what is expanded ends
  the stream without an error.
\<close>

definition readBody :: "gunzip \<Rightarrow> string \<Rightarrow> string \<Rightarrow> bool \<Rightarrow> otlp_read_error + string" where
  "readBody gz encoding body ok =
     (let wire = take maxBodyBytes body; over = length body > maxBodyBytes
      in if equal_fold encoding ''gzip'' then
           (case gz wire (ok \<and> \<not> over) maxBodyBytes of
              None \<Rightarrow> Inl InvalidGzip
            | Some (out, e) \<Rightarrow>
                if e = GzEOF then Inr out
                else if e = GzSource \<and> over then Inl BodyTooLarge else Inl BodyUnreadable)
         else if over then Inl BodyTooLarge
         else if ok then Inr body else Inl BodyUnreadable)"

definition statusForReadError :: "otlp_read_error \<Rightarrow> nat" where
  "statusForReadError e = (if e = BodyTooLarge then 413 else 400)"

definition read_error_text :: "otlp_read_error \<Rightarrow> string" where
  "read_error_text e = (case e of
     BodyTooLarge \<Rightarrow> ''otlp: request body too large'' | InvalidGzip \<Rightarrow> ''otlp: invalid gzip body''
   | BodyUnreadable \<Rightarrow> ''otlp: could not read the request body'')"

text \<open>The message of a decoding error; \<open>je\<close> is that of \<^verbatim>\<open>json.Unmarshal\<close>.\<close>

definition otlp_error_text :: "string \<Rightarrow> otlp_error \<Rightarrow> string" where
  "otlp_error_text je e = (case e of
     TruncatedVarint \<Rightarrow> ''otlp: truncated varint''
   | VarintOverflow \<Rightarrow> ''otlp: varint overflows 64 bits''
   | InvalidField n \<Rightarrow> ''otlp: invalid field number '' @ show_nat n
   | PastEnd \<Rightarrow> ''otlp: length-delimited field runs past the end of the message''
   | Truncated64 \<Rightarrow> ''otlp: truncated 64-bit field''
   | Truncated32 \<Rightarrow> ''otlp: truncated 32-bit field''
   | UnsupportedWire n \<Rightarrow> ''otlp: unsupported wire type '' @ show_nat n
   | TooDeep \<Rightarrow> ''otlp: message nests too deeply''
   | ValueTooDeep \<Rightarrow> ''otlp: value nests too deeply''
   | BadJSON \<Rightarrow> ''otlp: invalid JSON: '' @ je
   | Stuck \<Rightarrow> [])"

fun sink_events :: "'k sink \<Rightarrow> logevent list \<Rightarrow> 'k \<Rightarrow> nat \<times> 'k" where
  "sink_events snk [] k = (0, k)"
| "sink_events snk (e # es) k =
     (case snk k e of (accepted, k1) \<Rightarrow>
        (case sink_events snk es k1 of (rejected, k2) \<Rightarrow> ((if accepted then rejected else Suc rejected), k2)))"

datatype http_reply = HttpError nat string | Export nat "(nat \<times> string) option"

record http_request =
  hq_content_type :: string
  hq_encoding :: string
  hq_body :: string
  hq_body_ok :: bool

record otlp_env =
  oe_lib :: otlp_lib
  oe_unmarshal :: "string \<Rightarrow> jsonLogsData option"
  oe_json_error :: "string \<Rightarrow> string"
  oe_gunzip :: gunzip
  oe_now :: time
  oe_rnd :: "nat \<Rightarrow> byte list"

definition Otlp_Handler :: "otlp_env \<Rightarrow> 'k sink \<Rightarrow> http_request \<Rightarrow> 'k \<Rightarrow> http_reply \<times> 'k" where
  "Otlp_Handler env snk rq k =
     (case readBody (oe_gunzip env) (hq_encoding rq) (hq_body rq) (hq_body_ok rq) of
        Inl e \<Rightarrow> (HttpError (statusForReadError e) (read_error_text e), k)
      | Inr body \<Rightarrow>
          (case (if sublist ''application/json'' (hq_content_type rq)
                 then DecodeJSON (oe_lib env) (oe_unmarshal env) body (oe_now env) (oe_rnd env)
                 else DecodeProtobuf (oe_lib env) body (oe_now env) (oe_rnd env)) of
             Inl e \<Rightarrow> (Export 400 (Some (0, otlp_error_text (oe_json_error env body) e)), k)
           | Inr events \<Rightarrow>
               (case sink_events snk events k of
                  (rejected, k') \<Rightarrow>
                    (Export 200 (if rejected > 0 then Some (rejected, ''ingest buffer full'') else None), k'))))"

section \<open>gRPC framing\<close>

definition LogsServiceExportMethod :: string where
  "LogsServiceExportMethod = ''/opentelemetry.proto.collector.logs.v1.LogsService/Export''"

definition codeOK :: nat where "codeOK = 0"
definition codeInvalidArgument :: nat where "codeInvalidArgument = 3"
definition codeResourceExhausted :: nat where "codeResourceExhausted = 8"
definition codeUnimplemented :: nat where "codeUnimplemented = 12"
definition codeInternal :: nat where "codeInternal = 13"
definition codeUnauthenticated :: nat where "codeUnauthenticated = 16"

lemmas grpc_codes = codeOK_def codeInvalidArgument_def codeResourceExhausted_def codeUnimplemented_def
  codeInternal_def codeUnauthenticated_def

definition maxRecvMsgBytes :: nat where "maxRecvMsgBytes = maxBodyBytes"
definition frameHeaderLen :: nat where "frameHeaderLen = 5"

text \<open>A gRPC status, or a failure of the transport.\<close>

datatype recv_error = RecvError nat string | Transport

fun be_nat :: "string \<Rightarrow> nat \<Rightarrow> nat" where
  "be_nat [] acc = acc"
| "be_nat (c # cs) acc = be_nat cs (acc * 256 + of_char c)"

text \<open>\<open>quote\<close> is the formatting of a string by \<^verbatim>\<open>%q\<close>.\<close>

definition decompressFrame :: "gunzip \<Rightarrow> (string \<Rightarrow> string) \<Rightarrow> string \<Rightarrow> string \<Rightarrow> recv_error + string" where
  "decompressFrame gz quote msg encoding =
     (if \<not> equal_fold encoding ''gzip'' then
        Inl (RecvError codeUnimplemented (''grpc-encoding '' @ quote encoding @ '' is not supported; use identity or gzip''))
      else case gz msg True (maxRecvMsgBytes + 1) of
        None \<Rightarrow> Inl (RecvError codeInvalidArgument ''message is flagged compressed but is not valid gzip'')
      | Some (out, e) \<Rightarrow>
          if e \<noteq> GzEOF then Inl (RecvError codeInvalidArgument ''could not decompress the message'')
          else if length out > maxRecvMsgBytes then
            Inl (RecvError codeResourceExhausted ''decompressed message exceeds the size limit'')
          else Inr out)"

definition frame_body :: "gunzip \<Rightarrow> (string \<Rightarrow> string) \<Rightarrow> string \<Rightarrow> nat \<Rightarrow> string \<Rightarrow> recv_error + string" where
  "frame_body gz quote encoding compressed msg =
     (if compressed = 0 then Inr msg
      else if compressed = 1 then decompressFrame gz quote msg encoding
      else Inl (RecvError codeInvalidArgument (''invalid compressed-flag '' @ show_nat compressed)))"

text \<open>The loop over the limited stream; \<open>clean\<close> tells that it ends with \<^verbatim>\<open>io.EOF\<close>.\<close>

function read_frames :: "gunzip \<Rightarrow> (string \<Rightarrow> string) \<Rightarrow> string \<Rightarrow> bool \<Rightarrow> string \<Rightarrow> recv_error + string list" where
  "read_frames gz quote encoding clean s =
     (if s = [] then (if clean then Inr [] else Inl Transport)
      else if length s < frameHeaderLen then
        (if clean then Inl (RecvError codeInvalidArgument ''truncated gRPC frame header'') else Inl Transport)
      else
        (let compressed = of_char (hd s); len = be_nat (take 4 (tl s)) 0; rest = drop frameHeaderLen s
         in if len > maxRecvMsgBytes then
              Inl (RecvError codeResourceExhausted (''message of '' @ show_nat len @ '' bytes exceeds the ''
                @ show_nat maxRecvMsgBytes @ '' byte limit''))
            else if length rest < len then Inl (RecvError codeInvalidArgument ''truncated gRPC message body'')
            else try_bind (frame_body gz quote encoding compressed (take len rest)) (\<lambda>msg.
                 try_bind (read_frames gz quote encoding clean (drop len rest)) (\<lambda>msgs. Inr (msg # msgs)))))"
  by pat_completeness auto
termination
  by (relation "measure (\<lambda>(_, _, _, _, s). length s)") (auto simp: frameHeaderLen_def)

declare read_frames.simps [simp del]

definition readFrames :: "gunzip \<Rightarrow> (string \<Rightarrow> string) \<Rightarrow> string \<Rightarrow> bool \<Rightarrow> string \<Rightarrow> recv_error + string list" where
  "readFrames gz quote body ok encoding =
     (let lim = maxRecvMsgBytes + frameHeaderLen
      in read_frames gz quote encoding (ok \<or> length body \<ge> lim) (take lim body))"

section \<open>gRPC replies\<close>

definition hexdigits :: string where "hexdigits = ''0123456789ABCDEF''"

definition percentEncode :: "string \<Rightarrow> string" where
  "percentEncode s = concat (map (\<lambda>c. let b = of_char c :: nat in
     if 0x20 \<le> b \<and> b \<le> 0x7E \<and> c \<noteq> CHR ''%'' then [c]
     else [CHR ''%'', hexdigits ! (b div 16), hexdigits ! (b mod 16)]) s)"

function itoa_loop :: "nat \<Rightarrow> string \<Rightarrow> string" where
  "itoa_loop n acc = (if n > 0 then itoa_loop (n div 10) (char_of (48 + n mod 10) # acc) else acc)"
  by pat_completeness auto
termination by (relation "measure fst") auto

declare itoa_loop.simps [simp del]

text \<open>The digits go into a buffer of four bytes; with more of them it panics (\<open>None\<close>).\<close>

definition itoa :: "nat \<Rightarrow> string option" where
  "itoa n = (if n = 0 then Some ''0'' else let s = itoa_loop n [] in if length s \<le> 4 then Some s else None)"

definition be_bytes :: "nat \<Rightarrow> string" where
  "be_bytes n = map (\<lambda>k. char_of (n div 256 ^ k mod 256)) [3, 2, 1, 0]"

text \<open>A response: the HTTP status, the bytes of the message, and the trailers.\<close>

datatype grpc_reply = GrpcRefused nat string | GrpcReply "string option" string "string option"

text \<open>The codes written are the constants above, so \<^verbatim>\<open>itoa\<close> never panics here (\<open>status_codes_fit\<close>).\<close>

definition setGRPCTrailer :: "nat \<Rightarrow> string \<Rightarrow> string \<times> string option" where
  "setGRPCTrailer code msg = (the (itoa code), if msg \<noteq> [] then Some (percentEncode msg) else None)"

definition writeGRPCStatus :: "nat \<Rightarrow> string \<Rightarrow> grpc_reply" where
  "writeGRPCStatus code msg = (case setGRPCTrailer code msg of (st, m) \<Rightarrow> GrpcReply None st m)"

definition writeGRPCMessage :: "string \<Rightarrow> string" where
  "writeGRPCMessage msg = CHR 0x00 # be_bytes (length msg) @ msg"

definition encodeExportResponse :: "nat \<Rightarrow> string \<Rightarrow> string" where
  "encodeExportResponse rejected errMsg =
     (if rejected = 0 then []
      else let i1 = appendVarint (appendTag [] 1 wireVarint) (word_of_nat rejected);
               inner = (if errMsg \<noteq> [] then appendVarint (appendTag i1 2 wireBytes) (word_of_nat (length errMsg)) @ errMsg else i1)
           in appendVarint (appendTag [] 1 wireBytes) (word_of_nat (length inner)) @ inner)"

record grpc_request =
  gq_proto :: nat
  gq_method :: string
  gq_content_type :: string
  gq_path :: string
  gq_api_key :: string
  gq_authorization :: string
  gq_encoding :: string
  gq_body :: string
  gq_body_ok :: bool

definition provided_key :: "grpc_request \<Rightarrow> string" where
  "provided_key rq =
     (if gq_api_key rq = [] then
        (if length (gq_authorization rq) > 7 \<and> equal_fold (take 7 (gq_authorization rq)) ''bearer ''
         then drop 7 (gq_authorization rq) else [])
      else gq_api_key rq)"

text \<open>\<open>None\<close>: no key function.\<close>

definition grpcAuthorized :: "grpc_request \<Rightarrow> string list option \<Rightarrow> bool" where
  "grpcAuthorized rq keys =
     (case keys of None \<Rightarrow> True | Some valid \<Rightarrow> valid = [] \<or> list_ex (\<lambda>k. provided_key rq = k) valid)"

text \<open>The frames one after the other: how many records were refused, or the error of the first bad frame.\<close>

fun export_frames :: "otlp_env \<Rightarrow> 'k sink \<Rightarrow> string list \<Rightarrow> nat \<Rightarrow> 'k \<Rightarrow> (otlp_error + nat) \<times> 'k" where
  "export_frames env snk [] i k = (Inr 0, k)"
| "export_frames env snk (f # fs) i k =
     (case DecodeProtobuf (oe_lib env) f (oe_now env) (\<lambda>j. oe_rnd env (i + j)) of
        Inl e \<Rightarrow> (Inl e, k)
      | Inr events \<Rightarrow>
          (case sink_events snk events k of
             (r1, k1) \<Rightarrow> (case export_frames env snk fs (i + length events) k1 of
                (Inl e, k2) \<Rightarrow> (Inl e, k2)
              | (Inr r2, k2) \<Rightarrow> (Inr (r1 + r2), k2))))"

definition GRPCHandler :: "otlp_env \<Rightarrow> (string \<Rightarrow> string) \<Rightarrow> string list option \<Rightarrow> 'k sink \<Rightarrow> grpc_request \<Rightarrow> 'k \<Rightarrow> grpc_reply \<times> 'k" where
  "GRPCHandler env quote keys snk rq k =
     (if gq_proto rq \<noteq> 2 then
        (GrpcRefused 505 ''gRPC requires HTTP/2; this port speaks h2c (cleartext HTTP/2) or HTTP/2 over TLS'', k)
      else if gq_method rq \<noteq> ''POST'' then (writeGRPCStatus codeUnimplemented ''gRPC calls are POST'', k)
      else if \<not> prefix ''application/grpc'' (gq_content_type rq) then
        (GrpcRefused 415 ''expected content-type application/grpc'', k)
      else if gq_path rq \<noteq> LogsServiceExportMethod then
        (writeGRPCStatus codeUnimplemented (''unknown method '' @ gq_path rq), k)
      else if \<not> grpcAuthorized rq keys then
        (writeGRPCStatus codeUnauthenticated ''invalid or missing ingest key'', k)
      else case readFrames (oe_gunzip env) quote (gq_body rq) (gq_body_ok rq) (gq_encoding rq) of
        Inl (RecvError code msg) \<Rightarrow> (writeGRPCStatus code msg, k)
      | Inl Transport \<Rightarrow> (writeGRPCStatus codeInternal ''could not read the request stream'', k)
      | Inr frames \<Rightarrow>
          (case export_frames env snk frames 0 k of
             (Inl e, k') \<Rightarrow> (writeGRPCStatus codeInvalidArgument (otlp_error_text [] e), k')
           | (Inr rejected, k') \<Rightarrow>
               (case setGRPCTrailer codeOK [] of
                  (st, m) \<Rightarrow> (GrpcReply (Some (writeGRPCMessage (encodeExportResponse rejected ''ingest buffer full''))) st m, k'))))"

section \<open>Frames\<close>

lemma be_bytes_length [simp]: "length (be_bytes n) = 4"
  by (simp add: be_bytes_def)

lemma be_nat_bytes: "n < 2 ^ 32 \<Longrightarrow> be_nat (be_bytes n) 0 = n"
proof -
  assume n: "n < 2 ^ 32"
  have "n div 256 div 256 = n div 65536" "n div 65536 div 256 = n div 16777216"
    by (simp_all add: div_mult2_eq[symmetric])
  then have "n div 16777216 * 16777216 + n div 65536 mod 256 * 65536 + n div 256 mod 256 * 256 + n mod 256 = n"
    using div_mult_mod_eq[of n 256] div_mult_mod_eq[of "n div 256" 256] div_mult_mod_eq[of "n div 65536" 256] by linarith
  moreover have "n div 16777216 mod 256 = n div 16777216" using n by (simp add: less_mult_imp_div_less)
  ultimately show ?thesis by (simp add: be_bytes_def mult.commute add.commute)
qed

lemma read_frame:
  assumes "length m \<le> maxRecvMsgBytes"
  shows "read_frames gz quote encoding clean (writeGRPCMessage m @ s)
    = try_bind (read_frames gz quote encoding clean s) (\<lambda>ms. Inr (m # ms))"
proof -
  have "length m < 2 ^ 32" using assms by (simp add: maxRecvMsgBytes_def maxBodyBytes_def)
  then show ?thesis
    using assms by (subst read_frames.simps)
      (simp add: writeGRPCMessage_def frameHeaderLen_def be_nat_bytes frame_body_def)
qed

lemma read_frames_all:
  "(\<And>m. m \<in> set ms \<Longrightarrow> length m \<le> maxRecvMsgBytes) \<Longrightarrow>
   read_frames gz quote encoding True (concat (map writeGRPCMessage ms)) = Inr ms"
  by (induction ms) (simp_all add: read_frame read_frames.simps[of _ _ _ _ "[]"])

lemma readFrames_messages:
  assumes "list_all (\<lambda>m. length m \<le> maxRecvMsgBytes) ms"
    and "length (concat (map writeGRPCMessage ms)) \<le> maxRecvMsgBytes + frameHeaderLen"
  shows "readFrames gz quote (concat (map writeGRPCMessage ms)) True encoding = Inr ms"
  using assms by (simp add: readFrames_def read_frames_all list_all_iff)

text \<open>C26. Framing is lossless: messages written one after the other the way a client frames them are
  read back as they were, all of them and in order, as long as the stream stays within the limit.
\<close>

theorem grpc_frames_roundtrip:
  assumes "list_all (\<lambda>m. length m \<le> maxRecvMsgBytes) ms"
    and "length (concat (map writeGRPCMessage ms)) \<le> maxRecvMsgBytes + frameHeaderLen"
  shows "readFrames gz quote (concat (map writeGRPCMessage ms)) True encoding = Inr ms"
  using assms by (rule readFrames_messages)

theorem grpc_frames_roundtrip_witness:
  "readFrames (\<lambda>_ _ _. None) (\<lambda>s. s) (writeGRPCMessage ''ab'' @ writeGRPCMessage []) True [] = Inr [''ab'', []]"
  using grpc_frames_roundtrip[of "[''ab'', []]" "\<lambda>_ _ _. None" "\<lambda>s. s" "[]"]
  by (simp add: maxRecvMsgBytes_def maxBodyBytes_def frameHeaderLen_def writeGRPCMessage_def)

text \<open>
  What lies beyond the limit on the stream can vanish without an error: a first message of
  exactly the greatest size uses the limit up, and whatever follows it, whole messages or rubbish,
  is not looked at and the call succeeds.
\<close>

theorem frames_beyond_limit_vanish:
  assumes "length m = maxRecvMsgBytes"
  shows "readFrames gz quote (writeGRPCMessage m @ rest) ok encoding = Inr [m]"
proof -
  have "length (writeGRPCMessage m) = maxRecvMsgBytes + frameHeaderLen"
    by (simp add: writeGRPCMessage_def frameHeaderLen_def assms)
  then show ?thesis
    using assms read_frame[of m gz quote encoding True "[]"]
    by (simp add: readFrames_def read_frames.simps[of _ _ _ _ "[]"])
qed

theorem frames_beyond_limit_vanish_witness:
  "readFrames (\<lambda>_ _ _. None) (\<lambda>s. s) (writeGRPCMessage (replicate maxRecvMsgBytes CHR ''a'') @ writeGRPCMessage ''lost'') True []
     = Inr [replicate maxRecvMsgBytes CHR ''a'']"
  by (rule frames_beyond_limit_vanish) simp

section \<open>Replies\<close>

lemma itoa_loop_show: "0 < n \<Longrightarrow> itoa_loop n acc = show_nat n @ acc"
proof (induction n arbitrary: acc rule: less_induct)
  case (less n)
  have d: "char_of (48 + n mod 10) = digit_char (n mod 10)" by (simp add: digit_char_def)
  show ?case
  proof (cases "n < 10")
    case True
    then show ?thesis using less.prems d
      by (subst itoa_loop.simps, subst itoa_loop.simps) (simp add: show_nat.simps)
  next
    case False
    then show ?thesis using less d
      by (subst itoa_loop.simps, subst show_nat.simps) simp
  qed
qed

lemma four_digits: "length (show_nat n) \<le> 4 \<longleftrightarrow> n < 10000"
proof -
  have step: "length (show_nat n) = (if n < 10 then 1 else Suc (length (show_nat (n div 10))))" for n
    by (subst show_nat.simps) simp
  have "length (show_nat n) \<le> Suc k \<longleftrightarrow> n < 10 ^ Suc k" for k
  proof (induction k arbitrary: n)
    case 0
    have "show_nat m \<noteq> []" for m using show_nat_hd[of m] by (metis list.distinct(1))
    then show ?case using step[of n] by simp
  next
    case (Suc k)
    have "n < 10 \<Longrightarrow> n < 10 ^ Suc (Suc k)" by (rule less_le_trans[of _ 10]) simp_all
    moreover have "n div 10 < 10 ^ Suc k \<longleftrightarrow> n < 10 ^ Suc (Suc k)" by (simp add: div_less_iff_less_mult mult.commute)
    ultimately show ?case using step[of n] Suc.IH[of "n div 10"] by simp
  qed
  from this[of 3] show ?thesis by simp
qed

lemma itoa_show: "itoa n = (if n < 10000 then Some (show_nat n) else None)"
proof (cases "n = 0")
  case True
  then show ?thesis
    by (simp add: itoa_def show_nat.simps digit_char_def char_of_eq_iff eq_commute[of "CHR ''0''"])
next
  case False
  then show ?thesis using four_digits[of n] by (simp add: itoa_def itoa_loop_show)
qed

lemma status_codes_fit:
  "code \<in> {codeOK, codeInvalidArgument, codeResourceExhausted, codeUnimplemented, codeInternal, codeUnauthenticated}
     \<Longrightarrow> itoa code = Some (show_nat code)"
  by (auto simp: itoa_show grpc_codes)

text \<open>A reader of a \<^verbatim>\<open>grpc-message\<close>, for the property below.\<close>

definition hex_val :: "char \<Rightarrow> nat" where
  "hex_val c = (if is_digit c then of_char c - 48 else of_char c - 55)"

fun percent_decode :: "string \<Rightarrow> string" where
  "percent_decode (c # a # b # s) =
     (if c = CHR ''%'' then char_of (hex_val a * 16 + hex_val b) # percent_decode s else c # percent_decode (a # b # s))"
| "percent_decode s = s"

lemma percent_decode_plain: "c \<noteq> CHR ''%'' \<Longrightarrow> percent_decode (c # s) = c # percent_decode s"
proof -
  assume c: "c \<noteq> CHR ''%''"
  show ?thesis using c by (cases s rule: percent_decode.cases) auto
qed

lemma hexdigit_val: "n < 16 \<Longrightarrow> hex_val (hexdigits ! n) = n \<and> (let b = of_char (hexdigits ! n) :: nat in 0x20 \<le> b \<and> b \<le> 0x7E)"
proof -
  have "\<forall>n \<in> set [0..<16]. hex_val (hexdigits ! n) = n \<and> (let b = of_char (hexdigits ! n) :: nat in 0x20 \<le> b \<and> b \<le> 0x7E)"
    by (simp add: upt_rec numeral_eq_Suc hexdigits_def hex_val_def is_digit_def)
  then show "n < 16 \<Longrightarrow> ?thesis" by simp
qed

lemma high_nibble: "of_char c div 16 < (16 :: nat)"
  by (rule less_mult_imp_div_less) simp

lemma percentEncode_Nil [simp]: "percentEncode [] = []"
  by (simp add: percentEncode_def)

lemma percentEncode_Cons:
  "percentEncode (c # s) = (if 0x20 \<le> (of_char c :: nat) \<and> (of_char c :: nat) \<le> 0x7E \<and> c \<noteq> CHR ''%'' then [c]
     else [CHR ''%'', hexdigits ! (of_char c div 16), hexdigits ! (of_char c mod 16)]) @ percentEncode s"
  by (simp add: percentEncode_def Let_def)

lemma percent_decode_encode: "percent_decode (percentEncode s) = s"
proof (induction s)
  case (Cons c s)
  have h: "hex_val (hexdigits ! (of_char c div 16)) = of_char c div 16" "hex_val (hexdigits ! (of_char c mod 16)) = of_char c mod 16"
    using hexdigit_val[OF high_nibble[of c]] hexdigit_val[of "of_char c mod 16"] by auto
  show ?case
    using Cons by (simp add: percentEncode_Cons percent_decode_plain h)
qed simp

definition printable :: "char \<Rightarrow> bool" where
  "printable c \<longleftrightarrow> 0x20 \<le> (of_char c :: nat) \<and> (of_char c :: nat) \<le> 0x7E"

lemma percentEncode_printable: "list_all printable (percentEncode s)"
proof (induction s)
  case (Cons d s)
  have "printable (hexdigits ! n)" if "n < 16" for n
    using hexdigit_val[OF that] by (simp add: printable_def Let_def)
  from this[OF high_nibble[of d]] this[of "of_char d mod 16"] Cons show ?case
    by (simp add: percentEncode_Cons) (simp add: printable_def)
qed simp

text \<open>
  A status always reaches the client as it is: its message, which may hold any bytes, is written
  in printable ASCII only and decodes to the message, and its code, of at most four digits, is
  written in decimal.
\<close>

theorem grpc_trailer_exact:
  assumes "code < 10000"
  shows "case setGRPCTrailer code msg of (st, m) \<Rightarrow> st = show_nat code \<and> (case m of None \<Rightarrow> [] | Some t \<Rightarrow> percent_decode t) = msg
     \<and> list_all printable (case m of None \<Rightarrow> [] | Some t \<Rightarrow> t)"
  using assms by (simp add: setGRPCTrailer_def itoa_show percent_decode_encode percentEncode_printable)

text \<open>What a client reads from a response: the number of records refused.\<close>

definition partial_success :: "string \<Rightarrow> otlp_error + nat" where
  "partial_success b = walk id (\<lambda>field wire r n.
     if field = 1 \<and> wire = wireVarint then (case varint r of Inl e \<Rightarrow> Inl e | Inr (v, r') \<Rightarrow> Inr (unat v, r'))
     else skip_step id wire r n) 0 b"

definition export_response :: "string \<Rightarrow> otlp_error + nat" where
  "export_response b = walk id (\<lambda>field wire r n.
     if field = 1 \<and> wire = wireBytes then bytes_step id partial_success r else skip_step id wire r n) 0 b"

lemma enc_varint_length: "n < 128 ^ k \<Longrightarrow> 0 < k \<Longrightarrow> length (enc_varint n) \<le> k"
proof (induction k arbitrary: n)
  case (Suc k)
  show ?case
  proof (cases "n < 128")
    case False
    with Suc.prems have "k > 0" by (cases k) auto
    moreover have "n div 128 < 128 ^ k" using Suc.prems by (simp add: less_mult_imp_div_less mult.commute)
    ultimately show ?thesis using Suc.IH False by (subst enc_varint.simps) simp
  qed (subst enc_varint.simps, simp)
qed simp

lemma encodeExportResponse_enc:
  assumes "0 < rejected" "rejected < 2 ^ 64" "length msg < 2 ^ 63" "msg \<noteq> []"
  shows "encodeExportResponse rejected msg = enc_bytes 1 (enc_uint 1 (word_of_nat rejected) @ enc_bytes 2 msg)"
    and "length (enc_uint 1 (word_of_nat rejected) @ enc_bytes 2 msg) < 2 ^ 64"
proof -
  have v: "length (enc_varint n) \<le> 10" if "n < 2 ^ 64" for n
    using that enc_varint_length[of n 10] by simp
  have u: "unat (word_of_nat rejected :: 64 word) = rejected" using assms by (simp add: unat_small)
  have "length (enc_uint 1 (word_of_nat rejected)) \<le> 20" "length (enc_bytes 2 msg) \<le> 20 + length msg"
    using v[of 8] v[of rejected] v[of 18] v[of "length msg"] assms(2,3) u
    by (simp_all add: enc_uint_def enc_bytes_def enc_tag_def)
  then show l: "length (enc_uint 1 (word_of_nat rejected) @ enc_bytes 2 msg) < 2 ^ 64" using assms(3) by simp
  have "appendVarint (appendTag (appendVarint (appendTag [] 1 wireVarint) (word_of_nat rejected)) 2 wireBytes) (word_of_nat (length msg)) @ msg
      = enc_uint 1 (word_of_nat rejected) @ enc_bytes 2 msg"
    using assms u by (simp add: appendTag_enc appendVarint_enc enc_uint_def enc_bytes_def)
  then show "encodeExportResponse rejected msg = enc_bytes 1 (enc_uint 1 (word_of_nat rejected) @ enc_bytes 2 msg)"
    using assms(1,4) appendVarint_enc[OF l]
    by (simp only: encodeExportResponse_def Let_def if_False if_True) (simp add: appendTag_enc enc_bytes_def)
qed

text \<open>
  The answer says exactly how many records were refused: a client reads back from the response
  the number the handler counted, none for the empty message of full success.
\<close>

theorem export_response_roundtrip:
  assumes "rejected < 2 ^ 64" "length msg < 2 ^ 63" "msg \<noteq> []"
  shows "export_response (encodeExportResponse rejected msg) = Inr rejected"
proof (cases "rejected = 0")
  case False
  let ?w = "word_of_nat rejected :: 64 word"
  have n: "0 < rejected" using False by simp
  have "partial_success (enc_uint 1 ?w @ enc_bytes 2 msg) = Inr rejected"
  proof -
    let ?step = "\<lambda>field wire r n. if field = 1 \<and> wire = wireVarint
        then (case varint r of Inl e \<Rightarrow> Inl e | Inr (v, r') \<Rightarrow> Inr (unat v, r')) else skip_step id wire r n"
    have "walk id ?step 0 (enc_tag 1 0 @ enc_varint rejected @ enc_bytes 2 msg) = walk id ?step rejected (enc_bytes 2 msg)"
      by (rule walk_go) (use assms in \<open>simp_all add: varint_enc unat_small\<close>)
    also have "\<dots> = Inr rejected"
      using walk_bytes[of 2 msg ?step "[]" rejected rejected id] assms
      by (simp add: skip_step_def skip_field_def bytes_enc_end)
    finally show ?thesis using assms(1) by (simp add: partial_success_def enc_uint_def unat_small)
  qed
  then show ?thesis
    using encodeExportResponse_enc[OF n assms]
      walk_bytes[of 1 _ "\<lambda>field wire r n. if field = 1 \<and> wire = wireBytes then bytes_step id partial_success r else skip_step id wire r n" "[]" 0 rejected id]
    by (simp add: export_response_def bytes_step_end)
qed (simp add: encodeExportResponse_def export_response_def)

theorem export_response_roundtrip_witness: "export_response (encodeExportResponse 3 ''full'') = Inr 3"
  by (rule export_response_roundtrip) simp_all

section \<open>The handlers\<close>

text \<open>The answers of the sink to a list of events, and its state afterwards.\<close>

fun sink_answers :: "'k sink \<Rightarrow> logevent list \<Rightarrow> 'k \<Rightarrow> bool list \<times> 'k" where
  "sink_answers snk [] k = ([], k)"
| "sink_answers snk (e # es) k =
     (let (a, k1) = snk k e; (as, k2) = sink_answers snk es k1 in (a # as, k2))"

lemma sink_events_answers:
  "sink_events snk es k = (let (as, k') = sink_answers snk es k in (length (filter Not as), k'))"
  by (induction es arbitrary: k) (auto simp: Let_def split: prod.splits)

lemma sink_events_append:
  "sink_events snk (es @ fs) k = (let (m, k1) = sink_events snk es k; (n, k2) = sink_events snk fs k1 in (m + n, k2))"
  by (induction es arbitrary: k) (auto simp: Let_def split: prod.splits)

definition decode_body :: "otlp_env \<Rightarrow> http_request \<Rightarrow> string \<Rightarrow> otlp_error + logevent list" where
  "decode_body env rq body =
     (if sublist ''application/json'' (hq_content_type rq)
      then DecodeJSON (oe_lib env) (oe_unmarshal env) body (oe_now env) (oe_rnd env)
      else DecodeProtobuf (oe_lib env) body (oe_now env) (oe_rnd env))"

text \<open>C25. Every record of a request is accounted for over HTTP: an answer other than 200 means that the
  sink was not touched; 200 means that every event decoded from the body was offered to the sink
  once and in order, and that the count in the answer is exactly how many of them it refused
  (no count at all when it took them all).
\<close>

theorem otlp_http_accounting:
  "case Otlp_Handler env snk rq k of
     (HttpError status t, k') \<Rightarrow> status \<in> {400, 413} \<and> k' = k
   | (Export status m, k') \<Rightarrow>
       (status = 400 \<and> k' = k) \<or>
       (status = 200 \<and> (\<exists>body events.
          readBody (oe_gunzip env) (hq_encoding rq) (hq_body rq) (hq_body_ok rq) = Inr body
          \<and> decode_body env rq body = Inr events
          \<and> k' = snd (sink_answers snk events k)
          \<and> m = (let n = length (filter Not (fst (sink_answers snk events k)))
                 in if n = 0 then None else Some (n, ''ingest buffer full''))))"
proof (cases "readBody (oe_gunzip env) (hq_encoding rq) (hq_body rq) (hq_body_ok rq)")
  case (Inl e)
  then show ?thesis by (simp add: Otlp_Handler_def statusForReadError_def)
next
  case (Inr body)
  then show ?thesis
    by (cases "decode_body env rq body")
       (auto simp: Otlp_Handler_def decode_body_def[symmetric] sink_events_answers Let_def split: prod.splits)
qed

text \<open>
  Keys: when keys are configured, a call whose key is none of them, in the key header or else as
  a bearer token, reaches nothing: whatever else it is, the sink keeps its state, and a call that
  is well-formed otherwise is answered UNAUTHENTICATED.  Without keys every call is authorised.
\<close>

theorem grpc_needs_key:
  assumes "keys = Some valid" "valid \<noteq> []" "provided_key rq \<notin> set valid"
  shows "snd (GRPCHandler env quote keys snk rq k) = k
    \<and> (gq_proto rq = 2 \<and> gq_method rq = ''POST'' \<and> prefix ''application/grpc'' (gq_content_type rq)
         \<and> gq_path rq = LogsServiceExportMethod \<longrightarrow>
       fst (GRPCHandler env quote keys snk rq k) = writeGRPCStatus codeUnauthenticated ''invalid or missing ingest key'')"
proof -
  have "\<not> grpcAuthorized rq keys" using assms by (auto simp: grpcAuthorized_def list_ex_iff)
  then show ?thesis by (simp add: GRPCHandler_def)
qed

definition sample_env :: otlp_env where
  "sample_env = \<lparr>oe_lib = sample_otlp, oe_unmarshal = (\<lambda>_. None), oe_json_error = (\<lambda>_. []), oe_gunzip = (\<lambda>_ _ _. None),
     oe_now = 0, oe_rnd = (\<lambda>_. [])\<rparr>"

definition sample_call :: "string \<Rightarrow> string \<Rightarrow> grpc_request" where
  "sample_call key body = \<lparr>gq_proto = 2, gq_method = ''POST'', gq_content_type = ''application/grpc+proto'',
     gq_path = LogsServiceExportMethod, gq_api_key = key, gq_authorization = [], gq_encoding = [], gq_body = body, gq_body_ok = True\<rparr>"

theorem grpc_needs_key_witness:
  "\<forall>snk k :: nat. GRPCHandler sample_env (\<lambda>s. s) (Some [''k1'']) snk (sample_call ''k2'' []) k
     = (writeGRPCStatus codeUnauthenticated ''invalid or missing ingest key'', k)"
proof (intro allI)
  fix snk and k :: nat
  have "provided_key (sample_call ''k2'' []) = ''k2''"
    by (simp add: provided_key_def sample_call_def)
  then show "GRPCHandler sample_env (\<lambda>s. s) (Some [''k1'']) snk (sample_call ''k2'' []) k
     = (writeGRPCStatus codeUnauthenticated ''invalid or missing ingest key'', k)"
    using grpc_needs_key[of "Some [''k1'']" "[''k1'']" "sample_call ''k2'' []" sample_env "\<lambda>s. s" snk k]
    by (simp add: prod_eq_iff) (simp add: sample_call_def)
qed

text \<open>A call that gets as far as its frames.\<close>

definition grpc_call :: "string list option \<Rightarrow> grpc_request \<Rightarrow> bool" where
  "grpc_call keys rq \<longleftrightarrow> gq_proto rq = 2 \<and> gq_method rq = ''POST'' \<and> prefix ''application/grpc'' (gq_content_type rq)
     \<and> gq_path rq = LogsServiceExportMethod \<and> grpcAuthorized rq keys"

lemma GRPCHandler_call:
  assumes "grpc_call keys rq" "readFrames (oe_gunzip env) quote (gq_body rq) (gq_body_ok rq) (gq_encoding rq) = Inr frames"
  shows "GRPCHandler env quote keys snk rq k =
    (case export_frames env snk frames 0 k of
       (Inl e, k') \<Rightarrow> (writeGRPCStatus codeInvalidArgument (otlp_error_text [] e), k')
     | (Inr n, k') \<Rightarrow> (GrpcReply (Some (writeGRPCMessage (encodeExportResponse n ''ingest buffer full''))) ''0'' None, k'))"
  using assms by (simp add: GRPCHandler_def grpc_call_def setGRPCTrailer_def codeOK_def itoa_def split: prod.split sum.split)

text \<open>C24. The two receivers do the same with a request: a protobuf body posted as it is, and the same
  bytes as the one uncompressed frame of an authorised call, put the same events into the sink, in
  the same order, and report the same number of refused records; and bytes that do not decode are
  refused by both and put nothing in.
\<close>

theorem front_ends_agree:
  assumes http: "\<not> sublist ''application/json'' (hq_content_type hq)" "\<not> equal_fold (hq_encoding hq) ''gzip''"
      "hq_body hq = b" "hq_body_ok hq"
    and grpc: "grpc_call keys gq" "gq_body gq = writeGRPCMessage b" "gq_body_ok gq"
    and size: "length b \<le> maxBodyBytes"
  shows "case Otlp_Handler env snk hq k of
      (Export status m, k') \<Rightarrow>
        GRPCHandler env quote keys snk gq k
          = ((if status = 200 then GrpcReply (Some (writeGRPCMessage (encodeExportResponse
                 (case m of None \<Rightarrow> 0 | Some (n, _) \<Rightarrow> n) ''ingest buffer full''))) ''0'' None
              else writeGRPCStatus codeInvalidArgument
                (case DecodeProtobuf (oe_lib env) b (oe_now env) (oe_rnd env) of Inl e \<Rightarrow> otlp_error_text [] e | Inr _ \<Rightarrow> [])), k')
    | (HttpError _ _, _) \<Rightarrow> False"
proof -
  have "readFrames (oe_gunzip env) quote (gq_body gq) (gq_body_ok gq) (gq_encoding gq) = Inr [b]"
    using readFrames_messages[of "[b]"] grpc size
    by (simp add: maxRecvMsgBytes_def writeGRPCMessage_def frameHeaderLen_def)
  note g = GRPCHandler_call[OF grpc(1) this, of snk k]
  have r: "readBody (oe_gunzip env) (hq_encoding hq) (hq_body hq) (hq_body_ok hq) = Inr b"
    using http size by (simp add: readBody_def)
  show ?thesis
    using http(1) by (auto simp: Otlp_Handler_def r g split: sum.split prod.split)
qed

text \<open>C27. A bad frame after a good one leaves half a call behind: the events of the first frame have
  been put into the sink when the second fails to decode, yet the whole call is answered
  INVALID_ARGUMENT, without a count.
\<close>

theorem bad_frame_after_good:
  assumes "grpc_call keys gq" "gq_body gq = writeGRPCMessage f1 @ writeGRPCMessage f2" "gq_body_ok gq"
    and "length f1 + length f2 \<le> maxBodyBytes - 5"
    and "DecodeProtobuf (oe_lib env) f1 (oe_now env) (oe_rnd env) = Inr events"
    and "DecodeProtobuf (oe_lib env) f2 (oe_now env) (\<lambda>j. oe_rnd env (length events + j)) = Inl e"
  shows "GRPCHandler env quote keys snk gq k
     = (writeGRPCStatus codeInvalidArgument (otlp_error_text [] e), snd (sink_answers snk events k))"
proof -
  have "readFrames (oe_gunzip env) quote (gq_body gq) (gq_body_ok gq) (gq_encoding gq) = Inr [f1, f2]"
    using readFrames_messages[of "[f1, f2]"] assms(2-4)
    by (simp add: maxRecvMsgBytes_def writeGRPCMessage_def frameHeaderLen_def maxBodyBytes_def)
  note g = GRPCHandler_call[OF assms(1) this, of snk k]
  show ?thesis
    using assms(5,6) by (simp add: g) (simp add: sink_events_answers split: prod.split)
qed

lemma truncated_request: "DecodeProtobuf l [CHR 0x08] now rnd = Inl TruncatedVarint"
  by (simp add: DecodeProtobuf_def walk.simps tag_def varint_def skip_step_def skip_field_def)

theorem front_ends_agree_witness:
  "\<forall>snk k :: nat. GRPCHandler sample_env (\<lambda>s. s) None snk (sample_call [] (writeGRPCMessage [CHR 0x08])) k
     = (writeGRPCStatus codeInvalidArgument ''otlp: truncated varint'', k)
   \<and> GRPCHandler sample_env (\<lambda>s. s) None snk (sample_call [] (writeGRPCMessage (enc_request sample_request))) k
     = (case sink_events snk [record_event sample_otlp 0 sample_record [(''service.name'', AStr ''api'')] ''scope'' []] k of
          (n, k') \<Rightarrow> (GrpcReply (Some (writeGRPCMessage (encodeExportResponse n ''ingest buffer full''))) ''0'' None, k'))"
proof (intro allI conjI)
  fix snk and k :: nat
  let ?hq = "\<lambda>b. \<lparr>hq_content_type = [], hq_encoding = [], hq_body = b, hq_body_ok = True\<rparr>"
  let ?f = "enc_request sample_request" and ?e = "record_event sample_otlp 0 sample_record [(''service.name'', AStr ''api'')] ''scope'' []"
  have n: "\<not> equal_fold [] ''gzip''" "\<not> sublist ''application/json'' []" by (simp_all add: equal_fold_def to_lower_def)
  have c: "grpc_call None (sample_call [] b)" for b
    by (simp add: grpc_call_def sample_call_def grpcAuthorized_def)
  note agree = front_ends_agree[where hq = "?hq b" and b = b and env = sample_env and snk = snk and k = k
        and quote = "\<lambda>s. s" and gq = "sample_call [] (writeGRPCMessage b)" for b, OF _ _ _ _ c]
  have "Otlp_Handler sample_env snk (?hq [CHR 0x08]) k = (Export 400 (Some (0, ''otlp: truncated varint'')), k)"
    by (simp add: Otlp_Handler_def readBody_def maxBodyBytes_def n truncated_request otlp_error_text_def)
  then show "GRPCHandler sample_env (\<lambda>s. s) None snk (sample_call [] (writeGRPCMessage [CHR 0x08])) k
     = (writeGRPCStatus codeInvalidArgument ''otlp: truncated varint'', k)"
    using agree[of "[CHR 0x08]"] by (simp add: n truncated_request) (simp add: sample_call_def maxBodyBytes_def otlp_error_text_def)
  have l: "length ?f \<le> maxBodyBytes" using sample_request_length by (simp add: maxBodyBytes_def)
  have d: "DecodeProtobuf (oe_lib sample_env) ?f (oe_now sample_env) (oe_rnd sample_env) = Inr [?e]"
    using DecodeProtobuf_enc[OF sample_request_ok, of sample_otlp 0 "\<lambda>_. []"]
    by (simp add: sample_env_def request_records_def sample_request_def)
  obtain m k' where s: "sink_events snk [?e] k = (m, k')" by fastforce
  have "Otlp_Handler sample_env snk (?hq ?f) k = (Export 200 (if m > 0 then Some (m, ''ingest buffer full'') else None), k')"
    using l by (simp add: Otlp_Handler_def readBody_def n d s del: sink_events.simps)
  then show "GRPCHandler sample_env (\<lambda>s. s) None snk (sample_call [] (writeGRPCMessage ?f)) k
     = (case sink_events snk [?e] k of
          (n, k') \<Rightarrow> (GrpcReply (Some (writeGRPCMessage (encodeExportResponse n ''ingest buffer full''))) ''0'' None, k'))"
    using agree[of ?f] l by (simp add: n s sample_call_def del: sink_events.simps split: if_splits)
qed

theorem bad_frame_after_good_witness:
  "\<forall>snk k :: nat. GRPCHandler sample_env (\<lambda>s. s) None snk
       (sample_call [] (writeGRPCMessage (enc_request sample_request) @ writeGRPCMessage [CHR 0x08])) k
     = (writeGRPCStatus codeInvalidArgument ''otlp: truncated varint'',
        snd (sink_answers snk [record_event sample_otlp 0 sample_record [(''service.name'', AStr ''api'')] ''scope'' []] k))"
proof (intro allI)
  fix snk and k :: nat
  let ?f1 = "enc_request sample_request"
  have c: "grpc_call None (sample_call [] (writeGRPCMessage ?f1 @ writeGRPCMessage [CHR 0x08]))"
    by (simp add: grpc_call_def sample_call_def grpcAuthorized_def)
  have "DecodeProtobuf (oe_lib sample_env) ?f1 (oe_now sample_env) (oe_rnd sample_env)
      = Inr [record_event sample_otlp 0 sample_record [(''service.name'', AStr ''api'')] ''scope'' []]"
    using DecodeProtobuf_enc[OF sample_request_ok, of sample_otlp 0 "\<lambda>_. []"]
    by (simp add: sample_env_def request_records_def sample_request_def)
  from bad_frame_after_good[OF c _ _ _ this truncated_request, of "\<lambda>s. s" snk k] sample_request_length
  show "GRPCHandler sample_env (\<lambda>s. s) None snk (sample_call [] (writeGRPCMessage ?f1 @ writeGRPCMessage [CHR 0x08])) k
     = (writeGRPCStatus codeInvalidArgument ''otlp: truncated varint'',
        snd (sink_answers snk [record_event sample_otlp 0 sample_record [(''service.name'', AStr ''api'')] ''scope'' []] k))"
    by (simp add: sample_call_def maxBodyBytes_def otlp_error_text_def)
qed

end
