(* ===== verification/Grok.thy ===== *)
theory Grok
  imports Prelude
begin

text \<open>
  \<^verbatim>\<open>src/internal/pipeline/grok.go\<close>: grok patterns, their expansion into regular expressions
  and the names of the captures.  The two regular expressions the code itself uses to take a pattern
  apart are written out; compiling and matching an expanded pattern is a parameter.  The names are an
  association list from capture names to fields.
\<close>

section \<open>The library\<close>

text \<open>A string literal cannot hold a backslash: it is written as a tilde, which no pattern contains.\<close>

definition grokPatterns :: "(string \<times> string) list" where
  "grokPatterns = map (\<lambda>(name, p). (name, map (\<lambda>c. if c = CHR ''~'' then CHR 0x5C else c) p)) [
    (''WORD'', ''~b~w+~b''),
    (''NOTSPACE'', ''~S+''),
    (''SPACE'', ''~s*''),
    (''DATA'', ''.*?''),
    (''GREEDYDATA'', ''.*''),
    (''INT'', ''(?:[+-]?(?:[0-9]+))''),
    (''NUMBER'', ''(?:[+-]?(?:[0-9]+(?:~.[0-9]+)?))''),
    (''BASE16NUM'', ''(?:0[xX])?[0-9a-fA-F]+''),
    (''UUID'', ''[A-Fa-f0-9]{8}-(?:[A-Fa-f0-9]{4}-){3}[A-Fa-f0-9]{12}''),
    (''QS'', ''\"(?:[^\"~~]|~~.)*\"''),
    (''IPV4'', ''(?:(?:25[0-5]|2[0-4][0-9]|[01]?[0-9][0-9]?)~.){3}(?:25[0-5]|2[0-4][0-9]|[01]?[0-9][0-9]?)''),
    (''IPV6'', ''(?:[A-Fa-f0-9]{0,4}:){2,7}[A-Fa-f0-9]{0,4}''),
    (''IP'', ''(?:%{IPV6}|%{IPV4})''),
    (''HOSTNAME'', ''~b(?:[0-9A-Za-z][0-9A-Za-z-]{0,62})(?:~.(?:[0-9A-Za-z][0-9A-Za-z-]{0,62}))*~b''),
    (''IPORHOST'', ''(?:%{IP}|%{HOSTNAME})''),
    (''PORT'', ''~b(?:[0-9]{1,5})~b''),
    (''URIPATH'', ''(?:/[^~s?#]*)''),
    (''URIPARAM'', ''~?~S*''),
    (''URIPROTO'', ''[A-Za-z]+(?:~+[A-Za-z+]+)?''),
    (''HTTPVERB'', ''~b(?:GET|POST|PUT|PATCH|DELETE|HEAD|OPTIONS|TRACE|CONNECT)~b''),
    (''HTTPVER'', ''HTTP/[0-9.]+''),
    (''HTTPSTATUS'', ''~b[1-5][0-9]{2}~b''),
    (''YEAR'', ''(?:~d{4})''),
    (''MONTHNUM'', ''(?:0?[1-9]|1[0-2])''),
    (''MONTHDAY'', ''(?:0?[1-9]|[12][0-9]|3[01])''),
    (''HOUR'', ''(?:2[0123]|[01]?[0-9])''),
    (''MINUTE'', ''(?:[0-5][0-9])''),
    (''SECOND'', ''(?:(?:[0-5]?[0-9]|60)(?:[:.,][0-9]+)?)''),
    (''TIME'', ''%{HOUR}:%{MINUTE}:%{SECOND}''),
    (''ISO8601_TIMEZONE'', ''(?:Z|[+-]%{HOUR}(?::?%{MINUTE})?)''),
    (''TIMESTAMP_ISO8601'', ''%{YEAR}-%{MONTHNUM}-%{MONTHDAY}[T ]%{TIME}%{ISO8601_TIMEZONE}?''),
    (''MONTH'', ''~b(?:Jan|Feb|Mar|Apr|May|Jun|Jul|Aug|Sep|Oct|Nov|Dec)[a-z]*~b''),
    (''SYSLOGTIMESTAMP'', ''%{MONTH} +%{MONTHDAY} %{TIME}''),
    (''HTTPDATE'', ''%{MONTHDAY}/%{MONTH}/%{YEAR}:%{TIME} [+-][0-9]{4}''),
    (''LOGLEVEL'', ''(?:[Aa]lert|ALERT|[Tt]race|TRACE|[Dd]ebug|DEBUG|[Nn]otice|NOTICE|[Ii]nfo|INFO|[Ww]arn(?:ing)?|WARN(?:ING)?|[Ee]rr(?:or)?|ERR(?:OR)?|[Cc]rit(?:ical)?|CRIT(?:ICAL)?|[Ff]atal|FATAL|[Ee]merg(?:ency)?|EMERG(?:ENCY)?)''),
    (''LOGGER'', ''[A-Za-z0-9_.$/-]+'')]"

definition maxGrokDepth :: nat where "maxGrokDepth = 20"

section \<open>References\<close>

text \<open>The character classes \<^verbatim>\<open>\w\<close> and \<^verbatim>\<open>[\w.]\<close>.\<close>

definition word_char :: "char \<Rightarrow> bool" where
  "word_char c \<longleftrightarrow> is_digit c \<or> 97 \<le> (of_char (lower_char c) :: nat) \<and> (of_char (lower_char c) :: nat) \<le> 122 \<or> c = CHR ''_''"

definition field_char :: "char \<Rightarrow> bool" where
  "field_char c \<longleftrightarrow> word_char c \<or> c = CHR ''.''"

text \<open>\<^verbatim>\<open>%\{(\w+)(?::([\w.]+))?\}\<close> at the front of a text: name, field (empty if not given), rest.\<close>

definition grok_ref :: "string \<Rightarrow> (string \<times> string \<times> string) option" where
  "grok_ref s =
     (if \<not> prefix ''%{'' s then None
      else let name = takeWhile word_char (drop 2 s); r = dropWhile word_char (drop 2 s)
           in if name = [] then None
              else case r of
                [] \<Rightarrow> None
              | c # r' \<Rightarrow>
                  if c = CHR ''}'' then Some (name, [], r')
                  else if c = CHR '':'' then
                    (let fld = takeWhile field_char r'; r2 = dropWhile field_char r'
                     in if fld = [] \<or> r2 = [] \<or> hd r2 \<noteq> CHR ''}'' then None else Some (name, fld, tl r2))
                  else None)"

datatype piece = Lit char | Ref string string

lemma length_dropWhile_lt: "length (tl (dropWhile P s)) \<le> length s"
  by (rule order_trans[OF _ length_dropWhile_le[of P]]) simp

lemma grok_ref_shrinks: "grok_ref s = Some (name, fld, r) \<Longrightarrow> length r < length s"
proof -
  assume a: "grok_ref s = Some (name, fld, r)"
  then have p: "prefix ''%{'' s" by (simp add: grok_ref_def split: if_split_asm)
  then have l: "length (drop 2 s) < length s" by (auto simp: prefix_def)
  obtain c r' where r: "dropWhile word_char (drop 2 s) = c # r'" "r = r' \<or> r = tl (dropWhile field_char r')"
    using a p by (auto simp: grok_ref_def Let_def split: if_split_asm list.splits)
  have "length r' < length (drop 2 s)" using length_dropWhile_le[of word_char "drop 2 s"] r(1) by simp
  moreover have "length r \<le> length r'" using r(2) length_dropWhile_lt[of field_char r'] by auto
  ultimately show ?thesis using l by simp
qed

text \<open>A pattern as the pieces the scan for references leaves, leftmost first.\<close>

function grok_pieces :: "string \<Rightarrow> piece list" where
  "grok_pieces s =
     (case grok_ref s of
        Some (name, fld, r) \<Rightarrow> Ref name fld # grok_pieces r
      | None \<Rightarrow> (case s of [] \<Rightarrow> [] | c # r \<Rightarrow> Lit c # grok_pieces r))"
  by pat_completeness auto
termination
  by (relation "measure length") (auto dest: grok_ref_shrinks)

declare grok_pieces.simps [simp del]

section \<open>Capture names\<close>

text \<open>Runs of other characters become one underscore.\<close>

fun word_runs :: "bool \<Rightarrow> string \<Rightarrow> string" where
  "word_runs inrun [] = []"
| "word_runs inrun (c # s) =
     (if word_char c then c # word_runs False s
      else if inrun then word_runs True s else CHR ''_'' # word_runs True s)"

type_synonym names = "(string \<times> string) list"

definition candidate :: "string \<Rightarrow> nat \<Rightarrow> string" where
  "candidate base i = (if i < 2 then base else base @ ''_'' @ show_nat i)"

lemma show_nat_inj: "show_nat a = show_nat b \<Longrightarrow> a = b"
  by (metis digits_val_show_nat)

lemma candidate_inj: "candidate base i = candidate base j \<Longrightarrow> 0 < i \<Longrightarrow> 0 < j \<Longrightarrow> i = j"
  by (auto simp: candidate_def split: if_split_asm dest: show_nat_inj)

text \<open>The loop tries the name itself and then the name with a number, from 2 on.\<close>

function safe_loop :: "string \<Rightarrow> string \<Rightarrow> names \<Rightarrow> nat \<Rightarrow> string" where
  "safe_loop base field names i =
     (if i = 0 then base
      else case map_of names (candidate base i) of
        None \<Rightarrow> candidate base i
      | Some existing \<Rightarrow> if existing = field then candidate base i else safe_loop base field names (Suc i))"
  by pat_completeness auto
termination
proof (relation "measure (\<lambda>(base, field, names, i). card {j. i \<le> j \<and> 0 < j \<and> candidate base j \<in> fst ` set names})")
  fix base field :: string and names :: names and i :: nat and existing
  assume a: "i \<noteq> 0" "map_of names (candidate base i) = Some existing"
  let ?T = "\<lambda>i. {j. i \<le> j \<and> 0 < j \<and> candidate base j \<in> fst ` set names}"
  have "inj_on (candidate base) (?T i)" by (auto intro!: inj_onI dest: candidate_inj)
  moreover have "finite (candidate base ` ?T i)" by (rule finite_subset[of _ "fst ` set names"]) auto
  ultimately have "finite (?T i)" by (rule finite_imageD[rotated])
  moreover have "?T (Suc i) \<subset> ?T i"
  proof (rule psubsetI)
    have "candidate base i \<in> fst ` set names" using a(2) by (metis map_of_eq_None_iff option.distinct(1))
    then have "i \<in> ?T i" using a(1) by simp
    moreover have "i \<notin> ?T (Suc i)" by simp
    ultimately show "?T (Suc i) \<noteq> ?T i" by metis
  qed auto
  ultimately have "card (?T (Suc i)) < card (?T i)" by (rule psubset_card_mono)
  then show "((base, field, names, Suc i), base, field, names, i)
      \<in> measure (\<lambda>(base, field, names, i). card {j. i \<le> j \<and> 0 < j \<and> candidate base j \<in> fst ` set names})"
    by simp
qed simp

declare safe_loop.simps [simp del]

definition safeCaptureName :: "string \<Rightarrow> names \<Rightarrow> string" where
  "safeCaptureName field names =
     (let safe = word_runs False field;
          base = (if safe = [] \<or> is_digit (hd safe) then ''f_'' @ safe else safe)
      in safe_loop base field names 1)"

section \<open>Expansion\<close>

datatype grok_error = GrokTooDeep | UnknownPattern string

text \<open>
  \<^verbatim>\<open>ReplaceAllStringFunc\<close>: every reference is visited, also after an error; the last error
  stands.
\<close>

fun expand_pieces :: "(string \<Rightarrow> names \<Rightarrow> (grok_error + string) \<times> names) \<Rightarrow> piece list \<Rightarrow> names \<Rightarrow> grok_error option
    \<Rightarrow> (grok_error + string) \<times> names" where
  "expand_pieces sub [] names err = (case err of None \<Rightarrow> Inr [] | Some e \<Rightarrow> Inl e, names)"
| "expand_pieces sub (Lit c # ps) names err =
     (case expand_pieces sub ps names err of (res, names') \<Rightarrow> (try_bind res (\<lambda>out. Inr (c # out)), names'))"
| "expand_pieces sub (Ref name field # ps) names err =
     (case map_of grokPatterns name of
        None \<Rightarrow> expand_pieces sub ps names (Some (UnknownPattern name))
      | Some body \<Rightarrow>
          (case sub body names of
             (Inl e, names1) \<Rightarrow> expand_pieces sub ps names1 (Some e)
           | (Inr s, names1) \<Rightarrow>
               (let safe = safeCaptureName field names1;
                    text = (if field = [] then ''(?:'' @ s @ '')'' else ''(?P<'' @ safe @ ''>'' @ s @ '')'');
                    names2 = (if field = [] then names1 else AList.update safe field names1)
                in case expand_pieces sub ps names2 err of
                     (res, names3) \<Rightarrow> (try_bind res (\<lambda>out. Inr (text @ out)), names3))))"

function expandGrok :: "nat \<Rightarrow> string \<Rightarrow> names \<Rightarrow> (grok_error + string) \<times> names" where
  "expandGrok depth pattern names =
     (if depth > maxGrokDepth then (Inl GrokTooDeep, names)
      else expand_pieces (\<lambda>body names'. expandGrok (depth + 1) body names') (grok_pieces pattern) names None)"
  by pat_completeness auto
termination
  by (relation "measure (\<lambda>(depth, _, _). Suc maxGrokDepth - depth)") auto

declare expandGrok.simps [simp del]

section \<open>Compiled patterns\<close>

text \<open>
  A compiled regular expression: the names of its groups (group 0 and unnamed groups have none) and
  the texts of the groups in a match.  \<open>re\<close> is \<^verbatim>\<open>regexp.Compile\<close>.
\<close>

record regexp =
  rx_names :: "string list"
  rx_find :: "string \<Rightarrow> string list option"

record CompiledGrok =
  cg_re :: regexp
  cg_names :: names
  cg_pattern :: string

datatype compile_error = GrokError grok_error | BadRegexp string

type_synonym grok_cache = "(string \<times> CompiledGrok) list"

definition maxGrokCache :: nat where "maxGrokCache = 512"

definition compile_grok :: "(string \<Rightarrow> string + regexp) \<Rightarrow> string \<Rightarrow> compile_error + CompiledGrok" where
  "compile_grok re pattern =
     (case expandGrok 0 pattern [] of
        (Inl e, _) \<Rightarrow> Inl (GrokError e)
      | (Inr expanded, names) \<Rightarrow>
          (case re expanded of
             Inl e \<Rightarrow> Inl (BadRegexp e)
           | Inr r \<Rightarrow> Inr \<lparr>cg_re = r, cg_names = names, cg_pattern = pattern\<rparr>))"

definition CompileGrok :: "(string \<Rightarrow> string + regexp) \<Rightarrow> string \<Rightarrow> grok_cache \<Rightarrow> (compile_error + CompiledGrok) \<times> grok_cache" where
  "CompileGrok re pattern cache =
     (case map_of cache pattern of
        Some c \<Rightarrow> (Inr c, cache)
      | None \<Rightarrow>
          (case compile_grok re pattern of
             Inl e \<Rightarrow> (Inl e, cache)
           | Inr c \<Rightarrow> (Inr c, AList.update pattern c (if length cache \<ge> maxGrokCache then [] else cache))))"

text \<open>The fields of the groups; a later group of the same field wins.\<close>

fun match_fields :: "names \<Rightarrow> string list \<Rightarrow> string list \<Rightarrow> (string \<times> string) list \<Rightarrow> (string \<times> string) list" where
  "match_fields names (capture # captures) (m # ms) found =
     (if capture = [] \<or> m = [] then match_fields names captures ms found
      else match_fields names captures ms
        (AList.update (case map_of names capture of Some name \<Rightarrow> name | None \<Rightarrow> capture) m found))"
| "match_fields names captures ms found = found"

definition Grok_Match :: "CompiledGrok \<Rightarrow> string \<Rightarrow> (string \<times> string) list option" where
  "Grok_Match c s = map_option (\<lambda>m. match_fields (cg_names c) (rx_names (cg_re c)) m []) (rx_find (cg_re c) s)"

section \<open>Properties\<close>

lemma CompileGrok_transparent:
  assumes "\<And>p c. (p, c) \<in> set cache \<Longrightarrow> compile_grok re p = Inr c"
  shows "fst (CompileGrok re pattern cache) = compile_grok re pattern"
    and "(p, c) \<in> set (snd (CompileGrok re pattern cache)) \<Longrightarrow> compile_grok re p = Inr c"
proof -
  show "fst (CompileGrok re pattern cache) = compile_grok re pattern"
  proof (cases "map_of cache pattern")
    case (Some c)
    then have "compile_grok re pattern = Inr c" using assms map_of_SomeD by metis
    then show ?thesis using Some by (simp add: CompileGrok_def)
  qed (simp add: CompileGrok_def split: sum.split)
  have upd: "(p, c) \<in> set (AList.update k v m) \<Longrightarrow> (p, c) = (k, v) \<or> (p, c) \<in> set m" for k v and m :: grok_cache
    by (induction m) (auto split: if_split_asm)
  show "(p, c) \<in> set (snd (CompileGrok re pattern cache)) \<Longrightarrow> compile_grok re p = Inr c"
    using assms by (auto simp: CompileGrok_def split: option.split_asm sum.split_asm if_split_asm dest!: upd)
qed

lemma CompileGrok_bounded:
  "length cache \<le> maxGrokCache \<Longrightarrow> length (snd (CompileGrok re pattern cache)) \<le> maxGrokCache"
proof -
  have upd: "length (AList.update k v m) \<le> Suc (length m)" for k :: string and v :: CompiledGrok and m
    by (induction m) auto
  assume "length cache \<le> maxGrokCache"
  moreover have "length cache < maxGrokCache \<Longrightarrow> length (AList.update pattern c cache) \<le> maxGrokCache" for c
    using upd[of pattern c cache] by simp
  ultimately show ?thesis by (auto simp: CompileGrok_def maxGrokCache_def split: option.split sum.split)
qed

lemma safe_loop_free:
  "0 < i \<Longrightarrow> \<exists>j. 0 < j \<and> safe_loop base field names i = candidate base j
     \<and> map_of names (candidate base j) \<in> {None, Some field}"
proof (induction base field names i rule: safe_loop.induct)
  case (1 base field names i)
  show ?case
  proof (cases "map_of names (candidate base i)")
    case (Some existing)
    then show ?thesis using 1 by (subst safe_loop.simps) auto
  qed (use 1(2) in \<open>subst safe_loop.simps, auto\<close>)
qed

lemma word_runs_word: "list_all word_char (word_runs b s)"
  by (induction b s rule: word_runs.induct) (auto simp: word_char_def)

lemma digits_word: "list_all is_digit s \<Longrightarrow> list_all word_char s"
  by (auto simp: list_all_iff word_char_def)

text \<open>What a regular expression accepts as the name of a group.\<close>

definition legal_name :: "string \<Rightarrow> bool" where
  "legal_name s \<longleftrightarrow> s \<noteq> [] \<and> list_all word_char s \<and> \<not> is_digit (hd s)"

text \<open>
  A capture always gets a name the regular expression accepts (letters, digits and underscores,
  no digit first) and never one that stands for another field, whatever names are taken.
\<close>

theorem capture_name_safe:
  "legal_name (safeCaptureName field names) \<and> map_of names (safeCaptureName field names) \<in> {None, Some field}"
proof -
  let ?safe = "word_runs False field"
  let ?base = "if ?safe = [] \<or> is_digit (hd ?safe) then ''f_'' @ ?safe else ?safe"
  have base: "legal_name ?base"
    using word_runs_word[of False field] by (auto simp: legal_name_def word_char_def is_digit_def lower_char_def)
  have "legal_name (candidate ?base j)" for j
    using base digits_word[OF show_nat_digits[of j]]
    by (auto simp: candidate_def legal_name_def word_char_def[of "CHR ''_''"])
  then show ?thesis
    using safe_loop_free[of 1 ?base field names] by (auto simp: safeCaptureName_def Let_def)
qed

section \<open>Expansion succeeds\<close>

text \<open>How deep the references of a library pattern go.\<close>

definition grok_rank :: "string \<Rightarrow> nat" where
  "grok_rank name =
     (if name \<in> {''SYSLOGTIMESTAMP'', ''HTTPDATE'', ''TIMESTAMP_ISO8601'', ''IPORHOST''} then 2
      else if name \<in> {''TIME'', ''ISO8601_TIMEZONE'', ''IP''} then 1 else 0)"

lemma pieces_simps:
  "grok_pieces [] = []"
  "c \<noteq> CHR ''%'' \<Longrightarrow> grok_pieces (c # s) = Lit c # grok_pieces s"
  by (subst grok_pieces.simps, simp add: grok_ref_def)+

lemma no_refs: "CHR ''%'' \<notin> set s \<Longrightarrow> grok_pieces s = map Lit s"
  by (induction s) (auto simp: pieces_simps)

lemma pieces_ref:
  "list_all word_char name \<Longrightarrow> name \<noteq> [] \<Longrightarrow>
   grok_pieces (CHR ''%'' # CHR ''{'' # name @ CHR ''}'' # s) = Ref name [] # grok_pieces s"
proof -
  assume w: "list_all word_char name" "name \<noteq> []"
  have "\<not> word_char (CHR ''}'')" by (simp add: word_char_def is_digit_def lower_char_def)
  then have "takeWhile word_char (name @ CHR ''}'' # s) = name" "dropWhile word_char (name @ CHR ''}'' # s) = CHR ''}'' # s"
    using w by (auto simp: list_all_iff takeWhile_append dropWhile_append)
  then have "grok_ref (CHR ''%'' # CHR ''{'' # name @ CHR ''}'' # s) = Some (name, [], s)"
    using w by (simp add: grok_ref_def)
  then show ?thesis by (subst grok_pieces.simps) simp
qed

definition refs_below :: "nat \<Rightarrow> string \<Rightarrow> bool" where
  "refs_below n s \<longleftrightarrow> list_all (\<lambda>p. case p of Lit _ \<Rightarrow> True | Ref name fld \<Rightarrow> fld = [] \<and> grok_rank name < n
     \<and> map_of grokPatterns name \<noteq> None) (grok_pieces s)"

lemma pieces_percent:
  "grok_pieces (CHR ''%'' # s) = (case grok_ref (CHR ''%'' # s) of
     Some (name, fld, r) \<Rightarrow> Ref name fld # grok_pieces r | None \<Rightarrow> Lit (CHR ''%'') # grok_pieces s)"
  by (subst grok_pieces.simps) (simp split: option.split)

lemma library_ranked: "list_all (\<lambda>(name, body). refs_below (grok_rank name) body) grokPatterns"
proof -
  have n: "map_of grokPatterns name \<noteq> None \<longleftrightarrow> name \<in> set (map fst grokPatterns)" for name
    by (simp add: map_of_eq_None_iff)
  have f: "map fst grokPatterns = [''WORD'', ''NOTSPACE'', ''SPACE'', ''DATA'', ''GREEDYDATA'', ''INT'', ''NUMBER'', ''BASE16NUM'',
      ''UUID'', ''QS'', ''IPV4'', ''IPV6'', ''IP'', ''HOSTNAME'', ''IPORHOST'', ''PORT'', ''URIPATH'', ''URIPARAM'', ''URIPROTO'',
      ''HTTPVERB'', ''HTTPVER'', ''HTTPSTATUS'', ''YEAR'', ''MONTHNUM'', ''MONTHDAY'', ''HOUR'', ''MINUTE'', ''SECOND'', ''TIME'',
      ''ISO8601_TIMEZONE'', ''TIMESTAMP_ISO8601'', ''MONTH'', ''SYSLOGTIMESTAMP'', ''HTTPDATE'', ''LOGLEVEL'', ''LOGGER'']"
    by (simp add: grokPatterns_def)
  show ?thesis
    unfolding refs_below_def n f
    by (simp add: grokPatterns_def pieces_simps pieces_percent grok_ref_def word_char_def is_digit_def lower_char_def grok_rank_def)
qed

lemma expand_pieces_ok:
  assumes "\<And>name fld. Ref name fld \<in> set ps \<Longrightarrow> \<exists>body. map_of grokPatterns name = Some body \<and> (\<forall>names. \<exists>s. sub body names = (Inr s, names))"
  shows "\<exists>out names'. expand_pieces sub ps names None = (Inr out, names')
    \<and> ((\<forall>name fld. Ref name fld \<in> set ps \<longrightarrow> fld = []) \<longrightarrow> names' = names)"
  using assms
proof (induction ps arbitrary: names)
  case (Cons p ps)
  show ?case
  proof (cases p)
    case (Lit c)
    then show ?thesis using Cons.IH[of names] Cons.prems by fastforce
  next
    case (Ref name fld)
    then obtain body where "map_of grokPatterns name = Some body" "\<forall>names. \<exists>s. sub body names = (Inr s, names)"
      using Cons.prems[of name fld] by auto
    then obtain s where b: "map_of grokPatterns name = Some body" "sub body names = (Inr s, names)" by blast
    let ?names = "if fld = [] then names else AList.update (safeCaptureName fld names) fld names"
    obtain out names' where "expand_pieces sub ps ?names None = (Inr out, names')"
        "(\<forall>name fld. Ref name fld \<in> set ps \<longrightarrow> fld = []) \<longrightarrow> names' = ?names"
      using Cons.IH[of ?names] Cons.prems by (meson list.set_intros(2))
    then show ?thesis using b Ref by (auto simp: Let_def)
  qed
qed simp

lemma expand_library:
  "refs_below n body \<Longrightarrow> n + depth \<le> maxGrokDepth \<Longrightarrow> \<exists>s. expandGrok depth body names = (Inr s, names)"
proof (induction n arbitrary: body depth names rule: less_induct)
  case (less n)
  have "\<exists>b. map_of grokPatterns name = Some b \<and> (\<forall>names. \<exists>s. expandGrok (depth + 1) b names = (Inr s, names))"
    and "fld = []" if "Ref name fld \<in> set (grok_pieces body)" for name fld
  proof -
    have r: "fld = []" "grok_rank name < n" "map_of grokPatterns name \<noteq> None"
      using that less.prems(1) by (auto simp: refs_below_def list_all_iff)
    then obtain b where b: "map_of grokPatterns name = Some b" by auto
    then have "refs_below (grok_rank name) b"
      using library_ranked map_of_SomeD[OF b] by (auto simp: list_all_iff)
    then have "\<exists>s. expandGrok (depth + 1) b names = (Inr s, names)" for names
      using less.IH[OF r(2)] less.prems(2) r(2) by simp
    then show "\<exists>b. map_of grokPatterns name = Some b \<and> (\<forall>names. \<exists>s. expandGrok (depth + 1) b names = (Inr s, names))" "fld = []"
      using b r(1) by auto
  qed
  then show ?case
    using expand_pieces_ok[of "grok_pieces body" "expandGrok (depth + 1)" names] less.prems(2)
    by (subst expandGrok.simps) auto
qed

lemma grok_rank_le: "grok_rank name \<le> 2"
  by (simp add: grok_rank_def)

lemma expand_pieces_fails:
  "err \<noteq> None \<or> (\<exists>name fld. Ref name fld \<in> set ps \<and> map_of grokPatterns name = None) \<Longrightarrow>
   \<exists>e. fst (expand_pieces sub ps names err) = Inl e"
proof (induction ps arbitrary: names err)
  case (Cons p ps)
  show ?case
  proof (cases p)
    case (Lit c)
    then have "\<exists>e. fst (expand_pieces sub ps names err) = Inl e" using Cons by auto
    then show ?thesis using Lit by (auto split: prod.split)
  next
    case (Ref name fld)
    show ?thesis
    proof (cases "map_of grokPatterns name")
      case None
      then show ?thesis using Ref Cons.IH[of "Some (UnknownPattern name)"] by simp
    next
      case (Some body)
      have p: "err \<noteq> None \<or> (\<exists>name fld. Ref name fld \<in> set ps \<and> map_of grokPatterns name = None)"
        using Cons.prems Ref Some by auto
      obtain res names1 where r: "sub body names = (res, names1)" by (cases "sub body names")
      show ?thesis
      proof (cases res)
        case (Inl e)
        then show ?thesis using Ref Some r Cons.IH[of "Some e" names1] by simp
      next
        case (Inr s)
        let ?names = "if fld = [] then names1 else AList.update (safeCaptureName fld names1) fld names1"
        obtain e where "fst (expand_pieces sub ps ?names err) = Inl e" using Cons.IH[OF p] by blast
        then show ?thesis using Ref Some r Inr by (auto simp: Let_def split: prod.split)
      qed
    qed
  qed
qed auto

text \<open>C33. Expansion is decided by the names alone: a pattern expands exactly if every pattern it refers to
  is in the library.  So every pattern of the library can be used, and the limit on the depth, which
  guards against a pattern that refers to itself, is never what stops an expansion.
\<close>

theorem grok_expands_iff:
  "(\<exists>out names'. expandGrok 0 pattern names = (Inr out, names'))
     \<longleftrightarrow> (\<forall>name fld. Ref name fld \<in> set (grok_pieces pattern) \<longrightarrow> name \<in> fst ` set grokPatterns)"
proof
  assume ok: "\<forall>name fld. Ref name fld \<in> set (grok_pieces pattern) \<longrightarrow> name \<in> fst ` set grokPatterns"
  have "\<exists>body. map_of grokPatterns name = Some body \<and> (\<forall>names. \<exists>s. expandGrok (0 + 1) body names = (Inr s, names))"
    if r: "Ref name fld \<in> set (grok_pieces pattern)" for name fld
  proof -
    have "name \<in> dom (map_of grokPatterns)" using ok r by (auto simp: dom_map_of_conv_image_fst)
    then obtain body where b: "map_of grokPatterns name = Some body" by auto
    then have "refs_below (grok_rank name) body" using library_ranked map_of_SomeD[OF b] by (auto simp: list_all_iff)
    moreover have "grok_rank name + (0 + 1) \<le> maxGrokDepth" using grok_rank_le[of name] by (simp add: maxGrokDepth_def)
    ultimately show ?thesis using b expand_library by blast
  qed
  then show "\<exists>out names'. expandGrok 0 pattern names = (Inr out, names')"
    using expand_pieces_ok[of "grok_pieces pattern" "expandGrok (0 + 1)" names]
    by (subst expandGrok.simps) (auto simp: maxGrokDepth_def)
next
  assume "\<exists>out names'. expandGrok 0 pattern names = (Inr out, names')"
  then have "\<nexists>e. fst (expand_pieces (expandGrok (0 + 1)) (grok_pieces pattern) names None) = Inl e"
    by (subst (asm) expandGrok.simps) (auto simp: maxGrokDepth_def)
  then show "\<forall>name fld. Ref name fld \<in> set (grok_pieces pattern) \<longrightarrow> name \<in> fst ` set grokPatterns"
    using expand_pieces_fails[of None "grok_pieces pattern" "expandGrok (0 + 1)" names]
    by (auto simp: map_of_eq_None_iff)
qed

theorem grok_expands_iff_witness:
  "(\<exists>out names'. expandGrok 0 ''%{IP:client} - %{HTTPDATE}'' [] = (Inr out, names'))
   \<and> \<not> (\<exists>out names'. expandGrok 0 ''%{NOPE}'' [] = (Inr out, names'))"
  unfolding grok_expands_iff
  by (simp add: grokPatterns_def pieces_simps pieces_percent grok_ref_def word_char_def field_char_def is_digit_def lower_char_def)

end
