(* ===== verification/Pipelines.thy ===== *)
theory Pipelines
  imports Grok Matcher Syslog
begin

text \<open>
  \<^verbatim>\<open>src/internal/pipeline/pipeline.go\<close> and \<^verbatim>\<open>set.go\<close>: the transforms applied to an
  event between a receiver and the store, and the set of pipelines in force.  \<open>pe_re\<close> compiles a
  regular expression, \<open>pe_layout\<close> is \<^verbatim>\<open>time.Parse\<close> (the date and clock it reads and the offset of
  its zone), \<open>pe_year\<close> the year of an instant, and \<open>pe_range\<close> the order in which a \<^verbatim>\<open>range\<close> over a map
  visits it.  That order is chosen anew each time, so it depends on the place of the stage, and a run of
  an event through the pipelines is of an environment of its own.  The cache of compiled grok patterns is transparent (\<open>CompileGrok_transparent\<close>) and left
  out of the state here.
\<close>

record pipe_env =
  pe_go :: golib
  pe_re :: "string \<Rightarrow> string + regexp"
  pe_range :: "nat \<times> nat \<Rightarrow> (string \<times> string) list \<Rightarrow> (string \<times> string) list"
  pe_layout :: "string \<Rightarrow> string \<Rightarrow> (stamp \<times> duration) option"
  pe_year :: "time \<Rightarrow> int"

section \<open>Specifications\<close>

definition StageGrok :: string where "StageGrok = ''grok''"
definition StageRegex :: string where "StageRegex = ''regex''"
definition StageTimestamp :: string where "StageTimestamp = ''timestamp''"
definition StageLevel :: string where "StageLevel = ''level''"
definition StageService :: string where "StageService = ''service''"
definition StageRename :: string where "StageRename = ''rename''"
definition StageRemove :: string where "StageRemove = ''remove''"
definition StageSet :: string where "StageSet = ''set''"

lemmas stage_types = StageGrok_def StageRegex_def StageTimestamp_def StageLevel_def StageService_def
  StageRename_def StageRemove_def StageSet_def

record StageSpec =
  ss_type :: string
  ss_field :: string
  ss_pattern :: string
  ss_to :: string
  ss_value :: string
  ss_fields :: "string list"
  ss_layouts :: "string list"
  ss_fail :: bool

record Spec =
  sp_id :: string
  sp_name :: string
  sp_description :: string
  sp_match :: string
  sp_stages :: "StageSpec list"
  sp_enabled :: bool
  sp_order :: int
  sp_created :: time
  sp_updated :: time

datatype stage_kind = ExtractGrok CompiledGrok | ExtractRegex regexp | TimestampStage "string list" | LevelStage
  | ServiceStage | RenameStage | RemoveStage | SetStage

record stage =
  sg_spec :: StageSpec
  sg_kind :: stage_kind

record Pipeline =
  pl_spec :: Spec
  pl_match :: "query option"
  pl_stages :: "stage list"

datatype stage_error = PatternError compile_error | RenameNeedsTo | RemoveNeedsField | SetNeedsTo | UnknownStage string

datatype pipeline_error = MatchIsPipeline string | MatchError string query_error | MatchSetsTime string
  | NoStages string | InStage string nat string stage_error

definition defaultTimeLayouts :: "string list" where
  "defaultTimeLayouts = [
     ''2006-01-02T15:04:05.999999999Z07:00'',
     ''2006-01-02T15:04:05Z07:00'',
     ''2006-01-02 15:04:05.999999999 -0700 MST'',
     ''2006-01-02 15:04:05,000'',
     ''2006-01-02 15:04:05.000'',
     ''2006-01-02 15:04:05'',
     ''02/Jan/2006:15:04:05 -0700'',
     ''Jan _2 15:04:05'',
     ''Mon, 02 Jan 2006 15:04:05 -0700'']"

definition compileStage :: "pipe_env \<Rightarrow> StageSpec \<Rightarrow> stage_error + stage" where
  "compileStage env s0 =
     (let s = (if ss_field s0 = [] then s0\<lparr>ss_field := ''message''\<rparr> else s0);
          ok = (\<lambda>k. Inr \<lparr>sg_spec = s, sg_kind = k\<rparr>)
      in if ss_type s = StageGrok then
           (case compile_grok (pe_re env) (ss_pattern s) of Inl e \<Rightarrow> Inl (PatternError e) | Inr g \<Rightarrow> ok (ExtractGrok g))
         else if ss_type s = StageRegex then
           (case pe_re env (ss_pattern s) of Inl e \<Rightarrow> Inl (PatternError (BadRegexp e)) | Inr re \<Rightarrow> ok (ExtractRegex re))
         else if ss_type s = StageTimestamp then
           ok (TimestampStage (if ss_layouts s = [] then defaultTimeLayouts else ss_layouts s))
         else if ss_type s = StageLevel then ok LevelStage
         else if ss_type s = StageService then ok ServiceStage
         else if ss_type s = StageRename then (if ss_to s = [] then Inl RenameNeedsTo else ok RenameStage)
         else if ss_type s = StageRemove then (if ss_fields s = [] then Inl RemoveNeedsField else ok RemoveStage)
         else if ss_type s = StageSet then (if ss_to s = [] then Inl SetNeedsTo else ok SetStage)
         else Inl (UnknownStage (ss_type s)))"

fun compile_stages :: "pipe_env \<Rightarrow> string \<Rightarrow> nat \<Rightarrow> StageSpec list \<Rightarrow> pipeline_error + stage list" where
  "compile_stages env name i [] = Inr []"
| "compile_stages env name i (s # ss) =
     (case compileStage env s of
        Inl e \<Rightarrow> Inl (InStage name (Suc i) (ss_type s) e)
      | Inr st \<Rightarrow> try_bind (compile_stages env name (Suc i) ss) (\<lambda>sts. Inr (st # sts)))"

definition compile_match :: "pipe_env \<Rightarrow> Spec \<Rightarrow> pipeline_error + query option" where
  "compile_match env s =
     (if trim_space (sp_match s) = [] then Inr None
      else if length (SplitPipeline (sp_match s)) > 1 then Inl (MatchIsPipeline (sp_name s))
      else case Parse (pe_go env) (sp_match s) of
        Inl e \<Rightarrow> Inl (MatchError (sp_name s) e)
      | Inr p \<Rightarrow>
          if \<not> TimeSpec_IsZero (p_time p) then Inl (MatchSetsTime (sp_name s))
          else Inr (Some (Query_Normalize (query_of_parsed p))))"

definition Compile :: "pipe_env \<Rightarrow> Spec \<Rightarrow> pipeline_error + Pipeline" where
  "Compile env s =
     try_bind (compile_match env s) (\<lambda>m.
       if sp_stages s = [] then Inl (NoStages (sp_name s))
       else try_bind (compile_stages env (sp_name s) 0 (sp_stages s)) (\<lambda>sts.
         Inr \<lparr>pl_spec = s, pl_match = m, pl_stages = sts\<rparr>))"

definition pipeline_Matches :: "pipe_env \<Rightarrow> Pipeline \<Rightarrow> logevent \<Rightarrow> bool" where
  "pipeline_Matches env p e = (case pl_match p of None \<Rightarrow> True | Some q \<Rightarrow> Matches (pe_go env) q e)"

section \<open>Fields\<close>

text \<open>\<open>None\<close>: the field is empty or missing.\<close>

definition readField :: "golib \<Rightarrow> logevent \<Rightarrow> string \<Rightarrow> string option" where
  "readField lib e name =
     (let nonempty = (\<lambda>v. if v = [] then None else Some v); n = to_lower name
      in if n = ''message'' \<or> n = ''msg'' then nonempty (ev_message e)
         else if n = ''raw'' then nonempty (ev_raw e)
         else if n = ''service'' then nonempty (ev_service e)
         else if n = ''source'' \<or> n = ''host'' then nonempty (ev_source e)
         else if n = ''level'' then nonempty (ev_level e)
         else map_option (stringify lib) (map_of (ev_attrs e) (trim_prefix ''attr.'' name)))"

definition looksNumeric :: "string \<Rightarrow> bool" where
  "looksNumeric s =
     (if s = [] \<or> (length s > 1 \<and> s ! 0 = CHR ''0'' \<and> s ! 1 \<noteq> CHR ''.'') then False
      else list_all (\<lambda>c. is_digit c \<or> c \<in> {CHR ''.'', CHR ''-'', CHR ''+''}) s)"

definition writeAttr :: "golib \<Rightarrow> string \<Rightarrow> string \<Rightarrow> logevent \<Rightarrow> logevent" where
  "writeAttr lib key val e =
     (let (n, ok) = lib_parse_float lib val;
          v = (if ok \<and> looksNumeric val then AFloat n else AStr val)
      in e\<lparr>ev_attrs := AList.update key v (ev_attrs e)\<rparr>)"

section \<open>Stages\<close>

datatype apply_error = FieldEmpty string | PatternMismatch | NoLayout string

text \<open>A capture lands on the field it is named after, or in an attribute.\<close>

definition set_capture :: "golib \<Rightarrow> string \<times> string \<Rightarrow> logevent \<Rightarrow> logevent" where
  "set_capture lib c e =
     (case c of (name, val) \<Rightarrow>
        (let n = to_lower name
         in if n = ''message'' then e\<lparr>ev_message := val\<rparr>
            else if n = ''service'' then e\<lparr>ev_service := val\<rparr>
            else if n = ''source'' \<or> n = ''host'' then e\<lparr>ev_source := val\<rparr>
            else if n = ''level'' then e\<lparr>ev_level := ParseLevel val\<rparr>
            else writeAttr lib name val e))"

text \<open>\<open>at\<close> is the place of the stage: the number of its pipeline in the set and its own in the pipeline.\<close>

definition set_captures :: "pipe_env \<Rightarrow> nat \<times> nat \<Rightarrow> (string \<times> string) list \<Rightarrow> logevent \<Rightarrow> logevent" where
  "set_captures env at cs e = fold (set_capture (pe_go env)) (pe_range env at cs) e"

definition epochToTime :: "int \<Rightarrow> time" where
  "epochToTime n =
     (if n \<ge> 10 ^ 18 then n
      else if n \<ge> 10 ^ 15 then i64 (n * 10 ^ 3)
      else if n \<ge> 10 ^ 12 then i64 (n * 10 ^ 6)
      else unix_seconds n)"

fun first_parsed :: "pipe_env \<Rightarrow> string list \<Rightarrow> string \<Rightarrow> (stamp \<times> duration) option" where
  "first_parsed env [] raw = None"
| "first_parsed env (l # ls) raw = (case pe_layout env l raw of Some r \<Rightarrow> Some r | None \<Rightarrow> first_parsed env ls raw)"

text \<open>A parsed time, with the year of receipt if the layout has none.\<close>

definition parsed_time :: "pipe_env \<Rightarrow> time \<Rightarrow> stamp \<times> duration \<Rightarrow> time" where
  "parsed_time env received = (\<lambda>(s, offset).
     (if st_year s = 0 then let y = pe_year env received in date_utc y (norm_day y s) - offset
      else date_utc (st_year s) s - offset))"

text \<open>Every stage that reads its field fails when there is nothing in it.\<close>

definition reading :: "pipe_env \<Rightarrow> StageSpec \<Rightarrow> logevent \<Rightarrow> (string \<Rightarrow> apply_error + logevent) \<Rightarrow> apply_error + logevent" where
  "reading env s e f = (case readField (pe_go env) e (ss_field s) of None \<Rightarrow> Inl (FieldEmpty (ss_field s)) | Some v \<Rightarrow> f v)"

definition extract_apply :: "pipe_env \<Rightarrow> nat \<times> nat \<Rightarrow> StageSpec \<Rightarrow> (string \<Rightarrow> (string \<times> string) list option) \<Rightarrow> logevent \<Rightarrow> apply_error + logevent" where
  "extract_apply env at s match e = reading env s e (\<lambda>src.
     case match src of None \<Rightarrow> Inl PatternMismatch | Some cs \<Rightarrow> Inr (set_captures env at cs e))"

definition regex_match_fields :: "regexp \<Rightarrow> string \<Rightarrow> (string \<times> string) list option" where
  "regex_match_fields re src = map_option (\<lambda>m. match_fields [] (rx_names re) m []) (rx_find re src)"

definition timestamp_apply :: "pipe_env \<Rightarrow> StageSpec \<Rightarrow> string list \<Rightarrow> logevent \<Rightarrow> apply_error + logevent" where
  "timestamp_apply env s layouts e = reading env s e (\<lambda>v.
     let raw = trim_space v
     in case parse_int raw of
          Some n \<Rightarrow> Inr (e\<lparr>ev_timestamp := epochToTime n\<rparr>)
        | None \<Rightarrow> (case first_parsed env layouts raw of
            Some p \<Rightarrow> Inr (e\<lparr>ev_timestamp := parsed_time env (ev_received e) p\<rparr>)
          | None \<Rightarrow> Inl (NoLayout raw)))"

definition level_apply :: "pipe_env \<Rightarrow> StageSpec \<Rightarrow> logevent \<Rightarrow> apply_error + logevent" where
  "level_apply env s e = reading env s e (\<lambda>v. Inr (e\<lparr>ev_level := ParseLevel v\<rparr>))"

definition service_apply :: "pipe_env \<Rightarrow> StageSpec \<Rightarrow> logevent \<Rightarrow> apply_error + logevent" where
  "service_apply env s e = reading env s e (\<lambda>v. Inr (e\<lparr>ev_service := v\<rparr>))"

definition rename_apply :: "pipe_env \<Rightarrow> StageSpec \<Rightarrow> logevent \<Rightarrow> apply_error + logevent" where
  "rename_apply env s e = reading env s e (\<lambda>v.
     let e1 = writeAttr (pe_go env) (trim_prefix ''attr.'' (ss_to s)) v e
     in Inr (e1\<lparr>ev_attrs := AList.delete (trim_prefix ''attr.'' (ss_field s)) (ev_attrs e1)\<rparr>))"

definition remove_apply :: "StageSpec \<Rightarrow> logevent \<Rightarrow> logevent" where
  "remove_apply s e = e\<lparr>ev_attrs := fold (\<lambda>f. AList.delete (trim_prefix ''attr.'' f)) (ss_fields s) (ev_attrs e)\<rparr>"

definition set_apply :: "pipe_env \<Rightarrow> StageSpec \<Rightarrow> logevent \<Rightarrow> logevent" where
  "set_apply env s e = writeAttr (pe_go env) (trim_prefix ''attr.'' (ss_to s)) (ss_value s) e"

definition stage_apply :: "pipe_env \<Rightarrow> nat \<times> nat \<Rightarrow> stage \<Rightarrow> logevent \<Rightarrow> apply_error + logevent" where
  "stage_apply env at st e =
     (let s = sg_spec st
      in case sg_kind st of
           ExtractGrok g \<Rightarrow> extract_apply env at s (Grok_Match g) e
         | ExtractRegex re \<Rightarrow> extract_apply env at s (regex_match_fields re) e
         | TimestampStage layouts \<Rightarrow> timestamp_apply env s layouts e
         | LevelStage \<Rightarrow> level_apply env s e
         | ServiceStage \<Rightarrow> service_apply env s e
         | RenameStage \<Rightarrow> rename_apply env s e
         | RemoveStage \<Rightarrow> Inr (remove_apply s e)
         | SetStage \<Rightarrow> Inr (set_apply env s e))"

lemmas stage_defs = stage_apply_def reading_def extract_apply_def timestamp_apply_def level_apply_def service_apply_def
  rename_apply_def remove_apply_def set_apply_def

text \<open>
  A stage that fails is passed over unless it says that the pipeline fails with it; what the stages
  before it did to the event stays.
\<close>

fun apply_stages :: "pipe_env \<Rightarrow> nat \<times> nat \<Rightarrow> stage list \<Rightarrow> logevent \<Rightarrow> (string \<times> apply_error) option \<times> logevent" where
  "apply_stages env (i, j) [] e = (None, e)"
| "apply_stages env (i, j) (st # sts) e =
     (case stage_apply env (i, j) st e of
        Inr e' \<Rightarrow> apply_stages env (i, Suc j) sts e'
      | Inl err \<Rightarrow> if ss_fail (sg_spec st) then (Some (ss_type (sg_spec st), err), e) else apply_stages env (i, Suc j) sts e)"

definition pipeline_Apply :: "pipe_env \<Rightarrow> nat \<Rightarrow> Pipeline \<Rightarrow> logevent \<Rightarrow> (string \<times> string \<times> apply_error) option \<times> logevent" where
  "pipeline_Apply env i p e =
     (case apply_stages env (i, 0) (pl_stages p) e of
        (None, e') \<Rightarrow> (None, e') | (Some (t, err), e') \<Rightarrow> (Some (sp_name (pl_spec p), t, err), e'))"

section \<open>The set in force\<close>

record pipeline_set =
  st_compiled :: "Pipeline list"
  st_applied :: int
  st_failed :: int
  st_warned :: "string list"

definition NewSet :: pipeline_set where
  "NewSet = \<lparr>st_compiled = [], st_applied = 0, st_failed = 0, st_warned = []\<rparr>"

fun compile_all :: "pipe_env \<Rightarrow> Spec list \<Rightarrow> pipeline_error + Pipeline list" where
  "compile_all env [] = Inr []"
| "compile_all env (s # ss) = try_bind (Compile env s) (\<lambda>p. try_bind (compile_all env ss) (\<lambda>ps. Inr (p # ps)))"

definition by_order :: "Pipeline list \<Rightarrow> Pipeline list" where
  "by_order ps = sort_key (\<lambda>p. sp_order (pl_spec p)) ps"

definition Replace :: "pipe_env \<Rightarrow> Spec list \<Rightarrow> pipeline_set \<Rightarrow> pipeline_error option \<times> pipeline_set" where
  "Replace env specs s =
     (case compile_all env (filter sp_enabled specs) of
        Inl e \<Rightarrow> (Some e, s)
      | Inr next \<Rightarrow> (None, s\<lparr>st_compiled := by_order next, st_warned := []\<rparr>))"

definition apply_one :: "pipe_env \<Rightarrow> nat \<times> Pipeline \<Rightarrow> pipeline_set \<times> logevent \<Rightarrow> pipeline_set \<times> logevent" where
  "apply_one env = (\<lambda>(i, p) (s, e).
     (if \<not> pipeline_Matches env p e then (s, e)
      else case pipeline_Apply env i p e of
        (Some _, e') \<Rightarrow> (s\<lparr>st_failed := st_failed s + 1, st_warned := List.insert (sp_id (pl_spec p)) (st_warned s)\<rparr>, e')
      | (None, e') \<Rightarrow> (s\<lparr>st_applied := st_applied s + 1\<rparr>, e')))"

definition Set_Apply :: "pipe_env \<Rightarrow> pipeline_set \<Rightarrow> logevent \<Rightarrow> pipeline_set \<times> logevent" where
  "Set_Apply env s e = fold (apply_one env) (enumerate 0 (st_compiled s)) (s, e)"

definition Set_Metrics :: "pipeline_set \<Rightarrow> nat \<times> int \<times> int" where
  "Set_Metrics s = (length (st_compiled s), st_applied s, st_failed s)"

record TestResult =
  tr_event :: logevent
  tr_matched :: "string list"
  tr_errors :: "(string \<times> string \<times> apply_error) list"

definition test_one :: "pipe_env \<Rightarrow> nat \<times> Pipeline \<Rightarrow> TestResult \<Rightarrow> TestResult" where
  "test_one env = (\<lambda>(i, p) r.
     (if \<not> pipeline_Matches env p (tr_event r) then r
      else case pipeline_Apply env i p (tr_event r) of (err, e') \<Rightarrow>
        r\<lparr>tr_event := e', tr_matched := tr_matched r @ [sp_name (pl_spec p)],
          tr_errors := tr_errors r @ (case err of None \<Rightarrow> [] | Some x \<Rightarrow> [x])\<rparr>))"

definition Test :: "pipe_env \<Rightarrow> Spec list \<Rightarrow> logevent \<Rightarrow> pipeline_error + TestResult" where
  "Test env specs e =
     try_bind (compile_all env specs) (\<lambda>ps.
       Inr (fold (test_one env) (enumerate 0 (by_order ps)) \<lparr>tr_event = e, tr_matched = [], tr_errors = []\<rparr>))"

section \<open>What pipelines leave alone\<close>

definition keeps :: "logevent \<Rightarrow> logevent \<Rightarrow> bool" where
  "keeps e e' \<longleftrightarrow> ev_id e' = ev_id e \<and> ev_received e' = ev_received e \<and> ev_raw e' = ev_raw e
     \<and> (Valid (ev_level e) \<longrightarrow> Valid (ev_level e')) \<and> (distinct (map fst (ev_attrs e)) \<longrightarrow> distinct (map fst (ev_attrs e')))"

lemma keeps_refl [simp]: "keeps e e"
  by (simp add: keeps_def)

lemma keeps_trans: "keeps e1 e2 \<Longrightarrow> keeps e2 e3 \<Longrightarrow> keeps e1 e3"
  by (auto simp: keeps_def)

lemma keeps_writeAttr [simp]: "keeps e (writeAttr lib k v e)"
  by (simp add: keeps_def writeAttr_def distinct_update split: prod.split)

lemma keeps_set_captures: "keeps e (set_captures env at cs e)"
proof -
  have one: "keeps e (set_capture lib c e)" for lib c e
    by (simp add: set_capture_def Let_def keeps_def[of e "e\<lparr>ev_message := _\<rparr>"] keeps_def[of e "e\<lparr>ev_service := _\<rparr>"]
        keeps_def[of e "e\<lparr>ev_source := _\<rparr>"] keeps_def[of e "e\<lparr>ev_level := _\<rparr>"] Valid_ParseLevel split: prod.split)
  have "keeps e (fold (set_capture lib) cs e)" for lib cs
    by (induction cs arbitrary: e) (auto intro: keeps_trans one)
  then show ?thesis by (simp add: set_captures_def)
qed

lemma distinct_deletes: "distinct (map fst m) \<Longrightarrow> distinct (map fst (fold (\<lambda>f. AList.delete (g f)) fs m))"
  by (induction fs arbitrary: m) (simp_all add: distinct_delete)

lemma keeps_stage: "stage_apply env at st e = Inr e' \<Longrightarrow> keeps e e'"
proof -
  have del: "keeps e (e1\<lparr>ev_attrs := AList.delete k (ev_attrs e1)\<rparr>)" if "keeps e e1" for e1 k
    using that by (simp add: keeps_def distinct_delete)
  have flds: "keeps e (e\<lparr>ev_timestamp := t\<rparr>)" "keeps e (e\<lparr>ev_level := ParseLevel v\<rparr>)" "keeps e (e\<lparr>ev_service := v\<rparr>)"
    "keeps e (e\<lparr>ev_attrs := fold (\<lambda>f. AList.delete (g f)) fs (ev_attrs e)\<rparr>)" for t v g and fs :: "string list"
    by (simp_all add: keeps_def Valid_ParseLevel distinct_deletes)
  show "stage_apply env at st e = Inr e' \<Longrightarrow> ?thesis"
    by (cases "sg_kind st")
       (auto simp: stage_defs Let_def keeps_set_captures flds del split: option.split_asm)
qed

lemma keeps_stages: "keeps e (snd (apply_stages env at sts e))"
  by (induction env at sts e rule: apply_stages.induct) (auto intro: keeps_trans dest: keeps_stage split: sum.split)

lemma keeps_pipeline: "keeps e (snd (pipeline_Apply env i p e))"
  using keeps_stages[of e env "(i, 0)" "pl_stages p"]
  by (simp add: pipeline_Apply_def split: prod.split option.split) auto

lemma keeps_one: "keeps e (snd (apply_one env ip (s, e)))"
  using keeps_pipeline[of e env "fst ip" "snd ip"] by (auto simp: apply_one_def split: prod.split option.split)

text \<open>C29. Whatever pipelines are configured, an event goes through: its ID, its time of receipt and its
  raw text are never touched, a valid level stays valid and the attributes keep distinct names.
\<close>

theorem pipelines_keep_identity:
  "case Set_Apply env s e of (s', e') \<Rightarrow>
     ev_id e' = ev_id e \<and> ev_received e' = ev_received e \<and> ev_raw e' = ev_raw e
     \<and> (Valid (ev_level e) \<longrightarrow> Valid (ev_level e'))
     \<and> (distinct (map fst (ev_attrs e)) \<longrightarrow> distinct (map fst (ev_attrs e')))"
proof -
  have "keeps e (snd (fold (apply_one env) ps (s, e)))" for ps s
  proof (induction ps arbitrary: s e)
    case (Cons p ps)
    obtain s1 e1 where "apply_one env p (s, e) = (s1, e1)" by (cases "apply_one env p (s, e)")
    then show ?case using Cons[of e1 s1] keeps_one[of e env p s] by (auto intro: keeps_trans)
  qed simp
  then have "keeps e (snd (Set_Apply env s e))" by (simp add: Set_Apply_def)
  then show ?thesis by (cases "Set_Apply env s e") (simp add: keeps_def)
qed

section \<open>Replacing and dry runs\<close>

lemma compile_all_Inr: "compile_all env specs = Inr ps \<Longrightarrow> map pl_spec ps = specs"
  by (induction specs arbitrary: ps) (auto simp: try_bind_Inr Compile_def split: if_split_asm)

lemma compile_all_Inl:
  "compile_all env specs = Inl e \<Longrightarrow>
   \<exists>xs y ys. specs = xs @ y # ys \<and> (\<forall>x \<in> set xs. \<exists>p. Compile env x = Inr p) \<and> Compile env y = Inl e"
proof (induction specs)
  case (Cons s ss)
  show ?case
  proof (cases "Compile env s")
    case (Inl e')
    then have "s # ss = [] @ s # ss" "Compile env s = Inl e" using Cons.prems by simp_all
    then show ?thesis by (metis empty_iff empty_set)
  next
    case (Inr p)
    then obtain xs y ys where "ss = xs @ y # ys" "\<forall>x \<in> set xs. \<exists>p. Compile env x = Inr p" "Compile env y = Inl e"
      using Cons by (auto simp: try_bind_Inl)
    then have "s # ss = (s # xs) @ y # ys" "\<forall>x \<in> set (s # xs). \<exists>p. Compile env x = Inr p" "Compile env y = Inl e"
      using Inr by auto
    then show ?thesis by metis
  qed
qed simp

lemma compile_all_ok: "compile_all env specs = Inr ps \<Longrightarrow> spec \<in> set specs \<Longrightarrow> \<exists>p. Compile env spec = Inr p"
  by (induction specs arbitrary: ps) (auto simp: try_bind_Inr)

lemma map_sort_key: "map f (sort_key (\<lambda>x. g (f x)) xs) = sort_key g (map f xs)"
proof -
  have "map f (insort_key (\<lambda>x. g (f x)) x xs) = insort_key g (f x) (map f xs)" for x xs
    by (induction xs) auto
  then show ?thesis by (induction xs) auto
qed

text \<open>C30. Replacing is all or nothing: if an enabled specification does not compile it fails with the error of
  the first such, and the set is what it was; otherwise the set in force is all the enabled
  specifications sorted by their order, those of the same order in the sequence given.
\<close>

theorem replace_all_or_nothing:
  "case Replace env specs s of
     (Some e, s') \<Rightarrow> s' = s \<and> (\<exists>xs y ys. filter sp_enabled specs = xs @ y # ys
         \<and> list_all (\<lambda>x. is_ok (Compile env x)) xs \<and> Compile env y = Inl e)
   | (None, s') \<Rightarrow> map pl_spec (st_compiled s') = sort_key sp_order (filter sp_enabled specs)
       \<and> list_all (\<lambda>x. is_ok (Compile env x)) (filter sp_enabled specs)
       \<and> st_applied s' = st_applied s \<and> st_failed s' = st_failed s"
proof (cases "compile_all env (filter sp_enabled specs)")
  case (Inl e)
  then show ?thesis
    using compile_all_Inl[OF Inl] by (auto simp: Replace_def list_all_iff is_ok_iff)
next
  case (Inr ps)
  have "map pl_spec (by_order ps) = sort_key sp_order (filter sp_enabled specs)"
    using compile_all_Inr[OF Inr] map_sort_key[of pl_spec sp_order ps] by (simp add: by_order_def)
  then show ?thesis
    using Inr compile_all_ok[OF Inr] by (auto simp: Replace_def list_all_iff is_ok_iff)
qed

lemma dry_run_step:
  "apply_one env p (s, tr_event r) = (s', e') \<Longrightarrow> test_one env p r = r' \<Longrightarrow>
     e' = tr_event r' \<and> st_applied s' + st_failed s' - int (length (tr_matched r')) = st_applied s + st_failed s - int (length (tr_matched r))
     \<and> st_failed s' - int (length (tr_errors r')) = st_failed s - int (length (tr_errors r))"
  by (auto simp: apply_one_def test_one_def split: if_split_asm prod.split_asm option.split_asm)

lemma dry_run_fold:
  "fold (apply_one env) ps (s, tr_event r) = (s', e') \<Longrightarrow> fold (test_one env) ps r = r' \<Longrightarrow>
     e' = tr_event r' \<and> st_applied s' + st_failed s' - int (length (tr_matched r')) = st_applied s + st_failed s - int (length (tr_matched r))
     \<and> st_failed s' - int (length (tr_errors r')) = st_failed s - int (length (tr_errors r))"
proof (induction ps arbitrary: s r)
  case (Cons p ps)
  obtain s1 e1 where one: "apply_one env p (s, tr_event r) = (s1, e1)" by (cases "apply_one env p (s, tr_event r)")
  note st = dry_run_step[OF one refl]
  have "fold (apply_one env) ps (s1, tr_event (test_one env p r)) = (s', e')" using Cons.prems(1) one st by simp
  then show ?case using Cons.IH[of s1 "test_one env p r"] Cons.prems(2) st by simp
qed simp

lemma Compile_range: "Compile (env\<lparr>pe_range := rg\<rparr>) = Compile env"
proof -
  have "compileStage (env\<lparr>pe_range := rg\<rparr>) = compileStage env"
    by (simp add: fun_eq_iff compileStage_def)
  then have "compile_stages (env\<lparr>pe_range := rg\<rparr>) n i ss = compile_stages env n i ss" for n i ss
    by (induction ss arbitrary: i) (simp_all split: sum.split)
  then show ?thesis by (simp add: fun_eq_iff Compile_def compile_match_def)
qed

lemma compile_all_range: "compile_all (env\<lparr>pe_range := rg\<rparr>) ss = compile_all env ss"
  by (induction ss) (simp_all add: Compile_range)

text \<open>C28. A dry run and the real thing do the same.  When \<^verbatim>\<open>Test\<close> has something to report for a list of
  enabled specifications, they can be put in force, and then an event is stored exactly as a dry run
  of it would report it in which Go's \<^verbatim>\<open>range\<close> visits the captures of every stage in the orders \<open>rg\<close> it visits
  them in when the event is stored; the counters go up by the pipelines that this run names as matching
  and by the errors it lists.  The orders are Go's choice, for each stage and each run anew: only in these can a
  dry run differ from what is stored.
\<close>

theorem dry_run_exact:
  assumes "Test env specs e = Inr r0" "list_all sp_enabled specs" "Replace env specs s0 = (err, s)"
    and "Set_Apply (env\<lparr>pe_range := rg\<rparr>) s e = (s', e')"
  shows "err = None \<and> (\<exists>r. Test (env\<lparr>pe_range := rg\<rparr>) specs e = Inr r \<and> e' = tr_event r
    \<and> (rg = pe_range env \<longrightarrow> r = r0)
    \<and> st_applied s' + st_failed s' = st_applied s0 + st_failed s0 + int (length (tr_matched r))
    \<and> st_failed s' = st_failed s0 + int (length (tr_errors r)))"
proof -
  let ?env = "env\<lparr>pe_range := rg\<rparr>" and ?t0 = "\<lparr>tr_event = e, tr_matched = [], tr_errors = []\<rparr>"
  have f: "filter sp_enabled specs = specs" using assms(2) by (simp add: list_all_iff)
  obtain ps where ps: "compile_all env specs = Inr ps" "r0 = fold (test_one env) (enumerate 0 (by_order ps)) ?t0"
    using assms(1) by (auto simp: Test_def try_bind_Inr)
  have s: "err = None" "s = s0\<lparr>st_compiled := by_order ps, st_warned := []\<rparr>"
    using assms(3) f ps(1) by (simp_all add: Replace_def)
  define r where "r = fold (test_one ?env) (enumerate 0 (by_order ps)) ?t0"
  have t: "Test ?env specs e = Inr r" by (simp add: Test_def compile_all_range ps(1) r_def)
  have same: "rg = pe_range env \<longrightarrow> r = r0" by (auto simp: r_def ps(2))
  have "fold (apply_one ?env) (enumerate 0 (by_order ps)) (s, tr_event ?t0) = (s', e')"
    using assms(4) s(2) by (simp add: Set_Apply_def)
  from dry_run_fold[OF this r_def[symmetric]] show ?thesis using s t same by auto
qed

text \<open>Two captures for the same field: the order of the map decides which one the event keeps.\<close>

lemma captures_race:
  "pe_range env at [(''source'', ''a''), (''host'', ''b'')] = [(''source'', ''a''), (''host'', ''b'')] \<Longrightarrow>
     ev_source (set_captures env at [(''source'', ''a''), (''host'', ''b'')] e) = ''b''"
  "pe_range env at [(''source'', ''a''), (''host'', ''b'')] = [(''host'', ''b''), (''source'', ''a'')] \<Longrightarrow>
     ev_source (set_captures env at [(''source'', ''a''), (''host'', ''b'')] e) = ''a''"
  by (simp_all add: set_captures_def set_capture_def to_lower_def lower_char_def Let_def)

section \<open>Stages\<close>

definition converted :: "golib \<Rightarrow> string \<Rightarrow> any" where
  "converted lib val = (if snd (lib_parse_float lib val) \<and> looksNumeric val then AFloat (fst (lib_parse_float lib val)) else AStr val)"

lemma writeAttr_map: "map_of (ev_attrs (writeAttr lib k v e)) = (map_of (ev_attrs e))(k \<mapsto> converted lib v)"
  by (simp add: writeAttr_def converted_def update_conv' split: prod.split)

text \<open>
  A rename does exactly this, whatever its source is.  If the source is empty or missing it fails
  and leaves the event to the next stage.  Otherwise nothing but the attributes changes: the target gets
  the source's value as text, or as a number if it looks like one, then the attribute of the source's
  name goes, and every other attribute stays.  So a rename of an attribute onto itself removes it, and
  when the source is a field of the event rather than an attribute the field keeps its value, and an
  attribute of that name is removed instead.
\<close>

theorem rename_exact:
  assumes "sg_kind st = RenameStage"
  shows "case readField (pe_go env) e (ss_field (sg_spec st)) of
      None \<Rightarrow> stage_apply env at st e = Inl (FieldEmpty (ss_field (sg_spec st)))
    | Some v \<Rightarrow> \<exists>attrs. stage_apply env at st e = Inr (e\<lparr>ev_attrs := attrs\<rparr>)
        \<and> map_of attrs = ((map_of (ev_attrs e))(trim_prefix ''attr.'' (ss_to (sg_spec st)) \<mapsto> converted (pe_go env) v))
             (trim_prefix ''attr.'' (ss_field (sg_spec st)) := None)"
proof (cases "readField (pe_go env) e (ss_field (sg_spec st))")
  case None
  then show ?thesis using assms by (simp add: stage_defs)
next
  case (Some v)
  let ?t = "trim_prefix ''attr.'' (ss_to (sg_spec st))" and ?k = "trim_prefix ''attr.'' (ss_field (sg_spec st))"
  let ?e1 = "writeAttr (pe_go env) ?t v e"
  have "stage_apply env at st e = Inr (?e1\<lparr>ev_attrs := AList.delete ?k (ev_attrs ?e1)\<rparr>)"
    using assms Some by (simp add: stage_defs Let_def)
  moreover have "?e1\<lparr>ev_attrs := a\<rparr> = e\<lparr>ev_attrs := a\<rparr>" for a by (simp add: writeAttr_def split: prod.split)
  moreover have "map_of (AList.delete ?k (ev_attrs ?e1)) = ((map_of (ev_attrs e))(?t \<mapsto> converted (pe_go env) v))(?k := None)"
    by (simp add: delete_conv' writeAttr_map)
  ultimately show ?thesis using Some by auto
qed

definition sample_pipe_env :: pipe_env where
  "sample_pipe_env = \<lparr>pe_go = ascii_lib, pe_re = (\<lambda>_. Inl ''no''), pe_range = (\<lambda>_ cs. cs), pe_layout = (\<lambda>_ _. None), pe_year = (\<lambda>_. 2024)\<rparr>"

definition sample_stage :: "string \<Rightarrow> string \<Rightarrow> string \<Rightarrow> StageSpec" where
  "sample_stage type field to = \<lparr>ss_type = type, ss_field = field, ss_pattern = [], ss_to = to, ss_value = ''x'', ss_fields = [],
     ss_layouts = [], ss_fail = True\<rparr>"

text \<open>A rename of the service onto \<^verbatim>\<open>svc\<close>: the service stays, and the attribute \<^verbatim>\<open>service\<close> goes.\<close>

theorem rename_exact_witness:
  "\<exists>attrs. stage_apply sample_pipe_env (0, 0) \<lparr>sg_spec = sample_stage StageRename ''service'' ''svc'', sg_kind = RenameStage\<rparr>
       (empty_event\<lparr>ev_service := ''api'', ev_attrs := [(''service'', AStr ''x'')]\<rparr>)
     = Inr (empty_event\<lparr>ev_service := ''api'', ev_attrs := attrs\<rparr>) \<and> map_of attrs = [''svc'' \<mapsto> AStr ''api'']"
proof -
  let ?e = "empty_event\<lparr>ev_service := ''api'', ev_attrs := [(''service'', AStr ''x'')]\<rparr>"
  have r: "readField (pe_go sample_pipe_env) ?e ''service'' = Some ''api''"
    by (simp add: readField_def to_lower_def lower_char_def)
  have c: "converted (pe_go sample_pipe_env) ''api'' = AStr ''api''"
    by (simp add: converted_def looksNumeric_def is_digit_def)
  have t: "trim_prefix ''attr.'' ''svc'' = ''svc''" "trim_prefix ''attr.'' ''service'' = ''service''"
    by (simp_all add: trim_prefix_def)
  have m: "(([''service'' \<mapsto> AStr ''x''](''svc'' \<mapsto> AStr ''api''))(''service'' := None)) = [''svc'' \<mapsto> AStr ''api'']"
    by (simp add: fun_eq_iff)
  show ?thesis
    using rename_exact[where st = "\<lparr>sg_spec = sample_stage StageRename ''service'' ''svc'', sg_kind = RenameStage\<rparr>"
        and env = sample_pipe_env and e = ?e and at = "(0, 0)"]
    by (auto simp: sample_stage_def r c t m)
qed

lemma apply_stages_append:
  "apply_stages env (i, j) sts e = (None, e1) \<Longrightarrow> apply_stages env (i, j) (sts @ rest) e = apply_stages env (i, j + length sts) rest e1"
proof (induction sts arbitrary: j e)
  case (Cons st sts)
  then show ?case by (auto split: sum.split_asm if_split_asm)
qed simp

text \<open>C32. A pipeline that fails has already changed the event: what its stages did up to the one that
  failed stays, and the rest of it is not run.
\<close>

theorem failed_pipeline_keeps_changes:
  assumes "pl_stages p = sts @ st # rest" "apply_stages env (i, 0) sts e = (None, e1)"
    and "stage_apply env (i, length sts) st e1 = Inl err" "ss_fail (sg_spec st)" "pipeline_Matches env p e"
  shows "apply_one env (i, p) (s, e) = (s\<lparr>st_failed := st_failed s + 1, st_warned := List.insert (sp_id (pl_spec p)) (st_warned s)\<rparr>, e1)"
  using assms(3-5) apply_stages_append[OF assms(2), of "st # rest"]
  by (simp add: apply_one_def pipeline_Apply_def assms(1))

definition set_then_level :: Pipeline where
  "set_then_level = \<lparr>pl_spec = \<lparr>sp_id = ''1'', sp_name = ''p'', sp_description = [], sp_match = [], sp_stages = [], sp_enabled = True,
      sp_order = 0, sp_created = 0, sp_updated = 0\<rparr>, pl_match = None,
    pl_stages = [\<lparr>sg_spec = sample_stage StageSet [] ''team'', sg_kind = SetStage\<rparr>,
                 \<lparr>sg_spec = sample_stage StageLevel ''attr.severity'' [], sg_kind = LevelStage\<rparr>]\<rparr>"

theorem failed_pipeline_keeps_changes_witness:
  "apply_one sample_pipe_env (0, set_then_level) (NewSet, empty_event)
     = (NewSet\<lparr>st_failed := 1, st_warned := [''1'']\<rparr>, empty_event\<lparr>ev_attrs := [(''team'', AStr ''x'')]\<rparr>)"
proof -
  let ?e1 = "empty_event\<lparr>ev_attrs := [(''team'', AStr ''x'')]\<rparr>"
  have "apply_stages sample_pipe_env (0, 0) [\<lparr>sg_spec = sample_stage StageSet [] ''team'', sg_kind = SetStage\<rparr>] empty_event = (None, ?e1)"
    by (simp add: stage_defs sample_stage_def writeAttr_def sample_pipe_env_def ascii_lib_def int_parse_float_def parse_int_def
        is_digit_def trim_prefix_def empty_event_def looksNumeric_def)
  then show ?thesis
    using failed_pipeline_keeps_changes[of set_then_level "[\<lparr>sg_spec = sample_stage StageSet [] ''team'', sg_kind = SetStage\<rparr>]"
        "\<lparr>sg_spec = sample_stage StageLevel ''attr.severity'' [], sg_kind = LevelStage\<rparr>" "[]" sample_pipe_env 0 empty_event ?e1
        "FieldEmpty ''attr.severity''" NewSet]
    by (simp add: set_then_level_def stage_defs sample_stage_def readField_def to_lower_def lower_char_def trim_prefix_def
        pipeline_Matches_def NewSet_def)
qed

lemma epochToTime_unixAuto: "epochToTime n = unixAuto n"
  by (simp add: epochToTime_def unixAuto_def)

definition service_spec :: Spec where
  "service_spec = \<lparr>sp_id = [], sp_name = ''p'', sp_description = [], sp_match = [], sp_stages = [sample_stage StageService ''raw'' []],
     sp_enabled = True, sp_order = 0, sp_created = 0, sp_updated = 0\<rparr>"

lemma service_spec_test:
  "Test sample_pipe_env [service_spec] (empty_event\<lparr>ev_raw := ''svc''\<rparr>)
     = Inr \<lparr>tr_event = empty_event\<lparr>ev_raw := ''svc'', ev_service := ''svc''\<rparr>, tr_matched = [''p''], tr_errors = []\<rparr>"
  by (simp add: Test_def Compile_def compile_match_def compileStage_def service_spec_def sample_stage_def stage_types
      by_order_def test_one_def pipeline_Matches_def pipeline_Apply_def stage_defs readField_def to_lower_def lower_char_def)

theorem dry_run_exact_witness:
  "case Set_Apply sample_pipe_env (snd (Replace sample_pipe_env [service_spec] NewSet)) (empty_event\<lparr>ev_raw := ''svc''\<rparr>) of
     (s, e) \<Rightarrow> ev_service e = ''svc'' \<and> st_applied s = 1 \<and> st_failed s = 0"
proof -
  obtain err s where r: "Replace sample_pipe_env [service_spec] NewSet = (err, s)"
    by (cases "Replace sample_pipe_env [service_spec] NewSet")
  obtain s' e' where a: "Set_Apply sample_pipe_env s (empty_event\<lparr>ev_raw := ''svc''\<rparr>) = (s', e')"
    by (cases "Set_Apply sample_pipe_env s (empty_event\<lparr>ev_raw := ''svc''\<rparr>)")
  have a': "Set_Apply (sample_pipe_env\<lparr>pe_range := pe_range sample_pipe_env\<rparr>) s (empty_event\<lparr>ev_raw := ''svc''\<rparr>) = (s', e')"
    using a by simp
  have "list_all sp_enabled [service_spec]" by (simp add: service_spec_def)
  from dry_run_exact[OF service_spec_test this r a']
  have "ev_service e' = ''svc'' \<and> st_applied s' = 1 \<and> st_failed s' = 0" by (simp add: NewSet_def)
  then show ?thesis by (simp add: r a)
qed

theorem pipelines_keep_identity_witness:
  "\<forall>env s. Valid (ev_level (snd (Set_Apply env s (empty_event\<lparr>ev_level := LevelInfo\<rparr>))))"
proof (intro allI)
  fix env s
  have "Valid (ev_level (empty_event\<lparr>ev_level := LevelInfo\<rparr>))" by (simp add: Valid_def level_rank_def LevelInfo_def)
  then show "Valid (ev_level (snd (Set_Apply env s (empty_event\<lparr>ev_level := LevelInfo\<rparr>))))"
    using pipelines_keep_identity[where env = env and s = s and e = "empty_event\<lparr>ev_level := LevelInfo\<rparr>"]
    by (cases "Set_Apply env s (empty_event\<lparr>ev_level := LevelInfo\<rparr>)") simp
qed

end
