(* ===== verification/Settings.thy ===== *)
theory Settings
  imports Prelude
begin

text \<open>
  \<^verbatim>\<open>src/internal/settings/settings.go\<close> and the settings table of
  \<^verbatim>\<open>src/internal/store/sqlite/settings.go\<close>: the part of the configuration that can be changed
  while the server runs.  \<open>sj_marshal\<close> is \<^verbatim>\<open>json.Marshal\<close> of the settings, \<open>sj_merge\<close> is
  \<^verbatim>\<open>json.Unmarshal\<close> over a value: what the value becomes and whether there was no error.  Hooks act
  on a world of their own; \<open>applyMu\<close> makes each change one step.
\<close>

section \<open>The table\<close>

text \<open>Whether the database answers is an argument; a transaction that does not commit leaves the table alone.\<close>

type_synonym settings_table = "(string \<times> string) list"

definition GetSettings :: "bool \<Rightarrow> settings_table \<Rightarrow> settings_table option" where
  "GetSettings up t = (if up then Some t else None)"

definition PutSettings :: "bool \<Rightarrow> (string \<times> string) list \<Rightarrow> settings_table \<Rightarrow> bool \<times> settings_table" where
  "PutSettings up kv t =
     (if kv = [] then (True, t)
      else if up then (True, fold (\<lambda>(k, v). AList.update k v) kv t) else (False, t))"

section \<open>Settings\<close>

record Mutable =
  mu_retention :: int
  mu_rate :: f64
  mu_burst :: int
  mu_events :: int
  mu_bytes :: int
  mu_level :: string
  mu_keys :: "string list"

record settings_json =
  sj_marshal :: "Mutable \<Rightarrow> string option"
  sj_merge :: "string \<Rightarrow> Mutable \<Rightarrow> Mutable \<times> bool"

definition mutableKey :: string where "mutableKey = ''mutable''"

text \<open>The loop over the keys with the set of those seen.\<close>

fun normalize_from :: "string set \<Rightarrow> string list \<Rightarrow> string list" where
  "normalize_from seen [] = []"
| "normalize_from seen (k # ks) =
     (let k' = trim_space k
      in if k' = [] \<or> k' \<in> seen then normalize_from seen ks else k' # normalize_from (insert k' seen) ks)"

definition normalizeKeys :: "string list \<Rightarrow> string list" where
  "normalizeKeys keys = normalize_from {} keys"

datatype settings_error = BadRetention | BadRate | BadBurst | BadQuota | BadLevel | InvalidSettingsJSON | MarshalFailed
  | StoreFailed | BadOverrides

definition settings_levels :: "string list" where
  "settings_levels = [[], ''debug'', ''info'', ''warn'', ''warning'', ''error'']"

definition Validate :: "Mutable \<Rightarrow> settings_error option" where
  "Validate m =
     (if mu_retention m < 0 then Some BadRetention
      else if f64_lt (mu_rate m) 0 then Some BadRate
      else if mu_burst m < 0 then Some BadBurst
      else if mu_events m < 0 \<or> mu_bytes m < 0 then Some BadQuota
      else if to_lower (trim_space (mu_level m)) \<notin> set settings_levels then Some BadLevel
      else None)"

text \<open>\<open>mg_hooks\<close>: what a hook does to the world, given the settings.\<close>

record 'w Manager =
  mg_cur :: Mutable
  mg_hooks :: "(Mutable \<Rightarrow> 'w \<Rightarrow> 'w) list"

definition NewManager :: "Mutable \<Rightarrow> 'w Manager" where
  "NewManager base = \<lparr>mg_cur = base\<lparr>mu_keys := normalizeKeys (mu_keys base)\<rparr>, mg_hooks = []\<rparr>"

text \<open>An error in the middle of the overrides leaves what had been read of them.\<close>

definition Load :: "settings_json \<Rightarrow> bool \<Rightarrow> settings_table \<Rightarrow> 'w Manager \<Rightarrow> settings_error option \<times> 'w Manager" where
  "Load js up t m =
     (case GetSettings up t of
        None \<Rightarrow> (Some StoreFailed, m)
      | Some kv \<Rightarrow>
          (case map_of kv mutableKey of
             None \<Rightarrow> (None, m)
           | Some raw \<Rightarrow>
               (case sj_merge js raw (mg_cur m) of
                  (cur, False) \<Rightarrow> (Some BadOverrides, m\<lparr>mg_cur := cur\<rparr>)
                | (cur, True) \<Rightarrow> (None, m\<lparr>mg_cur := cur\<lparr>mu_keys := normalizeKeys (mu_keys cur)\<rparr>\<rparr>))))"

definition OnChange :: "(Mutable \<Rightarrow> 'w \<Rightarrow> 'w) \<Rightarrow> 'w Manager \<Rightarrow> 'w Manager" where
  "OnChange fn m = m\<lparr>mg_hooks := mg_hooks m @ [fn]\<rparr>"

text \<open>The state a change works on: the manager, the table and the world of the hooks.\<close>

type_synonym 'w settings_state = "'w Manager \<times> settings_table \<times> 'w"

definition applyLocked :: "settings_json \<Rightarrow> bool \<Rightarrow> Mutable \<Rightarrow> 'w settings_state \<Rightarrow> (settings_error + Mutable \<times> Mutable) \<times> 'w settings_state" where
  "applyLocked js up next0 = (\<lambda>(m, t, w).
     (let next = next0\<lparr>mu_keys := normalizeKeys (mu_keys next0), mu_level := to_lower (trim_space (mu_level next0))\<rparr>
      in case Validate next of
           Some e \<Rightarrow> (Inl e, m, t, w)
         | None \<Rightarrow>
             (case sj_marshal js next of
                None \<Rightarrow> (Inl MarshalFailed, m, t, w)
              | Some raw \<Rightarrow>
                  (case PutSettings up [(mutableKey, raw)] t of
                     (False, t') \<Rightarrow> (Inl StoreFailed, m, t', w)
                   | (True, t') \<Rightarrow>
                       (Inr (mg_cur m, next), m\<lparr>mg_cur := next\<rparr>, t', fold (\<lambda>fn. fn next) (mg_hooks m) w)))))"

definition Apply :: "settings_json \<Rightarrow> bool \<Rightarrow> Mutable \<Rightarrow> 'w settings_state \<Rightarrow> settings_error option \<times> 'w settings_state" where
  "Apply js up next s = (case applyLocked js up next s of (Inl e, s') \<Rightarrow> (Some e, s') | (Inr _, s') \<Rightarrow> (None, s'))"

definition ApplyJSON :: "settings_json \<Rightarrow> bool \<Rightarrow> string \<Rightarrow> 'w settings_state \<Rightarrow> (settings_error + Mutable \<times> Mutable) \<times> 'w settings_state" where
  "ApplyJSON js up raw s =
     (case sj_merge js raw (mg_cur (fst s)) of
        (_, False) \<Rightarrow> (Inl InvalidSettingsJSON, s)
      | (next, True) \<Rightarrow> applyLocked js up next s)"

section \<open>Properties\<close>

lemma normalize_from_props:
  "distinct (normalize_from seen ks)"
  "set (normalize_from seen ks) = trim_space ` set ks - insert [] seen"
  by (induction seen ks rule: normalize_from.induct) (auto simp: Let_def)

lemma remdups_snoc: "remdups (ys @ [x]) = filter (\<lambda>y. y \<noteq> x) (remdups ys) @ [x]"
  by (induction ys) auto

text \<open>The elements of a list in the order of their first occurrence.\<close>

definition firsts :: "string list \<Rightarrow> string list" where
  "firsts xs = rev (remdups (rev xs))"

lemma firsts_simps: "firsts [] = []" "firsts (x # xs) = x # filter (\<lambda>y. y \<noteq> x) (firsts xs)"
  by (simp_all add: firsts_def remdups_snoc rev_filter)

lemma normalize_from_firsts:
  "normalize_from seen ks = filter (\<lambda>k. k \<notin> seen) (firsts (filter (\<lambda>k. k \<noteq> []) (map trim_space ks)))"
proof (induction seen ks rule: normalize_from.induct)
  case (2 seen k ks)
  let ?F = "firsts (filter (\<lambda>k. k \<noteq> []) (map trim_space ks))"
  have a: "filter (\<lambda>y. y \<notin> seen) (filter (\<lambda>y. y \<noteq> x) ?F) = filter (\<lambda>y. y \<notin> insert x seen) ?F" for x
    by (simp add: conj_commute)
  consider "trim_space k = []" | "trim_space k \<noteq> []" "trim_space k \<in> seen" | "trim_space k \<noteq> []" "trim_space k \<notin> seen" by blast
  then show ?case
  proof cases
    case 2
    then have "insert (trim_space k) seen = seen" by auto
    then show ?thesis using 2 "2.IH"(1)[OF refl] a[of "trim_space k"] by (simp add: Let_def firsts_simps)
  qed (use "2.IH"[OF refl] a[of "trim_space k"] in \<open>simp_all add: Let_def firsts_simps\<close>)
qed (simp add: firsts_simps)

text \<open>
  Normalising keeps exactly the keys that were given: trimmed, the empty ones left out, each once, and
  in the order of their first occurrence.
\<close>

theorem normalizeKeys_exact:
  "set (normalizeKeys keys) = trim_space ` set keys - {[]} \<and> distinct (normalizeKeys keys)
     \<and> normalizeKeys keys = firsts (filter (\<lambda>k. k \<noteq> []) (map trim_space keys))"
  using normalize_from_props[of "{}" keys] normalize_from_firsts[of "{}" keys] by (simp add: normalizeKeys_def)

lemma strip_done: "find (\<lambda>p. p \<noteq> [] \<and> prefix p (strip ps s)) ps = None"
  by (induction ps s rule: strip.induct) (subst (1) strip.simps, auto split: option.split)

lemma strip_fixed: "find (\<lambda>p. p \<noteq> [] \<and> prefix p s) ps = None \<Longrightarrow> strip ps s = s"
  by (subst strip.simps) simp

lemma trim_space_idem: "trim_space (trim_space s) = trim_space s"
proof -
  let ?f = "strip space_encodings s"
  let ?g = "rev (strip (map rev space_encodings) (rev ?f))"
  have "suffix (rev ?g) (rev ?f)" by (simp add: strip_suffix)
  then have pre: "prefix ?g ?f" by (simp add: suffix_to_prefix)
  have "find (\<lambda>p. p \<noteq> [] \<and> prefix p ?g) space_encodings = None"
    using strip_done[of space_encodings s] pre
    by (auto simp: find_None_iff dest: prefix_order.trans)
  then have "strip space_encodings ?g = ?g" by (rule strip_fixed)
  moreover have "strip (map rev space_encodings) (rev ?g) = rev ?g"
    using strip_fixed[OF strip_done[of "map rev space_encodings" "rev ?f"]] by simp
  ultimately show ?thesis by (simp add: trim_space_def)
qed

lemma firsts_distinct: "distinct xs \<Longrightarrow> firsts xs = xs"
  by (simp add: firsts_def distinct_remdups_id)

lemma normalizeKeys_idem: "normalizeKeys (normalizeKeys keys) = normalizeKeys keys"
proof -
  let ?n = "normalizeKeys keys"
  have "set ?n = trim_space ` set keys - {[]}" "distinct ?n" using normalize_from_props[of "{}" keys] by (simp_all add: normalizeKeys_def)
  then have "map trim_space ?n = ?n" "filter (\<lambda>k. k \<noteq> []) ?n = ?n" "firsts ?n = ?n"
    by (auto simp: trim_space_idem firsts_distinct intro!: map_idI)
  then show ?thesis using normalize_from_firsts[of "{}" ?n] by (simp add: normalizeKeys_def[of ?n])
qed

text \<open>What is documented of the two JSON functions: a value that was written is read back, over any value.\<close>

definition settings_codec :: "settings_json \<Rightarrow> bool" where
  "settings_codec js \<longleftrightarrow> (\<forall>m raw base. sj_marshal js m = Some raw \<longrightarrow> sj_merge js raw base = (m, True))"

datatype change = ChangeTo Mutable bool | MergeIn string bool

definition do_change :: "settings_json \<Rightarrow> change \<Rightarrow> 'w settings_state \<Rightarrow> 'w settings_state" where
  "do_change js c s = (case c of ChangeTo next up \<Rightarrow> snd (Apply js up next s) | MergeIn raw up \<Rightarrow> snd (ApplyJSON js up raw s))"

lemma applyLocked_cases:
  "case applyLocked js up nxt s of
     (Inl _, s') \<Rightarrow> s' = s
   | (Inr (old, new), (m', t', w')) \<Rightarrow> (case s of (m, t, w) \<Rightarrow>
       old = mg_cur m \<and> m' = m\<lparr>mg_cur := new\<rparr> \<and> Validate new = None \<and> mu_keys new = normalizeKeys (mu_keys nxt)
       \<and> (\<exists>raw. sj_marshal js new = Some raw \<and> map_of t' = (map_of t)(mutableKey \<mapsto> raw))
       \<and> w' = fold (\<lambda>fn. fn new) (mg_hooks m) w)"
  by (cases s) (auto simp: applyLocked_def Let_def PutSettings_def update_conv' split: option.split)

text \<open>
  A change is all or nothing: if it fails, for whatever reason, the settings, the table and what the
  hooks act on are as before; if it succeeds, what is in force passes validation and has normalised keys,
  it is what the table holds, and every hook has been called once, in order, with exactly it.
\<close>

theorem settings_change_atomic:
  "case applyLocked js up nxt s of
     (Inl _, s') \<Rightarrow> s' = s
   | (Inr (old, new), (m', t', w')) \<Rightarrow> (case s of (m, t, w) \<Rightarrow>
       old = mg_cur m \<and> m' = m\<lparr>mg_cur := new\<rparr> \<and> Validate new = None \<and> mu_keys new = normalizeKeys (mu_keys nxt)
       \<and> (\<exists>raw. sj_marshal js new = Some raw \<and> map_of t' = (map_of t)(mutableKey \<mapsto> raw))
       \<and> w' = fold (\<lambda>fn. fn new) (mg_hooks m) w)"
  by (rule applyLocked_cases)

definition settings_inv :: "settings_json \<Rightarrow> Mutable \<Rightarrow> 'w settings_state \<Rightarrow> bool" where
  "settings_inv js base s \<longleftrightarrow> (case s of (m, t, w) \<Rightarrow>
     mu_keys (mg_cur m) = normalizeKeys (mu_keys (mg_cur m)) \<and>
     (case map_of t mutableKey of
        None \<Rightarrow> mg_cur m = mg_cur (NewManager base :: 'w Manager)
      | Some raw \<Rightarrow> sj_marshal js (mg_cur m) = Some raw \<and> Validate (mg_cur m) = None))"

lemma applyLocked_inv: "settings_inv js base s \<Longrightarrow> settings_inv js base (snd (applyLocked js up nxt s))"
  using applyLocked_cases[where s = s and js = js and up = up and nxt = nxt] normalizeKeys_idem[of "mu_keys nxt"]
  by (cases s; cases "applyLocked js up nxt s"; cases "fst (applyLocked js up nxt s)") (auto simp: settings_inv_def)

lemma do_change_inv: "settings_inv js base s \<Longrightarrow> settings_inv js base (do_change js c s)"
  using applyLocked_inv[where s = s and js = js and base = base]
  by (auto simp: do_change_def Apply_def ApplyJSON_def split: change.split prod.split sum.split bool.split) (metis snd_conv)+

lemma settings_restart:
  fixes w0 :: 'w
  assumes "settings_codec js" "map_of t0 mutableKey = None"
    and "fold (do_change js) changes (NewManager base, t0, w0) = (m, t, w)"
    and "base' = base \<or> map_of t mutableKey \<noteq> None"
  shows "case Load js True t (NewManager base' :: 'w Manager) of (err, m') \<Rightarrow> err = None \<and> mg_cur m' = mg_cur m"
proof -
  have "settings_inv js base (NewManager base, t0, w0)"
    using assms(2) by (simp add: settings_inv_def NewManager_def normalizeKeys_idem)
  then have "settings_inv js base (fold (do_change js) changes (NewManager base, t0, w0))"
    by (induction changes arbitrary: m t w rule: rev_induct) (auto intro: do_change_inv)
  then have inv: "settings_inv js base (m, t, w)" by (simp add: assms(3))
  show ?thesis
  proof (cases "map_of t mutableKey")
    case None
    then show ?thesis using inv assms(4) by (simp add: Load_def GetSettings_def settings_inv_def NewManager_def)
  next
    case (Some raw)
    then have r: "sj_marshal js (mg_cur m) = Some raw" "normalizeKeys (mu_keys (mg_cur m)) = mu_keys (mg_cur m)"
      using inv by (simp_all add: settings_inv_def)
    then have "sj_merge js raw b = (mg_cur m, True)" for b using assms(1) by (simp add: settings_codec_def)
    moreover have "x\<lparr>mu_keys := mu_keys x\<rparr> = x" for x :: Mutable by (cases x) simp
    ultimately show ?thesis using Some r(2) by (simp add: Load_def GetSettings_def)
  qed
qed

text \<open>C34. Settings survive a restart: after any sequence of changes, complete documents or partial ones, failed
  ones among them, a server started on the same table with the same configuration loads exactly the
  settings that were in force; and once a change has succeeded it does so with any configuration.
  The codec is assumed to read back what it wrote (so text is taken to be UTF-8).
\<close>

theorem settings_survive_restart:
  fixes w0 :: 'w
  assumes "settings_codec js" "map_of t0 mutableKey = None"
    and "fold (do_change js) changes (NewManager base, t0, w0) = (m, t, w)"
    and "base' = base \<or> map_of t mutableKey \<noteq> None"
  shows "case Load js True t (NewManager base' :: 'w Manager) of (err, m') \<Rightarrow> err = None \<and> mg_cur m' = mg_cur m"
  using assms by (rule settings_restart)

definition sample_settings :: "int \<Rightarrow> Mutable" where
  "sample_settings days = \<lparr>mu_retention = days, mu_rate = 0, mu_burst = 0, mu_events = 0, mu_bytes = 0, mu_level = ''info'', mu_keys = []\<rparr>"

definition sample_json :: settings_json where
  "sample_json = \<lparr>sj_marshal = (\<lambda>m. if m = sample_settings 7 then Some ''7'' else None),
     sj_merge = (\<lambda>raw m. if raw = ''7'' then (sample_settings 7, True) else (m, False))\<rparr>"

theorem settings_survive_restart_witness:
  "case Load sample_json True [(mutableKey, ''7'')] (NewManager (sample_settings 30) :: nat Manager) of (err, m) \<Rightarrow>
     err = None \<and> mu_retention (mg_cur m) = 7"
proof -
  have codec: "settings_codec sample_json" by (simp add: settings_codec_def sample_json_def)
  have "trim_space ''info'' = ''info''" by (simp add: graphic_def)
  then have run: "fold (do_change sample_json) [MergeIn ''x'' True, ChangeTo (sample_settings 7) True] (NewManager (sample_settings 30), [], 0 :: nat)
      = ((NewManager (sample_settings 30) :: nat Manager)\<lparr>mg_cur := sample_settings 7\<rparr>, [(mutableKey, ''7'')], 0)"
    by (simp add: do_change_def Apply_def ApplyJSON_def applyLocked_def PutSettings_def Validate_def NewManager_def normalizeKeys_def
        sample_json_def sample_settings_def settings_levels_def to_lower_def lower_char_def f64_defs Let_def)
  show ?thesis
    using settings_survive_restart[OF codec _ run, of "sample_settings 30"]
    by (auto simp: sample_settings_def)
qed

end
