(* ===== verification/MetricsReg.thy ===== *)
theory MetricsReg
  imports FloatArith
begin

text \<open>
  \<^verbatim>\<open>src/internal/metrics/metrics.go\<close>: counters, gauges and histograms partitioned by label
  values, and the text a scrape returns.  A family keeps its members under the joined label values; a
  handle is that key.  A compare-and-swap loop is one step.  \<open>None\<close> is a panic.  The formatting of
  floats is a parameter; a writer is what it has taken and how many more writes it takes.
\<close>

section \<open>Families\<close>

definition label_key :: "string list \<Rightarrow> string" where
  "label_key vals = join [CHR 0x00] vals"

record 'c vec =
  vc_name :: string
  vc_help :: string
  vc_labels :: "string list"
  vc_children :: "(string \<times> 'c) list"

definition vec_with :: "(string list \<Rightarrow> 'c) \<Rightarrow> string list \<Rightarrow> 'c vec \<Rightarrow> (string \<times> 'c vec) option" where
  "vec_with new vals v =
     (if length vals \<noteq> length (vc_labels v) then None
      else let key = label_key vals
           in case map_of (vc_children v) key of
                Some _ \<Rightarrow> Some (key, v)
              | None \<Rightarrow> Some (key, v\<lparr>vc_children := vc_children v @ [(key, new vals)]\<rparr>))"

definition on_child :: "string \<Rightarrow> ('c \<Rightarrow> 'c) \<Rightarrow> 'c vec \<Rightarrow> 'c vec" where
  "on_child key f v = v\<lparr>vc_children := map (\<lambda>(k, c). (k, if k = key then f c else c)) (vc_children v)\<rparr>"

record Counter =
  ct_bits :: f64
  ct_values :: "string list"

record Gauge =
  gg_bits :: f64
  gg_values :: "string list"

record Histogram =
  hg_buckets :: "f64 list"
  hg_counts :: "nat list"
  hg_sum :: f64
  hg_count :: nat
  hg_values :: "string list"

definition Counter_With :: "string list \<Rightarrow> Counter vec \<Rightarrow> (string \<times> Counter vec) option" where
  "Counter_With vals v = vec_with (\<lambda>ls. \<lparr>ct_bits = 0, ct_values = ls\<rparr>) vals v"

definition Counter_Add :: "f64 \<Rightarrow> Counter \<Rightarrow> Counter option" where
  "Counter_Add delta c = (if f64_lt delta 0 then None else Some (c\<lparr>ct_bits := f64_add (ct_bits c) delta\<rparr>))"

definition f64_one :: f64 where "f64_one = 0x3FF0000000000000"
definition f64_minus_one :: f64 where "f64_minus_one = 0xBFF0000000000000"

definition Counter_Inc :: "Counter \<Rightarrow> Counter option" where
  "Counter_Inc c = Counter_Add f64_one c"

definition Gauge_With :: "string list \<Rightarrow> Gauge vec \<Rightarrow> (string \<times> Gauge vec) option" where
  "Gauge_With vals v = vec_with (\<lambda>ls. \<lparr>gg_bits = 0, gg_values = ls\<rparr>) vals v"

definition Gauge_Set :: "f64 \<Rightarrow> Gauge \<Rightarrow> Gauge" where
  "Gauge_Set x g = g\<lparr>gg_bits := x\<rparr>"

definition Gauge_Add :: "f64 \<Rightarrow> Gauge \<Rightarrow> Gauge" where
  "Gauge_Add delta g = g\<lparr>gg_bits := f64_add (gg_bits g) delta\<rparr>"

definition Gauge_Inc :: "Gauge \<Rightarrow> Gauge" where "Gauge_Inc g = Gauge_Add f64_one g"
definition Gauge_Dec :: "Gauge \<Rightarrow> Gauge" where "Gauge_Dec g = Gauge_Add f64_minus_one g"

section \<open>Histograms\<close>

text \<open>\<^verbatim>\<open>sort.Float64s\<close> puts NaNs first.\<close>

definition float_order :: "f64 \<Rightarrow> int" where
  "float_order x = (if f64_is_nan x then - (2 ^ 64) else f64_key x)"

record HistogramVec =
  hv_vec :: "Histogram vec"
  hv_buckets :: "f64 list"

definition NewHistogram :: "string \<Rightarrow> string \<Rightarrow> f64 list \<Rightarrow> string list \<Rightarrow> HistogramVec" where
  "NewHistogram name help buckets labelNames =
     \<lparr>hv_vec = \<lparr>vc_name = name, vc_help = help, vc_labels = labelNames, vc_children = []\<rparr>, hv_buckets = sort_key float_order buckets\<rparr>"

definition new_histogram :: "f64 list \<Rightarrow> string list \<Rightarrow> Histogram" where
  "new_histogram buckets vals = \<lparr>hg_buckets = buckets, hg_counts = replicate (length buckets) 0, hg_sum = 0, hg_count = 0, hg_values = vals\<rparr>"

definition Histogram_With :: "string list \<Rightarrow> HistogramVec \<Rightarrow> (string \<times> HistogramVec) option" where
  "Histogram_With vals v = map_option (\<lambda>(key, vec). (key, v\<lparr>hv_vec := vec\<rparr>)) (vec_with (new_histogram (hv_buckets v)) vals (hv_vec v))"

text \<open>\<^verbatim>\<open>sort.SearchFloat64s\<close>: the binary search for the first element that is not less.\<close>

function search_from :: "f64 list \<Rightarrow> f64 \<Rightarrow> nat \<Rightarrow> nat \<Rightarrow> nat" where
  "search_from a x i j =
     (if i < j then let h = (i + j) div 2 in if \<not> f64_le x (a ! h) then search_from a x (h + 1) j else search_from a x i h
      else i)"
  by pat_completeness auto
termination
  by (relation "measure (\<lambda>(_, _, i, j). j - i)") auto

declare search_from.simps [simp del]

definition SearchFloat64s :: "f64 list \<Rightarrow> f64 \<Rightarrow> nat" where
  "SearchFloat64s a x = search_from a x 0 (length a)"

definition Observe :: "f64 \<Rightarrow> Histogram \<Rightarrow> Histogram" where
  "Observe v h =
     (let h1 = h\<lparr>hg_count := hg_count h + 1, hg_sum := f64_add (hg_sum h) v\<rparr>;
          idx = SearchFloat64s (hg_buckets h) v
      in if idx < length (hg_buckets h) then h1\<lparr>hg_counts := (hg_counts h)[idx := hg_counts h ! idx + 1]\<rparr> else h1)"

section \<open>Text\<close>

definition eol :: string where "eol = [CHR 0x0A]"
definition bsl :: char where "bsl = CHR 0x5C"
definition dqt :: char where "dqt = CHR 0x22"

definition escapeLabelValue :: "string \<Rightarrow> string" where
  "escapeLabelValue s =
     (let s1 = replace_char bsl [bsl, bsl] s; s2 = replace_char dqt [bsl, dqt] s1
      in replace_char (CHR 0x0A) [bsl, CHR ''n''] s2)"

definition escapeHelp :: "string \<Rightarrow> string" where
  "escapeHelp s = replace_char (CHR 0x0A) [bsl, CHR ''n''] (replace_char bsl [bsl, bsl] s)"

definition label_text :: "string \<times> string \<Rightarrow> string" where
  "label_text p = fst p @ ''='' @ [dqt] @ escapeLabelValue (snd p) @ [dqt]"

definition labelsString :: "string list \<Rightarrow> string list \<Rightarrow> string \<Rightarrow> string \<Rightarrow> string" where
  "labelsString names values extraName extraVal =
     (let pairs0 = sort_key fst (zip names values);
          pairs = (if extraName \<noteq> [] then pairs0 @ [(extraName, extraVal)] else pairs0)
      in if pairs = [] then [] else ''{'' @ join '','' (map label_text pairs) @ ''}'')"

definition withLE :: "string list \<Rightarrow> string list \<Rightarrow> string \<Rightarrow> string" where
  "withLE names values le = labelsString names values ''le'' le"

definition help_type :: "string \<Rightarrow> string \<Rightarrow> string \<Rightarrow> string" where
  "help_type name typ help = ''# HELP '' @ name @ '' '' @ escapeHelp help @ eol @ ''# TYPE '' @ name @ '' '' @ typ @ eol"

definition counter_lines :: "(f64 \<Rightarrow> string) \<Rightarrow> Counter vec \<Rightarrow> string list" where
  "counter_lines fmt v = sort (map (\<lambda>(_, c). vc_name v @ labelsString (vc_labels v) (ct_values c) [] [] @ '' '' @ fmt (ct_bits c))
     (vc_children v))"

definition gauge_lines :: "(f64 \<Rightarrow> string) \<Rightarrow> Gauge vec \<Rightarrow> string list" where
  "gauge_lines fmt v = sort (map (\<lambda>(_, g). vc_name v @ labelsString (vc_labels v) (gg_values g) [] [] @ '' '' @ fmt (gg_bits g))
     (vc_children v))"

text \<open>The running total over the buckets.\<close>

fun bucket_lines :: "(f64 \<Rightarrow> string) \<Rightarrow> (string \<Rightarrow> string) \<Rightarrow> nat \<Rightarrow> (f64 \<times> nat) list \<Rightarrow> string list" where
  "bucket_lines fmt line cum [] = []"
| "bucket_lines fmt line cum ((b, n) # bns) =
     (line (fmt b) @ '' '' @ show_nat (cum + n)) # bucket_lines fmt line (cum + n) bns"

definition histogram_lines :: "(f64 \<Rightarrow> string) \<Rightarrow> HistogramVec \<Rightarrow> string list" where
  "histogram_lines fmt hv =
     (let v = hv_vec hv; name = vc_name v; names = vc_labels v
      in concat (map (\<lambda>h.
           let line = (\<lambda>le. name @ ''_bucket'' @ withLE names (hg_values h) le); base = labelsString names (hg_values h) [] []
           in bucket_lines fmt line 0 (zip (hv_buckets hv) (hg_counts h))
              @ [line ''+Inf'' @ '' '' @ show_nat (hg_count h),
                 name @ ''_sum'' @ base @ '' '' @ fmt (hg_sum h),
                 name @ ''_count'' @ base @ '' '' @ show_nat (hg_count h)])
         (sort_key (\<lambda>h. label_key (hg_values h)) (map snd (vc_children v)))))"

section \<open>The registry\<close>

text \<open>A function-backed collector is its name, help, type and what the function returns at the scrape.\<close>

datatype collector = Counters "Counter vec" | Gauges "Gauge vec" | Histograms HistogramVec | Func string string string f64

type_synonym Registry = "collector list"

definition register :: "collector \<Rightarrow> Registry \<Rightarrow> Registry" where
  "register c r = r @ [c]"

definition chunks :: "(f64 \<Rightarrow> string) \<Rightarrow> collector \<Rightarrow> string list" where
  "chunks fmt c = (case c of
     Counters v \<Rightarrow> help_type (vc_name v) ''counter'' (vc_help v) # map (\<lambda>l. l @ eol) (counter_lines fmt v)
   | Gauges v \<Rightarrow> help_type (vc_name v) ''gauge'' (vc_help v) # map (\<lambda>l. l @ eol) (gauge_lines fmt v)
   | Histograms hv \<Rightarrow> help_type (vc_name (hv_vec hv)) ''histogram'' (vc_help (hv_vec hv)) # map (\<lambda>l. l @ eol) (histogram_lines fmt hv)
   | Func name help typ x \<Rightarrow> [help_type name typ help, name @ '' '' @ fmt x @ eol])"

fun write_chunks :: "string list \<Rightarrow> string \<times> nat \<Rightarrow> bool \<times> string \<times> nat" where
  "write_chunks [] w = (True, w)"
| "write_chunks (c # cs) (out, k) = (if k = 0 then (False, out, 0) else write_chunks cs (out @ c, k - 1))"

fun WriteProm :: "(f64 \<Rightarrow> string) \<Rightarrow> Registry \<Rightarrow> string \<times> nat \<Rightarrow> bool \<times> string \<times> nat" where
  "WriteProm fmt [] w = (True, w)"
| "WriteProm fmt (c # cs) w =
     (case write_chunks (chunks fmt c) w of (True, w') \<Rightarrow> WriteProm fmt cs w' | (False, w') \<Rightarrow> (False, w'))"

section \<open>Histograms count\<close>

text \<open>Sorted bounds, none of them a NaN.\<close>

definition bounds_ok :: "f64 list \<Rightarrow> bool" where
  "bounds_ok bs \<longleftrightarrow> list_all (\<lambda>b. \<not> f64_is_nan b) bs \<and> sorted (map f64_key bs)"

lemma search_from_first:
  "j \<le> length a \<Longrightarrow> i \<le> j \<Longrightarrow>
   (\<And>m n. m \<le> n \<Longrightarrow> n < length a \<Longrightarrow> f64_le x (a ! m) \<Longrightarrow> f64_le x (a ! n)) \<Longrightarrow>
   (\<And>m. m < i \<Longrightarrow> \<not> f64_le x (a ! m)) \<Longrightarrow> (\<And>m. j \<le> m \<Longrightarrow> m < length a \<Longrightarrow> f64_le x (a ! m)) \<Longrightarrow>
   m < length a \<Longrightarrow> f64_le x (a ! m) \<longleftrightarrow> search_from a x i j \<le> m"
proof (induction a x i j rule: search_from.induct)
  case (1 a x i j)
  let ?h = "(i + j) div 2"
  show ?case
  proof (cases "i < j")
    case True
    then have h: "i \<le> ?h" "?h < j" by auto
    show ?thesis
    proof (cases "f64_le x (a ! ?h)")
      case True
      have "f64_le x (a ! n)" if "?h \<le> n" "n < length a" for n using 1(5)[OF that True] .
      then have "f64_le x (a ! m) \<longleftrightarrow> search_from a x i ?h \<le> m"
        using 1(2)[OF \<open>i < j\<close> refl, simplified] True h 1(3-8) by (meson le_trans less_imp_le)
      then show ?thesis using \<open>i < j\<close> True by (subst search_from.simps) (simp add: Let_def)
    next
      case False
      have lo: "\<not> f64_le x (a ! n)" if "n < ?h + 1" for n
        using 1(5)[of n ?h] False that h 1(3) by auto
      have le: "?h + 1 \<le> j" using h by simp
      have "f64_le x (a ! m) \<longleftrightarrow> search_from a x (?h + 1) j \<le> m"
        by (rule 1(1)[OF \<open>i < j\<close> refl False 1(3) le]) (use 1(5) lo 1(7) 1(8) in blast)+
      then show ?thesis using \<open>i < j\<close> False by (subst search_from.simps) (simp add: Let_def)
    qed
  next
    case False
    then have "i = j" using 1(4) by simp
    then show ?thesis using 1(6)[of m] 1(7)[of m] 1(8) by (subst search_from.simps) (cases "i \<le> m", simp_all)
  qed
qed

lemma SearchFloat64s_iff:
  assumes "bounds_ok a" "m < length a"
  shows "SearchFloat64s a x \<le> m \<longleftrightarrow> f64_le x (a ! m)"
proof -
  have "f64_le x (a ! n)" if "k \<le> n" "n < length a" "f64_le x (a ! k)" for k n
  proof -
    have "f64_key (a ! k) \<le> f64_key (a ! n)"
      using assms(1) that sorted_nth_mono[of "map f64_key a" k n] by (simp add: bounds_ok_def)
    then show ?thesis using that assms(1) by (auto simp: f64_le_def bounds_ok_def list_all_length)
  qed
  then show ?thesis
    unfolding SearchFloat64s_def using search_from_first[of "length a" a 0 x m] assms(2) by auto
qed

definition observe_all :: "f64 list \<Rightarrow> Histogram \<Rightarrow> Histogram" where
  "observe_all vs h = fold Observe vs h"

definition landed :: "f64 list \<Rightarrow> f64 list \<Rightarrow> nat \<Rightarrow> nat" where
  "landed bounds vs i = length (filter (\<lambda>v. SearchFloat64s bounds v = i) vs)"

lemma observe_all_counts:
  "length (hg_counts h) = length (hg_buckets h) \<Longrightarrow>
   hg_buckets (observe_all vs h) = hg_buckets h \<and> hg_count (observe_all vs h) = hg_count h + length vs
   \<and> hg_sum (observe_all vs h) = foldl f64_add (hg_sum h) vs
   \<and> hg_counts (observe_all vs h) = map (\<lambda>i. hg_counts h ! i + landed (hg_buckets h) vs i) [0..<length (hg_buckets h)]"
proof (induction vs arbitrary: h)
  case Nil
  then show ?case by (simp add: observe_all_def landed_def) (metis map_nth)
next
  case (Cons v vs)
  let ?h = "Observe v h"
  have l: "length (hg_counts ?h) = length (hg_buckets ?h)" "hg_buckets ?h = hg_buckets h" "hg_count ?h = hg_count h + 1"
    "hg_sum ?h = f64_add (hg_sum h) v"
    using Cons.prems by (simp_all add: Observe_def Let_def)
  have c: "hg_counts ?h ! i = hg_counts h ! i + (if SearchFloat64s (hg_buckets h) v = i then 1 else 0)"
    if "i < length (hg_buckets h)" for i
    using that Cons.prems by (auto simp: Observe_def Let_def nth_list_update)
  have "observe_all (v # vs) h = observe_all vs ?h" by (simp add: observe_all_def)
  then show ?case using Cons.IH[OF l(1)] l(2-) c by (auto simp: landed_def)
qed

text \<open>The running totals that are written.\<close>

definition cumulative :: "nat list \<Rightarrow> nat list" where
  "cumulative ns = map (\<lambda>i. sum_list (take (Suc i) ns)) [0..<length ns]"

lemma bucket_lines_cumulative:
  "bucket_lines fmt line cum bns = map (\<lambda>i. line (fmt (fst (bns ! i))) @ '' '' @ show_nat (cum + sum_list (take (Suc i) (map snd bns)))) [0..<length bns]"
proof (induction fmt line cum bns rule: bucket_lines.induct)
  case (2 fmt line cum b n bns)
  then show ?case by (simp add: upt_conv_Cons[of 0] map_Suc_upt[symmetric] add.assoc del: upt_Suc)
qed simp

lemma landed_sum: "n \<le> length bounds \<Longrightarrow> sum_list (map (landed bounds vs) [0..<n]) = length (filter (\<lambda>v. SearchFloat64s bounds v < n) vs)"
proof (induction n)
  case (Suc n)
  have "length (filter (\<lambda>v. SearchFloat64s bounds v < Suc n) vs)
      = length (filter (\<lambda>v. SearchFloat64s bounds v < n) vs) + length (filter (\<lambda>v. SearchFloat64s bounds v = n) vs)"
    by (induction vs) auto
  then show ?case using Suc by (simp add: landed_def)
qed simp

lemma histogram_totals:
  assumes "bounds_ok bounds"
  shows "bucket_lines fmt line 0 (zip bounds (hg_counts (observe_all vs (new_histogram bounds vals))))
    = map (\<lambda>b. line (fmt b) @ '' '' @ show_nat (length (filter (\<lambda>v. f64_le v b) vs))) bounds"
proof -
  let ?h = "new_histogram bounds vals"
  have c: "hg_counts (observe_all vs ?h) = map (landed bounds vs) [0..<length bounds]"
    using observe_all_counts[of ?h vs] by (simp add: new_histogram_def)
  have "sum_list (take (Suc i) (map (landed bounds vs) [0..<length bounds])) = length (filter (\<lambda>v. f64_le v (bounds ! i)) vs)"
    if i: "i < length bounds" for i
  proof -
    have "take (Suc i) (map (landed bounds vs) [0..<length bounds]) = map (landed bounds vs) [0..<Suc i]"
      using i by (simp add: take_map take_upt del: upt_Suc)
    then show ?thesis
      using landed_sum[of "Suc i" bounds vs] i SearchFloat64s_iff[OF assms i] by (simp add: less_Suc_eq_le del: upt_Suc)
  qed
  then show ?thesis
    by (simp add: bucket_lines_cumulative c) (rule nth_equalityI, simp_all)
qed

lemma observe_all_values: "hg_values (observe_all vs h) = hg_values h"
  by (induction vs arbitrary: h) (simp_all add: observe_all_def Observe_def Let_def)

lemma map_insort: "map f (insort_key (\<lambda>x. g (f x)) x xs) = insort_key g (f x) (map f xs)"
  by (induction xs) auto

lemma sort_map: "sort_key g (map f xs) = map f (sort_key (\<lambda>x. g (f x)) xs)"
  by (induction xs) (simp_all add: map_insort)

text \<open>The lines there should be for the member with label values \<open>vals\<close> and observations \<open>vs\<close>.\<close>

definition true_lines :: "(f64 \<Rightarrow> string) \<Rightarrow> HistogramVec \<Rightarrow> string list \<times> f64 list \<Rightarrow> string list" where
  "true_lines fmt hv m = (case m of (vals, vs) \<Rightarrow>
     (let name = vc_name (hv_vec hv); names = vc_labels (hv_vec hv); n = show_nat (length vs); labels = labelsString names vals [] []
      in map (\<lambda>b. name @ ''_bucket'' @ withLE names vals (fmt b) @ '' '' @ show_nat (length (filter (\<lambda>v. f64_le v b) vs))) (hv_buckets hv)
         @ [name @ ''_bucket'' @ withLE names vals ''+Inf'' @ '' '' @ n,
            name @ ''_sum'' @ labels @ '' '' @ fmt (foldl f64_add 0 vs), name @ ''_count'' @ labels @ '' '' @ n]))"

text \<open>C35. A histogram tells the truth: with sorted bounds, after any observations of any members, the scrape has for
  each member, in the order of the label values, a line for each bound with how many of its observations
  were at most that bound, the \<^verbatim>\<open>+Inf\<close> line and the count with how many there were, and the sum
  in the order they came.
\<close>

theorem histogram_exact:
  assumes "bounds_ok (hv_buckets hv)"
    and "vc_children (hv_vec hv) = map (\<lambda>(vals, vs). (label_key vals, observe_all vs (new_histogram (hv_buckets hv) vals))) ms"
  shows "histogram_lines fmt hv = concat (map (true_lines fmt hv) (sort_key (\<lambda>(vals, vs). label_key vals) ms))"
proof -
  let ?h = "\<lambda>(vals, vs). observe_all vs (new_histogram (hv_buckets hv) vals)"
  have l: "length (hg_counts (new_histogram b vals)) = length (hg_buckets (new_histogram b vals))"
    "hg_count (new_histogram b vals) = 0" "hg_sum (new_histogram b vals) = 0" for b vals
    by (simp_all add: new_histogram_def)
  have o: "hg_count (?h (vals, vs)) = length vs" "hg_sum (?h (vals, vs)) = foldl f64_add 0 vs" "hg_values (?h (vals, vs)) = vals" for vals vs
    using observe_all_counts[OF l(1), of vs "hv_buckets hv" vals] observe_all_values[of vs "new_histogram (hv_buckets hv) vals"] l(2,3)
    by (simp_all add: new_histogram_def)
  have c: "map snd (vc_children (hv_vec hv)) = map ?h ms" unfolding assms(2) by (simp add: case_prod_beta)
  have k: "(\<lambda>x. label_key (hg_values (?h x))) = (\<lambda>(vals, vs). label_key vals)" using o(3) by auto
  have "sort_key (\<lambda>h. label_key (hg_values h)) (map snd (vc_children (hv_vec hv))) = map ?h (sort_key (\<lambda>(vals, vs). label_key vals) ms)"
    unfolding c sort_map k ..
  then show ?thesis
    unfolding histogram_lines_def Let_def map_map comp_def
    by (intro arg_cong[where f = concat])
      (auto simp: true_lines_def Let_def o[simplified] histogram_totals[OF assms(1)])
qed

theorem histogram_exact_witness:
  "histogram_lines (\<lambda>_. ''b'') \<lparr>hv_vec = \<lparr>vc_name = ''h'', vc_help = [], vc_labels = [],
       vc_children = [([], observe_all [0, f64_inf, f64_one] (new_histogram [f64_one] []))]\<rparr>, hv_buckets = [f64_one]\<rparr>
   = [''h_bucket{le='' @ [dqt] @ ''b'' @ [dqt] @ ''} 2'', ''h_bucket{le='' @ [dqt] @ ''+Inf'' @ [dqt] @ ''} 3'', ''h_sum b'', ''h_count 3'']"
proof -
  let ?hv = "\<lparr>hv_vec = \<lparr>vc_name = ''h'', vc_help = [], vc_labels = [],
       vc_children = [([], observe_all [0, f64_inf, f64_one] (new_histogram [f64_one] []))]\<rparr>, hv_buckets = [f64_one]\<rparr>"
  have b: "bounds_ok (hv_buckets ?hv)" by (simp add: bounds_ok_def f64_one_def f64_defs)
  have n: "length (filter (\<lambda>v. f64_le v f64_one) [0, f64_inf, f64_one]) = 2"
    by (simp add: f64_one_def f64_inf_def f64_defs)
  have e: "escapeLabelValue ''b'' = ''b''" "escapeLabelValue ''+Inf'' = ''+Inf''"
    by (simp_all add: escapeLabelValue_def replace_char_def bsl_def dqt_def)
  have "histogram_lines (\<lambda>_. ''b'') ?hv = concat (map (true_lines (\<lambda>_. ''b'') ?hv) (sort_key (\<lambda>(vals, vs). label_key vals) [([], [0, f64_inf, f64_one])]))"
    by (rule histogram_exact[OF b]) (simp add: label_key_def)
  then show ?thesis
    using n e by (simp add: true_lines_def Let_def withLE_def labelsString_def label_text_def show_nat.simps digit_char_def
        char_of_eq_iff eq_commute[of "CHR ''2''"] eq_commute[of "CHR ''3''"])
qed

section \<open>Labels\<close>

definition escape_char :: "char \<Rightarrow> string" where
  "escape_char c = (if c = bsl then [bsl, bsl] else if c = dqt then [bsl, dqt] else if c = CHR 0x0A then [bsl, CHR ''n''] else [c])"

lemma escapeLabelValue_chars: "escapeLabelValue s = concat (map escape_char s)"
proof -
  have app: "replace_char c r (a @ b) = replace_char c r a @ replace_char c r b" for c r a b by (simp add: replace_char_def)
  show ?thesis
    by (induction s) (auto simp: escapeLabelValue_def Let_def escape_char_def replace_char_def bsl_def dqt_def)
qed

text \<open>A reader of the text, for the property below: a value up to its closing quote, and a list of labels.\<close>

fun read_value :: "string \<Rightarrow> (string \<times> string) option" where
  "read_value [] = None"
| "read_value (c # s) =
     (if c = dqt then Some ([], s)
      else if c = bsl then (case s of [] \<Rightarrow> None
        | d # s' \<Rightarrow> map_option (\<lambda>(v, r). ((if d = CHR ''n'' then CHR 0x0A else d) # v, r)) (read_value s'))
      else map_option (\<lambda>(v, r). (c # v, r)) (read_value s))"

lemma read_value_escaped: "read_value (escapeLabelValue v @ dqt # r) = Some (v, r)"
  unfolding escapeLabelValue_chars by (induction v) (auto simp: escape_char_def bsl_def dqt_def)

definition read_label :: "string \<Rightarrow> ((string \<times> string) \<times> string) option" where
  "read_label s =
     (case dropWhile (\<lambda>c. c \<noteq> CHR ''='') s of
        _ # q # r \<Rightarrow> if q = dqt then map_option (\<lambda>(v, r'). ((takeWhile (\<lambda>c. c \<noteq> CHR ''='') s, v), r')) (read_value r) else None
      | _ \<Rightarrow> None)"

fun read_labels :: "nat \<Rightarrow> string \<Rightarrow> (string \<times> string) list option" where
  "read_labels 0 s = None"
| "read_labels (Suc n) s =
     (case read_label s of
        Some (p, c # r) \<Rightarrow> if c = CHR '','' then map_option (\<lambda>ps. p # ps) (read_labels n r) else if [c] @ r = ''}'' then Some [p] else None
      | _ \<Rightarrow> None)"

lemma read_label_text: "CHR ''='' \<notin> set (fst p) \<Longrightarrow> read_label (label_text p @ r) = Some (p, r)"
proof -
  assume k: "CHR ''='' \<notin> set (fst p)"
  let ?t = "[dqt] @ escapeLabelValue (snd p) @ dqt # r"
  have t: "label_text p @ r = fst p @ CHR ''='' # ?t" by (simp add: label_text_def)
  have "dropWhile (\<lambda>c. c \<noteq> CHR ''='') (fst p @ CHR ''='' # ?t) = CHR ''='' # ?t"
    "takeWhile (\<lambda>c. c \<noteq> CHR ''='') (fst p @ CHR ''='' # ?t) = fst p"
    using k by (induction "fst p") (auto simp: dropWhile_append takeWhile_append)
  then show ?thesis unfolding read_label_def t by (simp add: read_value_escaped)
qed

lemma read_labels_text:
  "ps \<noteq> [] \<Longrightarrow> list_all (\<lambda>p. CHR ''='' \<notin> set (fst p)) ps \<Longrightarrow> length ps \<le> n \<Longrightarrow>
   read_labels n (join '','' (map label_text ps) @ ''}'') = Some ps"
proof (induction ps arbitrary: n)
  case (Cons p ps)
  then obtain m where n: "n = Suc m" by (cases n) auto
  show ?case
  proof (cases ps)
    case Nil
    then show ?thesis using Cons.prems n read_label_text[of p "''}''"] by simp
  next
    case (Cons q qs)
    then show ?thesis
      using Cons.prems Cons.IH[of m] n read_label_text[of p "'','' @ join '','' (map label_text ps) @ ''}''"] by simp
  qed
qed simp

text \<open>
  The labels of a line can be read back: whatever the values hold (quotes, backslashes, line ends), what
  is written between the braces is the labels sorted by name, and the extra one last, with exactly
  their values.
\<close>

theorem labels_roundtrip:
  assumes "length values = length names" "list_all (\<lambda>n. CHR ''='' \<notin> set n) (extra # names)" "names \<noteq> [] \<or> extra \<noteq> []"
  shows "\<exists>t. labelsString names values extra val = CHR ''{'' # t
    \<and> read_labels (Suc (length names)) t = Some (sort_key fst (zip names values) @ (if extra \<noteq> [] then [(extra, val)] else []))"
proof -
  let ?ps = "sort_key fst (zip names values) @ (if extra \<noteq> [] then [(extra, val)] else [])"
  have "length ?ps = length names + (if extra \<noteq> [] then 1 else 0)" using assms(1) by simp
  then have ne: "?ps \<noteq> []" using assms(3) by (metis add_is_0 length_0_conv zero_neq_one)
  have ok: "list_all (\<lambda>p. CHR ''='' \<notin> set (fst p)) ?ps"
    using assms(2) by (auto simp: list_all_iff dest: set_zip_leftD)
  have len: "length ?ps \<le> Suc (length names)" using assms(1) by simp
  have "labelsString names values extra val = CHR ''{'' # join '','' (map label_text ?ps) @ ''}''"
    using ne by (cases "extra = []") (simp_all add: labelsString_def Let_def)
  then show ?thesis using read_labels_text[OF ne ok len] by blast
qed

theorem labels_roundtrip_witness:
  "\<exists>t. labelsString [''path'', ''code''] [[dqt, bsl], ''200''] ''le'' ''1'' = CHR ''{'' # t
     \<and> read_labels 3 t = Some [(''code'', ''200''), (''path'', [dqt, bsl]), (''le'', ''1'')]"
proof -
  have "sort_key fst (zip [''path'', ''code''] [[dqt, bsl], ''200'']) = [(''code'', ''200''), (''path'', [dqt, bsl])]" by simp
  then show ?thesis
    using labels_roundtrip[of "[[dqt, bsl], ''200'']" "[''path'', ''code'']" "''le''" "''1''"] by (simp add: numeral_3_eq_3)
qed

section \<open>Families separate\<close>

definition plain_values :: "string list \<Rightarrow> bool" where
  "plain_values vals \<longleftrightarrow> list_all (\<lambda>v. CHR 0x00 \<notin> set v) vals"

lemma label_key_inj:
  "plain_values a \<Longrightarrow> plain_values b \<Longrightarrow> length a = length b \<Longrightarrow> label_key a = label_key b \<Longrightarrow> a = b"
proof (induction a b rule: list_induct2')
  case (4 x xs y ys)
  have split: "u @ CHR 0x00 # r = u' @ CHR 0x00 # r' \<Longrightarrow> u = u' \<and> r = r'" if "CHR 0x00 \<notin> set u" "CHR 0x00 \<notin> set u'" for u u' r r' :: string
    using that by (induction u arbitrary: u') (auto simp: Cons_eq_append_conv)
  show ?case
  proof (cases xs)
    case Nil
    then show ?thesis using 4 by (simp add: label_key_def)
  next
    case (Cons x' xs')
    then obtain y' ys' where "ys = y' # ys'" using 4(4) by (cases ys) auto
    then show ?thesis
      using 4 Cons split[of x y] by (simp add: label_key_def plain_values_def)
  qed
qed auto

text \<open>
  A family keeps its members apart: what is done to the member for some label values is seen for those
  values only, and the member starts from what the constructor gives the first time.  Values are
  any strings without the separator of the key.
\<close>

theorem family_separates:
  assumes "vec_with new vals v = Some (key, v1)" "plain_values vals" "plain_values vals'" "length vals' = length (vc_labels v)"
  shows "map_of (vc_children (on_child key f v1)) (label_key vals')
    = (if vals' = vals then Some (f (case map_of (vc_children v) (label_key vals) of Some c \<Rightarrow> c | None \<Rightarrow> new vals))
       else map_of (vc_children v) (label_key vals'))"
proof -
  have k: "key = label_key vals" "length vals = length (vc_labels v)"
    and v1: "map_of (vc_children v1) = (map_of (vc_children v))(key \<mapsto> (case map_of (vc_children v) key of Some c \<Rightarrow> c | None \<Rightarrow> new vals))"
    using assms(1) by (auto simp: vec_with_def Let_def map_add_def fun_eq_iff split: if_split_asm option.split_asm option.split)
  have on: "map_of (map (\<lambda>(k, c). (k, if k = key then f c else c)) m) k' = map_option (if k' = key then f else id) (map_of m k')" for m k'
    by (induction m) auto
  have upd: "map_of (vc_children (on_child key f v1)) k' = map_option (if k' = key then f else id) (map_of (vc_children v1) k')" for k'
    by (simp add: on_child_def on)
  have "vals' = vals \<longleftrightarrow> label_key vals' = key"
    using label_key_inj[OF assms(3,2)] assms(4) k by auto
  then show ?thesis unfolding k(1)[symmetric] upd v1 by (simp add: option.map_id k(1)[symmetric])
qed

theorem family_separates_witness:
  "case Counter_With [''GET''] \<lparr>vc_name = ''requests'', vc_help = [], vc_labels = [''method''], vc_children = []\<rparr> of
     Some (key, v) \<Rightarrow> map_of (vc_children (on_child key (\<lambda>c. c\<lparr>ct_bits := 7\<rparr>) v)) (label_key [''PUT'']) = None | None \<Rightarrow> False"
proof -
  let ?v = "\<lparr>vc_name = ''requests'', vc_help = [], vc_labels = [''method''], vc_children = []\<rparr> :: Counter vec"
  obtain key v where w: "vec_with (\<lambda>ls. \<lparr>ct_bits = 0, ct_values = ls\<rparr>) [''GET''] ?v = Some (key, v)"
    by (simp add: vec_with_def Let_def)
  have "map_of (vc_children (on_child key (\<lambda>c. c\<lparr>ct_bits := 7\<rparr>) v)) (label_key [''PUT'']) = None"
    using family_separates[OF w, of "[''PUT'']" "\<lambda>c. c\<lparr>ct_bits := 7\<rparr>"] by (simp add: plain_values_def)
  then show ?thesis using w by (simp add: Counter_With_def)
qed

text \<open>The separator itself is not escaped: values that hold it can share a member.\<close>

lemma separator_collides: "label_key [[CHR ''a'', CHR 0x00], ''b''] = label_key [''a'', [CHR 0x00, CHR ''b'']]"
  by (simp add: label_key_def)

end
