(* ===== verification/Schema.thy ===== *)
theory Schema
  imports Store
begin

text \<open>
  \<^verbatim>\<open>src/internal/store/sqlite/migrate.go\<close>: the schema of the database, its numbered changes and
  their application.  A statement is what it declares, of a table the names of its
  columns; \<open>exec_ddl\<close> is what SQLite documents for it (\<^verbatim>\<open>IF NOT EXISTS\<close> does nothing to what is there, an index needs its table and column, a column
  can be added once).  \<open>ok\<close> says which operations of the driver succeed; a transaction that does
  not commit leaves the database as it was.  The data is that of \<open>Store\<close>.
\<close>

datatype ddl = CreateTable string "string list" | CreateIndex string string string | CreateFts string "string list"
  | AddColumn string string

record migration =
  mi_version :: int
  mi_name :: string
  mi_stmts :: "ddl list"
  mi_rebuild :: bool

record database =
  ds_tables :: "(string \<times> string list) list"
  ds_indexes :: "(string \<times> string \<times> string) list"
  ds_version :: int
  ds_applied :: "(int \<times> string) list"
  ds_data :: db

definition migrations :: "migration list" where
  "migrations = [
     \<lparr>mi_version = 1, mi_name = ''initial schema'', mi_stmts = [
        CreateTable ''logs'' [''id'', ''ts'', ''received_at'', ''source'', ''service'', ''level'', ''message'', ''attributes'', ''raw''],
        CreateIndex ''idx_logs_ts'' ''logs'' ''ts'',
        CreateIndex ''idx_logs_service'' ''logs'' ''service'',
        CreateIndex ''idx_logs_level'' ''logs'' ''level'',
        CreateIndex ''idx_logs_source'' ''logs'' ''source'',
        CreateFts ''logs_fts'' [''id'', ''text'']], mi_rebuild = False\<rparr>,
     \<lparr>mi_version = 2, mi_name = ''rebuild fts with aligned rowids'', mi_stmts = [], mi_rebuild = True\<rparr>,
     \<lparr>mi_version = 3, mi_name = ''settings table'', mi_stmts = [CreateTable ''settings'' [''key'', ''value'']], mi_rebuild = False\<rparr>,
     \<lparr>mi_version = 4, mi_name = ''alert rules and channels'', mi_stmts = [
        CreateTable ''alert_rules'' [''id'', ''name'', ''query'', ''window_sec'', ''interval_sec'', ''cond_op'', ''cond_value'', ''channels'',
          ''enabled'', ''state'', ''state_since'', ''last_eval'', ''last_value'', ''last_error'', ''created_at'', ''updated_at''],
        CreateIndex ''idx_alert_rules_enabled'' ''alert_rules'' ''enabled'',
        CreateTable ''alert_channels'' [''id'', ''name'', ''type'', ''url'', ''created_at'']], mi_rebuild = False\<rparr>,
     \<lparr>mi_version = 5, mi_name = ''ingest pipelines'', mi_stmts = [
        CreateTable ''pipelines'' [''id'', ''name'', ''description'', ''match_expr'', ''stages'', ''enabled'', ''sort_order'', ''created_at'', ''updated_at''],
        CreateIndex ''idx_pipelines_order'' ''pipelines'' ''sort_order''], mi_rebuild = False\<rparr>,
     \<lparr>mi_version = 6, mi_name = ''alert severity and channel tokens'', mi_stmts = [
        AddColumn ''alert_rules'' ''severity'',
        AddColumn ''alert_channels'' ''token''], mi_rebuild = False\<rparr>]"

definition exec_ddl :: "ddl \<Rightarrow> database \<Rightarrow> database option" where
  "exec_ddl s d = (case s of
     CreateTable t cols \<Rightarrow> Some (if map_of (ds_tables d) t = None then d\<lparr>ds_tables := ds_tables d @ [(t, cols)]\<rparr> else d)
   | CreateFts t cols \<Rightarrow> Some (if map_of (ds_tables d) t = None then d\<lparr>ds_tables := ds_tables d @ [(t, cols)]\<rparr> else d)
   | CreateIndex i t c \<Rightarrow>
       (if map_of (ds_indexes d) i \<noteq> None then Some d
        else case map_of (ds_tables d) t of
          None \<Rightarrow> None
        | Some cols \<Rightarrow> if c \<in> set cols then Some (d\<lparr>ds_indexes := ds_indexes d @ [(i, t, c)]\<rparr>) else None)
   | AddColumn t c \<Rightarrow>
       (case map_of (ds_tables d) t of
          None \<Rightarrow> None
        | Some cols \<Rightarrow> if c \<in> set cols then None else Some (d\<lparr>ds_tables := AList.update t (cols @ [c]) (ds_tables d)\<rparr>)))"

section \<open>Rebuilding the full-text table\<close>

text \<open>\<open>um\<close> is \<^verbatim>\<open>json.Unmarshal\<close> of stored attributes (what it leaves on an error, too).\<close>

definition stored_event :: "(string \<Rightarrow> (string \<times> any) list) \<Rightarrow> logrow \<Rightarrow> logevent" where
  "stored_event um r = empty_event\<lparr>ev_id := r_id r, ev_source := r_source r, ev_service := r_service r, ev_level := r_level r,
     ev_message := r_message r, ev_attrs := (if r_attributes r \<noteq> [] \<and> r_attributes r \<noteq> ''{}'' then um (r_attributes r) else []),
     ev_raw := r_raw r\<rparr>"

definition rebuildFTSRowids :: "golib \<Rightarrow> (string \<Rightarrow> (string \<times> any) list) \<Rightarrow> db \<Rightarrow> db" where
  "rebuildFTSRowids lib um d =
     d\<lparr>d_fts := map (\<lambda>(rid, r). (rid, (r_id r, ftsText lib (stored_event um r)))) (d_logs d)\<rparr>"

section \<open>Applying\<close>

fun exec_all :: "(nat \<Rightarrow> bool) \<Rightarrow> nat \<Rightarrow> ddl list \<Rightarrow> database \<Rightarrow> database option" where
  "exec_all ok i [] d = Some d"
| "exec_all ok i (s # ss) d =
     (if \<not> ok i then None else case exec_ddl s d of None \<Rightarrow> None | Some d' \<Rightarrow> exec_all ok (Suc i) ss d')"

text \<open>The operations are numbered: begin, the statements, the rebuild, the record, the pragma, the commit.\<close>

definition applyMigration :: "golib \<Rightarrow> (string \<Rightarrow> (string \<times> any) list) \<Rightarrow> (nat \<Rightarrow> bool) \<Rightarrow> migration \<Rightarrow> database \<Rightarrow> bool \<times> database" where
  "applyMigration lib um ok m d =
     (if \<not> ok 0 then (False, d)
      else case exec_all ok 1 (mi_stmts m) d of
        None \<Rightarrow> (False, d)
      | Some d1 \<Rightarrow>
          (let n = length (mi_stmts m) + 1
           in if mi_rebuild m \<and> \<not> ok n then (False, d)
              else let d2 = (if mi_rebuild m then d1\<lparr>ds_data := rebuildFTSRowids lib um (ds_data d1)\<rparr> else d1);
                       d3 = d2\<lparr>ds_applied := AList.update (mi_version m) (mi_name m) (ds_applied d2)\<rparr>;
                       d4 = d3\<lparr>ds_version := mi_version m\<rparr>
                   in if ok (n + 1) \<and> ok (n + 2) \<and> ok (n + 3) then (True, d4) else (False, d)))"

definition latestSchemaVersion :: int where
  "latestSchemaVersion = mi_version (last migrations)"

datatype migrate_error = EnsureFailed | VersionUnreadable | TooNew int int | ApplyFailed int string

fun apply_pending :: "golib \<Rightarrow> (string \<Rightarrow> (string \<times> any) list) \<Rightarrow> (int \<Rightarrow> nat \<Rightarrow> bool) \<Rightarrow> int \<Rightarrow> migration list \<Rightarrow> database
    \<Rightarrow> migrate_error option \<times> database" where
  "apply_pending lib um ok current [] d = (None, d)"
| "apply_pending lib um ok current (m # ms) d =
     (if mi_version m \<le> current then apply_pending lib um ok current ms d
      else case applyMigration lib um (ok (mi_version m)) m d of
        (False, d') \<Rightarrow> (Some (ApplyFailed (mi_version m) (mi_name m)), d')
      | (True, d') \<Rightarrow> apply_pending lib um ok current ms d')"

definition migrate :: "golib \<Rightarrow> (string \<Rightarrow> (string \<times> any) list) \<Rightarrow> bool \<Rightarrow> bool \<Rightarrow> (int \<Rightarrow> nat \<Rightarrow> bool) \<Rightarrow> database
    \<Rightarrow> migrate_error option \<times> database" where
  "migrate lib um up readable ok d0 =
     (if \<not> up then (Some EnsureFailed, d0)
      else case exec_ddl (CreateTable ''schema_migrations'' [''version'', ''name'', ''applied_at'']) d0 of
        None \<Rightarrow> (Some EnsureFailed, d0)
      | Some d \<Rightarrow>
          (if \<not> readable then (Some VersionUnreadable, d)
           else let current = ds_version d
                in if current > latestSchemaVersion then (Some (TooNew current latestSchemaVersion), d)
                   else apply_pending lib um ok current migrations d))"

section \<open>Properties\<close>

text \<open>
  The rebuild repairs the full-text table, whatever was in it: afterwards it has exactly one row for
  each event, under the rowid of the event, which is what the search join needs.
\<close>

theorem rebuild_aligns:
  assumes "distinct (map fst (d_logs d))" "\<forall>p \<in> set (d_logs d). \<forall>q \<in> set (d_logs d). r_id (snd p) = r_id (snd q) \<longrightarrow> p = q"
  shows "db_ok (rebuildFTSRowids lib um d)"
proof -
  have "map fst (d_fts (rebuildFTSRowids lib um d)) = map fst (d_logs d)" "d_logs (rebuildFTSRowids lib um d) = d_logs d"
    by (auto simp: rebuildFTSRowids_def)
  moreover have "(rid, (i, t)) \<in> set (d_fts (rebuildFTSRowids lib um d))
      \<longleftrightarrow> (\<exists>r. (rid, r) \<in> set (d_logs d) \<and> r_id r = i \<and> t = ftsText lib (stored_event um r))" for rid i t
    by (force simp: rebuildFTSRowids_def)
  ultimately show ?thesis using assms unfolding db_ok_def by metis
qed

text \<open>The text is the one \<open>Append\<close> writes, if the attributes are read back as they were.\<close>

lemma rebuild_text:
  "(if ev_attrs e = [] then a = ''{}'' else a \<noteq> [] \<and> a \<noteq> ''{}'' \<and> um a = ev_attrs e) \<Longrightarrow>
   ftsText lib (stored_event um (row_of e a)) = ftsText lib e"
  by (auto simp: ftsText_def stored_event_def row_of_def split: if_split_asm)


abbreviation all_ok :: "int \<Rightarrow> nat \<Rightarrow> bool" where
  "all_ok \<equiv> \<lambda>_ _. True"

lemma exec_all_ok: "exec_all ok i ss d = Some d' \<Longrightarrow> exec_all (\<lambda>_. True) j ss d = Some d'"
  by (induction ok i ss d arbitrary: j rule: exec_all.induct) (auto split: if_split_asm option.split_asm)

lemma applyMigration_cases:
  "applyMigration lib um ok m d = (False, d)
   \<or> (\<exists>d'. applyMigration lib um ok m d = (True, d') \<and> applyMigration lib um (\<lambda>_. True) m d = (True, d') \<and> ds_version d' = mi_version m)"
proof (cases "exec_all ok 1 (mi_stmts m) d")
  case (Some x)
  then show ?thesis using exec_all_ok[OF Some, of 1] by (auto simp: applyMigration_def Let_def)
qed (simp add: applyMigration_def)

abbreviation increasing :: "migration list \<Rightarrow> bool" where
  "increasing ms \<equiv> sorted_wrt (<) (map mi_version ms)"

lemma apply_pending_skip:
  "\<forall>m \<in> set ms. c < mi_version m \<and> c' < mi_version m \<Longrightarrow> apply_pending lib um ok c ms d = apply_pending lib um ok c' ms d"
  by (induction ms arbitrary: d) (auto split: prod.split bool.split)

lemma apply_pending_version:
  "increasing ms \<Longrightarrow> ds_version d = c \<Longrightarrow> c \<le> ds_version (snd (apply_pending lib um ok c ms d))"
proof (induction ms arbitrary: d c)
  case (Cons m ms)
  show ?case
  proof (cases "mi_version m \<le> c")
    case False
    from applyMigration_cases[of lib um "ok (mi_version m)" m d] show ?thesis
    proof
      assume "\<exists>d'. applyMigration lib um (ok (mi_version m)) m d = (True, d')
        \<and> applyMigration lib um (\<lambda>_. True) m d = (True, d') \<and> ds_version d' = mi_version m"
      then obtain d' where d': "applyMigration lib um (ok (mi_version m)) m d = (True, d')" "ds_version d' = mi_version m" by blast
      have "apply_pending lib um ok c ms d' = apply_pending lib um ok (mi_version m) ms d'"
        using Cons.prems(1) False by (intro apply_pending_skip) auto
      then show ?thesis using Cons.IH[of d' "mi_version m"] Cons.prems(1) False d' by simp
    qed (use Cons.prems(2) False in simp)
  qed (use Cons.IH[of d c] Cons.prems in simp)
qed simp

lemma apply_pending_upper:
  "\<forall>m \<in> set ms. mi_version m \<le> n \<Longrightarrow> ds_version d \<le> n \<Longrightarrow> ds_version (snd (apply_pending lib um ok c ms d)) \<le> n"
proof (induction ms arbitrary: d)
  case (Cons m ms)
  then show ?case using applyMigration_cases[of lib um "ok (mi_version m)" m d] by auto
qed simp

lemma apply_pending_resumes:
  "increasing ms \<Longrightarrow> ds_version d = c \<Longrightarrow> apply_pending lib um all_ok c ms d = (None, dN) \<Longrightarrow>
   apply_pending lib um ok c ms d = (err, d') \<Longrightarrow> apply_pending lib um all_ok (ds_version d') ms d' = (None, dN)"
proof (induction ms arbitrary: d c)
  case (Cons m ms)
  have v: "c \<le> ds_version d'"
    using apply_pending_version[OF Cons.prems(1,2), of lib um ok] Cons.prems(4) by simp
  show ?case
  proof (cases "mi_version m \<le> c")
    case True
    then show ?thesis using Cons.IH[of d c] Cons.prems v by simp
  next
    case False
    from applyMigration_cases[of lib um "ok (mi_version m)" m d] show ?thesis
    proof
      assume "\<exists>d'. applyMigration lib um (ok (mi_version m)) m d = (True, d')
        \<and> applyMigration lib um (\<lambda>_. True) m d = (True, d') \<and> ds_version d' = mi_version m"
      then obtain d1 where d1: "applyMigration lib um (ok (mi_version m)) m d = (True, d1)"
          "applyMigration lib um (\<lambda>_. True) m d = (True, d1)" "ds_version d1 = mi_version m" by blast
      have sk: "apply_pending lib um ok c ms d1 = apply_pending lib um ok (mi_version m) ms d1" for ok
        using Cons.prems(1) False by (intro apply_pending_skip) auto
      have r: "apply_pending lib um all_ok (mi_version m) ms d1 = (None, dN)" "apply_pending lib um ok (mi_version m) ms d1 = (err, d')"
        using Cons.prems(3,4) False d1 sk[of all_ok] sk[of ok] by simp_all
      have "mi_version m \<le> ds_version d'"
        using apply_pending_version[of ms d1 "mi_version m" lib um ok] Cons.prems(1) d1(3) r(2) by simp
      moreover have "apply_pending lib um all_ok (ds_version d') ms d' = (None, dN)"
        using Cons.IH[OF _ d1(3) r] Cons.prems(1) by simp
      ultimately show ?thesis by simp
    qed (use Cons.prems(2-4) False in simp)
  qed
qed simp

definition has_table :: "string \<Rightarrow> database \<Rightarrow> bool" where
  "has_table t d \<longleftrightarrow> map_of (ds_tables d) t \<noteq> None"

lemma exec_all_tables: "exec_all ok i ss d = Some d' \<Longrightarrow> has_table t d \<Longrightarrow> has_table t d'"
proof (induction ok i ss d rule: exec_all.induct)
  case (2 ok i s ss d)
  have "has_table t d1" if "exec_ddl s d = Some d1" for d1
    using that 2(3) by (auto simp: exec_ddl_def has_table_def update_conv' map_add_def split: ddl.split_asm option.split_asm if_split_asm option.split)
  then show ?case using 2 by (auto split: if_split_asm option.split_asm)
qed simp

lemma apply_pending_tables: "has_table t d \<Longrightarrow> has_table t (snd (apply_pending lib um ok c ms d))"
proof (induction lib um ok c ms d rule: apply_pending.induct)
  case (2 lib um ok c m ms d)
  have "has_table t (snd (applyMigration lib um (ok (mi_version m)) m d))"
    using 2(3) by (auto simp: applyMigration_def Let_def has_table_def[of _ "_\<lparr>ds_version := _\<rparr>"] split: option.split
        dest!: exec_all_tables[where t = t]) (simp_all add: has_table_def)
  then show ?case using 2 by (auto split: prod.split bool.split)
qed simp

lemma migrations_increasing: "increasing migrations"
  by (simp add: migrations_def)

type_synonym migrate_attempt = "bool \<times> bool \<times> (int \<Rightarrow> nat \<Rightarrow> bool)"

definition migrate_attempt :: "golib \<Rightarrow> (string \<Rightarrow> (string \<times> any) list) \<Rightarrow> migrate_attempt \<Rightarrow> database \<Rightarrow> database" where
  "migrate_attempt lib um a d = (case a of (up, readable, ok) \<Rightarrow> snd (migrate lib um up readable ok d))"

lemma migrate_attempt_resumes:
  assumes "migrate lib um True True all_ok d = (None, dN)"
  shows "migrate lib um True True all_ok (migrate_attempt lib um a d) = (None, dN)"
proof -
  obtain up readable ok where a: "a = (up, readable, ok)" by (cases a)
  obtain d1 where d1: "exec_ddl (CreateTable ''schema_migrations'' [''version'', ''name'', ''applied_at'']) d = Some d1"
    by (simp add: exec_ddl_def)
  have t1: "has_table ''schema_migrations'' d1" using d1 by (auto simp: exec_ddl_def has_table_def map_add_def split: if_split_asm)
  have idem: "exec_ddl (CreateTable ''schema_migrations'' [''version'', ''name'', ''applied_at'']) x = Some x"
    if "has_table ''schema_migrations'' x" for x using that by (simp add: exec_ddl_def has_table_def)
  have new: "ds_version d1 \<le> latestSchemaVersion" and run: "apply_pending lib um all_ok (ds_version d1) migrations d1 = (None, dN)"
    using assms d1 by (simp_all add: migrate_def Let_def split: if_split_asm)
  have d1': "migrate lib um True True all_ok d1 = (None, dN)" using new run idem[OF t1] by (simp add: migrate_def)
  show ?thesis
  proof (cases "up \<and> readable")
    case False
    then have "migrate_attempt lib um a d = (if up then d1 else d)" using a d1 by (cases up) (simp_all add: migrate_attempt_def migrate_def)
    then show ?thesis using d1' assms by simp
  next
    case True
    obtain err d2 where d2: "apply_pending lib um ok (ds_version d1) migrations d1 = (err, d2)"
      by (cases "apply_pending lib um ok (ds_version d1) migrations d1")
    have "apply_pending lib um all_ok (ds_version d2) migrations d2 = (None, dN)"
      by (rule apply_pending_resumes[OF migrations_increasing refl run d2])
    moreover have "has_table ''schema_migrations'' d2" using apply_pending_tables[OF t1, of lib um ok] d2 by (metis snd_conv)
    moreover have "ds_version d2 \<le> latestSchemaVersion"
      using apply_pending_upper[of migrations latestSchemaVersion d1 lib um ok "ds_version d1"] new d2
      by (simp add: migrations_def latestSchemaVersion_def)
    ultimately have "migrate lib um True True all_ok d2 = (None, dN)" by (simp add: migrate_def idem)
    then show ?thesis using True a d1 d2 new by (simp add: migrate_attempt_def migrate_def)
  qed
qed


text \<open>C36. Migrations can be interrupted anywhere: whatever fails in however many attempts, at a statement, at a
  commit, at reading the version, the first attempt without a failure brings the database to exactly
  the state that a run without any failure would have produced: tables with their columns, indexes,
  recorded versions and data.  (Types and constraints of columns are not part of the model.)
\<close>

theorem migrations_resume:
  assumes "migrate lib um True True all_ok d0 = (None, dN)"
  shows "migrate lib um True True all_ok (fold (migrate_attempt lib um) attempts d0) = (None, dN)"
  using assms by (induction attempts arbitrary: d0) (auto dest: migrate_attempt_resumes)

definition fresh_database :: database where
  "fresh_database = \<lparr>ds_tables = [], ds_indexes = [], ds_version = 0, ds_applied = [], ds_data = \<lparr>d_logs = [], d_fts = []\<rparr>\<rparr>"

lemma fresh_migrates:
  "\<exists>dN. migrate lib um True True all_ok fresh_database = (None, dN) \<and> ds_version dN = 6
     \<and> map_of (ds_tables dN) ''alert_channels'' = Some [''id'', ''name'', ''type'', ''url'', ''created_at'', ''token'']
     \<and> map_of (ds_tables dN) ''logs_fts'' = Some [''id'', ''text'']"
  by (simp add: migrate_def fresh_database_def latestSchemaVersion_def migrations_def applyMigration_def exec_ddl_def rebuildFTSRowids_def Let_def)

theorem migrations_resume_witness:
  "\<forall>lib um. ds_version (snd (migrate lib um True True all_ok
     (fold (migrate_attempt lib um) [(True, True, \<lambda>v i. v < 6 \<or> i < 2), (True, False, all_ok)] fresh_database))) = 6"
proof (intro allI)
  fix lib um
  obtain dN where "migrate lib um True True all_ok fresh_database = (None, dN)" "ds_version dN = 6"
    using fresh_migrates by blast
  then show "ds_version (snd (migrate lib um True True all_ok
     (fold (migrate_attempt lib um) [(True, True, \<lambda>v i. v < 6 \<or> i < 2), (True, False, all_ok)] fresh_database))) = 6"
    using migrations_resume by (metis snd_conv)
qed

theorem rebuild_aligns_witness:
  "\<forall>lib um. db_ok (rebuildFTSRowids lib um \<lparr>d_logs = [(3, row_of empty_event ''{}'')], d_fts = [(9, (''x'', ''y''))]\<rparr>)"
  using rebuild_aligns[of "\<lparr>d_logs = [(3, row_of empty_event ''{}'')], d_fts = [(9, (''x'', ''y''))]\<rparr>"] by simp

text \<open>A column can be added once: without the version, the last migration would fail the second time.\<close>

lemma add_column_once: "exec_ddl (AddColumn t c) d = Some d' \<Longrightarrow> exec_ddl (AddColumn t c) d' = None"
  by (auto simp: exec_ddl_def update_conv' split: option.split_asm if_split_asm)

end
