(* ===== verification/Paging.thy ===== *)
theory Paging
  imports Search
begin

text \<open>
  Reading a search page by page.  What SQLite does with the statement of a search is read off its
  text: a reader for the statements of this form splits the conditions, evaluates comparisons of
  the two columns of the order, sorts as the \<^verbatim>\<open>ORDER BY\<close> says and cuts at the limit.  Conditions on other
  columns (text, JSON, full text) stay a parameter, the meaning of a condition with its arguments.
\<close>

section \<open>Reading a statement\<close>

text \<open>The words of a condition; parentheses stand alone.\<close>

fun sql_words :: "string \<Rightarrow> string \<Rightarrow> string list" where
  "sql_words w [] = (if w = [] then [] else [w])"
| "sql_words w (c # s) =
     (if c = CHR '' '' then (if w = [] then [] else [w]) @ sql_words [] s
      else if c \<in> {CHR ''('', CHR '')''} then (if w = [] then [] else [w]) @ [c] # sql_words [] s
      else sql_words (w @ [c]) s)"

text \<open>Comparisons of a column with a placeholder, joined by \<^verbatim>\<open>AND\<close>, which binds tighter, and \<^verbatim>\<open>OR\<close>.\<close>

datatype sql_expr = Compare string string | Both sql_expr sql_expr | Either sql_expr sql_expr

fun read_or :: "nat \<Rightarrow> string list \<Rightarrow> (sql_expr \<times> string list) option"
and read_and :: "nat \<Rightarrow> string list \<Rightarrow> (sql_expr \<times> string list) option"
and read_prim :: "nat \<Rightarrow> string list \<Rightarrow> (sql_expr \<times> string list) option" where
  "read_or 0 ts = None"
| "read_or (Suc n) ts = (case read_and n ts of
     Some (e, r) \<Rightarrow> (if take 1 r = [''OR''] then map_option (\<lambda>(e2, r2). (Either e e2, r2)) (read_or n (drop 1 r)) else Some (e, r))
   | None \<Rightarrow> None)"
| "read_and 0 ts = None"
| "read_and (Suc n) ts = (case read_prim n ts of
     Some (e, r) \<Rightarrow> (if take 1 r = [''AND''] then map_option (\<lambda>(e2, r2). (Both e e2, r2)) (read_and n (drop 1 r)) else Some (e, r))
   | None \<Rightarrow> None)"
| "read_prim 0 ts = None"
| "read_prim (Suc n) ts =
     (if take 1 ts = [''(''] then
        (case read_or n (drop 1 ts) of
           Some (e, r) \<Rightarrow> (if take 1 r = ['')''] then Some (e, drop 1 r) else None)
         | None \<Rightarrow> None)
      else (case ts of
          col # opr # mark # r \<Rightarrow>
            (if opr \<in> {''<'', ''<='', ''>'', ''>='', ''=''} \<and> mark = ''?'' then Some (Compare col opr, r) else None)
        | _ \<Rightarrow> None))"

text \<open>The fuel is more than three for each word, which is the most a level of the grammar takes.\<close>

definition read_cond :: "string \<Rightarrow> sql_expr option" where
  "read_cond c =
     (let ts = sql_words [] c
      in case read_or (3 * length ts + 3) ts of Some (e, []) \<Rightarrow> Some e | _ \<Rightarrow> None)"

definition compare_with :: "string \<Rightarrow> 'a::linorder \<Rightarrow> 'a \<Rightarrow> bool" where
  "compare_with opr a b =
     (if opr = ''<'' then a < b else if opr = ''<='' then a \<le> b else if opr = ''>'' then b < a else if opr = ''>='' then b \<le> a else a = b)"

text \<open>The value of an expression on a row and the arguments it leaves; \<open>None\<close> for another column or type.\<close>

fun eval_expr :: "sql_expr \<Rightarrow> logrow \<Rightarrow> sqlarg list \<Rightarrow> (bool \<times> sqlarg list) option" where
  "eval_expr (Compare col opr) r as = (case as of
     SqlInt n # as' \<Rightarrow> (if col = ''logs.ts'' then Some (compare_with opr (r_ts r) n, as') else None)
   | SqlText s # as' \<Rightarrow> (if col = ''logs.id'' then Some (compare_with opr (r_id r) s, as') else None)
   | _ \<Rightarrow> None)"
| "eval_expr (Both a b) r as = (case eval_expr a r as of
     Some (x, as1) \<Rightarrow> map_option (\<lambda>(y, as2). (x \<and> y, as2)) (eval_expr b r as1) | None \<Rightarrow> None)"
| "eval_expr (Either a b) r as = (case eval_expr a r as of
     Some (x, as1) \<Rightarrow> map_option (\<lambda>(y, as2). (x \<or> y, as2)) (eval_expr b r as1) | None \<Rightarrow> None)"

text \<open>The meaning of other conditions: text, arguments, row.\<close>

type_synonym meaning = "string \<Rightarrow> sqlarg list \<Rightarrow> logrow \<Rightarrow> bool"

definition cond_holds :: "meaning \<Rightarrow> string \<Rightarrow> sqlarg list \<Rightarrow> logrow \<Rightarrow> bool" where
  "cond_holds other c as r =
     (case read_cond c of
        Some e \<Rightarrow> (case eval_expr e r as of Some (b, []) \<Rightarrow> b | _ \<Rightarrow> other c as r)
      | None \<Rightarrow> other c as r)"

text \<open>The conditions of a \<^verbatim>\<open>WHERE\<close>: split at each \<^verbatim>\<open>AND\<close> outside parentheses; each takes its arguments.\<close>

definition depth_after :: "nat \<Rightarrow> char \<Rightarrow> nat" where
  "depth_after d c = (if c = CHR ''('' then Suc d else if c = CHR '')'' then d - 1 else d)"

fun split_and :: "nat \<Rightarrow> string \<Rightarrow> string list" where
  "split_and d [] = [[]]"
| "split_and d (c # s) =
     (if d = 0 \<and> prefix '' AND '' (c # s) then [] # split_and 0 (drop 4 s)
      else (case split_and (depth_after d c) s of p # ps \<Rightarrow> (c # p) # ps | [] \<Rightarrow> []))"

fun conds_hold :: "meaning \<Rightarrow> string list \<Rightarrow> sqlarg list \<Rightarrow> logrow \<Rightarrow> bool" where
  "conds_hold other [] as r = True"
| "conds_hold other (c # cs) as r = (cond_holds other c (take (holes c) as) r \<and> conds_hold other cs (drop (holes c) as) r)"

text \<open>Sorting by the two columns; two words may differ, then the second is sorted first.\<close>

definition row_key :: "logrow \<Rightarrow> int \<times> string" where
  "row_key r = (r_ts r, r_id r)"

definition order_rows :: "string \<Rightarrow> string \<Rightarrow> logrow list \<Rightarrow> logrow list" where
  "order_rows d1 d2 rows =
     (if d1 = d2 then (if d1 = ''ASC'' then sort_key row_key rows else rev (sort_key row_key rows))
      else if d1 = ''ASC'' then sort_key r_ts (rev (sort_key r_id rows))
      else rev (sort_key r_ts (rev (sort_key r_id rows))))"

definition order_text :: "string \<times> string \<Rightarrow> string" where
  "order_text d = '' ORDER BY logs.ts '' @ fst d @ '', logs.id '' @ snd d @ '' LIMIT ?''"

definition select_texts :: "string list" where
  "select_texts = map (\<lambda>from. ''SELECT logs.id, logs.ts, logs.received_at, logs.source, logs.service, logs.level, logs.message, logs.attributes, logs.raw '' @ from)
     [''FROM logs JOIN logs_fts ON logs_fts.rowid = logs.rowid '', ''FROM logs '']"

text \<open>The answer to a statement, \<open>None\<close> if it is not of this form.\<close>

definition sql_select :: "meaning \<Rightarrow> string \<Rightarrow> sqlarg list \<Rightarrow> logrow list \<Rightarrow> logrow list option" where
  "sql_select other sql args rows =
     (case find (\<lambda>d. suffix (order_text d) sql) [(''ASC'', ''ASC''), (''ASC'', ''DESC''), (''DESC'', ''ASC''), (''DESC'', ''DESC'')] of
        None \<Rightarrow> None
      | Some d \<Rightarrow>
          (let head = take (length sql - length (order_text d)) sql
           in case find (\<lambda>p. prefix p head) select_texts of
                None \<Rightarrow> None
              | Some p \<Rightarrow>
                  (let wh = drop (length p) head
                   in case rev args of
                        SqlInt n # ras \<Rightarrow>
                          (if wh \<noteq> [] \<and> \<not> prefix ''WHERE '' wh then None
                           else let conds = (if wh = [] then [] else split_and 0 (drop 6 wh));
                                    found = order_rows (fst d) (snd d) (filter (conds_hold other conds (rev ras)) rows)
                                in Some (if n < 0 then found else take (nat n) found))
                      | _ \<Rightarrow> None)))"

section \<open>The statement of a search, read back\<close>

text \<open>A condition that the splitting leaves whole: outside its parentheses no word starts with an A.\<close>

fun plain :: "nat \<Rightarrow> string \<Rightarrow> bool" where
  "plain d [] \<longleftrightarrow> d = 0"
| "plain d (c # s) \<longleftrightarrow> \<not> (d = 0 \<and> prefix '' A'' (c # s)) \<and> plain (depth_after d c) s"

lemma split_and_plain: "plain d c \<Longrightarrow> split_and d c = [c]"
proof (induction c arbitrary: d)
  case (Cons x s)
  have "\<not> (d = 0 \<and> prefix '' AND '' (x # s))" using Cons.prems by (cases s) auto
  then show ?case using Cons by simp
qed simp

lemma split_and_more: "plain d c \<Longrightarrow> split_and d (c @ '' AND '' @ rest) = c # split_and 0 rest"
proof (induction c arbitrary: d)
  case (Cons x s)
  have "\<not> (d = 0 \<and> prefix '' AND '' (x # s @ '' AND '' @ rest))"
    using Cons.prems by (cases s) auto
  moreover have "split_and (depth_after d x) (s @ '' AND '' @ rest) = s # split_and 0 rest"
    using Cons by simp
  ultimately show ?case by (simp del: append_Cons add: append_Cons[of x])
qed simp

lemma split_and_join: "cs \<noteq> [] \<Longrightarrow> (\<And>c. c \<in> set cs \<Longrightarrow> plain 0 c) \<Longrightarrow> split_and 0 (join '' AND '' cs) = cs"
proof (induction "'' AND ''" cs rule: join.induct)
  case (3 c c' cs)
  then show ?case using split_and_more[of 0 c "join '' AND '' (c' # cs)"] by simp
qed (simp_all add: split_and_plain)

lemma plain_inside: "\<not> list_ex (\<lambda>c. c \<in> {CHR ''('', CHR '')''}) a \<Longrightarrow> plain (Suc d) (a @ b) \<longleftrightarrow> plain (Suc d) b"
  by (induction a) (auto simp: depth_after_def)


lemma plain_keyset: "fst (keysetCond q) \<noteq> [] \<Longrightarrow> plain 0 (fst (keysetCond q))"
  by (simp add: keysetCond_def Let_def depth_after_def)

lemma marks_no_parens: "\<not> list_ex (\<lambda>c. c \<in> {CHR ''('', CHR '')''}) (trim_suffix '','' (concat (replicate n ''?,'')))"
proof -
  have "set (trim_suffix '','' s) \<subseteq> set s" for s by (auto simp: trim_suffix_def dest: in_set_takeD)
  moreover have "set (concat (replicate n ''?,'')) \<subseteq> {CHR ''?'', CHR '',''}" by (induction n) auto
  ultimately have "set (trim_suffix '','' (concat (replicate n ''?,''))) \<subseteq> {CHR ''?'', CHR '',''}" by blast
  moreover have "CHR ''('' \<notin> {CHR ''?'', CHR '',''}" "CHR '')'' \<notin> {CHR ''?'', CHR '',''}" by simp_all
  ultimately show ?thesis by (auto simp only: list_ex_iff)
qed

lemma plain_columnFor [simp]: "plain d (columnFor fld @ t) \<longleftrightarrow> plain d t"
  by (simp add: columnFor_def depth_after_def split: field.split)

lemma plain_textExpr [simp]: "plain 0 (fst (textExpr f) @ t) \<longleftrightarrow> plain 0 t"
  by (simp add: textExpr_def depth_after_def)

lemma plain_sym [simp]: "plain d (compareSym opr @ t) \<longleftrightarrow> plain d t"
  by (simp add: compareSym_def depth_after_def split: op.split)

lemma plain_filterCond: "plain 0 (fst (filterCond lib f))"
proof (cases "f_op f = OpIn")
  case True
  have "plain 1 (trim_suffix '','' (concat (replicate n ''?,'')) @ '')'')" for n
    using plain_inside[OF marks_no_parens, of 0 n "'')''"] by (simp add: depth_after_def)
  then show ?thesis using True
    by (simp add: filterCond_def Let_def case_prod_beta) (simp add: depth_after_def)
next
  case False
  then show ?thesis
    by (cases "f_op f")
      (auto simp: filterCond_def attrBoolCond_def Let_def case_prod_beta depth_after_def apostrophe_def backslash_def compareSym_def split: bool.split)
qed

text \<open>Every condition of a search is a condition of its own again when the text is split.\<close>

lemma plain_where: "c \<in> set (w_conds (with_keyset q (buildWhere lib q))) \<Longrightarrow> plain 0 c"
proof -
  assume c: "c \<in> set (w_conds (with_keyset q (buildWhere lib q)))"
  have "plain 0 ''logs_fts MATCH ?''" "plain 0 ''logs.ts >= ?''" "plain 0 ''logs.ts <= ?''" by code_simp+
  with c show ?thesis
    by (auto simp: with_keyset_def buildWhere_def Let_def where_filter_conds add_cond_def plain_filterCond case_prod_beta
        intro: plain_keyset split: if_splits)
qed

text \<open>The statement of a search, read: its conditions, its order and its limit are those it was built of.\<close>

lemma order_text_found:
  assumes "d \<in> {''ASC'', ''DESC''}"
  shows "find (\<lambda>d'. suffix (order_text d') (h @ order_text (d, d))) [(''ASC'', ''ASC''), (''ASC'', ''DESC''), (''DESC'', ''ASC''), (''DESC'', ''DESC'')]
    = Some (d, d)"
  using assms by (auto simp: order_text_def suffix_to_prefix)

lemma select_text_found:
  "wh = [] \<or> prefix ''WHERE '' wh \<Longrightarrow>
     find (\<lambda>p. prefix p (select_columns @ fromClause b @ '' '' @ wh)) select_texts = Some (select_columns @ fromClause b @ '' '')"
  by (auto simp: select_texts_def select_columns_def fromClause_def prefix_def)

lemma sql_select_search:
  fixes lib q defines "w \<equiv> with_keyset q (buildWhere lib q)"
  shows "sql_select other (fst (searchSQL lib q)) (snd (searchSQL lib q)) rows =
    Some (let found = order_rows (order_word q) (order_word q) (filter (conds_hold other (w_conds w) (w_args w)) rows)
          in if q_limit q < 0 then found else take (nat (q_limit q)) found)"
proof -
  let ?head = "select_columns @ fromClause (w_needFTS w) @ '' '' @ sqlStr w" and ?d = "(order_word q, order_word q)"
  have sql: "searchSQL lib q = (?head @ order_text ?d, w_args w @ [SqlInt (q_limit q)])"
    by (simp add: searchSQL_def Let_def w_def order_text_def)
  have f: "find (\<lambda>d. suffix (order_text d) (?head @ order_text ?d)) [(''ASC'', ''ASC''), (''ASC'', ''DESC''), (''DESC'', ''ASC''), (''DESC'', ''DESC'')] = Some ?d"
    by (rule order_text_found) (simp add: order_word_def)
  have "sqlStr w = [] \<or> prefix ''WHERE '' (sqlStr w)" by (simp add: sqlStr_def)
  note p = select_text_found[OF this, of "w_needFTS w"]
  have c: "(if sqlStr w = [] then [] else split_and 0 (drop 6 (sqlStr w))) = w_conds w"
    using split_and_join[of "w_conds w"] plain_where[of _ q lib] by (auto simp: sqlStr_def w_def)
  have l: "length (?head @ order_text ?d) - length (order_text ?d) = length ?head" "take (length ?head) (?head @ order_text ?d) = ?head"
    "drop (length (select_columns @ fromClause (w_needFTS w) @ '' '')) ?head = sqlStr w" by simp_all
  have r: "rev (w_args w @ [SqlInt (q_limit q)]) = SqlInt (q_limit q) # rev (w_args w)" by simp
  show ?thesis
    unfolding sql_select_def sql fst_conv snd_conv f option.case Let_def l p r list.case sqlarg.case c rev_rev_ident
    using \<open>sqlStr w = [] \<or> _\<close> by simp
qed

section \<open>The rows of a search\<close>

lemma conds_hold_append:
  "sum_list (map holes cs) = length as \<Longrightarrow>
     conds_hold other (cs @ ds) (as @ bs) r \<longleftrightarrow> conds_hold other cs as r \<and> conds_hold other ds bs r"
proof (induction cs arbitrary: as)
  case (Cons c cs)
  then have "holes c \<le> length as" "sum_list (map holes cs) = length (drop (holes c) as)" by simp_all
  then show ?case using Cons.IH[of "drop (holes c) as"] by simp
qed simp

definition where_holds :: "meaning \<Rightarrow> whereClause \<Rightarrow> logrow \<Rightarrow> bool" where
  "where_holds other w r = conds_hold other (w_conds w) (w_args w) r"

lemma where_holds_add:
  "clause_ok w \<Longrightarrow> balanced (c, as) \<Longrightarrow> where_holds other (add_cond c as w) r \<longleftrightarrow> where_holds other w r \<and> cond_holds other c as r"
  by (simp add: where_holds_def add_cond_def clause_ok_def conds_hold_append balanced_def)

lemma where_holds_fts [simp]: "where_holds other (w\<lparr>w_needFTS := b\<rparr>) = where_holds other w"
  by (simp add: where_holds_def fun_eq_iff)

definition filter_holds :: "golib \<Rightarrow> meaning \<Rightarrow> logrow \<Rightarrow> filter_t \<Rightarrow> bool" where
  "filter_holds lib other r f = (case filterCond lib f of (c, as) \<Rightarrow> c = [] \<or> cond_holds other c as r)"

lemma where_holds_filters:
  "clause_ok w \<Longrightarrow> where_holds other (foldl (where_filter lib) w fs) r \<longleftrightarrow> where_holds other w r \<and> list_all (filter_holds lib other r) fs"
proof (induction fs arbitrary: w)
  case (Cons f fs)
  have "clause_ok (where_filter lib w f)"
    using Cons.prems clause_ok_filters[of w lib "[f]"] by simp
  moreover have "where_holds other (where_filter lib w f) r \<longleftrightarrow> where_holds other w r \<and> filter_holds lib other r f"
    using Cons.prems balanced_filterCond[of lib f]
    by (auto simp: where_filter_def filter_holds_def where_holds_add split: prod.splits)
  ultimately show ?case using Cons.IH by simp
qed simp

text \<open>The texts of the bounds and of the cursor, read.\<close>

lemma cond_holds_bounds:
  "cond_holds other ''logs.ts >= ?'' [SqlInt n] r \<longleftrightarrow> n \<le> r_ts r"
  "cond_holds other ''logs.ts <= ?'' [SqlInt n] r \<longleftrightarrow> r_ts r \<le> n"
  "cond_holds other ''logs_fts MATCH ?'' as r = other ''logs_fts MATCH ?'' as r"
proof -
  have "read_cond ''logs.ts >= ?'' = Some (Compare ''logs.ts'' ''>='')" "read_cond ''logs.ts <= ?'' = Some (Compare ''logs.ts'' ''<='')"
    "read_cond ''logs_fts MATCH ?'' = None" by code_simp+
  then show "cond_holds other ''logs.ts >= ?'' [SqlInt n] r \<longleftrightarrow> n \<le> r_ts r"
    "cond_holds other ''logs.ts <= ?'' [SqlInt n] r \<longleftrightarrow> r_ts r \<le> n"
    "cond_holds other ''logs_fts MATCH ?'' as r = other ''logs_fts MATCH ?'' as r"
    by (simp_all add: cond_holds_def compare_with_def)
qed

text \<open>What the cursor's condition is meant to say: the rows behind the last one seen.\<close>

definition keyset_holds :: "query \<Rightarrow> logrow \<Rightarrow> bool" where
  "keyset_holds q r =
     (q_after_id q = [] \<or>
      (let ts = i64 (q_after_ts q)
       in if q_order q = OrderOldest then r_ts r > ts \<or> r_ts r = ts \<and> r_id r > q_after_id q
          else r_ts r < ts \<or> r_ts r = ts \<and> r_id r < q_after_id q))"

lemma cond_holds_keyset:
  assumes "q_after_id q \<noteq> []"
  shows "cond_holds other (fst (keysetCond q)) (snd (keysetCond q)) r \<longleftrightarrow> keyset_holds q r"
proof -
  have "read_cond ''(logs.ts > ? OR (logs.ts = ? AND logs.id > ?))'' =
      Some (Either (Compare ''logs.ts'' ''>'') (Both (Compare ''logs.ts'' ''='') (Compare ''logs.id'' ''>'')))"
    "read_cond ''(logs.ts < ? OR (logs.ts = ? AND logs.id < ?))'' =
      Some (Either (Compare ''logs.ts'' ''<'') (Both (Compare ''logs.ts'' ''='') (Compare ''logs.id'' ''<'')))"
    by code_simp+
  then show ?thesis
    using assms by (simp add: cond_holds_def keysetCond_def keyset_holds_def compare_with_def Let_def)
qed

text \<open>
  The rows a query asks for: full text and filters as their conditions say, the time bounds, which
  are inclusive and absent when zero.
\<close>

definition row_matches :: "golib \<Rightarrow> meaning \<Rightarrow> query \<Rightarrow> logrow \<Rightarrow> bool" where
  "row_matches lib other q r \<longleftrightarrow>
     (q_terms q = [] \<or> other ''logs_fts MATCH ?'' [SqlText (ftsMatchExpr (q_terms q))] r)
     \<and> (is_zero (q_from q) \<or> i64 (q_from q) \<le> r_ts r) \<and> (is_zero (q_to q) \<or> r_ts r \<le> i64 (q_to q))
     \<and> list_all (filter_holds lib other r) (q_filters q)"

lemma where_holds_search: "where_holds other (with_keyset q (buildWhere lib q)) r \<longleftrightarrow> row_matches lib other q r \<and> keyset_holds q r"
proof -
  let ?w0 = "\<lparr>w_conds = [], w_args = [], w_needFTS = False\<rparr>"
  have "clause_ok ?w0" "where_holds other ?w0 r" by (simp_all add: clause_ok_def where_holds_def)
  then have "where_holds other (buildWhere lib q) r \<longleftrightarrow> row_matches lib other q r"
    by (auto simp: buildWhere_def Let_def where_holds_filters where_holds_add clause_ok_add balanced_def row_matches_def
        cond_holds_bounds)
  then show ?thesis
    using where_holds_add[OF clause_ok_buildWhere, of "fst (keysetCond q)" "snd (keysetCond q)"] balanced_keyset[of q]
      cond_holds_keyset[of q other r]
    by (cases "q_after_id q = []") (auto simp: with_keyset_def case_prod_beta keyset_holds_def keysetCond_def Let_def)
qed

section \<open>Reading a search page by page\<close>

definition in_order :: "query \<Rightarrow> logrow list \<Rightarrow> logrow list" where
  "in_order q rows = (if q_order q = OrderOldest then sort_key row_key rows else rev (sort_key row_key rows))"

definition select_ref :: "(logrow \<Rightarrow> bool) \<Rightarrow> query \<Rightarrow> logrow list \<Rightarrow> logrow list" where
  "select_ref sat q rows = take (nat (q_limit q)) (in_order q (filter (\<lambda>r. sat r \<and> keyset_holds q r) rows))"

text \<open>A client that follows the cursors: at most \<open>n\<close> pages.\<close>

fun pages :: "golib \<Rightarrow> sql_reader \<Rightarrow> nat \<Rightarrow> query \<Rightarrow> logevent list" where
  "pages lib sr 0 q = []"
| "pages lib sr (Suc n) q =
     (case Search lib sr q of
        Inl _ \<Rightarrow> []
      | Inr r \<Rightarrow> sv_events r @
          (if sv_next r = [] then []
           else case DecodeCursor (sv_next r) of
                  Inl _ \<Rightarrow> []
                | Inr (ts, eid) \<Rightarrow> pages lib sr n (q\<lparr>q_after_ts := ts, q_after_id := eid\<rparr>)))"

definition before :: "query \<Rightarrow> logrow \<Rightarrow> logrow \<Rightarrow> bool" where
  "before q r s = (if q_order q = OrderOldest then row_key r < row_key s else row_key s < row_key r)"

lemma in_order_sorted:
  assumes "distinct (map r_id rows)"
  shows "sorted_wrt (before q) (in_order q rows)"
proof -
  have "distinct (map row_key rows)"
    using assms by (auto simp: distinct_map inj_on_def row_key_def)
  then have "distinct (map row_key (sort_key row_key rows))"
    by (simp add: distinct_map distinct_sort)
  then have "sorted_wrt (<) (map row_key (sort_key row_key rows))"
    by (simp add: strict_sorted_iff)
  then show ?thesis
    by (auto simp: in_order_def before_def[abs_def] sorted_wrt_map sorted_wrt_rev)
qed

lemma in_order_filter: "in_order q (filter P rows) = filter P (in_order q rows)"
  by (simp add: in_order_def filter_sort[symmetric] rev_filter)

text \<open>Resuming behind a row of an ordered list leaves the rest of the list.\<close>

lemma resume_rest:
  assumes "sorted_wrt (before q) (xs @ c # ys)"
  shows "filter (before q c) (xs @ c # ys) = ys"
proof -
  have "\<not> before q c x" if "x \<in> set xs" for x
    using assms that by (auto simp: sorted_wrt_append before_def split: if_splits)
  then have "filter (before q c) xs = []" by (auto simp: filter_empty_conv)
  moreover have "\<not> before q c c" by (simp add: before_def)
  moreover have "filter (before q c) ys = ys"
    using assms by (auto simp: sorted_wrt_append filter_id_conv)
  ultimately show ?thesis by simp
qed

lemma keyset_before:
  "r_id c \<noteq> [] \<Longrightarrow> i64_range (r_ts c) \<Longrightarrow>
     keyset_holds (q\<lparr>q_after_ts := r_ts c, q_after_id := r_id c\<rparr>) r \<longleftrightarrow> before q c r"
  by (auto simp: keyset_holds_def before_def row_key_def less_prod_def')

lemma Query_Normalize_after:
  "Query_Normalize (q\<lparr>q_after_ts := t, q_after_id := i\<rparr>) = (Query_Normalize q)\<lparr>q_after_ts := t, q_after_id := i\<rparr>"
  by (simp add: Query_Normalize_def Let_def)

lemma Query_Normalize_page:
  "1 \<le> q_limit (Query_Normalize q)" "q_order (Query_Normalize q) = OrderOldest \<longleftrightarrow> q_order q = OrderOldest"
  by (auto simp: Query_Normalize_def Let_def DefaultLimit_def MaxLimit_def)

text \<open>One page: what \<^verbatim>\<open>Search\<close> returns when SQLite answers with \<open>rs\<close>.\<close>

lemma Search_page:
  assumes "sr_events sr (fst (searchSQL lib p)) (snd (searchSQL lib p)) = Some (rs, True)"
    and "\<And>sql args. sr_count sr sql args \<noteq> None" and "p = Query_Normalize q"
  shows "\<exists>r. Search lib sr q = Inr r \<and> sv_events r = map (scanEvent sr) rs \<and> sv_next r = next_cursor p (map (scanEvent sr) rs)"
proof -
  obtain tc where "db_count lib sr p = Inr tc"
    using assms(2)[of "fst (countSQL lib p)" "snd (countSQL lib p)"]
    by (cases "db_count lib sr p") (auto simp: db_count_def case_prod_beta)
  then show ?thesis
    using assms(1) by (simp add: Search_def Let_def case_prod_beta assms(3))
qed

lemma cursor_of_row:
  assumes "i64_range (r_ts c)"
  shows "EncodeCursor (ev_timestamp (scanEvent sr c)) (ev_id (scanEvent sr c)) \<noteq> []"
    "DecodeCursor (EncodeCursor (ev_timestamp (scanEvent sr c)) (ev_id (scanEvent sr c))) = Inr (r_ts c, r_id c)"
proof -
  have d: "DecodeCursor (EncodeCursor (r_ts c) (r_id c)) = Inr (r_ts c, r_id c)"
    using assms by (rule Cursor_roundtrip)
  have "DecodeCursor [] = Inl InvalidCursor" by code_simp
  with d have "EncodeCursor (r_ts c) (r_id c) \<noteq> []" by auto
  with d show "EncodeCursor (ev_timestamp (scanEvent sr c)) (ev_id (scanEvent sr c)) \<noteq> []"
    "DecodeCursor (EncodeCursor (ev_timestamp (scanEvent sr c)) (ev_id (scanEvent sr c))) = Inr (r_ts c, r_id c)"
    by (simp_all add: scanEvent_def)
qed

lemma pages_rest:
  fixes q sat rows defines "nq \<equiv> Query_Normalize q" and "xs \<equiv> in_order q (filter sat rows)"
  assumes answers: "\<And>ts eid p. p = nq\<lparr>q_after_ts := ts, q_after_id := eid\<rparr> \<Longrightarrow>
      sr_events sr (fst (searchSQL lib p)) (snd (searchSQL lib p)) = Some (select_ref sat p rows, True)"
    and counts: "\<And>sql args. sr_count sr sql args \<noteq> None"
    and ids: "distinct (map r_id rows)" and rows: "\<And>r. r \<in> set rows \<Longrightarrow> r_id r \<noteq> [] \<and> i64_range (r_ts r)"
  shows "xs = pre @ ys \<Longrightarrow> filter (keyset_holds (nq\<lparr>q_after_ts := ts, q_after_id := eid\<rparr>)) xs = ys \<Longrightarrow> length ys < n \<Longrightarrow>
    pages lib sr n (q\<lparr>q_after_ts := ts, q_after_id := eid\<rparr>) = map (scanEvent sr) ys"
proof (induction n arbitrary: pre ys ts eid)
  case (Suc n)
  define p where "p = nq\<lparr>q_after_ts := ts, q_after_id := eid\<rparr>"
  define L where "L = nat (q_limit nq)"
  have L: "1 \<le> L" "int L = q_limit nq"
    using Query_Normalize_page(1)[of q] by (simp_all add: L_def nq_def)
  have io: "in_order p = in_order q"
    by (auto simp: fun_eq_iff in_order_def p_def nq_def Query_Normalize_page)
  have lim: "q_limit p = int L" using L by (simp add: p_def)
  have "select_ref sat p rows = take L (filter (keyset_holds p) xs)"
    using lim by (simp add: select_ref_def io in_order_filter xs_def conj_commute)
  then have sel: "select_ref sat p rows = take L ys" using Suc.prems(2) by (simp add: p_def)
  have np: "p = Query_Normalize (q\<lparr>q_after_ts := ts, q_after_id := eid\<rparr>)"
    by (simp add: p_def nq_def Query_Normalize_after)
  obtain r where r: "Search lib sr (q\<lparr>q_after_ts := ts, q_after_id := eid\<rparr>) = Inr r"
    "sv_events r = map (scanEvent sr) (take L ys)" "sv_next r = next_cursor p (map (scanEvent sr) (take L ys))"
    using Search_page[OF answers[OF p_def, unfolded sel] counts np] by blast
  show ?case
  proof (cases "L \<le> length ys")
    case False
    then have "sv_next r = []" "take L ys = ys" using r(3) lim by (simp_all add: next_cursor_def)
    then show ?thesis using r by simp
  next
    case True
    define c where "c = last (take L ys)"
    have ne: "take L ys \<noteq> []" using True L by (cases ys) auto
    then have split: "xs = (pre @ butlast (take L ys)) @ c # drop L ys"
      using Suc.prems(1) append_butlast_last_id[OF ne] append_take_drop_id[of L ys]
      by (metis append.assoc append_Cons append_Nil c_def)
    have "c \<in> set xs" by (simp add: split)
    then have c: "r_id c \<noteq> []" "i64_range (r_ts c)"
      using rows[of c] by (auto simp: xs_def in_order_def split: if_splits)
    have nx: "sv_next r = EncodeCursor (ev_timestamp (scanEvent sr c)) (ev_id (scanEvent sr c))"
      using r(3) lim True ne by (simp add: next_cursor_def c_def last_map)
    have "distinct (map r_id (filter sat rows))" using ids by (rule distinct_map_filter)
    then have "sorted_wrt (before q) xs" unfolding xs_def by (rule in_order_sorted)
    then have "filter (before q c) xs = drop L ys" unfolding split by (rule resume_rest)
    moreover have "before q c = keyset_holds (nq\<lparr>q_after_ts := r_ts c, q_after_id := r_id c\<rparr>)"
      using keyset_before[OF c, of nq] Query_Normalize_page(2)[of q]
      by (auto simp: fun_eq_iff before_def nq_def)
    ultimately have rest: "filter (keyset_holds (nq\<lparr>q_after_ts := r_ts c, q_after_id := r_id c\<rparr>)) xs = drop L ys" by simp
    have "pages lib sr n (q\<lparr>q_after_ts := r_ts c, q_after_id := r_id c\<rparr>) = map (scanEvent sr) (drop L ys)"
      by (rule Suc.IH[OF _ rest]) (use split Suc.prems(3) L True in auto)
    then show ?thesis
      using r nx cursor_of_row[OF c(2), of sr] by (simp flip: map_append)
  qed
qed simp

text \<open>What a table that is searched this way answers.\<close>

lemma answer_select:
  assumes "p = (Query_Normalize q)\<lparr>q_after_ts := ts, q_after_id := eid\<rparr>"
  shows "sql_select other (fst (searchSQL lib p)) (snd (searchSQL lib p)) rows =
    Some (select_ref (row_matches lib other (Query_Normalize q)) p rows)"
proof -
  have "row_matches lib other p = row_matches lib other (Query_Normalize q)"
    by (simp add: assms row_matches_def fun_eq_iff)
  moreover have "order_rows (order_word p) (order_word p) = in_order p"
    by (simp add: fun_eq_iff order_rows_def order_word_def in_order_def)
  moreover have "0 \<le> q_limit p" using Query_Normalize_page(1)[of q] by (simp add: assms)
  moreover have "conds_hold other (w_conds (with_keyset p (buildWhere lib p))) (w_args (with_keyset p (buildWhere lib p)))
      = (\<lambda>r. row_matches lib other p r \<and> keyset_holds p r)"
    by (simp add: fun_eq_iff where_holds_search flip: where_holds_def)
  ultimately show ?thesis
    by (simp add: sql_select_search select_ref_def)
qed

text \<open>C13. Reading a search page by page: on a table that does not change, whose rows have event IDs of
  their own, a client that follows the cursors gets every matching event exactly once and in order,
  and gets them all within one page more than there are rows.  The answers are read off the statements' text: the
  conditions of the \<^verbatim>\<open>WHERE\<close> are split and take their arguments in turn, comparisons of the two
  columns of the order are evaluated, the rows are sorted as the \<^verbatim>\<open>ORDER BY\<close> says and cut at the limit.
  What the other conditions (full text, columns, attributes) say of a row is a parameter.  Queries and
  counts are assumed not to fail, the stored instants are within the range of an \<^verbatim>\<open>int64\<close>.
\<close>

theorem paging_is_complete:
  assumes "\<And>sql args. sr_events sr sql args = map_option (\<lambda>rs. (rs, True)) (sql_select other sql args rows)"
    and "\<And>sql args. sr_count sr sql args \<noteq> None"
    and "distinct (map r_id rows)" and "\<And>r. r \<in> set rows \<Longrightarrow> r_id r \<noteq> [] \<and> i64_range (r_ts r)"
    and "q_after_id q = []" and "length rows < n"
  shows "pages lib sr n q = map (scanEvent sr) (in_order q (filter (row_matches lib other (Query_Normalize q)) rows))"
proof -
  let ?sat = "row_matches lib other (Query_Normalize q)"
  let ?xs = "in_order q (filter ?sat rows)"
  have answers: "sr_events sr (fst (searchSQL lib p)) (snd (searchSQL lib p)) = Some (select_ref ?sat p rows, True)"
    if "p = (Query_Normalize q)\<lparr>q_after_ts := ts, q_after_id := eid\<rparr>" for ts eid p
    by (simp add: assms(1) answer_select[OF that])
  have u: "q\<lparr>q_after_ts := q_after_ts q, q_after_id := []\<rparr> = q" using assms(5) by simp
  have "filter (keyset_holds ((Query_Normalize q)\<lparr>q_after_ts := q_after_ts q, q_after_id := []\<rparr>)) ?xs = ?xs"
    by (simp add: keyset_holds_def)
  moreover have "length ?xs < n"
    using le_less_trans[OF length_filter_le[of ?sat rows] assms(6)] by (simp add: in_order_def)
  ultimately have "pages lib sr n (q\<lparr>q_after_ts := q_after_ts q, q_after_id := []\<rparr>) = map (scanEvent sr) ?xs"
    by (intro pages_rest[where pre = "[]" and q = q, OF answers assms(2-4)]) simp_all
  then show ?thesis by (simp only: u)
qed

text \<open>A table of four rows, three of which \<open>api_query\<close> asks for, in pages of two.\<close>

definition row3 :: "int \<Rightarrow> string \<Rightarrow> string \<Rightarrow> logrow" where
  "row3 ts i svc = \<lparr>r_id = i, r_ts = ts, r_received = ts, r_source = [], r_service = svc, r_level = ''info'',
     r_message = [], r_attributes = ''{}'', r_raw = []\<rparr>"

definition some_rows :: "logrow list" where
  "some_rows = [row3 20 ''B'' ''api'', row3 10 ''A'' ''api'', row3 15 ''D'' ''web'', row3 20 ''C'' ''api'']"

definition service_is :: meaning where
  "service_is c as r \<longleftrightarrow> c = ''logs.service = ?'' \<and> as = [SqlText (r_service r)]"

definition table_reader :: "meaning \<Rightarrow> logrow list \<Rightarrow> sql_reader" where
  "table_reader other rows = no_rows_reader\<lparr>sr_events := \<lambda>sql as. map_option (\<lambda>rs. (rs, True)) (sql_select other sql as rows)\<rparr>"

theorem paging_is_complete_witness:
  "map ev_id (pages ascii_lib (table_reader service_is some_rows) 5 api_query) = [''A'', ''B'', ''C'']"
proof -
  let ?sr = "table_reader service_is some_rows"
  have "pages ascii_lib ?sr 5 api_query
      = map (scanEvent ?sr) (in_order api_query (filter (row_matches ascii_lib service_is (Query_Normalize api_query)) some_rows))"
    by (rule paging_is_complete)
      (auto simp: table_reader_def no_rows_reader_def some_rows_def row3_def i64_range_def api_query_def service_query_def)
  also have "filter (row_matches ascii_lib service_is (Query_Normalize api_query)) some_rows
      = [row3 20 ''B'' ''api'', row3 10 ''A'' ''api'', row3 20 ''C'' ''api'']"
  proof -
    have "q_terms (Query_Normalize api_query) = []" "is_zero (q_from (Query_Normalize api_query))" "is_zero (q_to (Query_Normalize api_query))"
      "q_filters (Query_Normalize api_query) = q_filters api_query"
      by (simp_all add: Query_Normalize_def api_query_def service_query_def Let_def is_zero_def)
    moreover have "filter_holds ascii_lib service_is (row3 ts i svc) \<lparr>f_field = FieldService, f_attr = [], f_op = OpEq, f_value = ''api'', f_values = []\<rparr>
        \<longleftrightarrow> svc = ''api''" for ts i svc
    proof -
      have "read_cond ''logs.service = ?'' = Some (Compare ''logs.service'' ''='')" by code_simp
      then show ?thesis
        by (auto simp: filter_holds_def filterCond_def textExpr_def columnFor_def f_norm_def cond_holds_def service_is_def row3_def)
    qed
    ultimately show ?thesis
      by (simp add: some_rows_def row_matches_def api_query_def service_query_def)
  qed
  also have "in_order api_query [row3 20 ''B'' ''api'', row3 10 ''A'' ''api'', row3 20 ''C'' ''api'']
      = [row3 10 ''A'' ''api'', row3 20 ''B'' ''api'', row3 20 ''C'' ''api'']"
    by (simp add: in_order_def api_query_def service_query_def row_key_def row3_def)
  finally show ?thesis by (simp add: scanEvent_def row3_def)
qed

end
