(* ===== verification/Command.thy ===== *)
theory Command
  imports Settings Admission Store
begin

text \<open>
  \<^verbatim>\<open>src/internal/config/config.go\<close>, \<^verbatim>\<open>src/cmd/omnilog/main.go\<close> and
  \<^verbatim>\<open>src/internal/store/sqlite/backup.go\<close>: the layers of the configuration, what \<^verbatim>\<open>serve\<close> opens
  and closes, the changes it applies while it runs, retention, and the small commands.  The
  environment is a function (unset is empty); the YAML decoder is a parameter, what it makes of a
  configuration and whether there was no error.
\<close>

section \<open>Configuration\<close>

record Config =
  cf_addr :: string
  cf_db :: string
  cf_wal :: string
  cf_retention :: int
  cf_admin :: string
  cf_keys :: "string list"
  cf_buffer :: int
  cf_batch :: int
  cf_flush :: int
  cf_public :: bool
  cf_cert :: string
  cf_key :: string
  cf_hsts :: bool
  cf_udp :: string
  cf_tcp :: string
  cf_grpc :: string
  cf_rate :: f64
  cf_burst :: int
  cf_events :: int
  cf_bytes :: int
  cf_level :: string

definition Default :: Config where
  "Default = \<lparr>cf_addr = '':8080'', cf_db = ''omni.db'', cf_wal = [], cf_retention = 14, cf_admin = [], cf_keys = [],
     cf_buffer = 10000, cf_batch = 500, cf_flush = 500, cf_public = False, cf_cert = [], cf_key = [], cf_hsts = False,
     cf_udp = [], cf_tcp = [], cf_grpc = [], cf_rate = 0, cf_burst = 0, cf_events = 0, cf_bytes = 0, cf_level = ''info''\<rparr>"

definition splitCSV :: "string \<Rightarrow> string list" where
  "splitCSV s = filter (\<lambda>p. p \<noteq> []) (map trim_space (split_char (CHR '','') s))"

text \<open>\<^verbatim>\<open>strconv.ParseBool\<close>.\<close>

definition parse_bool :: "string \<Rightarrow> bool option" where
  "parse_bool s =
     (if s \<in> {''1'', ''t'', ''T'', ''TRUE'', ''true'', ''True''} then Some True
      else if s \<in> {''0'', ''f'', ''F'', ''FALSE'', ''false'', ''False''} then Some False else None)"

text \<open>A variable that is set and can be read changes its field.\<close>

definition env_with :: "(string \<Rightarrow> 'a option) \<Rightarrow> (('a \<Rightarrow> 'a) \<Rightarrow> Config \<Rightarrow> Config) \<Rightarrow> string \<Rightarrow> Config \<Rightarrow> Config" where
  "env_with parse upd v c = (if v = [] then c else case parse v of None \<Rightarrow> c | Some x \<Rightarrow> upd (\<lambda>_. x) c)"

definition applyEnv :: "golib \<Rightarrow> (string \<Rightarrow> string) \<Rightarrow> Config \<Rightarrow> Config" where
  "applyEnv lib env c =
     (let c = env_with Some cf_addr_update (env ''OMNILOG_ADDR'') c;
          c = env_with Some cf_db_update (env ''OMNILOG_DB'') c;
          c = env_with Some cf_wal_update (env ''OMNILOG_WAL_DIR'') c;
          c = env_with Some cf_admin_update (env ''OMNILOG_ADMIN_TOKEN'') c;
          c = env_with (\<lambda>v. Some (splitCSV v)) cf_keys_update (env ''OMNILOG_INGEST_KEYS'') c;
          c = env_with parse_int cf_retention_update (env ''OMNILOG_RETENTION_DAYS'') c;
          c = env_with parse_bool cf_public_update (env ''OMNILOG_METRICS_PUBLIC'') c;
          c = env_with Some cf_cert_update (env ''OMNILOG_TLS_CERT'') c;
          c = env_with Some cf_key_update (env ''OMNILOG_TLS_KEY'') c;
          c = env_with Some cf_udp_update (env ''OMNILOG_SYSLOG_UDP_ADDR'') c;
          c = env_with Some cf_tcp_update (env ''OMNILOG_SYSLOG_TCP_ADDR'') c;
          c = env_with Some cf_grpc_update (env ''OMNILOG_OTLP_GRPC_ADDR'') c;
          c = env_with parse_bool cf_hsts_update (env ''OMNILOG_HSTS'') c;
          c = env_with Some cf_level_update (env ''OMNILOG_LOG_LEVEL'') c;
          c = env_with (\<lambda>v. case lib_parse_float lib v of (f, ok) \<Rightarrow> if ok then Some f else None) cf_rate_update (env ''OMNILOG_RATE_LIMIT_PER_SEC'') c;
          c = env_with parse_int cf_burst_update (env ''OMNILOG_RATE_BURST'') c;
          c = env_with parse_int cf_events_update (env ''OMNILOG_DAILY_QUOTA_EVENTS'') c
      in env_with parse_int cf_bytes_update (env ''OMNILOG_DAILY_QUOTA_BYTES'') c)"

datatype load_error = ReadConfig | ParseConfig

text \<open>\<open>file\<close>: the contents of the file, \<open>None\<close> if it cannot be read.\<close>

definition Load_config :: "golib \<Rightarrow> (string \<Rightarrow> Config \<Rightarrow> Config \<times> bool) \<Rightarrow> (string \<Rightarrow> string) \<Rightarrow> string \<Rightarrow> string option \<Rightarrow> load_error + Config" where
  "Load_config lib yaml env path file =
     (if path = [] then Inr (applyEnv lib env Default)
      else case file of
        None \<Rightarrow> Inl ReadConfig
      | Some data \<Rightarrow> (case yaml data Default of (c, ok) \<Rightarrow> if ok then Inr (applyEnv lib env c) else Inl ParseConfig))"

definition SyslogEnabled :: "Config \<Rightarrow> bool" where
  "SyslogEnabled c \<longleftrightarrow> cf_udp c \<noteq> [] \<or> cf_tcp c \<noteq> []"

definition TLSEnabled :: "Config \<Rightarrow> bool" where
  "TLSEnabled c \<longleftrightarrow> cf_cert c \<noteq> [] \<and> cf_key c \<noteq> []"

text \<open>\<^verbatim>\<open>filepath.Clean\<close>, \<^verbatim>\<open>Dir\<close> and \<^verbatim>\<open>Join\<close> of two elements, on Unix; the stack holds the elements in reverse.\<close>

fun clean_parts :: "bool \<Rightarrow> string list \<Rightarrow> string list \<Rightarrow> string list" where
  "clean_parts rooted [] st = rev st"
| "clean_parts rooted (p # ps) st =
     (if p = [] \<or> p = ''.'' then clean_parts rooted ps st
      else if p = ''..'' then
        (case st of
           [] \<Rightarrow> clean_parts rooted ps (if rooted then [] else [''..''])
         | q # qs \<Rightarrow> clean_parts rooted ps (if q = ''..'' then ''..'' # st else qs))
      else clean_parts rooted ps (p # st))"

definition path_clean :: "string \<Rightarrow> string" where
  "path_clean p =
     (let rooted = (take 1 p = ''/''); s = join ''/'' (clean_parts rooted (split_char (CHR ''/'') p) [])
      in if rooted then CHR ''/'' # s else if s = [] then ''.'' else s)"

definition path_dir :: "string \<Rightarrow> string" where
  "path_dir p = path_clean (rev (dropWhile (\<lambda>c. c \<noteq> CHR ''/'') (rev p)))"

definition path_join :: "string \<Rightarrow> string \<Rightarrow> string" where
  "path_join a b = (let es = filter (\<lambda>e. e \<noteq> []) [a, b] in if es = [] then [] else path_clean (join ''/'' es))"

definition ResolveWALDir :: "Config \<Rightarrow> string" where
  "ResolveWALDir c =
     (if cf_wal c \<noteq> [] then cf_wal c
      else if cf_db c = [] \<or> cf_db c = '':memory:'' then []
      else path_join (path_dir (cf_db c)) ''wal'')"

section \<open>The flags of serve\<close>

text \<open>A flag that was given has a value.\<close>

record serve_flags =
  fl_addr :: "string option"
  fl_db :: "string option"
  fl_wal :: "string option"
  fl_admin :: "string option"
  fl_keys :: "string option"
  fl_retention :: "int option"
  fl_public :: "bool option"
  fl_cert :: "string option"
  fl_key :: "string option"
  fl_hsts :: "bool option"
  fl_udp :: "string option"
  fl_tcp :: "string option"
  fl_grpc :: "string option"

definition flag_with :: "(('a \<Rightarrow> 'a) \<Rightarrow> Config \<Rightarrow> Config) \<Rightarrow> 'a option \<Rightarrow> Config \<Rightarrow> Config" where
  "flag_with upd v c = (case v of None \<Rightarrow> c | Some x \<Rightarrow> upd (\<lambda>_. x) c)"

definition apply_flags :: "serve_flags \<Rightarrow> Config \<Rightarrow> Config" where
  "apply_flags f c =
     (let c = flag_with cf_addr_update (fl_addr f) c;
          c = flag_with cf_db_update (fl_db f) c;
          c = flag_with cf_wal_update (fl_wal f) c;
          c = flag_with cf_admin_update (fl_admin f) c;
          c = flag_with cf_keys_update (map_option splitCSV (fl_keys f)) c;
          c = flag_with cf_retention_update (fl_retention f) c;
          c = flag_with cf_public_update (fl_public f) c;
          c = flag_with cf_cert_update (fl_cert f) c;
          c = flag_with cf_key_update (fl_key f) c;
          c = flag_with cf_hsts_update (fl_hsts f) c;
          c = flag_with cf_udp_update (fl_udp f) c;
          c = flag_with cf_tcp_update (fl_tcp f) c
      in flag_with cf_grpc_update (fl_grpc f) c)"

section \<open>What serve opens and closes\<close>

datatype serve_step = OpenStore | OpenWal | LoadSettings | LoadPipelines | ReplayWal | StartWriter | NewSyslog | StartSyslog
  | NewGrpc | StartGrpc | StartAlerts | ServeHttp

datatype closer = StopAlerts | StopGrpc | StopSyslog | StopWriter | CloseWal | CloseStore

definition serve_steps :: "Config \<Rightarrow> serve_step list" where
  "serve_steps c =
     (let wal = ResolveWALDir c \<noteq> []
      in [OpenStore] @ (if wal then [OpenWal] else []) @ [LoadSettings, LoadPipelines] @ (if wal then [ReplayWal] else [])
         @ [StartWriter] @ (if SyslogEnabled c then [NewSyslog, StartSyslog] else [])
         @ (if cf_grpc c \<noteq> [] then [NewGrpc, StartGrpc] else []) @ [StartAlerts, ServeHttp])"

fun deferred :: "serve_step \<Rightarrow> closer list" where
  "deferred OpenStore = [CloseStore]"
| "deferred OpenWal = [CloseWal]"
| "deferred StartWriter = [StopWriter]"
| "deferred StartSyslog = [StopSyslog]"
| "deferred StartGrpc = [StopGrpc]"
| "deferred StartAlerts = [StopAlerts]"
| "deferred _ = []"

text \<open>
  The steps up to the first that fails, which is returned, and the deferred calls in the order in which
  they run.  \<open>ServeHttp\<close> succeeds when it ends because of a shutdown.
\<close>

fun run_steps :: "(serve_step \<Rightarrow> bool) \<Rightarrow> serve_step list \<Rightarrow> closer list \<Rightarrow> serve_step option \<times> closer list" where
  "run_steps ok [] ds = (None, ds)"
| "run_steps ok (s # ss) ds = (if ok s then run_steps ok ss (deferred s @ ds) else (Some s, ds))"

definition runServe :: "(serve_step \<Rightarrow> bool) \<Rightarrow> Config \<Rightarrow> serve_step option \<times> closer list" where
  "runServe ok c = run_steps ok (serve_steps c) []"

section \<open>Settings applied while the server runs\<close>

definition parseLogLevel :: "string \<Rightarrow> int option" where
  "parseLogLevel s =
     (let l = to_lower (trim_space s)
      in if l = ''debug'' then Some (- 4) else if l = ''info'' then Some 0
         else if l = ''warn'' \<or> l = ''warning'' then Some 4 else if l = ''error'' then Some 8 else None)"

definition base_settings :: "Config \<Rightarrow> Mutable" where
  "base_settings c = \<lparr>mu_retention = cf_retention c, mu_rate = cf_rate c, mu_burst = cf_burst c, mu_events = cf_events c,
     mu_bytes = cf_bytes c, mu_level = cf_level c, mu_keys = cf_keys c\<rparr>"

definition limits_of :: "Mutable \<Rightarrow> Limits" where
  "limits_of m = \<lparr>lm_rate = mu_rate m, lm_burst = mu_burst m, lm_daily_events = mu_events m, lm_daily_bytes = mu_bytes m\<rparr>"

text \<open>The world of the hooks is the limiter and the level of the logger.\<close>

definition settings_hook :: "Mutable \<Rightarrow> Limiter \<times> int \<Rightarrow> Limiter \<times> int" where
  "settings_hook m = (\<lambda>(l, lv). (SetLimits (limits_of m) l, case parseLogLevel (mu_level m) of Some x \<Rightarrow> x | None \<Rightarrow> lv))"

type_synonym live = "(Limiter \<times> int) settings_state"

definition serve_settings :: "settings_json \<Rightarrow> bool \<Rightarrow> Config \<Rightarrow> settings_table \<Rightarrow> settings_error + live" where
  "serve_settings js up c t =
     (case Load js up t (NewManager (base_settings c)) of
        (Some e, _) \<Rightarrow> Inl e
      | (None, m) \<Rightarrow>
          (let cur = mg_cur m
           in Inr (OnChange settings_hook m, t,
                (new_limiter (limits_of cur), case parseLogLevel (mu_level cur) of Some x \<Rightarrow> x | None \<Rightarrow> 0))))"

section \<open>Retention\<close>

text \<open>\<^verbatim>\<open>time.Now().Add(-time.Duration(days) * 24 * time.Hour)\<close>, each product an \<^verbatim>\<open>int64\<close>.\<close>

definition retention_cutoff :: "time \<Rightarrow> int \<Rightarrow> time" where
  "retention_cutoff now days = now + i64 (i64 (i64 (- days) * 24) * hour)"

definition retention_purge :: "bool \<Rightarrow> time \<Rightarrow> int \<Rightarrow> db \<Rightarrow> nat option \<times> db" where
  "retention_purge commit now days d = (if days \<le> 0 then (Some 0, d) else Purge commit (retention_cutoff now days) d)"

text \<open>Each cycle has the time, the setting in force and whether the transaction commits.\<close>

definition runRetention :: "(time \<times> int \<times> bool) list \<Rightarrow> db \<Rightarrow> db" where
  "runRetention cycles d = fold (\<lambda>(now, days, commit) d. snd (retention_purge commit now days d)) cycles d"

section \<open>The other commands\<close>

definition quote :: char where "quote = CHR 0x27"

text \<open>The statement of a backup.\<close>

definition backup_sql :: "string \<Rightarrow> string" where
  "backup_sql dst = ''VACUUM INTO '' @ [quote] @ replace_char quote [quote, quote] dst @ [quote]"

text \<open>The rows of the check: \<open>None\<close> if it could not be run or read.\<close>

definition IntegrityCheck :: "string list option \<Rightarrow> (bool \<times> string list) option" where
  "IntegrityCheck rows = (case rows of
     None \<Rightarrow> None
   | Some ps \<Rightarrow> Some (if length ps = 1 \<and> equal_fold (hd ps) ''ok'' then (True, []) else (False, ps)))"

definition runIntegrity :: "bool \<Rightarrow> string list option \<Rightarrow> bool" where
  "runIntegrity opens rows \<longleftrightarrow> opens \<and> (case IntegrityCheck rows of Some (True, _) \<Rightarrow> True | _ \<Rightarrow> False)"

text \<open>The status of the answer, \<open>None\<close> without one.\<close>

definition runHealthcheck :: "int option \<Rightarrow> bool" where
  "runHealthcheck resp \<longleftrightarrow> (case resp of None \<Rightarrow> False | Some status \<Rightarrow> go_quot status 100 = 2)"

text \<open>The exit code; \<open>run\<close> is whether a command succeeds.\<close>

definition commands :: "string list" where
  "commands = [''serve'', ''forward'', ''query'', ''backup'', ''integrity'', ''healthcheck'']"

definition main_exit :: "(string \<Rightarrow> string list \<Rightarrow> bool) \<Rightarrow> string list \<Rightarrow> nat" where
  "main_exit run args =
     (case args of
        _ # cmd # rest \<Rightarrow>
          (if cmd \<in> set commands then if run cmd rest then 0 else 1
           else if cmd \<in> {''version'', ''-v'', ''--version'', ''help'', ''-h'', ''--help''} then 0 else 2)
      | _ \<Rightarrow> 2)"

section \<open>Properties\<close>

definition closer_rank :: "closer \<Rightarrow> nat" where
  "closer_rank c = (case c of StopAlerts \<Rightarrow> 0 | StopGrpc \<Rightarrow> 1 | StopSyslog \<Rightarrow> 2 | StopWriter \<Rightarrow> 3 | CloseWal \<Rightarrow> 4 | CloseStore \<Rightarrow> 5)"

lemma run_steps_prefix:
  "run_steps ok ss ds = (err, cl) \<Longrightarrow>
   \<exists>done rest. ss = done @ rest \<and> list_all ok done \<and> cl = concat (map deferred (rev done)) @ ds
     \<and> (case err of None \<Rightarrow> rest = [] | Some s \<Rightarrow> \<exists>more. rest = s # more \<and> \<not> ok s)"
proof (induction ok ss ds rule: run_steps.induct)
  case (2 ok s ss ds)
  show ?case
  proof (cases "ok s")
    case True
    then obtain dn rest where "ss = dn @ rest" "list_all ok dn" "cl = concat (map deferred (rev dn)) @ deferred s @ ds"
      "case err of None \<Rightarrow> rest = [] | Some s \<Rightarrow> \<exists>more. rest = s # more \<and> \<not> ok s" using 2 by auto
    then show ?thesis using True by (intro exI[of _ "s # dn"] exI[of _ rest]) simp
  next
    case False
    then show ?thesis using 2(2) by (intro exI[of _ "[]"] exI[of _ "s # ss"]) auto
  qed
qed simp

lemma sorted_wrt_concat_prefix: "sorted_wrt P (concat (map f (rev (xs @ ys)))) \<Longrightarrow> sorted_wrt P (concat (map f (rev xs)))"
  by (simp add: sorted_wrt_append)

lemma serve_steps_order: "sorted_wrt (\<lambda>a b. closer_rank a < closer_rank b) (concat (map deferred (rev (serve_steps c))))"
  by (auto simp: serve_steps_def Let_def closer_rank_def)

text \<open>
  Whatever fails while the server starts or serves, everything that was opened is closed, exactly once,
  and in the order that loses nothing: alerts and receivers stop before the writer drains its queue,
  and the write-ahead log and the store are closed after that.
\<close>

theorem teardown_order:
  "case runServe ok c of (err, cl) \<Rightarrow>
     sorted_wrt (\<lambda>a b. closer_rank a < closer_rank b) cl \<and>
     (\<exists>done rest. serve_steps c = done @ rest \<and> list_all ok done \<and> set cl = (\<Union>s \<in> set done. set (deferred s))
        \<and> (err = None \<longleftrightarrow> rest = []))"
proof -
  obtain err cl where r: "runServe ok c = (err, cl)" by fastforce
  then obtain dn rest where d: "serve_steps c = dn @ rest" "list_all ok dn" "cl = concat (map deferred (rev dn))"
      "case err of None \<Rightarrow> rest = [] | Some s \<Rightarrow> \<exists>more. rest = s # more \<and> \<not> ok s"
    using run_steps_prefix[of ok "serve_steps c" "[]" err cl] by (auto simp: runServe_def)
  have "sorted_wrt (\<lambda>a b. closer_rank a < closer_rank b) cl"
    using serve_steps_order[of c] sorted_wrt_concat_prefix[of _ deferred dn rest] d(1,3) by simp
  moreover have "err = None \<longleftrightarrow> rest = []" using d(4) by (auto split: option.split_asm)
  ultimately show ?thesis using r d(1-3) by auto
qed

lemma length_wrap: "2 ^ 63 < x \<Longrightarrow> x < 2 ^ 64 \<Longrightarrow> i64 (- x) = 2 ^ 64 - x"
  using mod_pos_pos_trivial[of "2 ^ 63 + 2 ^ 64 - x" "2 ^ 64"] mod_add_self2[of "2 ^ 63 - x" "2 ^ 64"]
  by (simp add: i64_altdef)

text \<open>A day in nanoseconds.\<close>

definition day_ns :: int where "day_ns = 24 * hour"

lemma retention_cutoff_exact:
  assumes "0 \<le> days" "days \<le> 106751"
  shows "retention_cutoff now days = now - days * day_ns"
  using assms by (simp add: retention_cutoff_def day_ns_def duration_defs i64_range_def)

text \<open>
  Retention removes exactly what is too old: with a setting of up to 106751 days, a cycle that commits
  keeps an event, in both tables, if and only if it is not older than that many days, and with
  the setting 0 it keeps everything.
\<close>

theorem retention_exact:
  assumes "db_ok d" "0 \<le> days" "days \<le> 106751" "i64_range (now - days * day_ns)"
    and "retention_purge True now days d = (n, d')"
  shows "db_ok d' \<and> (\<forall>i. db_get d' i =
    (case db_get d i of Some (r, x) \<Rightarrow> if days \<noteq> 0 \<and> r_ts r < now - days * day_ns then None else Some (r, x) | None \<Rightarrow> None))"
proof (cases "days = 0")
  case True
  then have "d' = d" using assms(5) by (simp add: retention_purge_def)
  then show ?thesis using assms(1) True by (auto split: option.split)
next
  case False
  then have p: "Purge True (now - days * day_ns) d = (n, d')"
    using assms by (simp add: retention_purge_def retention_cutoff_exact)
  then obtain k where "n = Some k" by (auto simp: Purge_def Let_def)
  then show ?thesis using Purge_refines[OF assms(1), of True "now - days * day_ns" k d'] p i64_id[OF assms(4)] False by (simp cong: option.case_cong)
qed

text \<open>
  A retention meant as for ever can delete everything.  The settings endpoint accepts any number of
  days that is not negative, and the product of days and hours wraps: for every setting between about
  128000 days (it depends on the date) and 213503 days the cutoff lies in the future, and the next
  cycle deletes every event up to now.
\<close>

theorem long_retention_purges_all:
  assumes "2 ^ 63 + now < days * day_ns" "days * day_ns < 2 ^ 64" "0 \<le> now"
    and "retention_purge True now days d = (n, d')"
  shows "Validate (m\<lparr>mu_retention := days\<rparr>) = Validate (m\<lparr>mu_retention := 0\<rparr>) \<and> (\<forall>(rid, r) \<in> set (d_logs d'). now < r_ts r)"
proof -
  have days: "106752 \<le> days" "days \<le> 213503" using assms(1-3) by (simp_all add: day_ns_def duration_defs)
  have "i64 (- days) = - days" "i64 (- days * 24) = - days * 24" using days by (simp_all add: i64_range_def)
  moreover have "i64 (- (days * 86400000000000)) = 2 ^ 64 - days * 86400000000000"
    using days by (intro length_wrap) simp_all
  ultimately have c: "retention_cutoff now days = now + (2 ^ 64 - days * 86400000000000)"
    by (simp add: retention_cutoff_def duration_defs mult.commute)
  have "i64_range (now + (2 ^ 64 - days * 86400000000000))" using assms(1-3) by (simp add: i64_range_def day_ns_def duration_defs)
  then have "d_logs d' = filter (\<lambda>(_, r). \<not> r_ts r < now + (2 ^ 64 - days * 86400000000000)) (d_logs d)"
    using days assms(4) c by (auto simp: retention_purge_def Purge_def Let_def)
  then show ?thesis using days by (auto simp: Validate_def)
qed

text \<open>
  What holds of a running server: the limiter has the limits of the settings in force, the logger the
  level they name, and either no change has succeeded since the start or the table holds the settings.
\<close>

definition serving :: "settings_json \<Rightarrow> Mutable \<Rightarrow> settings_table \<Rightarrow> live \<Rightarrow> bool" where
  "serving js cur0 t0 s \<longleftrightarrow> (case s of (m, t, (l, lv)) \<Rightarrow>
     mg_hooks m = [settings_hook] \<and> l_limits l = limits_of (mg_cur m) \<and> l_burst l = burst_of (limits_of (mg_cur m))
     \<and> (\<forall>x. parseLogLevel (mu_level (mg_cur m)) = Some x \<longrightarrow> lv = x)
     \<and> (mg_cur m = cur0 \<and> t = t0
        \<or> (\<exists>raw. sj_marshal js (mg_cur m) = Some raw \<and> map_of t mutableKey = Some raw
             \<and> normalizeKeys (mu_keys (mg_cur m)) = mu_keys (mg_cur m))))"

lemma applied_serving:
  assumes s: "serving js cur0 t0 s" shows "serving js cur0 t0 (snd (applyLocked js up nxt s))"
proof (cases "fst (applyLocked js up nxt s)")
  case (Inl e)
  then show ?thesis using applyLocked_cases[where js = js and up = up and nxt = nxt and s = s] s by (cases "applyLocked js up nxt s") simp
next
  case (Inr on)
  obtain old new m' t' l' lv' where a: "applyLocked js up nxt s = (Inr (old, new), m', t', l', lv')"
    using Inr by (cases "applyLocked js up nxt s"; cases on) auto
  obtain m t l lv where s': "s = (m, t, l, lv)" by (cases s) auto
  have c: "m' = m\<lparr>mg_cur := new\<rparr>" "mu_keys new = normalizeKeys (mu_keys nxt)"
      "\<exists>raw. sj_marshal js new = Some raw \<and> map_of t' = (map_of t)(mutableKey \<mapsto> raw)"
      "(l', lv') = fold (\<lambda>fn. fn new) (mg_hooks m) (l, lv)"
    using applyLocked_cases[where js = js and up = up and nxt = nxt and s = s] a s' by auto
  have h: "mg_hooks m = [settings_hook]" using s s' by (simp add: serving_def)
  have "l_limits l' = limits_of new \<and> l_burst l' = burst_of (limits_of new)"
       "\<forall>x. parseLogLevel (mu_level new) = Some x \<longrightarrow> lv' = x"
    using c(4) h by (auto simp: settings_hook_def SetLimits_def)
  then show ?thesis using a c(1-3) h normalizeKeys_idem[of "mu_keys nxt"] by (auto simp: serving_def)
qed

lemma do_change_serving: "serving js cur0 t0 s \<Longrightarrow> serving js cur0 t0 (do_change js c s)"
  using applied_serving[where js = js and s = s]
  by (auto simp: do_change_def Apply_def ApplyJSON_def split: change.split prod.split sum.split bool.split) (metis snd_conv)+

lemma serve_settings_serving:
  "serve_settings js True c t0 = Inr s0 \<Longrightarrow> serving js (mg_cur (fst s0)) t0 s0"
  by (auto simp: serve_settings_def serving_def OnChange_def new_limiter_def Load_def GetSettings_def NewManager_def Let_def
      split: prod.split_asm option.split_asm bool.split_asm)

lemma Load_stored:
  assumes "settings_codec js" "sj_marshal js cur = Some raw" "map_of t mutableKey = Some raw" "normalizeKeys (mu_keys cur) = mu_keys cur"
  shows "Load js True t m = (None, m\<lparr>mg_cur := cur\<rparr>)"
proof -
  have "cur\<lparr>mu_keys := mu_keys cur\<rparr> = cur" by (cases cur) simp
  then show ?thesis using assms by (simp add: Load_def GetSettings_def settings_codec_def)
qed

text \<open>
  A change needs no restart: after any sequence of changes to a running server, failed ones among them,
  a server started now with the same configuration on the same table would have the same settings
  (retention and keys included), the same admission limits, and the same log level, if the settings name one.
\<close>

theorem changes_as_restart:
  assumes "settings_codec js" "serve_settings js True c t0 = Inr s0" "fold (do_change js) changes s0 = (m, t, (l, lv))"
  shows "case serve_settings js True c t of
     Inl e \<Rightarrow> False
   | Inr (m', t', (l', lv')) \<Rightarrow> mg_cur m' = mg_cur m \<and> t' = t \<and> l_limits l' = l_limits l \<and> l_burst l' = l_burst l
       \<and> (parseLogLevel (mu_level (mg_cur m)) \<noteq> None \<longrightarrow> lv' = lv)"
proof -
  have "serving js (mg_cur (fst s0)) t0 (fold (do_change js) changes s0)"
    using serve_settings_serving[OF assms(2)] by (induction changes arbitrary: m t l lv rule: rev_induct) (auto intro: do_change_serving)
  then have sv: "serving js (mg_cur (fst s0)) t0 (m, t, l, lv)" by (simp add: assms(3))
  have "\<exists>m'. Load js True t (NewManager (base_settings c) :: (Limiter \<times> int) Manager) = (None, m') \<and> mg_cur m' = mg_cur m"
  proof (cases "mg_cur m = mg_cur (fst s0) \<and> t = t0")
    case True
    then show ?thesis using assms(2)
      by (auto simp: serve_settings_def OnChange_def Let_def split: prod.split_asm option.split_asm)
  next
    case False
    then obtain raw where "sj_marshal js (mg_cur m) = Some raw" "map_of t mutableKey = Some raw"
        "normalizeKeys (mu_keys (mg_cur m)) = mu_keys (mg_cur m)" using sv by (auto simp: serving_def)
    then show ?thesis using Load_stored[OF assms(1)] by fastforce
  qed
  then obtain m' where "Load js True t (NewManager (base_settings c) :: (Limiter \<times> int) Manager) = (None, m')" "mg_cur m' = mg_cur m" by blast
  then show ?thesis using sv by (auto simp: serve_settings_def serving_def OnChange_def new_limiter_def Let_def)
qed

text \<open>A setting without a level leaves the logger as it was, and a restart puts it at info.\<close>

lemma cleared_level:
  "mu_level m = [] \<Longrightarrow> snd (settings_hook m (l, - 4)) = - 4"
  by (simp add: settings_hook_def parseLogLevel_def)

text \<open>The literal of a backup statement is the path: SQLite reads a doubled quote as one.\<close>

fun sql_string :: "string \<Rightarrow> (string \<times> string) option" where
  "sql_string [] = None"
| "sql_string (c # cs) =
     (if c \<noteq> quote then map_option (\<lambda>(s, rest). (c # s, rest)) (sql_string cs)
      else case cs of
        d # ds \<Rightarrow> (if d = quote then map_option (\<lambda>(s, rest). (quote # s, rest)) (sql_string ds) else Some ([], cs))
      | [] \<Rightarrow> Some ([], []))"

text \<open>
  A path cannot break out of the statement of a backup: whatever characters it has, what SQLite reads
  as the string literal is the path, and nothing follows it.
\<close>

theorem backup_literal_exact: "\<exists>lit. backup_sql dst = ''VACUUM INTO '' @ quote # lit \<and> sql_string lit = Some (dst, [])"
proof -
  have "sql_string (replace_char quote [quote, quote] dst @ [quote]) = Some (dst, [])"
    by (induction dst) (auto simp: replace_char_def)
  then show ?thesis by (simp add: backup_sql_def)
qed

theorem changes_as_restart_witness:
  "case serve_settings sample_json True Default [(mutableKey, ''7'')] of Inl e \<Rightarrow> False | Inr (m, _) \<Rightarrow> mu_retention (mg_cur m) = 7"
proof -
  have codec: "settings_codec sample_json" by (simp add: settings_codec_def sample_json_def)
  have lvl: "trim_space ''info'' = ''info''" by (simp add: graphic_def)
  obtain s0 where s0: "serve_settings sample_json True Default [] = Inr s0" "fst (snd s0) = []"
      "mg_cur (fst s0) = base_settings Default"
    by (auto simp: serve_settings_def Load_def GetSettings_def NewManager_def OnChange_def base_settings_def Default_def normalizeKeys_def Let_def)
  let ?s = "do_change sample_json (ChangeTo (sample_settings 7) True) s0"
  have "fst (snd ?s) = [(mutableKey, ''7'')] \<and> mg_cur (fst ?s) = sample_settings 7"
    using s0(2) lvl by (cases s0) (simp add: do_change_def Apply_def applyLocked_def PutSettings_def Validate_def normalizeKeys_def
        sample_json_def sample_settings_def settings_levels_def to_lower_def lower_char_def f64_defs Let_def)
  then obtain m l lv where run: "fold (do_change sample_json) [ChangeTo (sample_settings 7) True] s0 = (m, [(mutableKey, ''7'')], (l, lv))"
      "mg_cur m = sample_settings 7" by (cases ?s) auto
  show ?thesis
    using changes_as_restart[OF codec s0(1) run(1)] run(2) by (auto simp: sample_settings_def split: sum.split_asm)
qed

definition one_row :: db where
  "one_row = \<lparr>d_logs = [(1, row_of (empty_event\<lparr>ev_timestamp := 5\<rparr>) ''{}'')], d_fts = [(1, ([], []))]\<rparr>"

theorem retention_exact_witness: "db_ok (snd (retention_purge True (day_ns * 20000) 14 one_row))"
proof -
  obtain n d' where "retention_purge True (day_ns * 20000) 14 one_row = (n, d')" by fastforce
  moreover have "db_ok one_row" by (auto simp: db_ok_def one_row_def row_of_def empty_event_def)
  ultimately show ?thesis
    using retention_exact[of one_row 14 "day_ns * 20000" n d'] by (simp add: i64_range_def day_ns_def duration_defs)
qed

theorem long_retention_purges_all_witness:
  "\<forall>(rid, r) \<in> set (d_logs (snd (retention_purge True (day_ns * 20000) 200000 one_row))). day_ns * 20000 < r_ts r"
proof -
  obtain n d' where "retention_purge True (day_ns * 20000) 200000 one_row = (n, d')" by fastforce
  then show ?thesis
    using long_retention_purges_all[of "day_ns * 20000" 200000 one_row n d'] by (simp add: day_ns_def duration_defs)
qed

end
