(* ===== verification/Client.thy ===== *)
theory Client
  imports Model
begin

text \<open>
  \<^verbatim>\<open>src/sdk/omnilog/client.go\<close> and \<^verbatim>\<open>slog.go\<close>: the client an application links, its events and their
  JSON, the bounded queue with its background sender, and the handler that turns \<^verbatim>\<open>slog\<close> records
  into events.  \<open>enc\<close> is \<^verbatim>\<open>json.Marshal\<close> of an object, \<open>fmt\<close> the layout of a time; compression and
  the HTTP exchange are the outcomes of a post.  The select of the sender is the sequence of
  what it receives.
\<close>

section \<open>Events\<close>

record sdk_event =
  se_timestamp :: time
  se_level :: string
  se_service :: string
  se_source :: string
  se_message :: string
  se_attrs :: "(string \<times> any) list"

text \<open>The object of an event: what is set first is not overwritten by an attribute.\<close>

definition event_base :: "(time \<Rightarrow> string) \<Rightarrow> sdk_event \<Rightarrow> (string \<times> any) list" where
  "event_base fmt e =
     [(''message'', AStr (se_message e))]
     @ (if is_zero (se_timestamp e) then [] else [(''timestamp'', AStr (fmt (se_timestamp e)))])
     @ concat (map (\<lambda>(k, v). if v = [] then [] else [(k, AStr v)])
         [(''level'', se_level e), (''service'', se_service e), (''source'', se_source e)])"

definition event_object :: "(time \<Rightarrow> string) \<Rightarrow> sdk_event \<Rightarrow> (string \<times> any) list" where
  "event_object fmt e =
     foldl (\<lambda>out (k, v). if map_of out k = None then out @ [(k, v)] else out) (event_base fmt e) (se_attrs e)"

definition MarshalJSON :: "(time \<Rightarrow> string) \<Rightarrow> ((string \<times> any) list \<Rightarrow> string option) \<Rightarrow> sdk_event \<Rightarrow> string option" where
  "MarshalJSON fmt enc e = enc (event_object fmt e)"

section \<open>The client\<close>

record sdk_options =
  op_server :: string
  op_service :: string
  op_source :: string
  op_batch :: int
  op_flush :: duration
  op_queue :: int

definition sdk_defaults :: "sdk_options \<Rightarrow> sdk_options" where
  "sdk_defaults o0 = o0\<lparr>
     op_batch := (if op_batch o0 \<le> 0 then 100 else op_batch o0),
     op_flush := (if op_flush o0 \<le> 0 then 2 * second else op_flush o0),
     op_queue := (if op_queue o0 \<le> 0 then 10000 else op_queue o0)\<rparr>"

text \<open>The channel, whether it is closed, and what the sender holds; \<open>cl_posted\<close> are the batches accepted.\<close>

record Client =
  cl_opts :: sdk_options
  cl_url :: string
  cl_ch :: "sdk_event list"
  cl_closed :: bool
  cl_batch :: "sdk_event list"
  cl_stopped :: bool
  cl_dropped :: int
  cl_sent :: int
  cl_failed :: int
  cl_posted :: "sdk_event list list"

definition New_client :: "sdk_options \<Rightarrow> Client option" where
  "New_client o0 =
     (if trim_space (op_server o0) = [] then None
      else Some \<lparr>cl_opts = sdk_defaults o0, cl_url = trim_right ''/'' (op_server o0) @ ''/api/v1/ingest'',
             cl_ch = [], cl_closed = False, cl_batch = [], cl_stopped = False, cl_dropped = 0, cl_sent = 0, cl_failed = 0,
             cl_posted = []\<rparr>)"

text \<open>\<open>None\<close> is the panic of a send on a closed channel.\<close>

definition Send_event :: "sdk_event \<Rightarrow> Client \<Rightarrow> Client option" where
  "Send_event e0 c =
     (let e1 = (if se_service e0 = [] then e0\<lparr>se_service := op_service (cl_opts c)\<rparr> else e0);
          e = (if se_source e1 = [] then e1\<lparr>se_source := op_source (cl_opts c)\<rparr> else e1)
      in if cl_closed c then None
         else if int (length (cl_ch c)) < op_queue (cl_opts c) then Some (c\<lparr>cl_ch := cl_ch c @ [e]\<rparr>)
         else Some (c\<lparr>cl_dropped := cl_dropped c + 1\<rparr>))"

definition Log :: "string \<Rightarrow> string \<Rightarrow> (string \<times> any) list \<Rightarrow> Client \<Rightarrow> Client option" where
  "Log lvl msg attrs c =
     Send_event \<lparr>se_timestamp = zero_time, se_level = lvl, se_service = [], se_source = [], se_message = msg, se_attrs = attrs\<rparr> c"

definition Close_client :: "Client \<Rightarrow> Client" where
  "Close_client c = c\<lparr>cl_closed := True\<rparr>"

text \<open>\<open>po_encodes\<close>: which events can be encoded; \<open>po_response\<close> is the status, \<open>None\<close> for a failed exchange.\<close>

record post_io =
  po_encodes :: "sdk_event \<Rightarrow> bool"
  po_compresses :: bool
  po_request :: bool
  po_response :: "int option"

datatype post_error = EncodeEvent | CompressError | BadRequest | SendBatch | ServerReturned int

definition post_batch :: "post_io \<Rightarrow> sdk_event list \<Rightarrow> Client \<Rightarrow> post_error option \<times> Client" where
  "post_batch io batch c =
     (if \<not> list_all (po_encodes io) batch then (Some EncodeEvent, c)
      else if \<not> po_compresses io then (Some CompressError, c)
      else if \<not> po_request io then (Some BadRequest, c)
      else case po_response io of
        None \<Rightarrow> (Some SendBatch, c\<lparr>cl_failed := cl_failed c + int (length batch)\<rparr>)
      | Some status \<Rightarrow>
          (if go_quot status 100 \<noteq> 2 then (Some (ServerReturned status), c\<lparr>cl_failed := cl_failed c + int (length batch)\<rparr>)
           else (None, c\<lparr>cl_sent := cl_sent c + int (length batch), cl_posted := cl_posted c @ [batch]\<rparr>)))"

definition flush_client :: "post_io \<Rightarrow> Client \<Rightarrow> Client" where
  "flush_client io c = (if cl_batch c = [] then c else (snd (post_batch io (cl_batch c) c))\<lparr>cl_batch := []\<rparr>)"

text \<open>One turn of the sender on the channel: nothing happens while it is open and empty.\<close>

definition receive_turn :: "post_io \<Rightarrow> Client \<Rightarrow> Client" where
  "receive_turn io c =
     (if cl_stopped c then c
      else case cl_ch c of
        e # es \<Rightarrow>
          (let c1 = c\<lparr>cl_ch := es, cl_batch := cl_batch c @ [e]\<rparr>
           in if int (length (cl_batch c1)) \<ge> op_batch (cl_opts c1) then flush_client io c1 else c1)
      | [] \<Rightarrow> (if cl_closed c then (flush_client io c)\<lparr>cl_stopped := True\<rparr> else c))"

definition tick_turn :: "post_io \<Rightarrow> Client \<Rightarrow> Client" where
  "tick_turn io c = (if cl_stopped c then c else flush_client io c)"

datatype client_op = DoSend sdk_event | DoReceive post_io | DoTick post_io | DoClose

definition client_step :: "client_op \<Rightarrow> Client \<Rightarrow> Client option" where
  "client_step op c = (case op of
     DoSend e \<Rightarrow> Send_event e c | DoReceive io \<Rightarrow> Some (receive_turn io c) | DoTick io \<Rightarrow> Some (tick_turn io c)
   | DoClose \<Rightarrow> Some (Close_client c))"

fun run_client :: "client_op list \<Rightarrow> Client \<Rightarrow> Client option" where
  "run_client [] c = Some c"
| "run_client (op # ops) c = (case client_step op c of None \<Rightarrow> None | Some c' \<Rightarrow> run_client ops c')"

section \<open>The slog handler\<close>

text \<open>Values are resolved (a \<^verbatim>\<open>LogValuer\<close> has been asked); the zero attribute is the empty key with nil.\<close>

datatype slog_value = SVal any | SGroup "(string \<times> slog_value) list"

definition joinDot :: "string list \<Rightarrow> string \<Rightarrow> string" where
  "joinDot groups key = concat (map (\<lambda>g. g @ ''.'') groups) @ key"

fun flattenAttr :: "string list \<Rightarrow> string \<times> slog_value \<Rightarrow> (string \<times> any) list \<Rightarrow> (string \<times> any) list"
and flatten_all :: "string list \<Rightarrow> (string \<times> slog_value) list \<Rightarrow> (string \<times> any) list \<Rightarrow> (string \<times> any) list" where
  "flattenAttr groups (k, SVal x) out = (if k = [] \<and> x = ANil then out else AList.update (joinDot groups k) x out)"
| "flattenAttr groups (k, SGroup subs) out = flatten_all (groups @ [k]) subs out"
| "flatten_all groups [] out = out"
| "flatten_all groups (a # as) out = flatten_all groups as (flattenAttr groups a out)"

definition levelName :: "int \<Rightarrow> string" where
  "levelName l = (if l < 0 then ''debug'' else if l < 4 then ''info'' else if l < 8 then ''warn'' else if l < 12 then ''error'' else ''fatal'')"

text \<open>The fallback is which levels it takes; what is derived is derived on it, too.\<close>

datatype derivation = WithAttrs "(string \<times> slog_value) list" | WithGroup string

record slog_handler =
  ha_level :: "int option"
  ha_add_source :: bool
  ha_fallback :: "((int \<Rightarrow> bool) \<times> derivation list) option"
  ha_pre :: "(string \<times> any) list"
  ha_groups :: "string list"

definition NewHandler :: "int option \<Rightarrow> bool \<Rightarrow> (int \<Rightarrow> bool) option \<Rightarrow> slog_handler" where
  "NewHandler lvl src fb = \<lparr>ha_level = lvl, ha_add_source = src, ha_fallback = map_option (\<lambda>f. (f, [])) fb, ha_pre = [], ha_groups = []\<rparr>"

definition min_level :: "slog_handler \<Rightarrow> int" where
  "min_level h = (case ha_level h of Some l \<Rightarrow> l | None \<Rightarrow> 0)"

definition Enabled_handler :: "slog_handler \<Rightarrow> int \<Rightarrow> bool" where
  "Enabled_handler h l = (if l < min_level h then (case ha_fallback h of Some (f, _) \<Rightarrow> f l | None \<Rightarrow> False) else True)"

definition derive :: "derivation \<Rightarrow> slog_handler \<Rightarrow> slog_handler" where
  "derive d h =
     (let fb = map_option (\<lambda>(f, ds). (f, ds @ [d])) (ha_fallback h)
      in case d of
        WithAttrs as \<Rightarrow> (if as = [] then h else h\<lparr>ha_pre := flatten_all (ha_groups h) as (ha_pre h), ha_fallback := fb\<rparr>)
      | WithGroup g \<Rightarrow> (if g = [] then h else h\<lparr>ha_groups := ha_groups h @ [g], ha_fallback := fb\<rparr>))"

text \<open>\<open>sr_frame\<close> is the file and line of the caller, if it is known.\<close>

record slog_record =
  sr_time :: time
  sr_level :: int
  sr_message :: string
  sr_attrs :: "(string \<times> slog_value) list"
  sr_frame :: "(string \<times> int) option"

definition record_attrs :: "slog_handler \<Rightarrow> slog_record \<Rightarrow> (string \<times> any) list" where
  "record_attrs h r =
     (let attrs = flatten_all (ha_groups h) (sr_attrs r) (ha_pre h)
      in case sr_frame r of
           Some (file, line) \<Rightarrow>
             (if ha_add_source h \<and> file \<noteq> []
              then AList.update ''source_line'' (AInt line) (AList.update ''source_file'' (AStr file) attrs) else attrs)
         | None \<Rightarrow> attrs)"

text \<open>Whether the fallback takes the record, and the event that is sent.\<close>

definition Handle :: "time \<Rightarrow> slog_handler \<Rightarrow> slog_record \<Rightarrow> bool \<times> sdk_event option" where
  "Handle now h r =
     ((case ha_fallback h of Some (f, _) \<Rightarrow> f (sr_level r) | None \<Rightarrow> False),
      if sr_level r < min_level h then None
      else Some \<lparr>se_timestamp = (if is_zero (sr_time r) then now else sr_time r), se_level = levelName (sr_level r),
             se_service = [], se_source = [], se_message = sr_message r, se_attrs = record_attrs h r\<rparr>)"

section \<open>Accounting\<close>

definition io_of :: "client_op \<Rightarrow> post_io option" where
  "io_of op = (case op of DoReceive io \<Rightarrow> Some io | DoTick io \<Rightarrow> Some io | _ \<Rightarrow> None)"

text \<open>Every batch gets as far as the network.\<close>

definition reaches_network :: "client_op \<Rightarrow> bool" where
  "reaches_network op \<longleftrightarrow> (case io_of op of None \<Rightarrow> True | Some io \<Rightarrow> (\<forall>e. po_encodes io e) \<and> po_compresses io \<and> po_request io)"

definition sends :: "client_op list \<Rightarrow> nat" where
  "sends ops = length (filter (\<lambda>op. case op of DoSend _ \<Rightarrow> True | _ \<Rightarrow> False) ops)"

definition accounted :: "Client \<Rightarrow> int" where
  "accounted c = cl_sent c + cl_failed c + cl_dropped c + int (length (cl_ch c)) + int (length (cl_batch c))"

definition client_bounds :: "Client \<Rightarrow> bool" where
  "client_bounds c \<longleftrightarrow> 0 < op_batch (cl_opts c) \<and> 0 < op_queue (cl_opts c) \<and>
     int (length (cl_ch c)) \<le> op_queue (cl_opts c) \<and> int (length (cl_batch c)) < op_batch (cl_opts c)"

lemma flush_client_simps [simp]:
  "cl_batch (flush_client io c) = []" "cl_ch (flush_client io c) = cl_ch c" "cl_opts (flush_client io c) = cl_opts c"
  "cl_closed (flush_client io c) = cl_closed c" "cl_dropped (flush_client io c) = cl_dropped c"
  "cl_stopped (flush_client io c) = cl_stopped c"
  by (auto simp: flush_client_def post_batch_def split: option.split)

lemma flush_client_accounted:
  "(\<forall>e. po_encodes io e) \<and> po_compresses io \<and> po_request io \<Longrightarrow>
   cl_sent (flush_client io c) + cl_failed (flush_client io c) = cl_sent c + cl_failed c + int (length (cl_batch c))"
  by (auto simp: flush_client_def post_batch_def list_all_iff split: option.split)

lemma client_step_accounts:
  assumes "client_step op c = Some c'" "reaches_network op" "client_bounds c"
  shows "client_bounds c' \<and> accounted c' = accounted c + int (sends [op])"
proof (cases op)
  case (DoReceive io)
  then have io: "(\<forall>e. po_encodes io e) \<and> po_compresses io \<and> po_request io"
    using assms(2) by (simp add: reaches_network_def io_of_def)
  show ?thesis using DoReceive assms(1,3) flush_client_accounted[OF io]
    by (auto simp: client_step_def receive_turn_def client_bounds_def accounted_def sends_def Let_def split: list.split)
next
  case (DoTick io)
  then have io: "(\<forall>e. po_encodes io e) \<and> po_compresses io \<and> po_request io"
    using assms(2) by (simp add: reaches_network_def io_of_def)
  show ?thesis using DoTick assms(1,3) flush_client_accounted[OF io, of c]
    by (auto simp: client_step_def tick_turn_def client_bounds_def accounted_def sends_def)
next
  case (DoSend e)
  then show ?thesis using assms(1,3)
    by (auto simp: client_step_def Send_event_def Let_def client_bounds_def accounted_def sends_def split: if_split_asm)
next
  case DoClose
  then show ?thesis using assms(1,3)
    by (auto simp: client_step_def Close_client_def client_bounds_def accounted_def sends_def)
qed

lemma run_client_accounts:
  "run_client ops c = Some c' \<Longrightarrow> list_all reaches_network ops \<Longrightarrow> client_bounds c \<Longrightarrow>
   client_bounds c' \<and> accounted c' = accounted c + int (sends ops)"
proof (induction ops arbitrary: c)
  case (Cons op ops)
  then obtain c1 where c1: "client_step op c = Some c1" "run_client ops c1 = Some c'"
    by (auto split: option.split_asm)
  have "int (sends (op # ops)) = int (sends [op]) + int (sends ops)" by (simp add: sends_def)
  then show ?case using client_step_accounts[OF c1(1)] Cons.IH[OF c1(2)] Cons.prems(2,3) by simp
qed (simp add: sends_def)

text \<open>
  The client loses nothing silently and never grows: at every moment each event that was sent is in
  the counters (sent, failed, dropped), in the queue or in the batch being filled, and the queue
  and the batch keep their sizes.  The premise is that every batch gets as far as the network.
\<close>

theorem client_accounts:
  assumes "New_client o0 = Some c0" "run_client ops c0 = Some c" "list_all reaches_network ops"
  shows "int (sends ops) = cl_sent c + cl_failed c + cl_dropped c + int (length (cl_ch c)) + int (length (cl_batch c))
    \<and> int (length (cl_ch c)) \<le> op_queue (sdk_defaults o0) \<and> int (length (cl_batch c)) < op_batch (sdk_defaults o0)"
proof -
  have "client_bounds c0" "accounted c0 = 0" "cl_opts c0 = sdk_defaults o0"
    using assms(1) by (auto simp: New_client_def client_bounds_def accounted_def sdk_defaults_def split: if_split_asm)
  moreover have "cl_opts c' = cl_opts c1" if "client_step op c1 = Some c'" for op c1 c'
    using that by (auto simp: client_step_def Send_event_def receive_turn_def tick_turn_def Close_client_def Let_def
        split: client_op.split_asm if_split_asm list.split_asm)
  then have "run_client ops c1 = Some c' \<Longrightarrow> cl_opts c' = cl_opts c1" for c1 c'
    by (induction ops arbitrary: c1) (auto split: option.split_asm)
  ultimately show ?thesis
    using run_client_accounts[OF assms(2,3)] assms(2) by (auto simp: accounted_def client_bounds_def)
qed

text \<open>Without the premise the counters lie: one event that does not encode takes its batch with it.\<close>

lemma unencodable_batch_vanishes:
  "\<not> po_encodes io e \<Longrightarrow> e \<in> set (cl_batch c) \<Longrightarrow>
   flush_client io c = c\<lparr>cl_batch := []\<rparr>"
  by (auto simp: flush_client_def post_batch_def list_all_iff)

section \<open>Closing\<close>

definition delivers :: "post_io \<Rightarrow> bool" where
  "delivers io \<longleftrightarrow> (\<forall>e. po_encodes io e) \<and> po_compresses io \<and> po_request io \<and> (\<exists>s. po_response io = Some s \<and> go_quot s 100 = 2)"

lemma flush_delivers:
  "delivers io \<Longrightarrow> concat (cl_posted (flush_client io c)) = concat (cl_posted c) @ cl_batch c
     \<and> cl_sent (flush_client io c) = cl_sent c + int (length (cl_batch c)) \<and> cl_failed (flush_client io c) = cl_failed c"
  by (auto simp: delivers_def flush_client_def post_batch_def list_all_iff)

fun receive_turns :: "post_io list \<Rightarrow> Client \<Rightarrow> Client" where
  "receive_turns [] c = c"
| "receive_turns (io # ios) c = receive_turns ios (receive_turn io c)"

lemma receive_turns_drain:
  "cl_closed c \<Longrightarrow> \<not> cl_stopped c \<Longrightarrow> list_all delivers ios \<Longrightarrow> length ios = Suc (length (cl_ch c)) \<Longrightarrow>
   (let c' = receive_turns ios c
    in cl_stopped c' \<and> cl_ch c' = [] \<and> cl_batch c' = [] \<and> concat (cl_posted c') = concat (cl_posted c) @ cl_batch c @ cl_ch c
       \<and> cl_sent c' = cl_sent c + int (length (cl_batch c) + length (cl_ch c)))"
proof (induction ios arbitrary: c)
  case (Cons io ios)
  show ?case
  proof (cases "cl_ch c")
    case Nil
    then show ?thesis using Cons.prems flush_delivers[of io c] by (simp add: receive_turn_def Let_def)
  next
    case (Cons e es)
    let ?c = "receive_turn io c"
    let ?m = "c\<lparr>cl_ch := es, cl_batch := cl_batch c @ [e]\<rparr>"
    have "cl_closed ?c \<and> \<not> cl_stopped ?c \<and> cl_ch ?c = es
        \<and> concat (cl_posted ?c) @ cl_batch ?c = concat (cl_posted c) @ cl_batch c @ [e]
        \<and> cl_sent ?c + int (length (cl_batch ?c)) = cl_sent c + int (length (cl_batch c)) + 1"
      using Cons.prems Cons flush_delivers[of io ?m] by (simp add: receive_turn_def Let_def)
    then show ?thesis using Cons.IH[of ?c] Cons.prems Cons by (simp add: Let_def)
  qed
qed simp

text \<open>
  Closing flushes: after \<^verbatim>\<open>Close\<close>, as many turns of the sender as there are events in the queue, and
  one more, end it, with everything it held delivered exactly once and in the order it was sent.
\<close>

theorem close_delivers:
  assumes "\<not> cl_stopped c" "list_all delivers ios" "length ios = Suc (length (cl_ch c))"
  shows "let c' = receive_turns ios (Close_client c)
    in cl_stopped c' \<and> concat (cl_posted c') = concat (cl_posted c) @ cl_batch c @ cl_ch c
       \<and> cl_sent c' = cl_sent c + int (length (cl_batch c) + length (cl_ch c))"
  using receive_turns_drain[of "Close_client c" ios] assms by (simp add: Close_client_def Let_def)

section \<open>What the server makes of an event\<close>

text \<open>What \<^verbatim>\<open>json.Marshal\<close> makes of a string that is not UTF-8; \<open>j\<close> is what a value is after a trip through JSON.\<close>

definition as_utf8 :: "string \<Rightarrow> string" where
  "as_utf8 s = concat (runes s)"

text \<open>
  What is documented of encoding an object and decoding it again: each member of a map with UTF-8 keys is
  there, a string member as a string.  Times are written in a form that is read back.
\<close>

definition reads_back :: "golib \<Rightarrow> (any \<Rightarrow> any) \<Rightarrow> any \<Rightarrow> string \<Rightarrow> bool" where
  "reads_back lib j v t \<longleftrightarrow> lib_json_any lib t = Some (j v) \<and> (\<forall>s. v = AStr s \<longrightarrow> lib_json_string lib t = Some (as_utf8 s))"

definition json_transport :: "golib \<Rightarrow> (any \<Rightarrow> any) \<Rightarrow> ((string \<times> any) list \<Rightarrow> string option) \<Rightarrow> (time \<Rightarrow> string) \<Rightarrow> bool" where
  "json_transport lib j enc fmt \<longleftrightarrow>
     (\<forall>obj data. enc obj = Some data \<and> distinct (map fst obj) \<and> (\<forall>k \<in> fst ` set obj. as_utf8 k = k) \<longrightarrow>
        (\<exists>raw. lib_json_object lib data = Some raw \<and> distinct (map fst raw) \<and>
           (\<forall>k. rel_option (reads_back lib j) (map_of obj k) (map_of raw k))))
     \<and> (\<forall>t. lib_rfc3339 lib (fmt t) = Some t \<and> as_utf8 (fmt t) = fmt t \<and> trim_space (fmt t) = fmt t \<and> fmt t \<noteq> [])"

lemma is_ascii_utf8: "is_ascii s \<Longrightarrow> as_utf8 s = s"
  by (simp add: as_utf8_def runes_ascii)

lemma foldl_keeps_base:
  "foldl (\<lambda>out (k, v). if map_of out k = None then out @ [(k, v)] else out) out as = out @ filter (\<lambda>(k, v). map_of out k = None) as
   \<or> \<not> distinct (map fst as)"
proof (induction "as" arbitrary: out)
  case (Cons a as)
  obtain k v where a: "a = (k, v)" by force
  show ?case
  proof (cases "distinct (map fst (a # as))")
    case True
    let ?o = "if map_of out k = None then out @ [(k, v)] else out"
    have "filter (\<lambda>(k', v'). map_of ?o k' = None) as = filter (\<lambda>(k', v'). map_of out k' = None) as"
      using True a by (intro filter_cong) (auto simp: map_add_def split: option.split, force)
    then show ?thesis using Cons.IH[of ?o] True a by auto
  qed blast
qed simp

lemma event_object_eq:
  "distinct (map fst (se_attrs e)) \<Longrightarrow>
   event_object fmt e = event_base fmt e @ filter (\<lambda>(k, v). map_of (event_base fmt e) k = None) (se_attrs e)"
  using foldl_keeps_base[of "event_base fmt e" "se_attrs e"] by (simp add: event_object_def)

text \<open>The attribute a key ends up as: the last one that can be read wins, reserved keys are skipped.\<close>

lemma foldl_fold_attr:
  "distinct (map fst raw) \<Longrightarrow>
   map_of (foldl (fold_attr lib) m raw) k =
     (if k \<in> set reserved then map_of m k
      else case map_of raw k of None \<Rightarrow> map_of m k | Some t \<Rightarrow> (case lib_json_any lib t of None \<Rightarrow> map_of m k | Some x \<Rightarrow> Some x))"
proof (induction raw arbitrary: m)
  case (Cons p raw)
  obtain k' t where p: "p = (k', t)" by force
  have "map_of raw k' = None" using Cons.prems p by (simp add: map_of_eq_None_iff)
  then show ?case using Cons p by (auto simp: fold_attr_def update_conv' split: option.split)
qed simp

definition base_keys :: "string list" where
  "base_keys = [''message'', ''timestamp'', ''level'', ''service'', ''source'']"

lemma event_base_map:
  "map_of (event_base fmt e) ''message'' = Some (AStr (se_message e))"
  "map_of (event_base fmt e) ''timestamp'' = (if is_zero (se_timestamp e) then None else Some (AStr (fmt (se_timestamp e))))"
  "map_of (event_base fmt e) ''level'' = (if se_level e = [] then None else Some (AStr (se_level e)))"
  "map_of (event_base fmt e) ''service'' = (if se_service e = [] then None else Some (AStr (se_service e)))"
  "map_of (event_base fmt e) ''source'' = (if se_source e = [] then None else Some (AStr (se_source e)))"
  "k \<notin> set base_keys \<Longrightarrow> map_of (event_base fmt e) k = None"
  "distinct (map fst (event_base fmt e))" "fst ` set (event_base fmt e) \<subseteq> set base_keys"
  by (auto simp: event_base_def base_keys_def)

lemma base_keys_reserved: "set base_keys \<subseteq> set reserved" "k \<in> set base_keys \<Longrightarrow> as_utf8 k = k"
proof -
  have "list_all (\<lambda>k. k \<in> set reserved \<and> is_ascii k) base_keys" by code_simp
  then show "set base_keys \<subseteq> set reserved" "k \<in> set base_keys \<Longrightarrow> as_utf8 k = k"
    by (auto simp: list_all_iff is_ascii_utf8)
qed

lemma not_valid_Nil: "\<not> Valid []"
  by code_simp

lemma alias_keys: "list_all (\<lambda>k. k \<in> set reserved \<and> k \<notin> set base_keys)
    [''host'', ''hostname'', ''logger'', ''severity'', ''lvl'', ''time'', ''ts'', ''@timestamp'', ''raw'', ''attributes'']"
  by code_simp

lemma base_reserved: "list_all (\<lambda>k. k \<in> set reserved) base_keys"
  by code_simp

text \<open>The members of an event's object, as the server has them before it looks at any.\<close>

definition own_names :: "sdk_event \<Rightarrow> bool" where
  "own_names e \<longleftrightarrow> distinct (map fst (se_attrs e)) \<and> (\<forall>k \<in> fst ` set (se_attrs e). k \<notin> set reserved \<and> as_utf8 k = k)"

definition carried :: "golib \<Rightarrow> (any \<Rightarrow> any) \<Rightarrow> (time \<Rightarrow> string) \<Rightarrow> sdk_event \<Rightarrow> (string \<times> string) list \<Rightarrow> bool" where
  "carried lib j fmt e raw \<longleftrightarrow> distinct (map fst raw)
     \<and> (\<forall>k. rel_option (reads_back lib j) (map_of (event_base fmt e @ se_attrs e) k) (map_of raw k))"

lemma object_carried:
  assumes "json_transport lib j enc fmt" "MarshalJSON fmt enc e = Some data" "own_names e"
  shows "\<exists>raw. lib_json_object lib data = Some raw \<and> carried lib j fmt e raw"
proof -
  let ?obj = "event_base fmt e @ se_attrs e"
  have keys: "distinct (map fst (se_attrs e))" "\<forall>k \<in> fst ` set (se_attrs e). k \<notin> set reserved \<and> as_utf8 k = k"
    using assms(3) by (simp_all add: own_names_def)
  have nb: "k \<notin> set base_keys" if "k \<in> fst ` set (se_attrs e)" for k
    using keys(2) that base_keys_reserved(1) by blast
  have "filter (\<lambda>(k, v). map_of (event_base fmt e) k = None) (se_attrs e) = se_attrs e"
    by (rule filter_True, clarify, rule event_base_map(6), rule nb, force)
  then have obj: "event_object fmt e = ?obj" using event_object_eq[OF keys(1), of fmt] by simp
  note base = event_base_map(7,8)[where fmt = fmt and e = e]
  have "distinct (map fst ?obj)" unfolding map_append distinct_append
    using base keys(1) nb by (simp only: set_map) blast
  moreover have "\<forall>k \<in> fst ` set ?obj. as_utf8 k = k"
    unfolding set_append image_Un using base(2) keys(2) base_keys_reserved(2) by blast
  ultimately show ?thesis
    using assms(1,2) obj unfolding json_transport_def MarshalJSON_def carried_def by metis
qed

text \<open>Of the names the server reserves, those of the event's own fields are there and nothing else.\<close>

lemma carried_reserved:
  assumes "carried lib j fmt e raw" "own_names e" "k \<in> set reserved"
  shows "map_of (event_base fmt e) k = None \<Longrightarrow> map_of raw k = None"
    "map_of (event_base fmt e) k = Some (AStr s) \<Longrightarrow> \<exists>t. map_of raw k = Some t \<and> lib_json_string lib t = Some (as_utf8 s)"
    "map_of (event_base fmt e) k = (if s = [] then None else Some (AStr s)) \<Longrightarrow>
       case map_of raw k of None \<Rightarrow> s = [] | Some t \<Rightarrow> lib_json_string lib t = Some (as_utf8 s)"
proof -
  have at: "map_of (se_attrs e) k = None"
    using assms(2,3) by (force simp: own_names_def map_of_eq_None_iff)
  have rel: "rel_option (reads_back lib j) (map_of (event_base fmt e @ se_attrs e) k) (map_of raw k)"
    using assms(1) by (simp add: carried_def)
  show none: "map_of (event_base fmt e) k = None \<Longrightarrow> map_of raw k = None"
    using rel at by (simp add: map_add_def)
  show str: "map_of (event_base fmt e) k = Some (AStr s) \<Longrightarrow> \<exists>t. map_of raw k = Some t \<and> lib_json_string lib t = Some (as_utf8 s)" for s
    using rel at by (auto simp: map_add_def option_rel_Some1 reads_back_def)
  show "map_of (event_base fmt e) k = (if s = [] then None else Some (AStr s)) \<Longrightarrow>
       case map_of raw k of None \<Rightarrow> s = [] | Some t \<Rightarrow> lib_json_string lib t = Some (as_utf8 s)"
    using none str[of s] by (cases "s = []") auto
qed

lemma carried_aliases:
  assumes "carried lib j fmt e raw" "own_names e"
  shows "map_of raw ''host'' = None" "map_of raw ''hostname'' = None" "map_of raw ''logger'' = None" "map_of raw ''severity'' = None"
    "map_of raw ''lvl'' = None" "map_of raw ''time'' = None" "map_of raw ''ts'' = None" "map_of raw ''@timestamp'' = None"
    "map_of raw ''raw'' = None" "map_of raw ''attributes'' = None"
proof -
  have "map_of raw k = None"
    if "k \<in> set [''host'', ''hostname'', ''logger'', ''severity'', ''lvl'', ''time'', ''ts'', ''@timestamp'', ''raw'', ''attributes'']" for k
    using carried_reserved(1)[OF assms _ event_base_map(6)] that alias_keys by (simp only: list_all_iff) blast
  then show "map_of raw ''host'' = None" "map_of raw ''hostname'' = None" "map_of raw ''logger'' = None" "map_of raw ''severity'' = None"
    "map_of raw ''lvl'' = None" "map_of raw ''time'' = None" "map_of raw ''ts'' = None" "map_of raw ''@timestamp'' = None"
    "map_of raw ''raw'' = None" "map_of raw ''attributes'' = None" by simp_all
qed

lemma names_reserved: "''message'' \<in> set reserved" "''service'' \<in> set reserved" "''source'' \<in> set reserved"
  "''level'' \<in> set reserved" "''timestamp'' \<in> set reserved"
  using base_reserved by (simp_all add: base_keys_def)

lemma carried_fields:
  assumes "carried lib j fmt e raw" "own_names e"
  shows "ev_message (json_fields lib raw) = as_utf8 (se_message e)" "ev_service (json_fields lib raw) = as_utf8 (se_service e)"
    "ev_source (json_fields lib raw) = as_utf8 (se_source e)"
    "ev_level (json_fields lib raw) = (if se_level e = [] then [] else ParseLevel (as_utf8 (se_level e)))"
proof -
  note al = carried_aliases[OF assms] and none = carried_reserved(1)[OF assms] and opt = carried_reserved(3)[OF assms]
  have nil: "as_utf8 [] = []" by (simp add: as_utf8_def)
  have js: "(case map_of raw k of None \<Rightarrow> [] | Some t \<Rightarrow> jsonToString lib t) = as_utf8 s"
    if "k \<in> set reserved" "map_of (event_base fmt e) k = (if s = [] then None else Some (AStr s))" for k s
    using opt[OF that] nil by (simp add: jsonToString_def split: option.split_asm)
  show "ev_message (json_fields lib raw) = as_utf8 (se_message e)"
    using carried_reserved(2)[OF assms names_reserved(1) event_base_map(1)] by (auto simp: jsonToString_def json_fields_def Let_def)
  show "ev_service (json_fields lib raw) = as_utf8 (se_service e)"
    using js[OF names_reserved(2) event_base_map(4)] al(3) by (cases "map_of raw ''service''") (simp_all add: json_fields_def Let_def)
  show "ev_source (json_fields lib raw) = as_utf8 (se_source e)"
    using js[OF names_reserved(3) event_base_map(5)] al(1,2) by (cases "map_of raw ''source''") (simp_all add: json_fields_def Let_def)
  show "ev_level (json_fields lib raw) = (if se_level e = [] then [] else ParseLevel (as_utf8 (se_level e)))"
    using js[OF names_reserved(4) event_base_map(3)] opt[OF names_reserved(4) event_base_map(3)] al(4,5)
      none[OF names_reserved(4)] event_base_map(3)[of fmt e]
    by (cases "map_of raw ''level''"; cases "se_level e = []") (simp_all add: json_fields_def Let_def)
qed

lemma carried_attrs:
  assumes "carried lib j fmt e raw" "own_names e"
  shows "map_of (foldl (fold_attr lib) (explicit_attrs lib raw) raw) k = map_option j (map_of (se_attrs e) k)"
proof -
  have d: "distinct (map fst raw)" using assms(1) by (simp add: carried_def)
  show ?thesis
  proof (cases "k \<in> set reserved")
    case True
    then have "map_of (se_attrs e) k = None" using assms(2) by (force simp: own_names_def map_of_eq_None_iff)
    then show ?thesis using foldl_fold_attr[OF d] carried_aliases(10)[OF assms] True by (simp add: explicit_attrs_def)
  next
    case False
    then have "map_of (event_base fmt e) k = None" using event_base_map(6) base_keys_reserved(1) by blast
    moreover have "rel_option (reads_back lib j) (map_of (event_base fmt e @ se_attrs e) k) (map_of raw k)"
      using assms(1) by (simp add: carried_def)
    ultimately have "rel_option (reads_back lib j) (map_of (se_attrs e) k) (map_of raw k)" by (simp add: map_add_def option.case_eq_if)
    then show ?thesis using foldl_fold_attr[OF d] carried_aliases(10)[OF assms] False
      by (cases "map_of (se_attrs e) k"; cases "map_of raw k") (auto simp: explicit_attrs_def reads_back_def)
  qed
qed

text \<open>C31. What an application logs is what the server has, from the client's encoder to the server's
  decoder: if an event encodes, the server accepts it with its message, service and source (what is
  not UTF-8 replaced), its level as the server reads it, its time if it has one, and under each attribute's
  name the value as JSON carries it.  The attributes have distinct names in UTF-8, none of which the server
  reserves, and the time is not beyond the skew the server allows.  Of \<^verbatim>\<open>encoding/json\<close> it is assumed that an
  object read back has the members it was written with, and of the layout that times are read back.
\<close>

theorem client_event_arrives:
  assumes tr: "json_transport lib j enc fmt" and m: "MarshalJSON fmt enc e = Some data" and own: "own_names e"
    and now: "se_timestamp e \<le> now + maxFutureTimestampSkew"
  shows "case EventFromJSON lib now rnd data of Inl _ \<Rightarrow> False | Inr s \<Rightarrow>
      ev_message s = as_utf8 (se_message e) \<and> ev_service s = as_utf8 (se_service e) \<and> ev_source s = as_utf8 (se_source e)
    \<and> ev_level s = ParseLevel (as_utf8 (se_level e)) \<and> (\<not> is_zero (se_timestamp e) \<longrightarrow> ev_timestamp s = se_timestamp e)
    \<and> (\<forall>k. map_of (ev_attrs s) k = map_option j (map_of (se_attrs e) k))"
proof -
  obtain raw where raw: "lib_json_object lib data = Some raw" "carried lib j fmt e raw"
    using object_carried[OF tr m own] by blast
  note f = carried_fields[OF raw(2) own] and al = carried_aliases[OF raw(2) own] and at = carried_attrs[OF raw(2) own]
  have lvl: "ev_level (Normalize now rnd x) = ParseLevel (as_utf8 (se_level e))" if "ev_level x = ev_level (json_fields lib raw)" for x
    using that f(4) not_valid_Nil by (cases "se_level e = []") (simp_all add: Normalize_fields(5) as_utf8_def)
  show ?thesis
  proof (cases "is_zero (se_timestamp e)")
    case True
    then have "map_of raw ''timestamp'' = None"
      using carried_reserved(1)[OF raw(2) own names_reserved(5)] event_base_map(2) by simp
    then show ?thesis using raw(1) f at lvl al True by (simp add: EventFromJSON_def Let_def Normalize_fields)
  next
    case False
    then obtain t where t: "map_of raw ''timestamp'' = Some t" "lib_json_string lib t = Some (as_utf8 (fmt (se_timestamp e)))"
      using carried_reserved(2)[OF raw(2) own names_reserved(5)] event_base_map(2) by force
    then have "parseTimestamp lib t = Inr (se_timestamp e)" using tr by (simp add: json_transport_def parseTimestamp_def)
    then show ?thesis using raw(1) f at lvl al t(1) now False by (auto simp: EventFromJSON_def Let_def Normalize_fields)
  qed
qed

text \<open>An attribute with a reserved name does not get there: one called id is nowhere in the stored event.\<close>

lemma reserved_attribute_lost:
  assumes "lib_json_object lib data = Some raw" "distinct (map fst raw)" "k \<in> set reserved" "map_of raw ''attributes'' = None"
  shows "case EventFromJSON lib now rnd data of Inl _ \<Rightarrow> True | Inr s \<Rightarrow> map_of (ev_attrs s) k = None"
  using assms foldl_fold_attr[OF assms(2)]
  by (auto simp: EventFromJSON_def Let_def Normalize_fields explicit_attrs_def split: option.split sum.split)

section \<open>Groups\<close>

text \<open>A chain of derivations written as the nesting it stands for.\<close>

fun nest :: "derivation list \<Rightarrow> (string \<times> slog_value) list \<Rightarrow> (string \<times> slog_value) list" where
  "nest [] as = as"
| "nest (WithAttrs bs # ds) as = bs @ nest ds as"
| "nest (WithGroup g # ds) as = (if g = [] then nest ds as else [(g, SGroup (nest ds as))])"

lemma flatten_all_append: "flatten_all groups (as @ bs) out = flatten_all groups bs (flatten_all groups as out)"
  by (induction "as" arbitrary: out) auto

lemma nest_flatten:
  "flatten_all (ha_groups h) (nest ds as) (ha_pre h) = flatten_all (ha_groups (fold derive ds h)) as (ha_pre (fold derive ds h))"
proof (induction ds arbitrary: h)
  case (Cons d ds)
  show ?case
  proof (cases d)
    case (WithAttrs bs)
    then show ?thesis using Cons.IH[of "derive d h"] by (auto simp: derive_def Let_def flatten_all_append)
  next
    case (WithGroup g)
    then show ?thesis using Cons.IH[of "derive d h"] by (auto simp: derive_def Let_def)
  qed
qed simp

lemma derive_keeps: "ha_level (fold derive ds h) = ha_level h" "ha_add_source (fold derive ds h) = ha_add_source h"
  by (induction ds arbitrary: h) (auto simp: derive_def Let_def split: derivation.split)

text \<open>
  Groups scope what is added after them and nothing before: a record handled by a logger that was
  derived with any sequence of attributes and groups gives the event that a plain logger
  gives for the attributes nested accordingly, however the fallback is set up.
\<close>

theorem groups_nest:
  "snd (Handle now (fold derive ds (NewHandler lvl src fb)) r)
     = snd (Handle now (NewHandler lvl src fb) (r\<lparr>sr_attrs := nest ds (sr_attrs r)\<rparr>))"
  using nest_flatten[of "NewHandler lvl src fb" ds "sr_attrs r"] derive_keeps[of ds "NewHandler lvl src fb"]
  by (cases "sr_frame r") (auto simp: Handle_def record_attrs_def min_level_def)

text \<open>A group with an empty key is to be inlined, by the contract of a handler; here its members get a dot.\<close>

lemma empty_key_group: "flattenAttr [] ([], SGroup [(''status'', SVal x)]) [] = [(''.status'', x)]"
  by (simp add: joinDot_def)

lemma level_names_survive: "ParseLevel (levelName l) = levelName l"
proof -
  have "levelName l \<in> set Levels" by (simp add: levelName_def Levels_def LevelDebug_def LevelInfo_def LevelWarn_def LevelError_def LevelFatal_def)
  then show ?thesis by (rule ParseLevel_Levels)
qed

section \<open>Instances\<close>

definition sample_options :: sdk_options where
  "sample_options = \<lparr>op_server = ''http://logs/'', op_service = ''api'', op_source = [], op_batch = 2, op_flush = 0, op_queue = 1\<rparr>"

definition ok_io :: post_io where
  "ok_io = \<lparr>po_encodes = (\<lambda>_. True), po_compresses = True, po_request = True, po_response = Some 204\<rparr>"

definition plain_event :: "string \<Rightarrow> sdk_event" where
  "plain_event msg = \<lparr>se_timestamp = zero_time, se_level = [], se_service = [], se_source = [], se_message = msg, se_attrs = []\<rparr>"

theorem client_accounts_witness:
  "\<exists>c0 c. New_client sample_options = Some c0
    \<and> run_client [DoSend (plain_event ''a''), DoSend (plain_event ''b''), DoReceive ok_io, DoTick ok_io] c0 = Some c
    \<and> 2 = cl_sent c + cl_failed c + cl_dropped c + int (length (cl_ch c)) + int (length (cl_batch c))"
proof -
  let ?ops = "[DoSend (plain_event ''a''), DoSend (plain_event ''b''), DoReceive ok_io, DoTick ok_io]"
  have "trim_space ''http://logs/'' \<noteq> []" by (simp add: graphic_def)
  then obtain c0 where c0: "New_client sample_options = Some c0" "cl_closed c0 = False"
    by (auto simp: New_client_def sample_options_def)
  have "\<exists>c. run_client ?ops c0 = Some c"
    using c0(2) by (simp add: client_step_def Send_event_def Let_def)
  then obtain c where c: "run_client ?ops c0 = Some c" by blast
  have "list_all reaches_network ?ops" by (simp add: reaches_network_def io_of_def ok_io_def)
  from client_accounts[OF c0(1) c this] c0(1) c show ?thesis by (auto simp: sends_def)
qed

theorem close_delivers_witness:
  "\<exists>c. cl_ch c = [plain_event ''a'', plain_event ''b''] \<and> cl_stopped (receive_turns [ok_io, ok_io, ok_io] (Close_client c))"
proof -
  let ?c = "\<lparr>cl_opts = sample_options, cl_url = [], cl_ch = [plain_event ''a'', plain_event ''b''], cl_closed = False, cl_batch = [],
     cl_stopped = False, cl_dropped = 0, cl_sent = 0, cl_failed = 0, cl_posted = []\<rparr>"
  have "delivers ok_io" by (simp add: delivers_def ok_io_def go_quot_nonneg)
  then have "cl_stopped (receive_turns [ok_io, ok_io, ok_io] (Close_client ?c))"
    using close_delivers[of ?c "[ok_io, ok_io, ok_io]"] by (simp add: Let_def)
  then show ?thesis by (intro exI[of _ ?c]) simp
qed

text \<open>A transport of one object: the message hi with the user bob.  Times are written in unary.\<close>

definition unary_time :: "time \<Rightarrow> string" where
  "unary_time t = (if t < 0 then CHR ''-'' # replicate (nat (- t)) (CHR ''x'') else CHR ''x'' # replicate (nat t) (CHR ''x''))"

definition demo_lib :: golib where
  "demo_lib = json_lib\<lparr>lib_json_object := (\<lambda>_. Some [(''message'', ''hi''), (''user'', ''bob'')]),
     lib_rfc3339 := (\<lambda>s. Some (if hd s = CHR ''-'' then - int (length s - 1) else int (length s - 1)))\<rparr>"

definition demo_event :: sdk_event where
  "demo_event = (plain_event ''hi'')\<lparr>se_attrs := [(''user'', AStr ''bob'')]\<rparr>"

definition demo_enc :: "(string \<times> any) list \<Rightarrow> string option" where
  "demo_enc obj = (if obj = [(''message'', AStr ''hi''), (''user'', AStr ''bob'')] then Some ''{}'' else None)"

lemma unary_time_props:
  "lib_rfc3339 demo_lib (unary_time t) = Some t" "list_all graphic (unary_time t)" "unary_time t \<noteq> []"
  by (auto simp: unary_time_def demo_lib_def graphic_def list_all_iff)

lemma demo_transport: "json_transport demo_lib id demo_enc unary_time"
proof -
  have a: "as_utf8 ''hi'' = ''hi''" "as_utf8 ''bob'' = ''bob''" by (simp_all add: is_ascii_utf8 is_ascii_def)
  have t: "trim_space (unary_time t) = unary_time t" "as_utf8 (unary_time t) = unary_time t" for t
    using unary_time_props(2)[of t] graphic_ascii is_ascii_utf8 by (auto simp: trim_space_graphic)
  show ?thesis
    unfolding json_transport_def
    using unary_time_props t a
    by (auto simp: demo_enc_def demo_lib_def json_lib_def reads_back_def split: if_split_asm)
qed

theorem client_event_arrives_witness:
  "case EventFromJSON demo_lib 5 (replicate 10 0) ''{}'' of Inl _ \<Rightarrow> False
   | Inr s \<Rightarrow> ev_message s = ''hi'' \<and> map_of (ev_attrs s) ''user'' = Some (AStr ''bob'')"
proof -
  have m: "MarshalJSON unary_time demo_enc demo_event = Some ''{}''"
    by (simp add: MarshalJSON_def demo_enc_def event_object_def event_base_def demo_event_def plain_event_def is_zero_def)
  have k: "own_names demo_event"
    by (simp add: own_names_def demo_event_def reserved_def is_ascii_utf8 is_ascii_def)
  have "as_utf8 ''hi'' = ''hi''" by (simp add: is_ascii_utf8 is_ascii_def)
  then show ?thesis
    using client_event_arrives[OF demo_transport m k, of 5 "replicate 10 0"]
    by (auto simp: demo_event_def plain_event_def zero_time_def maxFutureTimestampSkew_def duration_defs split: sum.split_asm)
qed

end
