(* ===== verification/Spec2Isabelle.thy ===== *)
theory Spec2Isabelle
  imports Model Query Matcher Wal Admission Store Ingest IngestHttp Syslog Forward Alert Hub Search Otlp OtlpServe Pipelines Settings MetricsReg Schema Paging Command Client
begin

text \<open>
  A verification library for Omni Logging, a log server in one process: events come in over HTTP
  (JSON, NDJSON, raw lines), syslog and OpenTelemetry, or through the forwarder that runs beside
  an application; they are written ahead to a log, batched into SQLite, searched and aggregated
  with a small query language, followed live, and watched by alert rules.

  How the parts interact.  A receiver (\<^verbatim>\<open>internal/ingest/handler.go\<close>, \<^verbatim>\<open>internal/syslog\<close>,
  \<^verbatim>\<open>internal/otlp\<close>) turns bytes into events (\<^verbatim>\<open>internal/model\<close>), after admission control
  (\<^verbatim>\<open>internal/admission\<close>) and the recognition of re-sent batches
  (\<^verbatim>\<open>internal/ingest/dedupe.go\<close>).  \<^verbatim>\<open>Ingestor.Enqueue\<close> appends each event to the
  write-ahead log (\<^verbatim>\<open>internal/wal\<close>) and puts it on a bounded queue; one writer takes batches
  off the queue, stores them (\<^verbatim>\<open>internal/store/sqlite\<close>) and advances the log's checkpoint, and
  hands them to the live-tail hub (\<^verbatim>\<open>internal/tail\<close>).  Queries (\<^verbatim>\<open>internal/query\<close>) become
  SQL for searches and aggregations, and a matcher in memory for live tail.  The alert scheduler
  (\<^verbatim>\<open>internal/alert\<close>) runs queries against the store and notifies channels.  Before an event is
  stored, pipelines (\<^verbatim>\<open>internal/pipeline\<close>) may change it.  Limits, keys, retention and log level are
  settings (\<^verbatim>\<open>internal/settings\<close>) that \<^verbatim>\<open>cmd/omnilog\<close> starts from its configuration and applies
  while it serves; the store brings its schema up to date when it is opened.  An application sends
  its events with the client of \<^verbatim>\<open>sdk/omnilog\<close>.

  The theories, in the order of their imports:

  \<^item> \<open>Prelude\<close>, \<open>GoLib\<close>: Go strings, integers, times, floats as bit patterns, early returns
    (\<open>try_bind\<close>), the record \<open>golib\<close> of the library functions that stay parameters (RE2, float
    conversion, \<^verbatim>\<open>%v\<close>, RFC 3339, Unicode tables, the JSON decoder).
  \<^item> \<open>Ulid\<close>, \<open>Model\<close>: \<^verbatim>\<open>internal/model\<close>.  Lemmas: IDs sort by time; an accepted event is well
    formed, whatever fields the client tried to set.
  \<^item> \<open>QueryLang\<close>, \<open>Query\<close>, \<open>Matcher\<close>: \<^verbatim>\<open>internal/query\<close>.  Lemmas: what is printed is parsed
    back; what \<^verbatim>\<open>Build\<close> returns is within its bounds; the token search is phrase search.
  \<^item> \<open>Wal\<close>: \<^verbatim>\<open>internal/wal\<close>, refined against an abstract list of records; the locale
    \<open>durable_log\<close> is what its clients use.
  \<^item> \<open>Dedupe\<close>, \<open>FloatArith\<close>, \<open>Admission\<close>: the batch-ID window (locale \<open>retry_memory\<close>) and the token
    bucket and quotas, computed in IEEE-754 doubles and wrapping counters.
  \<^item> \<open>Store\<close>, \<open>Search\<close>, \<open>Paging\<close>: \<^verbatim>\<open>internal/store/sqlite\<close>.  The write path as a map from event IDs
    (locale \<open>event_store\<close>); every statement of the read path with its arguments; and a reader of the
    text of a search statement (its conditions, order and limit, as SQLite documents them), against
    which following the cursors is shown to give every event once.
  \<^item> \<open>Schema\<close>: the migrations, which can be interrupted and resumed.
  \<^item> \<open>Ingest\<close>, \<open>IngestHttp\<close>: \<^verbatim>\<open>internal/ingest\<close>, the queue, the writer and recovery as a transition
    system over the two locales above, and the HTTP endpoints in front of it.
  \<^item> \<open>Syslog\<close>, \<open>Otlp\<close>, \<open>OtlpServe\<close>: the other receivers.  Lemmas: framing and messages round-trip, the
    decoders end, the two OpenTelemetry front ends do the same.
  \<^item> \<open>Forward\<close>: \<^verbatim>\<open>internal/forward\<close>, the spool on its own write-ahead log, retries and tailing.
  \<^item> \<open>Alert\<close>: \<^verbatim>\<open>internal/alert\<close> and the alert tables; \<open>Hub\<close>: \<^verbatim>\<open>internal/tail\<close>.
  \<^item> \<open>Grok\<close>, \<open>Pipelines\<close>: \<^verbatim>\<open>internal/pipeline\<close>: the expansion of patterns, every stage, the set in force
    and the dry run.  Lemmas: expansion succeeds exactly for known patterns; what stages leave alone;
    replacing is all or nothing; a dry run and storing do the same.
  \<^item> \<open>Settings\<close>, \<open>Command\<close>: \<^verbatim>\<open>internal/settings\<close>, \<^verbatim>\<open>internal/config\<close>, \<^verbatim>\<open>cmd/omnilog\<close> and the backup.
    Lemmas: memory and table stay in step, a change is the same as a restart, retention, the order
    in which the server is taken down.
  \<^item> \<open>MetricsReg\<close>: \<^verbatim>\<open>internal/metrics\<close> and its text format; \<open>Client\<close>: \<^verbatim>\<open>sdk/omnilog\<close>, its accounting
    and the way of an event into the server.

  How state and effects are represented.  A struct is a record, a method a function from the record
  to the record.  A mutex is the atomicity of a function; goroutines are the steps of a transition
  system or an argument that says what ran in between.  A Go map is a map, or an association list
  with distinct keys.  An error is the left of a sum, and the outcome of every system call, driver
  call or HTTP reply that can fail is an argument, so that every early return is a branch.
  \<^verbatim>\<open>int64\<close> arithmetic wraps where the code can reach the wrap (\<open>i64\<close>, words); elsewhere integers
  are unbounded.  A string is a list of bytes.

  Termination and fuel.  Every loop is a terminating function: structural, or with a measure that
  the code's progress decreases (bytes left, attempts left, segments left).  No definition runs on
  fuel, with two exceptions: \<open>walk\<close> in \<open>Otlp\<close> has a result \<open>Stuck\<close> for a reader that would not
  advance, which is proved never to occur; and the reader of SQL conditions in \<open>Paging\<close>, which is not
  code of the program, has three steps for each word, and is shown to read the conditions it is
  needed for.  \<^verbatim>\<open>Server.serveConn\<close> and the tailing loop are driven by
  the finite sequence of what they receive.

  Not modelled, and why.  The handlers of the HTTP API (\<^verbatim>\<open>internal/api\<close>), \<^verbatim>\<open>internal/queryclient\<close>, the
  listener of \<^verbatim>\<open>otlp/grpcserver.go\<close> and the embedded web assets are routing, JSON over
  \<^verbatim>\<open>net/http\<close> and files, whose logic is in the packages they call; of \<^verbatim>\<open>cmd/omnilog\<close> the forward and
  query commands, which hand their flags on.  The table of pipelines is row mapping through the
  driver, \<^verbatim>\<open>storetest\<close> a test kit.  Types and constraints of columns, sockets, TLS, timers, logging and
  fsync have no counterpart beyond the arguments above.
\<close>

end
